(* ===== verification/CB_Prelude.thy ===== *)
theory CB_Prelude
  imports Main "HOL-Library.Word" "HOL-Library.Monad_Syntax"
begin

text \<open>
  Shared vocabulary of the development: the machine integer types of the C++ sources, pointers
  and the slot memory of the order slab, the two outcomes an operation can have besides returning
  (undefined behaviour and a thrown exception), and the generic facts on words, lists and slot
  memories that the component theories use.

  An operation that dereferences pointers has type \<open>_ option\<close>: \<open>None\<close> stands for a call that does
  not return normally, because it dereferences a null or dangling pointer or because its loop does
  not end.  A theorem that such an operation yields \<open>Some\<close> is therefore a memory-safety and a
  termination statement at once.
\<close>

section \<open>Machine types\<close>

type_synonym u8 = "8 word"
type_synonym u32 = "32 word"
type_synonym u64 = "64 word"
type_synonym size_t = "64 word"

type_synonym addr = nat
type_synonym ptr = "addr option"

abbreviation nullptr :: ptr where
  "nullptr \<equiv> None"

named_theorems mem_simps \<open>reading and writing slot memories\<close>
named_theorems word_nat \<open>transfer of word arithmetic to nat\<close>

section \<open>Exceptions\<close>

datatype cxx_exception =
    bad_alloc
  | runtime_error string
  | SQLiteError string
  | invalid_argument string

datatype fault = UndefinedBehaviour | Throws cxx_exception

type_synonym 'a result = "fault + 'a"

fun result_bind :: "'a result \<Rightarrow> ('a \<Rightarrow> 'b result) \<Rightarrow> 'b result" where
  "result_bind (Inl e) f = Inl e"
| "result_bind (Inr x) f = f x"

lemma result_bind_Inr_iff:
  "result_bind m f = Inr y \<longleftrightarrow> (\<exists>x. m = Inr x \<and> f x = Inr y)"
  by (cases m) auto

section \<open>Slot memory\<close>

text \<open>
  The storage of a slab, by the byte address of each slot.  A slot is raw storage, a link of the
  free list (whose next pointer sits in the slot's first bytes) or a live object.  Addresses
  outside the slab are unmapped.
\<close>

datatype 'a slot = Raw | FreeSlot ptr | Live 'a

type_synonym 'a slotmem = "addr \<Rightarrow> 'a slot option"

fun deref :: "'a slotmem \<Rightarrow> ptr \<Rightarrow> 'a option" where
  "deref h None = None"
| "deref h (Some a) = (case h a of Some (Live x) \<Rightarrow> Some x | _ \<Rightarrow> None)"

definition modify :: "'a slotmem \<Rightarrow> ptr \<Rightarrow> ('a \<Rightarrow> 'a) \<Rightarrow> 'a slotmem option" where
  "modify h p f = do { x \<leftarrow> deref h p; Some (h(the p \<mapsto> Live (f x))) }"

definition live :: "'a slotmem \<Rightarrow> addr set" where
  "live h = {a. \<exists>x. h a = Some (Live x)}"

definition obj :: "'a slotmem \<Rightarrow> addr \<Rightarrow> 'a" where
  "obj h a = the (deref h (Some a))"

lemma live_iff: "a \<in> live h \<longleftrightarrow> h a = Some (Live (obj h a))"
  by (auto simp: live_def obj_def)

lemma liveI [intro]: "h a = Some (Live x) \<Longrightarrow> a \<in> live h"
  by (auto simp: live_def)

lemma liveE [elim]: "a \<in> live h \<Longrightarrow> (h a = Some (Live (obj h a)) \<Longrightarrow> P) \<Longrightarrow> P"
  by (simp add: live_iff)

lemma obj_eq [mem_simps]: "h a = Some (Live x) \<Longrightarrow> obj h a = x"
  by (simp add: obj_def)

lemma obj_upd [simp]: "obj (h(a \<mapsto> Live x)) b = (if b = a then x else obj h b)"
  by (simp add: obj_def)

lemma obj_cong: "h' a = h a \<Longrightarrow> obj h' a = obj h a"
  by (simp add: obj_def)

lemma live_upd [simp]: "live (h(a \<mapsto> Live x)) = insert a (live h)"
  by (auto simp: live_def)

lemma live_upd_free [simp]: "live (h(a \<mapsto> FreeSlot n)) = live h - {a}"
  by (auto simp: live_def)

lemma deref_Some_iff: "deref h p = Some x \<longleftrightarrow> (\<exists>a. p = Some a \<and> h a = Some (Live x))"
  by (cases p) (auto split: option.splits slot.splits)

lemma deref_live [mem_simps]: "a \<in> live h \<Longrightarrow> deref h (Some a) = Some (obj h a)"
  by (auto elim!: liveE)

lemma modify_live [mem_simps]:
  "a \<in> live h \<Longrightarrow> modify h (Some a) f = Some (h(a \<mapsto> Live (f (obj h a))))"
  by (simp add: modify_def deref_live del: deref.simps(2))

section \<open>Words\<close>

lemma unat_u32_less [simp]: "unat (x :: u32) < 4294967296"
  using unsigned_less [of x, where ?'a = nat] by simp

lemma unat_u32_le: "unat (x :: u32) \<le> 4294967295"
  using unat_u32_less [of x] by linarith

lemma unat_u64_less [simp]: "unat (x :: u64) < 18446744073709551616"
  using unsigned_less [of x, where ?'a = nat] by simp

lemma unat_ucast_32_64 [simp]: "unat (ucast (x :: u32) :: u64) = unat x"
  by (simp add: unsigned_ucast_eq take_bit_nat_eq_self order_less_trans [OF unat_u32_less])

lemma unat_add_u32 [word_nat]:
  "unat x + unat y < 4294967296 \<Longrightarrow> unat (x + y :: u32) = unat x + unat y"
  by (simp add: unat_word_ariths)

lemma unat_add_u64 [word_nat]:
  "unat x + unat y < 18446744073709551616 \<Longrightarrow> unat (x + y :: u64) = unat x + unat y"
  by (simp add: unat_word_ariths)

lemma unat_sub_le [word_nat]:
  "unat y \<le> unat x \<Longrightarrow> unat (x - y :: 'a::len word) = unat x - unat y"
  by (simp add: unat_sub word_le_nat_alt)

lemma unat_min: "unat (min x y :: 'a::len word) = min (unat x) (unat y)"
  by (simp add: min_def word_le_nat_alt)

section \<open>Lists\<close>

lemma sum_list_map_cong:
  "(\<And>x. x \<in> set xs \<Longrightarrow> f x = g x) \<Longrightarrow> (\<Sum>x\<leftarrow>xs. f x) = (\<Sum>x\<leftarrow>xs. g x)"
  by (induction xs) auto

lemma sum_list_bound:
  fixes f :: "'a \<Rightarrow> nat"
  shows "(\<And>x. x \<in> set xs \<Longrightarrow> f x \<le> k) \<Longrightarrow> (\<Sum>x\<leftarrow>xs. f x) \<le> length xs * k"
proof (induction xs)
  case Nil
  then show ?case by simp
next
  case (Cons x xs)
  have "f x \<le> k" and "(\<Sum>x\<leftarrow>xs. f x) \<le> length xs * k"
    using Cons by auto
  then show ?case by simp
qed

lemma list_all2_right: "list_all2 P xs ys \<Longrightarrow> y \<in> set ys \<Longrightarrow> \<exists>x\<in>set xs. P x y"
  by (induction rule: list_all2_induct) auto

lemma filter_neq_absent [simp]: "a \<notin> set xs \<Longrightarrow> filter (\<lambda>b. b \<noteq> a) xs = xs"
  by (induction xs) auto

lemma filter_neq_mid: "distinct (as @ a # bs) \<Longrightarrow> filter (\<lambda>b. b \<noteq> a) (as @ a # bs) = as @ bs"
  by simp

end
