(* ===== verification/Byte_Codec.thy ===== *)
theory Byte_Codec
  imports CB_Prelude
begin

text \<open>
  The byte images of trivially copyable data.  Every serialisation in the sources is a whole-struct
  \<open>memcpy\<close> or \<open>write\<close> on the host, which is little-endian on the supported 64-bit targets, so the
  image of an integer is its little-endian byte list and the image of a padding-free struct is the
  concatenation of its members.  The locale \<open>fixed_codec\<close> is the contract of such a struct image;
  arrays of structs (feed buffers, journal and store files) are treated once inside it.
\<close>

section \<open>Little-endian integers\<close>

fun le_bytes :: "nat \<Rightarrow> nat \<Rightarrow> u8 list" where
  "le_bytes 0 n = []"
| "le_bytes (Suc k) n = of_nat (n mod 256) # le_bytes k (n div 256)"

fun le_nat :: "u8 list \<Rightarrow> nat" where
  "le_nat [] = 0"
| "le_nat (b # bs) = unat b + 256 * le_nat bs"

lemma length_le_bytes [simp]: "length (le_bytes k n) = k"
  by (induction k arbitrary: n) auto

lemma unat_of_nat_byte [simp]: "unat (of_nat (n mod 256) :: u8) = n mod 256"
  by (simp add: unat_of_nat take_bit_eq_mod)

lemma unat_u8_less [simp]: "unat (b :: u8) < 256"
  using unsigned_less [of b, where ?'a = nat] by simp

lemma le_nat_le_bytes: "le_nat (le_bytes k n) = n mod 256 ^ k"
proof (induction k arbitrary: n)
  case 0
  then show ?case by simp
next
  case (Suc k)
  have "le_nat (le_bytes (Suc k) n) = n mod 256 + 256 * (n div 256 mod 256 ^ k)"
    by (simp add: Suc.IH)
  also have "\<dots> = n mod (256 * 256 ^ k)"
    by (simp add: mod_mult2_eq)
  finally show ?case by simp
qed

lemma le_nat_less: "le_nat bs < 256 ^ length bs"
proof (induction bs)
  case Nil
  then show ?case by simp
next
  case (Cons b bs)
  have "unat b + 256 * le_nat bs < 256 + 256 * le_nat bs"
    by simp
  also have "\<dots> \<le> 256 * 256 ^ length bs"
    using Cons.IH by simp
  finally show ?case by simp
qed

lemma le_bytes_le_nat: "le_bytes (length bs) (le_nat bs) = bs"
  by (induction bs) auto

lemma le_nat_append: "le_nat (xs @ ys) = le_nat xs + 256 ^ length xs * le_nat ys"
  by (induction xs) (auto simp: algebra_simps)

lemma le_nat_zeros [simp]: "le_nat (replicate n 0) = 0"
  by (induction n) auto

definition bytes_u64 :: "u64 \<Rightarrow> u8 list" where
  "bytes_u64 w = le_bytes 8 (unat w)"

definition u64_bytes :: "u8 list \<Rightarrow> u64" where
  "u64_bytes bs = of_nat (le_nat bs)"

definition bytes_u32 :: "u32 \<Rightarrow> u8 list" where
  "bytes_u32 w = le_bytes 4 (unat w)"

definition u32_bytes :: "u8 list \<Rightarrow> u32" where
  "u32_bytes bs = of_nat (le_nat bs)"

lemma length_bytes_u64 [simp]: "length (bytes_u64 w) = 8"
  by (simp add: bytes_u64_def)

lemma length_bytes_u32 [simp]: "length (bytes_u32 w) = 4"
  by (simp add: bytes_u32_def)

lemma u64_bytes_u64 [simp]: "u64_bytes (bytes_u64 w) = w"
  by (simp add: u64_bytes_def bytes_u64_def le_nat_le_bytes)

lemma u32_bytes_u32 [simp]: "u32_bytes (bytes_u32 w) = w"
  by (simp add: u32_bytes_def bytes_u32_def le_nat_le_bytes)

lemma bytes_u64_u64 [simp]:
  assumes "length bs = 8"
  shows "bytes_u64 (u64_bytes bs) = bs"
proof -
  have "unat (of_nat (le_nat bs) :: u64) = le_nat bs"
    using le_nat_less [of bs] assms by (simp add: unat_of_nat take_bit_eq_mod)
  then show ?thesis
    using le_bytes_le_nat [of bs] assms by (simp add: bytes_u64_def u64_bytes_def)
qed

lemma bytes_u32_u32 [simp]:
  assumes "length bs = 4"
  shows "bytes_u32 (u32_bytes bs) = bs"
proof -
  have "unat (of_nat (le_nat bs) :: u32) = le_nat bs"
    using le_nat_less [of bs] assms by (simp add: unat_of_nat take_bit_eq_mod)
  then show ?thesis
    using le_bytes_le_nat [of bs] assms by (simp add: bytes_u32_def u32_bytes_def)
qed

lemma take_drop_field: "take n (drop m bs) @ drop (m + n) bs = drop m bs"
  by (metis add.commute append_take_drop_id drop_drop)

section \<open>Arrays of fixed-size records\<close>

text \<open>
  \<open>chunks w n bs\<close> are the first \<open>n\<close> consecutive runs of \<open>w\<close> bytes of \<open>bs\<close>: record \<open>i\<close> of an array
  lives at byte offset \<open>i * w\<close>.
\<close>

definition chunks :: "nat \<Rightarrow> nat \<Rightarrow> u8 list \<Rightarrow> u8 list list" where
  "chunks w n bs = map (\<lambda>i. take w (drop (i * w) bs)) [0..<n]"

lemma length_chunks [simp]: "length (chunks w n bs) = n"
  by (simp add: chunks_def)

lemma chunks_0 [simp]: "chunks w 0 bs = []"
  by (simp add: chunks_def)

lemma chunks_Suc: "chunks w (Suc n) bs = take w bs # chunks w n (drop w bs)"
proof -
  have "[0..<Suc n] = 0 # map Suc [0..<n]"
    by (metis map_Suc_upt upt_conv_Cons zero_less_Suc)
  then show ?thesis
    by (simp add: chunks_def o_def add.commute del: upt_Suc)
qed

locale fixed_codec =
  fixes enc :: "'a \<Rightarrow> u8 list"
    and dec :: "u8 list \<Rightarrow> 'a"
    and width :: nat
  assumes enc_length: "length (enc x) = width"
    and dec_enc: "dec (enc x) = x"
    and enc_dec: "length bs = width \<Longrightarrow> enc (dec bs) = bs"
begin

lemma length_concat_enc: "length (concat (map enc xs)) = length xs * width"
  by (induction xs) (auto simp: enc_length)

lemma decode_encode_all:
  "map dec (chunks width (length xs) (concat (map enc xs) @ rest)) = xs"
  by (induction xs) (auto simp: chunks_Suc enc_length dec_enc)

lemma encode_decode_all:
  "length bs = n * width \<Longrightarrow> concat (map enc (map dec (chunks width n bs))) = bs"
proof (induction n arbitrary: bs)
  case 0
  then show ?case by simp
next
  case (Suc n)
  then have "length (take width bs) = width" and "length (drop width bs) = n * width"
    by auto
  then show ?case
    using Suc.IH [of "drop width bs"] by (simp add: chunks_Suc enc_dec)
qed

lemma chunks_prefix: "length bs \<ge> n * width \<Longrightarrow> chunks width n (bs @ rest) = chunks width n bs"
proof (induction n arbitrary: bs)
  case 0
  then show ?case by simp
next
  case (Suc n)
  then show ?case
    using Suc.IH [of "drop width bs"] by (simp add: chunks_Suc)
qed

lemma take_concat_enc: "take (j * width) (concat (map enc xs)) = concat (map enc (take j xs))"
  by (induction xs arbitrary: j) (simp_all add: take_Cons enc_length split: nat.split)

lemma enc_inj: "enc x = enc y \<Longrightarrow> x = y"
  by (metis dec_enc)

end

end
