(* ===== verification/Order_Record.thy ===== *)
theory Order_Record
  imports Byte_Codec
begin

text \<open>
  \<open>include/core/Order.h\<close>: the enumerations \<open>Side\<close> and \<open>OrderType\<close>, the \<open>Order\<close> record with its
  intrusive list pointers, the symbol packing, and the remaining-quantity arithmetic on 32-bit words.
\<close>

section \<open>Data\<close>

datatype Side = BUY | SELL

datatype OrderType = LIMIT | MARKET | IOC

instantiation Side :: enum
begin

definition enum_Side :: "Side list" where
  "enum_Side = [BUY, SELL]"

definition enum_all_Side :: "(Side \<Rightarrow> bool) \<Rightarrow> bool" where
  "enum_all_Side P \<longleftrightarrow> P BUY \<and> P SELL"

definition enum_ex_Side :: "(Side \<Rightarrow> bool) \<Rightarrow> bool" where
  "enum_ex_Side P \<longleftrightarrow> P BUY \<or> P SELL"

instance
proof
  show "(UNIV :: Side set) = set enum_class.enum"
    by (auto simp: enum_Side_def intro: Side.exhaust)
  show "distinct (enum_class.enum :: Side list)"
    by (simp add: enum_Side_def)
  show "enum_class.enum_all P = Ball (UNIV :: Side set) P" for P
    unfolding enum_all_Side_def by (metis UNIV_I Side.exhaust)
  show "enum_class.enum_ex P = Bex (UNIV :: Side set) P" for P
    unfolding enum_ex_Side_def by (metis UNIV_I Side.exhaust)
qed

end

record Order =
  ord_next :: ptr
  ord_prev :: ptr
  ord_orderId :: u64
  ord_symbolPacked :: u64
  ord_price :: u32
  ord_qty :: u32
  ord_filledQty :: u32
  ord_side :: Side
  ord_type :: OrderType

definition default_Order :: Order where
  "default_Order = \<lparr>ord_next = nullptr, ord_prev = nullptr, ord_orderId = 0, ord_symbolPacked = 0,
     ord_price = 0, ord_qty = 0, ord_filledQty = 0, ord_side = BUY, ord_type = LIMIT\<rparr>"

definition sizeof_Order :: size_t where
  "sizeof_Order = 48"

section \<open>Operations\<close>

text \<open>
  The symbol is copied bytewise into a zeroed 64-bit word, at most eight characters; it is read
  back as a C string, up to the first zero byte.
\<close>

definition char_byte :: "char \<Rightarrow> u8" where
  "char_byte c = of_nat (of_char c)"

definition byte_char :: "u8 \<Rightarrow> char" where
  "byte_char b = char_of (unat b)"

definition packSymbol :: "string \<Rightarrow> u64" where
  "packSymbol s =
     (let len = (if length s > 8 then 8 else length s)
      in u64_bytes (map char_byte (take len s) @ replicate (8 - len) 0))"

definition setSymbol :: "Order \<Rightarrow> string \<Rightarrow> Order" where
  "setSymbol ord s = ord\<lparr>ord_symbolPacked := packSymbol s\<rparr>"

definition getSymbol :: "Order \<Rightarrow> string" where
  "getSymbol ord = map byte_char (takeWhile (\<lambda>b. b \<noteq> 0) (bytes_u64 (ord_symbolPacked ord)))"

definition remainingQty :: "Order \<Rightarrow> u32" where
  "remainingQty ord = (if ord_filledQty ord \<ge> ord_qty ord then 0 else ord_qty ord - ord_filledQty ord)"

definition isFilled :: "Order \<Rightarrow> bool" where
  "isFilled ord \<longleftrightarrow> ord_filledQty ord \<ge> ord_qty ord"

section \<open>Quantities\<close>

lemma unat_remainingQty: "unat (remainingQty ord) = unat (ord_qty ord) - unat (ord_filledQty ord)"
  by (auto simp: remainingQty_def word_le_nat_alt unat_sub_le)

lemma remainingQty_0_iff: "remainingQty ord = 0 \<longleftrightarrow> isFilled ord"
  by (auto simp: remainingQty_def isFilled_def)

lemma isFilled_nat: "isFilled ord \<longleftrightarrow> unat (ord_qty ord) \<le> unat (ord_filledQty ord)"
  by (simp add: isFilled_def word_le_nat_alt)

lemma remaining_pos: "\<not> isFilled ord \<Longrightarrow> 0 < unat (remainingQty ord)"
  by (simp add: isFilled_nat unat_remainingQty)

text \<open>Filling at most the remaining quantity never wraps the filled counter.\<close>

definition fill_by :: "u32 \<Rightarrow> Order \<Rightarrow> Order" where
  "fill_by q ord = ord\<lparr>ord_filledQty := ord_filledQty ord + q\<rparr>"

lemma fill_by_nat:
  assumes "q \<le> remainingQty ord"
  shows "unat (ord_filledQty (fill_by q ord)) = unat (ord_filledQty ord) + unat q"
    and "unat (remainingQty (fill_by q ord)) = unat (remainingQty ord) - unat q"
proof -
  have q: "unat q \<le> unat (ord_qty ord) - unat (ord_filledQty ord)"
    using assms by (simp add: word_le_nat_alt unat_remainingQty)
  have "unat (ord_filledQty ord) + unat q < 4294967296"
    using q unat_u32_less [of "ord_qty ord"] unat_u32_less [of "ord_filledQty ord"] by linarith
  then show *: "unat (ord_filledQty (fill_by q ord)) = unat (ord_filledQty ord) + unat q"
    by (simp add: fill_by_def unat_add_u32)
  show "unat (remainingQty (fill_by q ord)) = unat (remainingQty ord) - unat q"
    using * by (simp add: unat_remainingQty) (simp add: fill_by_def)
qed

lemma fill_by_fields [simp]:
  "ord_next (fill_by q ord) = ord_next ord" "ord_prev (fill_by q ord) = ord_prev ord"
  "ord_orderId (fill_by q ord) = ord_orderId ord" "ord_symbolPacked (fill_by q ord) = ord_symbolPacked ord"
  "ord_price (fill_by q ord) = ord_price ord" "ord_qty (fill_by q ord) = ord_qty ord"
  "ord_side (fill_by q ord) = ord_side ord" "ord_type (fill_by q ord) = ord_type ord"
  by (simp_all add: fill_by_def)

section \<open>Symbols\<close>

lemma char_byte_0_iff: "char_byte c = 0 \<longleftrightarrow> c = CHR 0x00"
proof -
  have "unat (char_byte c) = of_char c"
    by (simp add: char_byte_def unat_of_nat take_bit_eq_mod)
  then have "char_byte c = 0 \<longleftrightarrow> (of_char c :: nat) = 0"
    by (metis unat_eq_zero)
  also have "\<dots> \<longleftrightarrow> (of_char c :: nat) = of_char (CHR 0x00)"
    by simp
  also have "\<dots> \<longleftrightarrow> c = CHR 0x00"
    by (simp only: of_char_eq_iff)
  finally show ?thesis .
qed

lemma byte_char_byte [simp]: "byte_char (char_byte c) = c"
  by (simp add: byte_char_def char_byte_def unat_of_nat take_bit_eq_mod)

lemma bytes_packSymbol:
  "bytes_u64 (packSymbol s) = map char_byte (take 8 s) @ replicate (8 - min (length s) 8) 0"
  by (auto simp: packSymbol_def Let_def min_def)

lemma takeWhile_packed:
  "map byte_char (takeWhile (\<lambda>b. b \<noteq> 0) (map char_byte xs @ replicate n 0)) =
   takeWhile (\<lambda>c. c \<noteq> CHR 0x00) xs"
  by (induction xs) (auto simp: char_byte_0_iff)

lemma getSymbol_setSymbol:
  "getSymbol (setSymbol ord s) = takeWhile (\<lambda>c. c \<noteq> CHR 0x00) (take 8 s)"
  by (simp add: getSymbol_def setSymbol_def bytes_packSymbol takeWhile_packed)

end
