(* ===== verification/Price_Level.thy ===== *)
theory Price_Level
  imports Order_Record
begin

text \<open>
  \<open>include/core/PriceLevel.h\<close>: the FIFO queue of one price, an intrusive doubly linked list whose
  links are fields of the orders.  The operations are written as pointer surgery on the slot memory;
  \<open>level_rep\<close> relates a level to the list of addresses it chains, and each operation is shown to act
  on that list as an append, a removal or a change of quantity.
\<close>

section \<open>State and operations\<close>

record PriceLevel =
  m_head :: ptr
  m_tail :: ptr
  m_totalQty :: u64
  m_orderCount :: u32

definition empty_PriceLevel :: PriceLevel where
  "empty_PriceLevel = \<lparr>m_head = nullptr, m_tail = nullptr, m_totalQty = 0, m_orderCount = 0\<rparr>"

definition PriceLevel_addOrder ::
  "ptr \<Rightarrow> PriceLevel \<Rightarrow> Order slotmem \<Rightarrow> (PriceLevel \<times> Order slotmem) option" where
  "PriceLevel_addOrder order lvl h = do {
     h1 \<leftarrow> modify h order (\<lambda>x. x\<lparr>ord_next := nullptr\<rparr>);
     h2 \<leftarrow> modify h1 order (\<lambda>x. x\<lparr>ord_prev := m_tail lvl\<rparr>);
     (lvl1, h3) \<leftarrow>
       (if m_tail lvl \<noteq> nullptr
        then do { h' \<leftarrow> modify h2 (m_tail lvl) (\<lambda>x. x\<lparr>ord_next := order\<rparr>); Some (lvl, h') }
        else Some (lvl\<lparr>m_head := order\<rparr>, h2));
     x \<leftarrow> deref h3 order;
     Some (lvl1\<lparr>m_tail := order,
                m_totalQty := m_totalQty lvl1 + ucast (remainingQty x),
                m_orderCount := m_orderCount lvl1 + 1\<rparr>, h3)
   }"

definition PriceLevel_removeOrder ::
  "ptr \<Rightarrow> PriceLevel \<Rightarrow> Order slotmem \<Rightarrow> (PriceLevel \<times> Order slotmem) option" where
  "PriceLevel_removeOrder order lvl h = do {
     x \<leftarrow> deref h order;
     (lvl1, h1) \<leftarrow>
       (if ord_prev x \<noteq> nullptr
        then do { h' \<leftarrow> modify h (ord_prev x) (\<lambda>y. y\<lparr>ord_next := ord_next x\<rparr>); Some (lvl, h') }
        else Some (lvl\<lparr>m_head := ord_next x\<rparr>, h));
     x1 \<leftarrow> deref h1 order;
     (lvl2, h2) \<leftarrow>
       (if ord_next x1 \<noteq> nullptr
        then do { h' \<leftarrow> modify h1 (ord_next x1) (\<lambda>y. y\<lparr>ord_prev := ord_prev x1\<rparr>); Some (lvl1, h') }
        else Some (lvl1\<lparr>m_tail := ord_prev x1\<rparr>, h1));
     x2 \<leftarrow> deref h2 order;
     h3 \<leftarrow> modify h2 order (\<lambda>y. y\<lparr>ord_next := nullptr, ord_prev := nullptr\<rparr>);
     Some (lvl2\<lparr>m_totalQty := m_totalQty lvl2 - ucast (remainingQty x2),
                m_orderCount := m_orderCount lvl2 - 1\<rparr>, h3)
   }"

definition decreaseTotalQty :: "u32 \<Rightarrow> PriceLevel \<Rightarrow> PriceLevel" where
  "decreaseTotalQty q lvl =
     (if ucast q > m_totalQty lvl then lvl\<lparr>m_totalQty := 0\<rparr>
      else lvl\<lparr>m_totalQty := m_totalQty lvl - ucast q\<rparr>)"

definition front :: "PriceLevel \<Rightarrow> ptr" where
  "front lvl = m_head lvl"

definition isEmpty :: "PriceLevel \<Rightarrow> bool" where
  "isEmpty lvl \<longleftrightarrow> m_head lvl = nullptr"

definition getTotalQty :: "PriceLevel \<Rightarrow> u64" where
  "getTotalQty lvl = m_totalQty lvl"

definition getOrderCount :: "PriceLevel \<Rightarrow> u32" where
  "getOrderCount lvl = m_orderCount lvl"

section \<open>Order data without the links\<close>

definition strip :: "Order \<Rightarrow> Order" where
  "strip x = x\<lparr>ord_next := nullptr, ord_prev := nullptr\<rparr>"

lemma strip_fields [simp]:
  "ord_orderId (strip x) = ord_orderId x" "ord_symbolPacked (strip x) = ord_symbolPacked x"
  "ord_price (strip x) = ord_price x" "ord_qty (strip x) = ord_qty x"
  "ord_filledQty (strip x) = ord_filledQty x" "ord_side (strip x) = ord_side x"
  "ord_type (strip x) = ord_type x" "ord_next (strip x) = nullptr" "ord_prev (strip x) = nullptr"
  "remainingQty (strip x) = remainingQty x" "isFilled (strip x) = isFilled x"
  "strip (strip x) = strip x"
  by (simp_all add: strip_def remainingQty_def isFilled_def)

lemma strip_links [simp]:
  "strip (x\<lparr>ord_next := p\<rparr>) = strip x" "strip (x\<lparr>ord_prev := p\<rparr>) = strip x"
  by (simp_all add: strip_def)

lemma strip_fill_by: "strip (fill_by q x) = fill_by q (strip x)"
  by (simp add: strip_def fill_by_def)

lemma strip_eqD:
  assumes "strip x = strip y"
  shows "ord_orderId x = ord_orderId y" "ord_symbolPacked x = ord_symbolPacked y"
    "ord_price x = ord_price y" "ord_qty x = ord_qty y" "ord_filledQty x = ord_filledQty y"
    "ord_side x = ord_side y" "ord_type x = ord_type y" "remainingQty x = remainingQty y"
    "isFilled x = isFilled y"
  using assms by (metis strip_fields)+

text \<open>A change of memory that moves only links, and only at the addresses of \<open>A\<close>.\<close>

definition relinked :: "addr set \<Rightarrow> Order slotmem \<Rightarrow> Order slotmem \<Rightarrow> bool" where
  "relinked A h h' \<longleftrightarrow>
     (\<forall>b. b \<notin> A \<longrightarrow> h' b = h b) \<and>
     (\<forall>b\<in>A. b \<in> live h \<and> b \<in> live h' \<and> strip (obj h' b) = strip (obj h b))"

lemma relinked_live: "relinked A h h' \<Longrightarrow> live h' = live h"
  by (auto simp: relinked_def live_def)

lemma relinked_strip: "relinked A h h' \<Longrightarrow> strip (obj h' b) = strip (obj h b)"
  by (cases "b \<in> A") (auto simp: relinked_def obj_def)

lemma relinked_remaining: "relinked A h h' \<Longrightarrow> remainingQty (obj h' b) = remainingQty (obj h b)"
  by (metis relinked_strip strip_eqD(8))

lemma relinked_refl: "A \<subseteq> live h \<Longrightarrow> relinked A h h"
  by (auto simp: relinked_def)

lemma relinked_upd:
  "relinked A h h' \<Longrightarrow> b \<in> A \<Longrightarrow> strip x = strip (obj h' b) \<Longrightarrow> relinked A h (h'(b \<mapsto> Live x))"
  by (auto simp: relinked_def)

lemma relinked_mono: "relinked A h h' \<Longrightarrow> A \<subseteq> B \<Longrightarrow> B \<subseteq> live h \<Longrightarrow> relinked B h h'"
  by (fastforce simp: relinked_def live_iff obj_def)

section \<open>Chains\<close>

definition hd_ptr :: "addr list \<Rightarrow> ptr \<Rightarrow> ptr" where
  "hd_ptr xs n = (case xs of [] \<Rightarrow> n | x # _ \<Rightarrow> Some x)"

definition last_ptr :: "addr list \<Rightarrow> ptr \<Rightarrow> ptr" where
  "last_ptr xs p = (if xs = [] then p else Some (last xs))"

lemma hd_ptr_simps [simp]: "hd_ptr [] n = n" "hd_ptr (x # xs) n = Some x"
  "hd_ptr (xs @ ys) n = hd_ptr xs (hd_ptr ys n)"
  by (simp_all add: hd_ptr_def split: list.splits)

lemma last_ptr_simps [simp]: "last_ptr [] p = p" "last_ptr (x # xs) p = last_ptr xs (Some x)"
  "last_ptr (xs @ ys) p = last_ptr ys (last_ptr xs p)"
  by (auto simp: last_ptr_def)

lemma hd_ptr_nonempty: "xs \<noteq> [] \<Longrightarrow> hd_ptr xs n = Some (hd xs)"
  by (cases xs) simp_all

lemma last_ptr_nonempty: "xs \<noteq> [] \<Longrightarrow> last_ptr xs p = Some (last xs)"
  by (simp add: last_ptr_def)

lemma hd_ptr_null [simp]: "hd_ptr xs nullptr = nullptr \<longleftrightarrow> xs = []"
  by (simp add: hd_ptr_def split: list.splits)

lemma last_ptr_null [simp]: "last_ptr xs nullptr = nullptr \<longleftrightarrow> xs = []"
  by (simp add: last_ptr_def)

fun links :: "Order slotmem \<Rightarrow> ptr \<Rightarrow> addr list \<Rightarrow> ptr \<Rightarrow> bool" where
  "links h p [] n \<longleftrightarrow> True"
| "links h p (x # xs) n \<longleftrightarrow>
     x \<in> live h \<and> ord_prev (obj h x) = p \<and> ord_next (obj h x) = hd_ptr xs n \<and> links h (Some x) xs n"

lemma links_append [simp]:
  "links h p (xs @ ys) n \<longleftrightarrow> links h p xs (hd_ptr ys n) \<and> links h (last_ptr xs p) ys n"
  by (induction xs arbitrary: p) auto

lemma links_cong: "(\<And>x. x \<in> set xs \<Longrightarrow> h' x = h x) \<Longrightarrow> links h' p xs n = links h p xs n"
  by (induction xs arbitrary: p) (auto simp: live_def obj_def)

lemma links_upd_notin [simp]: "a \<notin> set xs \<Longrightarrow> links (h(a := v)) p xs n = links h p xs n"
  by (rule links_cong) auto

lemma links_upd_data:
  "a \<in> live h \<Longrightarrow> ord_next x = ord_next (obj h a) \<Longrightarrow> ord_prev x = ord_prev (obj h a) \<Longrightarrow>
   links (h(a \<mapsto> Live x)) p xs n = links h p xs n"
  by (induction xs arbitrary: p) auto

lemma links_live: "links h p xs n \<Longrightarrow> set xs \<subseteq> live h"
  by (induction xs arbitrary: p) auto

lemma links_relink_last:
  assumes "links h p (xs @ [x]) n" and "x \<notin> set xs"
  shows "links (h(x \<mapsto> Live ((obj h x)\<lparr>ord_next := n'\<rparr>))) p (xs @ [x]) n'"
  using assms by simp

lemma links_relink_first:
  assumes "links h p (x # xs) n" and "x \<notin> set xs"
  shows "links (h(x \<mapsto> Live ((obj h x)\<lparr>ord_prev := p'\<rparr>))) p' (x # xs) n"
  using assms by simp

section \<open>The level as a list\<close>

definition level_qty :: "Order slotmem \<Rightarrow> addr list \<Rightarrow> nat" where
  "level_qty h xs = (\<Sum>a\<leftarrow>xs. unat (remainingQty (obj h a)))"

definition level_rep :: "Order slotmem \<Rightarrow> PriceLevel \<Rightarrow> addr list \<Rightarrow> bool" where
  "level_rep h lvl xs \<longleftrightarrow>
     m_head lvl = hd_ptr xs nullptr \<and> m_tail lvl = last_ptr xs nullptr \<and>
     links h nullptr xs nullptr \<and> distinct xs \<and>
     unat (m_totalQty lvl) = level_qty h xs \<and> unat (m_orderCount lvl) = length xs"

lemma level_rep_empty: "level_rep h empty_PriceLevel []"
  by (simp add: level_rep_def empty_PriceLevel_def level_qty_def)

lemma level_rep_live: "level_rep h lvl xs \<Longrightarrow> set xs \<subseteq> live h"
  unfolding level_rep_def by (blast dest: links_live)

lemma level_qty_cong:
  "(\<And>a. a \<in> set xs \<Longrightarrow> remainingQty (obj h' a) = remainingQty (obj h a)) \<Longrightarrow>
   level_qty h' xs = level_qty h xs"
  unfolding level_qty_def by (rule sum_list_map_cong) simp

lemma level_rep_cong:
  assumes "\<And>x. x \<in> set xs \<Longrightarrow> h' x = h x"
  shows "level_rep h' lvl xs = level_rep h lvl xs"
proof -
  have "links h' nullptr xs nullptr = links h nullptr xs nullptr"
    using assms by (rule links_cong)
  moreover have "level_qty h' xs = level_qty h xs"
    using assms by (intro level_qty_cong) (simp add: obj_def)
  ultimately show ?thesis
    by (simp add: level_rep_def)
qed

lemma level_qty_bound: "level_qty h xs \<le> length xs * 4294967295"
  unfolding level_qty_def
  by (rule sum_list_bound) (rule unat_u32_le)

lemma level_rep_front: "level_rep h lvl xs \<Longrightarrow> front lvl = hd_ptr xs nullptr"
  by (simp add: level_rep_def front_def)

lemma level_rep_isEmpty: "level_rep h lvl xs \<Longrightarrow> isEmpty lvl \<longleftrightarrow> xs = []"
  by (simp add: level_rep_def isEmpty_def)

subsection \<open>Appending at the tail\<close>

lemma addOrder_heap:
  assumes rep: "level_rep h lvl xs" and a: "a \<in> live h" "a \<notin> set xs"
  shows "\<exists>h'. PriceLevel_addOrder (Some a) lvl h =
            Some (lvl\<lparr>m_head := hd_ptr (xs @ [a]) nullptr, m_tail := Some a,
                      m_totalQty := m_totalQty lvl + ucast (remainingQty (obj h a)),
                      m_orderCount := m_orderCount lvl + 1\<rparr>, h') \<and>
          links h' nullptr (xs @ [a]) nullptr \<and> relinked (insert a (set xs)) h h'"
proof (cases xs rule: rev_cases)
  case Nil
  let ?h = "h(a \<mapsto> Live ((obj h a)\<lparr>ord_next := nullptr, ord_prev := nullptr\<rparr>))"
  have "PriceLevel_addOrder (Some a) lvl h =
          Some (lvl\<lparr>m_head := Some a, m_tail := Some a,
                    m_totalQty := m_totalQty lvl + ucast (remainingQty (obj h a)),
                    m_orderCount := m_orderCount lvl + 1\<rparr>, ?h)"
    using rep a Nil
    by (simp add: PriceLevel_addOrder_def mem_simps level_rep_def remainingQty_def del: deref.simps)
  moreover have "relinked (insert a (set xs)) h ?h"
    using a Nil by (auto simp: relinked_def)
  ultimately show ?thesis
    using Nil by simp
next
  case (snoc ys t)
  let ?h2 = "h(a \<mapsto> Live ((obj h a)\<lparr>ord_next := nullptr, ord_prev := Some t\<rparr>))"
  let ?h3 = "?h2(t \<mapsto> Live ((obj h t)\<lparr>ord_next := Some a\<rparr>))"
  have t: "t \<in> live h" "t \<noteq> a" "m_tail lvl = Some t" "t \<notin> set ys"
    using rep a snoc by (auto simp: level_rep_def)
  have hd: "hd_ptr (xs @ [a]) nullptr = m_head lvl"
    using rep snoc by (cases ys) (simp_all add: level_rep_def)
  have "PriceLevel_addOrder (Some a) lvl h =
          Some (lvl\<lparr>m_head := m_head lvl, m_tail := Some a,
                    m_totalQty := m_totalQty lvl + ucast (remainingQty (obj h a)),
                    m_orderCount := m_orderCount lvl + 1\<rparr>, ?h3)"
    using a t
    by (cases lvl)
       (simp add: PriceLevel_addOrder_def mem_simps remainingQty_def del: deref.simps)
  moreover have "links ?h3 nullptr (xs @ [a]) nullptr"
    using rep a snoc t by (auto simp: level_rep_def)
  moreover have "relinked (insert a (set xs)) h ?h3"
    using a snoc t level_rep_live [OF rep] by (auto simp: relinked_def)
  ultimately show ?thesis
    unfolding hd by blast
qed

lemma PriceLevel_addOrder_rep:
  assumes rep: "level_rep h lvl xs" and a: "a \<in> live h" "a \<notin> set xs"
    and room: "length xs < 4294967295"
  shows "\<exists>lvl' h'. PriceLevel_addOrder (Some a) lvl h = Some (lvl', h') \<and>
           level_rep h' lvl' (xs @ [a]) \<and> relinked (insert a (set xs)) h h'"
proof -
  let ?lvl = "lvl\<lparr>m_head := hd_ptr (xs @ [a]) nullptr, m_tail := Some a,
                  m_totalQty := m_totalQty lvl + ucast (remainingQty (obj h a)),
                  m_orderCount := m_orderCount lvl + 1\<rparr>"
  obtain h' where h': "PriceLevel_addOrder (Some a) lvl h = Some (?lvl, h')"
      "links h' nullptr (xs @ [a]) nullptr" "relinked (insert a (set xs)) h h'"
    using addOrder_heap [OF rep a] by blast
  have tot: "unat (m_totalQty lvl) = level_qty h xs" and cnt: "unat (m_orderCount lvl) = length xs"
    using rep by (simp_all add: level_rep_def)
  have "level_qty h xs \<le> 4294967294 * 4294967295"
    using level_qty_bound [of h xs] room by simp
  then have "unat (m_totalQty lvl) + unat (ucast (remainingQty (obj h a)) :: u64)
               < 18446744073709551616"
    using tot unat_u32_less [of "remainingQty (obj h a)"] unfolding unat_ucast_32_64 by linarith
  from unat_add_u64 [OF this] tot
  have "unat (m_totalQty ?lvl) = level_qty h xs + unat (remainingQty (obj h a))"
    by simp
  also have "\<dots> = level_qty h' (xs @ [a])"
    using relinked_remaining [OF h'(3)] by (simp add: level_qty_def)
  finally have "unat (m_totalQty ?lvl) = level_qty h' (xs @ [a])" .
  moreover have "unat (m_orderCount ?lvl) = Suc (length xs)"
    using cnt room by (simp add: unat_add_u32)
  ultimately have "level_rep h' ?lvl (xs @ [a])"
    using h'(2) rep a by (simp add: level_rep_def)
  with h' show ?thesis by blast
qed

subsection \<open>Unlinking\<close>

text \<open>
  The two halves of the surgery: after the first the predecessor (or the head) points past the
  order, after the second the successor (or the tail) points back past it.
\<close>

definition unlink_prev :: "addr list \<Rightarrow> ptr \<Rightarrow> Order slotmem \<Rightarrow> Order slotmem" where
  "unlink_prev as n h =
     (if as = [] then h else h(last as \<mapsto> Live ((obj h (last as))\<lparr>ord_next := n\<rparr>)))"

definition unlink_next :: "addr list \<Rightarrow> ptr \<Rightarrow> Order slotmem \<Rightarrow> Order slotmem" where
  "unlink_next bs p h =
     (if bs = [] then h else h(hd bs \<mapsto> Live ((obj h (hd bs))\<lparr>ord_prev := p\<rparr>)))"

lemma links_unlink_prev:
  assumes "links h p as n" and "distinct as"
  shows "links (unlink_prev as n' h) p as n'"
proof (cases as rule: rev_cases)
  case Nil
  then show ?thesis by simp
next
  case (snoc ys y)
  then show ?thesis
    using assms links_relink_last [of h p ys y n n'] by (simp add: unlink_prev_def)
qed

lemma links_unlink_next:
  assumes "links h p bs n" and "distinct bs"
  shows "links (unlink_next bs p' h) p' bs n"
  using assms by (cases bs) (auto simp: unlink_next_def)

lemma unlink_prev_other: "set as \<inter> set xs = {} \<Longrightarrow> links (unlink_prev as n' h) p xs n = links h p xs n"
  by (rule links_cong) (use last_in_set in \<open>fastforce simp: unlink_prev_def\<close>)

lemma unlink_next_other: "set bs \<inter> set xs = {} \<Longrightarrow> links (unlink_next bs p' h) p xs n = links h p xs n"
  by (rule links_cong) (use hd_in_set in \<open>fastforce simp: unlink_next_def\<close>)

lemma unlink_obj:
  "a \<notin> set as \<Longrightarrow> obj (unlink_prev as n h) a = obj h a"
  "a \<notin> set bs \<Longrightarrow> obj (unlink_next bs p h) a = obj h a"
  by (auto simp: unlink_prev_def unlink_next_def)

lemma unlink_live:
  "set as \<subseteq> live h \<Longrightarrow> live (unlink_prev as n h) = live h"
  "set bs \<subseteq> live h \<Longrightarrow> live (unlink_next bs p h) = live h"
  by (auto simp: unlink_prev_def unlink_next_def)

lemma unlink_relinked:
  "relinked A h h' \<Longrightarrow> set as \<subseteq> A \<Longrightarrow> relinked A h (unlink_prev as n h')"
  "relinked A h h' \<Longrightarrow> set bs \<subseteq> A \<Longrightarrow> relinked A h (unlink_next bs p h')"
  by (auto simp: unlink_prev_def unlink_next_def intro!: relinked_upd)

lemma removeOrder_heap:
  assumes rep: "level_rep h lvl (as @ a # bs)"
  defines "h2 \<equiv> unlink_next bs (last_ptr as nullptr) (unlink_prev as (hd_ptr bs nullptr) h)"
  shows "PriceLevel_removeOrder (Some a) lvl h =
           Some (lvl\<lparr>m_head := hd_ptr (as @ bs) nullptr, m_tail := last_ptr (as @ bs) nullptr,
                     m_totalQty := m_totalQty lvl - ucast (remainingQty (obj h a)),
                     m_orderCount := m_orderCount lvl - 1\<rparr>,
                 h2(a \<mapsto> Live (strip (obj h a))))"
proof -
  have dist: "distinct (as @ a # bs)" and lv: "set as \<subseteq> live h" "set bs \<subseteq> live h" "a \<in> live h"
    and lk: "ord_prev (obj h a) = last_ptr as nullptr" "ord_next (obj h a) = hd_ptr bs nullptr"
    and ends: "m_head lvl = hd_ptr as (Some a)" "m_tail lvl = last_ptr bs (Some a)"
    using rep level_rep_live [OF rep] by (auto simp: level_rep_def)
  let ?h1 = "unlink_prev as (hd_ptr bs nullptr) h"
  have s1: "(if ord_prev (obj h a) \<noteq> nullptr
        then do { h' \<leftarrow> modify h (ord_prev (obj h a)) (\<lambda>y. y\<lparr>ord_next := ord_next (obj h a)\<rparr>); Some (lvl, h') }
        else Some (lvl\<lparr>m_head := ord_next (obj h a)\<rparr>, h)) =
      Some (lvl\<lparr>m_head := hd_ptr (as @ bs) nullptr\<rparr>, ?h1)"
  proof (cases "as = []")
    case True
    then show ?thesis
      using lk by (simp add: unlink_prev_def)
  next
    case False
    then have "last as \<in> live h" and "hd_ptr (as @ bs) nullptr = m_head lvl"
      using lv(1) ends(1) by (auto simp: hd_ptr_nonempty)
    then show ?thesis
      using False lk by (cases lvl) (simp add: unlink_prev_def modify_live last_ptr_nonempty)
  qed
  have l1: "live ?h1 = live h" and o1: "obj ?h1 a = obj h a"
    using lv dist by (simp_all add: unlink_live unlink_obj)
  have s2: "(if ord_next (obj h a) \<noteq> nullptr
        then do { h' \<leftarrow> modify ?h1 (ord_next (obj h a)) (\<lambda>y. y\<lparr>ord_prev := ord_prev (obj h a)\<rparr>);
                  Some (lvl\<lparr>m_head := q\<rparr>, h') }
        else Some (lvl\<lparr>m_head := q, m_tail := ord_prev (obj h a)\<rparr>, ?h1)) =
      Some (lvl\<lparr>m_head := q, m_tail := last_ptr (as @ bs) nullptr\<rparr>, h2)" for q
  proof (cases "bs = []")
    case True
    then show ?thesis
      using lk by (simp add: unlink_next_def h2_def)
  next
    case False
    then have "hd bs \<in> live ?h1" and "last_ptr (as @ bs) nullptr = m_tail lvl"
      using lv(2) ends(2) l1 by (auto simp: last_ptr_nonempty)
    then show ?thesis
      using False lk
      by (cases lvl) (simp add: unlink_next_def modify_live hd_ptr_nonempty h2_def)
  qed
  have l2: "live h2 = live h" and o2: "obj h2 a = obj h a"
    using lv dist l1 o1 by (simp_all add: unlink_live unlink_obj h2_def)
  have d: "deref h (Some a) = Some (obj h a)" "deref ?h1 (Some a) = Some (obj h a)"
      "deref h2 (Some a) = Some (obj h a)"
    and m: "modify h2 (Some a) (\<lambda>y. y\<lparr>ord_next := nullptr, ord_prev := nullptr\<rparr>) =
      Some (h2(a \<mapsto> Live (strip (obj h a))))"
    using lv(3) l1 l2 o1 o2 by (simp_all add: deref_live modify_live strip_def del: deref.simps)
  show ?thesis
    unfolding PriceLevel_removeOrder_def d s1 bind.bind_lunit prod.case s2 m by simp
qed

lemma PriceLevel_removeOrder_rep:
  assumes rep: "level_rep h lvl (as @ a # bs)"
  shows "\<exists>lvl' h'. PriceLevel_removeOrder (Some a) lvl h = Some (lvl', h') \<and>
           level_rep h' lvl' (as @ bs) \<and> relinked (set (as @ a # bs)) h h'"
proof -
  let ?h1 = "unlink_prev as (hd_ptr bs nullptr) h"
  let ?h2 = "unlink_next bs (last_ptr as nullptr) ?h1"
  let ?h3 = "?h2(a \<mapsto> Live (strip (obj h a)))"
  let ?lvl = "lvl\<lparr>m_head := hd_ptr (as @ bs) nullptr, m_tail := last_ptr (as @ bs) nullptr,
                  m_totalQty := m_totalQty lvl - ucast (remainingQty (obj h a)),
                  m_orderCount := m_orderCount lvl - 1\<rparr>"
  have dist: "distinct (as @ a # bs)" and lv: "set (as @ a # bs) \<subseteq> live h"
    and lk: "links h nullptr as (Some a)" "links h (Some a) bs nullptr"
    using rep level_rep_live [OF rep] by (auto simp: level_rep_def)
  have "relinked (set (as @ a # bs)) h ?h2"
    using relinked_refl [OF lv] by (intro unlink_relinked) auto
  moreover have "obj ?h2 a = obj h a"
    using dist by (simp add: unlink_obj)
  ultimately have rl: "relinked (set (as @ a # bs)) h ?h3"
    by (intro relinked_upd) auto
  have dj: "set bs \<inter> set as = {}"
    using dist by auto
  have "links ?h3 nullptr as (hd_ptr bs nullptr)"
    using links_unlink_prev [OF lk(1), of "hd_ptr bs nullptr"] dist by (simp add: unlink_next_other [OF dj])
  moreover have "links ?h1 (Some a) bs nullptr"
    using lk(2) dist by (auto simp: unlink_prev_other)
  then have "links ?h3 (last_ptr as nullptr) bs nullptr"
    using links_unlink_next dist by auto
  moreover have qty: "level_qty h (as @ a # bs) = level_qty ?h3 (as @ bs) + unat (remainingQty (obj h a))"
    using relinked_remaining [OF rl] by (simp add: level_qty_def)
  then have "unat (m_totalQty ?lvl) = level_qty ?h3 (as @ bs)"
    using rep by (simp add: level_rep_def unat_sub_le)
  moreover have "unat (m_orderCount ?lvl) = length (as @ bs)"
    using rep by (simp add: level_rep_def unat_sub_le)
  ultimately have "level_rep ?h3 ?lvl (as @ bs)"
    using dist by (simp add: level_rep_def)
  then show ?thesis
    using removeOrder_heap [OF rep] rl by blast
qed

subsection \<open>Filling the front order\<close>

lemma level_rep_fill_front:
  assumes rep: "level_rep h lvl (a # xs)" and q: "q \<le> remainingQty (obj h a)"
  shows "level_rep (h(a \<mapsto> Live (fill_by q (obj h a)))) (decreaseTotalQty q lvl) (a # xs)"
proof -
  let ?h = "h(a \<mapsto> Live (fill_by q (obj h a)))"
  have a: "a \<in> live h" "a \<notin> set xs" and tot: "unat (m_totalQty lvl) = level_qty h (a # xs)"
    using rep by (auto simp: level_rep_def)
  have rest: "level_qty ?h xs = level_qty h xs"
    using a by (intro level_qty_cong) auto
  have le: "unat q \<le> unat (remainingQty (obj h a))"
    using q by (simp add: word_le_nat_alt)
  then have "unat (ucast q :: u64) \<le> unat (m_totalQty lvl)"
    using tot by (simp add: level_qty_def)
  then have "unat (m_totalQty (decreaseTotalQty q lvl)) = unat (m_totalQty lvl) - unat q"
    by (auto simp: decreaseTotalQty_def word_less_nat_alt unat_sub_le)
  also have "\<dots> = level_qty ?h (a # xs)"
    using tot rest le fill_by_nat(2) [OF q] by (simp add: level_qty_def)
  finally have "unat (m_totalQty (decreaseTotalQty q lvl)) = level_qty ?h (a # xs)" .
  moreover have "links ?h nullptr (a # xs) nullptr"
    using rep a(1) by (subst links_upd_data) (auto simp: level_rep_def)
  ultimately show ?thesis
    using rep by (simp add: level_rep_def decreaseTotalQty_def)
qed

end
