(* ===== verification/Ordered_Map.thy ===== *)
theory Ordered_Map
  imports CB_Prelude
begin

text \<open>
  The part of \<open>std::map\<close> the order book uses: a key-sorted sequence of entries under a strict
  comparator, with lookup, insertion or overwriting of a key, erasure of a key, and the first entry.
  The laws are proved once for every strict linear comparator in the locale \<open>key_order\<close>; the
  theory of the order book interprets it for the descending bid map and the ascending ask map.
\<close>

type_synonym ('k, 'v) omap = "('k \<times> 'v) list"

fun om_set :: "('k \<Rightarrow> 'k \<Rightarrow> bool) \<Rightarrow> 'k \<Rightarrow> 'v \<Rightarrow> ('k, 'v) omap \<Rightarrow> ('k, 'v) omap" where
  "om_set lt k v [] = [(k, v)]"
| "om_set lt k v ((k', v') # m) =
     (if k = k' then (k, v) # m
      else if lt k k' then (k, v) # (k', v') # m
      else (k', v') # om_set lt k v m)"

definition om_erase :: "'k \<Rightarrow> ('k, 'v) omap \<Rightarrow> ('k, 'v) omap" where
  "om_erase k m = filter (\<lambda>e. fst e \<noteq> k) m"

definition om_begin :: "('k, 'v) omap \<Rightarrow> ('k \<times> 'v) option" where
  "om_begin m = (case m of [] \<Rightarrow> None | e # _ \<Rightarrow> Some e)"

definition om_at :: "'v \<Rightarrow> 'k \<Rightarrow> ('k, 'v) omap \<Rightarrow> 'v" where
  "om_at d k m = (case map_of m k of Some v \<Rightarrow> v | None \<Rightarrow> d)"

locale key_order =
  fixes lt :: "'k \<Rightarrow> 'k \<Rightarrow> bool"
  assumes lt_irrefl: "\<not> lt a a"
    and lt_trans: "lt a b \<Longrightarrow> lt b c \<Longrightarrow> lt a c"
    and lt_total: "a \<noteq> b \<Longrightarrow> lt a b \<or> lt b a"
begin

lemma sorted_distinct: "sorted_wrt lt ks \<Longrightarrow> distinct ks"
  by (induction ks) (auto simp: lt_irrefl)

lemma om_set_present:
  assumes "sorted_wrt lt (map fst (m1 @ (k, w) # m2))"
  shows "om_set lt k v (m1 @ (k, w) # m2) = m1 @ (k, v) # m2"
  using assms
proof (induction m1)
  case Nil
  then show ?case by simp
next
  case (Cons e m1)
  then have "lt (fst e) k" by (auto simp: sorted_wrt_append)
  then have "fst e \<noteq> k" and "\<not> lt k (fst e)"
    using lt_irrefl lt_trans by blast+
  with Cons show ?case by (cases e) auto
qed

lemma om_set_absent:
  assumes "sorted_wrt lt (map fst m)" and "k \<notin> fst ` set m"
  shows "\<exists>m1 m2. m = m1 @ m2 \<and> om_set lt k v m = m1 @ (k, v) # m2 \<and>
           (\<forall>e\<in>set m1. lt (fst e) k) \<and> (\<forall>e\<in>set m2. lt k (fst e))"
  using assms
proof (induction m)
  case Nil
  then show ?case by simp
next
  case (Cons e m)
  obtain k' v' where e: "e = (k', v')" by (cases e)
  show ?case
  proof (cases "lt k k'")
    case True
    then have "\<forall>d\<in>set (e # m). lt k (fst d)"
      using Cons.prems(1) e lt_trans by auto
    then show ?thesis
      using True e Cons.prems(2) by (intro exI [of _ "[]"] exI [of _ "e # m"]) auto
  next
    case False
    then have k'k: "lt k' k"
      using Cons.prems(2) e lt_total [of k k'] by auto
    obtain m1 m2 where "m = m1 @ m2" "om_set lt k v m = m1 @ (k, v) # m2"
        "\<forall>e\<in>set m1. lt (fst e) k" "\<forall>e\<in>set m2. lt k (fst e)"
      using Cons by auto
    then show ?thesis
      using False k'k e Cons.prems(2) by (intro exI [of _ "e # m1"] exI [of _ m2]) auto
  qed
qed

lemma om_set_sorted:
  assumes "sorted_wrt lt (map fst m)"
  shows "sorted_wrt lt (map fst (om_set lt k v m))"
proof (cases "k \<in> fst ` set m")
  case True
  then obtain m1 w m2 where m: "m = m1 @ (k, w) # m2"
    by (metis imageE prod.collapse split_list)
  then show ?thesis
    using assms om_set_present [of m1 k w m2 v] by simp
next
  case False
  obtain m1 m2 where "m = m1 @ m2" "om_set lt k v m = m1 @ (k, v) # m2"
      "\<forall>e\<in>set m1. lt (fst e) k" "\<forall>e\<in>set m2. lt k (fst e)"
    using om_set_absent [OF assms False] by blast
  then show ?thesis
    using assms by (auto simp: sorted_wrt_append)
qed

lemma map_of_om_set:
  assumes "sorted_wrt lt (map fst m)"
  shows "map_of (om_set lt k v m) = (map_of m)(k \<mapsto> v)"
  using assms
proof (induction m)
  case Nil
  then show ?case by auto
next
  case (Cons e m)
  then show ?case by (cases e) auto
qed

lemma om_erase_mid:
  assumes "sorted_wrt lt (map fst (m1 @ (k, w) # m2))"
  shows "om_erase k (m1 @ (k, w) # m2) = m1 @ m2"
proof -
  have "k \<notin> fst ` set m1" and "k \<notin> fst ` set m2"
    using sorted_distinct [OF assms] by auto
  then have "filter (\<lambda>e. fst e \<noteq> k) m1 = m1" and "filter (\<lambda>e. fst e \<noteq> k) m2 = m2"
    by (auto simp: filter_id_conv)
  then show ?thesis
    by (simp add: om_erase_def)
qed

lemma map_of_split:
  assumes "map_of m k = Some v"
  shows "\<exists>m1 m2. m = m1 @ (k, v) # m2"
  by (meson assms map_of_SomeD split_list)

lemma om_begin_least:
  assumes "sorted_wrt lt (map fst m)" and "om_begin m = Some (k, v)" and "k' \<in> fst ` set m"
  shows "k' = k \<or> lt k k'"
  using assms by (cases m) (auto simp: om_begin_def)

end

end
