(* ===== verification/Order_Book.thy ===== *)
theory Order_Book
  imports Price_Level Ordered_Map
begin

text \<open>
  \<open>include/core/OrderBook.h\<close> and \<open>src/OrderBook.cpp\<close>: the bid and ask maps of price levels and the
  id map.  \<open>ladder_rep\<close> relates one side's map to a ladder of address lists and \<open>book_rep\<close> states the
  book invariant: levels are sorted, non-empty and hold only open orders of their own side and
  price, no order is chained twice, and the id map indexes exactly the resting orders.
\<close>

section \<open>State and operations\<close>

fun price_before :: "Side \<Rightarrow> u32 \<Rightarrow> u32 \<Rightarrow> bool" where
  "price_before BUY p q = (p > q)"
| "price_before SELL p q = (p < q)"

record OrderBook =
  m_bids :: "(u32, PriceLevel) omap"
  m_asks :: "(u32, PriceLevel) omap"
  m_orderMap :: "u64 \<Rightarrow> addr option"

definition empty_OrderBook :: OrderBook where
  "empty_OrderBook = \<lparr>m_bids = [], m_asks = [], m_orderMap = (\<lambda>_. None)\<rparr>"

text \<open>\<open>m[price].addOrder(order)\<close>, which creates an empty level when the price is new.\<close>

definition levels_addOrder ::
  "Side \<Rightarrow> u32 \<Rightarrow> ptr \<Rightarrow> (u32, PriceLevel) omap \<Rightarrow> Order slotmem \<Rightarrow>
   ((u32, PriceLevel) omap \<times> Order slotmem) option" where
  "levels_addOrder s p order lvls h = do {
     (lvl, h1) \<leftarrow> PriceLevel_addOrder order (om_at empty_PriceLevel p lvls) h;
     Some (om_set (price_before s) p lvl lvls, h1)
   }"

definition OrderBook_addOrder ::
  "ptr \<Rightarrow> OrderBook \<Rightarrow> Order slotmem \<Rightarrow> (bool \<times> OrderBook \<times> Order slotmem) option" where
  "OrderBook_addOrder order b h =
     (case order of
        None \<Rightarrow> Some (False, b, h)
      | Some a \<Rightarrow> do {
          x \<leftarrow> deref h order;
          if m_orderMap b (ord_orderId x) \<noteq> None then Some (False, b, h)
          else do {
            (b1, h1) \<leftarrow>
              (if ord_side x = BUY
               then do { (lvls, h1) \<leftarrow> levels_addOrder BUY (ord_price x) order (m_bids b) h;
                         Some (b\<lparr>m_bids := lvls\<rparr>, h1) }
               else do { (lvls, h1) \<leftarrow> levels_addOrder SELL (ord_price x) order (m_asks b) h;
                         Some (b\<lparr>m_asks := lvls\<rparr>, h1) });
            x1 \<leftarrow> deref h1 order;
            Some (True, b1\<lparr>m_orderMap := (m_orderMap b1)(ord_orderId x1 \<mapsto> a)\<rparr>, h1)
          }
        })"

text \<open>Find the level by price, unlink the order, erase the level if it became empty.\<close>

definition levels_removeOrder ::
  "Side \<Rightarrow> u32 \<Rightarrow> ptr \<Rightarrow> (u32, PriceLevel) omap \<Rightarrow> Order slotmem \<Rightarrow>
   ((u32, PriceLevel) omap \<times> Order slotmem) option" where
  "levels_removeOrder s p order lvls h =
     (case map_of lvls p of
        None \<Rightarrow> Some (lvls, h)
      | Some lvl \<Rightarrow> do {
          (lvl1, h1) \<leftarrow> PriceLevel_removeOrder order lvl h;
          Some (if isEmpty lvl1 then om_erase p lvls else om_set (price_before s) p lvl1 lvls, h1)
        })"

definition OrderBook_removeOrder ::
  "ptr \<Rightarrow> OrderBook \<Rightarrow> Order slotmem \<Rightarrow> (OrderBook \<times> Order slotmem) option" where
  "OrderBook_removeOrder order b h =
     (case order of
        None \<Rightarrow> Some (b, h)
      | Some a \<Rightarrow> do {
          x \<leftarrow> deref h order;
          (b1, h1) \<leftarrow>
            (if ord_side x = BUY
             then do { (lvls, h1) \<leftarrow> levels_removeOrder BUY (ord_price x) order (m_bids b) h;
                       Some (b\<lparr>m_bids := lvls\<rparr>, h1) }
             else do { (lvls, h1) \<leftarrow> levels_removeOrder SELL (ord_price x) order (m_asks b) h;
                       Some (b\<lparr>m_asks := lvls\<rparr>, h1) });
          x1 \<leftarrow> deref h1 order;
          Some (b1\<lparr>m_orderMap := (m_orderMap b1)(ord_orderId x1 := None)\<rparr>, h1)
        })"

definition OrderBook_cancelOrder ::
  "u64 \<Rightarrow> OrderBook \<Rightarrow> Order slotmem \<Rightarrow> (ptr \<times> OrderBook \<times> Order slotmem) option" where
  "OrderBook_cancelOrder orderId b h =
     (case m_orderMap b orderId of
        None \<Rightarrow> Some (nullptr, b, h)
      | Some a \<Rightarrow> do {
          (b1, h1) \<leftarrow> OrderBook_removeOrder (Some a) b h;
          Some (Some a, b1, h1)
        })"

definition containsOrder :: "u64 \<Rightarrow> OrderBook \<Rightarrow> bool" where
  "containsOrder orderId b \<longleftrightarrow> m_orderMap b orderId \<noteq> None"

definition getBestBid :: "OrderBook \<Rightarrow> u32" where
  "getBestBid b = (case om_begin (m_bids b) of None \<Rightarrow> 0 | Some (p, _) \<Rightarrow> p)"

definition getBestAsk :: "OrderBook \<Rightarrow> u32" where
  "getBestAsk b = (case om_begin (m_asks b) of None \<Rightarrow> 0 | Some (p, _) \<Rightarrow> p)"

definition getSpread :: "OrderBook \<Rightarrow> u32" where
  "getSpread b =
     (let bid = getBestBid b; ask = getBestAsk b
      in if bid > 0 \<and> ask > 0 \<and> ask \<ge> bid then ask - bid else 0)"

definition getBestBidQty :: "OrderBook \<Rightarrow> u64" where
  "getBestBidQty b = (case om_begin (m_bids b) of None \<Rightarrow> 0 | Some (_, lvl) \<Rightarrow> getTotalQty lvl)"

definition getBestAskQty :: "OrderBook \<Rightarrow> u64" where
  "getBestAskQty b = (case om_begin (m_asks b) of None \<Rightarrow> 0 | Some (_, lvl) \<Rightarrow> getTotalQty lvl)"

definition getBidLevel :: "u32 \<Rightarrow> OrderBook \<Rightarrow> PriceLevel option" where
  "getBidLevel p b = map_of (m_bids b) p"

definition getAskLevel :: "u32 \<Rightarrow> OrderBook \<Rightarrow> PriceLevel option" where
  "getAskLevel p b = map_of (m_asks b) p"

interpretation bid_map: key_order "price_before BUY"
  by unfold_locales auto

interpretation ask_map: key_order "price_before SELL"
  by unfold_locales auto

interpretation side_map: key_order "price_before s" for s
  by (cases s) (simp_all add: bid_map.key_order_axioms ask_map.key_order_axioms)

section \<open>Ladders\<close>

type_synonym ladder = "(u32, addr list) omap"

definition addrs :: "ladder \<Rightarrow> addr list" where
  "addrs g = concat (map snd g)"

lemma addrs_simps [simp]: "addrs [] = []" "addrs ((p, xs) # g) = xs @ addrs g"
  "addrs (g1 @ g2) = addrs g1 @ addrs g2"
  by (simp_all add: addrs_def)

definition rest_ok :: "Side \<Rightarrow> u32 \<Rightarrow> Order \<Rightarrow> bool" where
  "rest_ok s p x \<longleftrightarrow> ord_side x = s \<and> ord_price x = p \<and> p \<noteq> 0"

lemma rest_ok_strip: "strip x = strip y \<Longrightarrow> rest_ok s p x = rest_ok s p y"
  by (auto simp: rest_ok_def dest: strip_eqD)

lemma relinked_rest_ok: "relinked A h h' \<Longrightarrow> rest_ok s p (obj h' b) = rest_ok s p (obj h b)"
  by (rule rest_ok_strip) (rule relinked_strip)

definition rung_rep :: "Side \<Rightarrow> Order slotmem \<Rightarrow> u32 \<times> PriceLevel \<Rightarrow> u32 \<times> addr list \<Rightarrow> bool" where
  "rung_rep s h e r \<longleftrightarrow> fst e = fst r \<and> snd r \<noteq> [] \<and> level_rep h (snd e) (snd r) \<and>
     (\<forall>a\<in>set (snd r). rest_ok s (fst r) (obj h a))"

definition ladder_rep :: "Side \<Rightarrow> Order slotmem \<Rightarrow> (u32, PriceLevel) omap \<Rightarrow> ladder \<Rightarrow> bool" where
  "ladder_rep s h lvls g \<longleftrightarrow>
     sorted_wrt (price_before s) (map fst g) \<and> list_all2 (rung_rep s h) lvls g"

lemma rung_rep_cong:
  "(\<And>a. a \<in> set (snd r) \<Longrightarrow> h' a = h a) \<Longrightarrow> rung_rep s h' e r = rung_rep s h e r"
  by (auto simp: rung_rep_def level_rep_cong [of "snd r" h' h] obj_def)

lemma rungs_cong:
  assumes "\<And>a. a \<in> set (addrs g) \<Longrightarrow> h' a = h a"
  shows "list_all2 (rung_rep s h') lvls g = list_all2 (rung_rep s h) lvls g"
proof (rule list.rel_cong)
  fix e r
  assume "r \<in> set g"
  then have "set (snd r) \<subseteq> set (addrs g)"
    by (auto simp: addrs_def)
  then show "rung_rep s h' e r = rung_rep s h e r"
    using assms by (intro rung_rep_cong) auto
qed simp_all

lemma ladder_rep_cong:
  assumes "\<And>a. a \<in> set (addrs g) \<Longrightarrow> h' a = h a"
  shows "ladder_rep s h' lvls g = ladder_rep s h lvls g"
proof -
  have "list_all2 (rung_rep s h') lvls g = list_all2 (rung_rep s h) lvls g"
    using assms by (rule rungs_cong)
  then show ?thesis
    by (simp add: ladder_rep_def)
qed

lemma ladder_rep_keys: "ladder_rep s h lvls g \<Longrightarrow> map fst lvls = map fst g"
  unfolding ladder_rep_def
  by (auto simp: rung_rep_def list_all2_conv_all_nth intro: nth_equalityI)

lemma ladder_rep_rung:
  assumes "ladder_rep s h lvls g" and "a \<in> set (addrs g)"
  obtains p lvl xs where "(p, lvl) \<in> set lvls" "(p, xs) \<in> set g" "a \<in> set xs"
    "rung_rep s h (p, lvl) (p, xs)"
proof -
  obtain r where r: "r \<in> set g" "a \<in> set (snd r)"
    using assms(2) by (auto simp: addrs_def)
  then obtain e where "e \<in> set lvls" "rung_rep s h e r"
    using assms(1) list_all2_right unfolding ladder_rep_def by metis
  then show ?thesis
    using r that [of "fst r" "snd e" "snd r"] by (cases e; cases r) (auto simp: rung_rep_def)
qed

lemma ladder_rep_live: "ladder_rep s h lvls g \<Longrightarrow> set (addrs g) \<subseteq> live h"
  by (fastforce elim: ladder_rep_rung simp: rung_rep_def dest: level_rep_live)

lemma ladder_rep_rest:
  assumes "ladder_rep s h lvls g" and "a \<in> set (addrs g)"
  shows "rest_ok s (ord_price (obj h a)) (obj h a)"
  using ladder_rep_rung [OF assms] by (metis rest_ok_def rung_rep_def fst_conv snd_conv)

lemma ladder_split:
  assumes "ladder_rep s h lvls g" and "map_of lvls p = Some lvl"
  obtains l1 l2 g1 g2 xs where "lvls = l1 @ (p, lvl) # l2" "g = g1 @ (p, xs) # g2"
    "list_all2 (rung_rep s h) l1 g1" "list_all2 (rung_rep s h) l2 g2" "rung_rep s h (p, lvl) (p, xs)"
proof -
  obtain l1 l2 where l: "lvls = l1 @ (p, lvl) # l2"
    using side_map.map_of_split [OF assms(2)] by blast
  then obtain g1 r g2 where "g = g1 @ r # g2" "list_all2 (rung_rep s h) l1 g1"
      "rung_rep s h (p, lvl) r" "list_all2 (rung_rep s h) l2 g2"
    using assms(1) by (auto simp: ladder_rep_def list_all2_append1 list_all2_Cons1)
  then show ?thesis
    using l that [of l1 l2 g1 "snd r" g2] by (cases r) (auto simp: rung_rep_def)
qed

lemma ladder_missing:
  assumes "ladder_rep s h lvls g" and "map_of lvls p = None"
  shows "p \<notin> fst ` set lvls" and "p \<notin> fst ` set g"
proof -
  show "p \<notin> fst ` set lvls"
    using assms(2) by (simp add: map_of_eq_None_iff)
  then show "p \<notin> fst ` set g"
    using ladder_rep_keys [OF assms(1)] by (metis list.set_map)
qed

section \<open>Adding an order to a ladder\<close>

definition ladder_insert :: "Side \<Rightarrow> u32 \<Rightarrow> addr \<Rightarrow> ladder \<Rightarrow> ladder" where
  "ladder_insert s p a g = om_set (price_before s) p (om_at [] p g @ [a]) g"

lemma rung_rep_relinked:
  assumes "rung_rep s h (p, lvl) (p, xs)" and "relinked A h h'" and "level_rep h' lvl' ys"
    and "ys \<noteq> []" and "\<forall>a\<in>set ys. rest_ok s p (obj h a)"
  shows "rung_rep s h' (p, lvl') (p, ys)"
  using assms by (simp add: rung_rep_def relinked_rest_ok [OF assms(2)])

lemma rungs_relinked:
  assumes "list_all2 (rung_rep s h) lvls g" and "relinked A h h'" and "set (addrs g) \<inter> A = {}"
  shows "list_all2 (rung_rep s h') lvls g"
proof -
  have "list_all2 (rung_rep s h') lvls g = list_all2 (rung_rep s h) lvls g"
    using assms(2,3) by (intro rungs_cong) (auto simp: relinked_def)
  with assms(1) show ?thesis by simp
qed

lemma levels_addOrder_present:
  assumes rep: "ladder_rep s h lvls g" and find: "map_of lvls p = Some lvl"
    and a: "a \<in> live h" "a \<notin> set (addrs g)" "rest_ok s p (obj h a)"
    and dist: "distinct (addrs g)" and room: "length (addrs g) < 4294967295"
  shows "\<exists>lvls' h'. levels_addOrder s p (Some a) lvls h = Some (lvls', h') \<and>
           ladder_rep s h' lvls' (ladder_insert s p a g) \<and> relinked (insert a (set (addrs g))) h h'"
proof -
  obtain l1 l2 g1 g2 xs where l: "lvls = l1 @ (p, lvl) # l2" and g: "g = g1 @ (p, xs) # g2"
    and r1: "list_all2 (rung_rep s h) l1 g1" and r2: "list_all2 (rung_rep s h) l2 g2"
    and r: "rung_rep s h (p, lvl) (p, xs)"
    using ladder_split [OF rep find] .
  have lv: "level_rep h lvl xs" "\<forall>a\<in>set xs. rest_ok s p (obj h a)"
    using r by (auto simp: rung_rep_def)
  obtain lvl' h' where add: "PriceLevel_addOrder (Some a) lvl h = Some (lvl', h')"
      "level_rep h' lvl' (xs @ [a])" and rl: "relinked (insert a (set xs)) h h'"
    using PriceLevel_addOrder_rep [OF lv(1) a(1)] a(2) room g by auto
  have sg: "sorted_wrt (price_before s) (map fst g)"
    using rep by (simp add: ladder_rep_def)
  then have sl: "sorted_wrt (price_before s) (map fst lvls)"
    using ladder_rep_keys [OF rep] by simp
  have "p \<notin> fst ` set g1"
    using side_map.sorted_distinct [OF sg] g by auto
  then have at: "om_at [] p g = xs"
    by (simp add: om_at_def g map_add_def map_of_eq_None_iff [THEN iffD2])
  have set: "om_set (price_before s) p lvl' lvls = l1 @ (p, lvl') # l2"
      "ladder_insert s p a g = g1 @ (p, xs @ [a]) # g2"
    using sl sg l g at side_map.om_set_present by (auto simp: ladder_insert_def)
  have dj: "set (addrs g1) \<inter> insert a (set xs) = {}" "set (addrs g2) \<inter> insert a (set xs) = {}"
    using dist a(2) g by auto
  have "list_all2 (rung_rep s h') (l1 @ (p, lvl') # l2) (g1 @ (p, xs @ [a]) # g2)"
    using rungs_relinked [OF r1 rl dj(1)] rungs_relinked [OF r2 rl dj(2)]
      rung_rep_relinked [OF r rl add(2)] lv(2) a(3) by (auto intro: list_all2_appendI)
  moreover have "relinked (insert a (set (addrs g))) h h'"
    using ladder_rep_live [OF rep] a(1) g by (intro relinked_mono [OF rl]) auto
  ultimately show ?thesis
    using add(1) find set sg g by (auto simp: levels_addOrder_def om_at_def ladder_rep_def)
qed

lemma PriceLevel_addOrder_first:
  assumes "a \<in> live h"
  shows "\<exists>lvl' h'. PriceLevel_addOrder (Some a) empty_PriceLevel h = Some (lvl', h') \<and>
           level_rep h' lvl' [a] \<and> relinked {a} h h'"
  using PriceLevel_addOrder_rep [OF level_rep_empty assms] by simp

lemma levels_addOrder_absent:
  assumes rep: "ladder_rep s h lvls g" and find: "map_of lvls p = None"
    and a: "a \<in> live h" "a \<notin> set (addrs g)" "rest_ok s p (obj h a)"
  shows "\<exists>lvls' h'. levels_addOrder s p (Some a) lvls h = Some (lvls', h') \<and>
           ladder_rep s h' lvls' (ladder_insert s p a g) \<and> relinked (insert a (set (addrs g))) h h'"
proof -
  have sg: "sorted_wrt (price_before s) (map fst g)" and all: "list_all2 (rung_rep s h) lvls g"
    using rep by (simp_all add: ladder_rep_def)
  have keys: "map fst lvls = map fst g"
    using ladder_rep_keys [OF rep] .
  obtain lvl' h' where add: "PriceLevel_addOrder (Some a) empty_PriceLevel h = Some (lvl', h')"
      "level_rep h' lvl' [a]" and rl: "relinked {a} h h'"
    using PriceLevel_addOrder_first [OF a(1)] by blast
  have new: "rung_rep s h' (p, lvl') (p, [a])"
    using add(2) a(3) by (simp add: rung_rep_def relinked_rest_ok [OF rl])
  have old: "list_all2 (rung_rep s h') lvls g"
    using rungs_relinked [OF all rl] a(2) by simp
  have at: "om_at [] p g = []"
    using ladder_missing(2) [OF rep find] by (simp add: om_at_def map_of_eq_None_iff [THEN iffD2])
  have "list_all2 (rung_rep s h') (om_set (price_before s) p lvl' lvls) (om_set (price_before s) p [a] g)"
    using old keys ladder_missing(1) [OF rep find] new
    by (induction lvls g rule: list_all2_induct) auto
  moreover have "relinked (insert a (set (addrs g))) h h'"
    using ladder_rep_live [OF rep] a(1) by (intro relinked_mono [OF rl]) auto
  ultimately show ?thesis
    using add(1) find at sg side_map.om_set_sorted [OF sg]
    by (auto simp: levels_addOrder_def om_at_def ladder_rep_def ladder_insert_def)
qed

lemmas levels_addOrder_rep_cases = levels_addOrder_present levels_addOrder_absent

lemma levels_addOrder_rep:
  assumes "ladder_rep s h lvls g"
    and "a \<in> live h" "a \<notin> set (addrs g)" "rest_ok s p (obj h a)"
    and "distinct (addrs g)" and "length (addrs g) < 4294967295"
  shows "\<exists>lvls' h'. levels_addOrder s p (Some a) lvls h = Some (lvls', h') \<and>
           ladder_rep s h' lvls' (ladder_insert s p a g) \<and> relinked (insert a (set (addrs g))) h h'"
  using assms levels_addOrder_rep_cases by (cases "map_of lvls p") blast+

section \<open>Removing an order from a ladder\<close>

definition ladder_drop :: "addr \<Rightarrow> ladder \<Rightarrow> ladder" where
  "ladder_drop a g = filter (\<lambda>r. snd r \<noteq> []) (map (\<lambda>r. (fst r, filter (\<lambda>b. b \<noteq> a) (snd r))) g)"

lemma ladder_drop_simps [simp]:
  "ladder_drop a [] = []" "ladder_drop a (g1 @ g2) = ladder_drop a g1 @ ladder_drop a g2"
  "ladder_drop a ((p, xs) # g) =
     (if filter (\<lambda>b. b \<noteq> a) xs = [] then [] else [(p, filter (\<lambda>b. b \<noteq> a) xs)]) @ ladder_drop a g"
  by (auto simp: ladder_drop_def)

lemma addrs_ladder_drop: "addrs (ladder_drop a g) = filter (\<lambda>b. b \<noteq> a) (addrs g)"
proof (induction g)
  case (Cons r g)
  then show ?case by (cases r) auto
qed simp

lemma ladder_drop_other:
  "a \<notin> set (addrs g) \<Longrightarrow> \<forall>r\<in>set g. snd r \<noteq> [] \<Longrightarrow> ladder_drop a g = g"
proof (induction g)
  case (Cons r g)
  moreover have "filter (\<lambda>b. b \<noteq> a) (snd r) = snd r"
    using Cons.prems(1) by (cases r) (auto simp: filter_id_conv)
  ultimately show ?case by (cases r) auto
qed simp

lemma rungs_nonempty: "list_all2 (rung_rep s h) lvls g \<Longrightarrow> \<forall>r\<in>set g. snd r \<noteq> []"
  by (auto dest!: list_all2_right simp: rung_rep_def)

lemma ladder_find:
  assumes rep: "ladder_rep s h lvls g" and a: "a \<in> set (addrs g)"
  obtains lvl l1 l2 g1 g2 as bs p where "p = ord_price (obj h a)" "map_of lvls p = Some lvl"
    "lvls = l1 @ (p, lvl) # l2" "g = g1 @ (p, as @ a # bs) # g2"
    "list_all2 (rung_rep s h) l1 g1" "list_all2 (rung_rep s h) l2 g2"
    "rung_rep s h (p, lvl) (p, as @ a # bs)"
proof -
  obtain p lvl xs where e: "(p, lvl) \<in> set lvls" "(p, xs) \<in> set g" "a \<in> set xs"
      "rung_rep s h (p, lvl) (p, xs)"
    using ladder_rep_rung [OF rep a] .
  have p: "p = ord_price (obj h a)"
    using e(3,4) by (auto simp: rung_rep_def rest_ok_def)
  have dk: "distinct (map fst g)"
    using rep side_map.sorted_distinct unfolding ladder_rep_def by blast
  then have find: "map_of lvls p = Some lvl"
    using e(1) ladder_rep_keys [OF rep] by (simp add: map_of_is_SomeI)
  obtain l1 l2 g1 g2 ys where sp: "lvls = l1 @ (p, lvl) # l2" "g = g1 @ (p, ys) # g2"
    "list_all2 (rung_rep s h) l1 g1" "list_all2 (rung_rep s h) l2 g2" "rung_rep s h (p, lvl) (p, ys)"
    using ladder_split [OF rep find] .
  have "ys = xs"
    using sp(2) e(2) dk by (auto simp: image_iff)
  then obtain as bs where "ys = as @ a # bs"
    using e(3) by (meson split_list)
  then show ?thesis
    using that p find sp by blast
qed

lemma levels_removeOrder_rep:
  assumes rep: "ladder_rep s h lvls g" and a: "a \<in> set (addrs g)" and dist: "distinct (addrs g)"
  shows "\<exists>lvls' h'. levels_removeOrder s (ord_price (obj h a)) (Some a) lvls h = Some (lvls', h') \<and>
           ladder_rep s h' lvls' (ladder_drop a g) \<and> relinked (set (addrs g)) h h'"
proof -
  obtain lvl l1 l2 g1 g2 as bs p where p: "p = ord_price (obj h a)" "map_of lvls p = Some lvl"
    and l: "lvls = l1 @ (p, lvl) # l2" and g: "g = g1 @ (p, as @ a # bs) # g2"
    and r1: "list_all2 (rung_rep s h) l1 g1" and r2: "list_all2 (rung_rep s h) l2 g2"
    and r: "rung_rep s h (p, lvl) (p, as @ a # bs)"
    using ladder_find [OF rep a] .
  have lv: "level_rep h lvl (as @ a # bs)" "\<forall>b\<in>set (as @ a # bs). rest_ok s p (obj h b)"
    using r by (auto simp: rung_rep_def)
  obtain lvl' h' where rm: "PriceLevel_removeOrder (Some a) lvl h = Some (lvl', h')"
      "level_rep h' lvl' (as @ bs)" and rl: "relinked (set (as @ a # bs)) h h'"
    using PriceLevel_removeOrder_rep [OF lv(1)] by blast
  have sg: "sorted_wrt (price_before s) (map fst g)"
    using rep by (simp add: ladder_rep_def)
  then have sl: "sorted_wrt (price_before s) (map fst lvls)"
    using ladder_rep_keys [OF rep] by simp
  have dj: "set (addrs g1) \<inter> set (as @ a # bs) = {}" "set (addrs g2) \<inter> set (as @ a # bs) = {}"
    using dist g by auto
  have drop: "ladder_drop a g = g1 @ (if as @ bs = [] then [] else [(p, as @ bs)]) @ g2"
    using g dist dj ladder_drop_other [of a g1] ladder_drop_other [of a g2]
      rungs_nonempty [OF r1] rungs_nonempty [OF r2] filter_neq_mid [of as a bs] by auto
  have lvls': "(if isEmpty lvl' then om_erase p lvls else om_set (price_before s) p lvl' lvls) =
      l1 @ (if as @ bs = [] then [] else [(p, lvl')]) @ l2"
    using side_map.om_erase_mid [of s l1 p lvl l2] side_map.om_set_present [of s l1 p lvl l2 lvl']
      sl l level_rep_isEmpty [OF rm(2)] by auto
  have "as @ bs \<noteq> [] \<Longrightarrow> rung_rep s h' (p, lvl') (p, as @ bs)"
    using rung_rep_relinked [OF r rl rm(2)] lv(2) by auto
  then have "list_all2 (rung_rep s h') (l1 @ (if as @ bs = [] then [] else [(p, lvl')]) @ l2)
      (g1 @ (if as @ bs = [] then [] else [(p, as @ bs)]) @ g2)"
    using rungs_relinked [OF r1 rl dj(1)] rungs_relinked [OF r2 rl dj(2)]
    by (auto intro!: list_all2_appendI)
  moreover have "sorted_wrt (price_before s) (map fst (ladder_drop a g))"
    using sg g unfolding drop by (auto simp: sorted_wrt_append)
  moreover have "relinked (set (addrs g)) h h'"
    using ladder_rep_live [OF rep] g by (intro relinked_mono [OF rl]) auto
  ultimately show ?thesis
    using p rm(1) lvls' drop by (auto simp: levels_removeOrder_def ladder_rep_def)
qed

section \<open>The book\<close>

fun side_levels :: "Side \<Rightarrow> OrderBook \<Rightarrow> (u32, PriceLevel) omap" where
  "side_levels BUY b = m_bids b"
| "side_levels SELL b = m_asks b"

fun set_side_levels :: "Side \<Rightarrow> (u32, PriceLevel) omap \<Rightarrow> OrderBook \<Rightarrow> OrderBook" where
  "set_side_levels BUY lvls b = b\<lparr>m_bids := lvls\<rparr>"
| "set_side_levels SELL lvls b = b\<lparr>m_asks := lvls\<rparr>"

lemma side_levels_set [simp]:
  "side_levels s (set_side_levels t lvls b) = (if s = t then lvls else side_levels s b)"
  "m_orderMap (set_side_levels t lvls b) = m_orderMap b"
  "side_levels s (b\<lparr>m_orderMap := m\<rparr>) = side_levels s b"
  by (cases s; cases t; simp)+

definition book_addrs :: "(Side \<Rightarrow> ladder) \<Rightarrow> addr list" where
  "book_addrs G = addrs (G BUY) @ addrs (G SELL)"

definition book_rep :: "Order slotmem \<Rightarrow> OrderBook \<Rightarrow> (Side \<Rightarrow> ladder) \<Rightarrow> bool" where
  "book_rep h b G \<longleftrightarrow>
     (\<forall>s. ladder_rep s h (side_levels s b) (G s)) \<and> distinct (book_addrs G) \<and>
     (\<forall>i a. m_orderMap b i = Some a \<longleftrightarrow> a \<in> set (book_addrs G) \<and> ord_orderId (obj h a) = i)"

lemma in_book_addrs: "a \<in> set (book_addrs G) \<longleftrightarrow> (\<exists>s. a \<in> set (addrs (G s)))"
proof -
  have "(\<exists>s. P s) \<longleftrightarrow> P BUY \<or> P SELL" for P :: "Side \<Rightarrow> bool"
    by (metis Side.exhaust)
  then show ?thesis
    by (simp add: book_addrs_def)
qed

lemma book_rep_empty: "book_rep h empty_OrderBook (\<lambda>_. [])"
proof -
  have "side_levels s empty_OrderBook = []" for s
    by (cases s) (simp_all add: empty_OrderBook_def)
  then show ?thesis
    by (simp add: book_rep_def book_addrs_def ladder_rep_def) (simp add: empty_OrderBook_def)
qed

lemma book_rep_ladder: "book_rep h b G \<Longrightarrow> ladder_rep s h (side_levels s b) (G s)"
  by (simp add: book_rep_def)

lemma book_rep_live: "book_rep h b G \<Longrightarrow> set (book_addrs G) \<subseteq> live h"
  by (meson book_rep_ladder in_book_addrs ladder_rep_live subset_iff)

lemma book_rep_map:
  "book_rep h b G \<Longrightarrow> m_orderMap b i = Some a \<longleftrightarrow> a \<in> set (book_addrs G) \<and> ord_orderId (obj h a) = i"
  by (simp add: book_rep_def)

lemma book_rep_distinct_side: "book_rep h b G \<Longrightarrow> distinct (addrs (G s))"
  by (cases s) (auto simp: book_rep_def book_addrs_def)

lemma book_rep_side:
  "book_rep h b G \<Longrightarrow> a \<in> set (addrs (G s)) \<Longrightarrow> ord_side (obj h a) = s \<and> ord_price (obj h a) \<noteq> 0"
  using ladder_rep_rest [OF book_rep_ladder] by (auto simp: rest_ok_def)

lemma book_rep_other_side:
  "book_rep h b G \<Longrightarrow> a \<in> set (addrs (G s)) \<Longrightarrow> t \<noteq> s \<Longrightarrow> a \<notin> set (addrs (G t))"
  using book_rep_side by metis

lemma book_rep_length_side: "length (addrs (G s)) \<le> length (book_addrs G)"
  by (cases s) (simp_all add: book_addrs_def)

lemma book_rep_cong:
  assumes "\<And>a. a \<in> set (book_addrs G) \<Longrightarrow> h' a = h a"
  shows "book_rep h' b G = book_rep h b G"
proof -
  have "ladder_rep s h' (side_levels s b) (G s) = ladder_rep s h (side_levels s b) (G s)" for s
    using assms by (intro ladder_rep_cong) (auto simp: in_book_addrs)
  moreover have "a \<in> set (book_addrs G) \<Longrightarrow> obj h' a = obj h a" for a
    using assms by (intro obj_cong) auto
  ultimately show ?thesis
    by (simp add: book_rep_def cong: conj_cong)
qed

lemma addOrder_by_side:
  "OrderBook_addOrder (Some a) b h = do {
     x \<leftarrow> deref h (Some a);
     if m_orderMap b (ord_orderId x) \<noteq> None then Some (False, b, h)
     else do {
       (lvls, h1) \<leftarrow> levels_addOrder (ord_side x) (ord_price x) (Some a) (side_levels (ord_side x) b) h;
       x1 \<leftarrow> deref h1 (Some a);
       Some (True, (set_side_levels (ord_side x) lvls b)
               \<lparr>m_orderMap := (m_orderMap b)(ord_orderId x1 \<mapsto> a)\<rparr>, h1)
     }
   }"
proof (cases "deref h (Some a)")
  case (Some x)
  then show ?thesis
    by (cases "ord_side x"; cases "levels_addOrder (ord_side x) (ord_price x) (Some a) (side_levels (ord_side x) b) h")
       (auto simp: OrderBook_addOrder_def simp del: deref.simps)
qed (simp add: OrderBook_addOrder_def del: deref.simps)

lemma removeOrder_by_side:
  "OrderBook_removeOrder (Some a) b h = do {
     x \<leftarrow> deref h (Some a);
     (lvls, h1) \<leftarrow> levels_removeOrder (ord_side x) (ord_price x) (Some a) (side_levels (ord_side x) b) h;
     x1 \<leftarrow> deref h1 (Some a);
     Some ((set_side_levels (ord_side x) lvls b)
             \<lparr>m_orderMap := (m_orderMap b)(ord_orderId x1 := None)\<rparr>, h1)
   }"
proof (cases "deref h (Some a)")
  case (Some x)
  then show ?thesis
    by (cases "ord_side x"; cases "levels_removeOrder (ord_side x) (ord_price x) (Some a) (side_levels (ord_side x) b) h")
       (auto simp: OrderBook_removeOrder_def simp del: deref.simps)
qed (simp add: OrderBook_removeOrder_def del: deref.simps)

subsection \<open>The operations on the represented book\<close>

lemma addrs_ladder_insert:
  assumes "sorted_wrt (price_before s) (map fst g)"
  shows "set (addrs (ladder_insert s p a g)) = insert a (set (addrs g))"
    and "distinct (addrs g) \<Longrightarrow> a \<notin> set (addrs g) \<Longrightarrow> distinct (addrs (ladder_insert s p a g))"
proof -
  have "\<exists>g1 g2. addrs (ladder_insert s p a g) = g1 @ a # g2 \<and> addrs g = g1 @ g2"
  proof (cases "map_of g p")
    case None
    then have ins: "ladder_insert s p a g = om_set (price_before s) p [a] g"
      by (simp add: ladder_insert_def om_at_def)
    have "p \<notin> fst ` set g"
      using None by (simp add: map_of_eq_None_iff)
    from side_map.om_set_absent [OF assms this, of "[a]"] obtain m1 m2
      where g: "g = m1 @ m2" and "om_set (price_before s) p [a] g = m1 @ (p, [a]) # m2" by blast
    then have "ladder_insert s p a g = m1 @ (p, [a]) # m2"
      using ins by simp
    then show ?thesis
      using g by (intro exI [of _ "addrs m1"] exI [of _ "addrs m2"]) simp
  next
    case (Some xs)
    then have ins: "ladder_insert s p a g = om_set (price_before s) p (xs @ [a]) g"
      by (simp add: ladder_insert_def om_at_def)
    obtain m1 m2 where g: "g = m1 @ (p, xs) # m2"
      using side_map.map_of_split [OF Some] by blast
    then have "ladder_insert s p a g = m1 @ (p, xs @ [a]) # m2"
      using ins assms side_map.om_set_present [of s m1 p xs m2] by simp
    then show ?thesis
      using g by (intro exI [of _ "addrs m1 @ xs"] exI [of _ "addrs m2"]) simp
  qed
  then show "set (addrs (ladder_insert s p a g)) = insert a (set (addrs g))"
    and "distinct (addrs g) \<Longrightarrow> a \<notin> set (addrs g) \<Longrightarrow> distinct (addrs (ladder_insert s p a g))"
    by auto
qed

lemma book_addrs_upd:
  assumes "set (addrs g) = insert a (set (addrs (G s)))" and "distinct (addrs g)"
    and "distinct (book_addrs G)" and "a \<notin> set (book_addrs G)"
  shows "set (book_addrs (G(s := g))) = insert a (set (book_addrs G))" "distinct (book_addrs (G(s := g)))"
  using assms by (cases s; auto simp: book_addrs_def)+

lemma OrderBook_addOrder_rep:
  assumes rep: "book_rep h b G" and a: "a \<in> live h" "a \<notin> set (book_addrs G)"
    and ok: "ord_price (obj h a) \<noteq> 0" and new: "m_orderMap b (ord_orderId (obj h a)) = None"
    and room: "length (book_addrs G) < 4294967295"
  defines "s \<equiv> ord_side (obj h a)" and "p \<equiv> ord_price (obj h a)"
  shows "\<exists>b' h'. OrderBook_addOrder (Some a) b h = Some (True, b', h') \<and>
           book_rep h' b' (G(s := ladder_insert s p a (G s))) \<and>
           relinked (insert a (set (book_addrs G))) h h'"
proof -
  let ?g = "ladder_insert s p a (G s)"
  have lad: "ladder_rep s h (side_levels s b) (G s)"
    using book_rep_ladder [OF rep] .
  have nin: "a \<notin> set (addrs (G s))"
    using a(2) in_book_addrs by blast
  have "length (addrs (G s)) < 4294967295"
    using room book_rep_length_side [of G s] by linarith
  moreover have "rest_ok s p (obj h a)"
    using ok by (simp add: rest_ok_def s_def p_def)
  ultimately obtain lvls' h' where add: "levels_addOrder s p (Some a) (side_levels s b) h = Some (lvls', h')"
      "ladder_rep s h' lvls' ?g" and rl: "relinked (insert a (set (addrs (G s)))) h h'"
    using levels_addOrder_rep [OF lad a(1) nin] book_rep_distinct_side [OF rep] by blast
  have live: "live h' = live h" and dat: "strip (obj h' c) = strip (obj h c)" for c
    using relinked_live [OF rl] relinked_strip [OF rl] .
  let ?b = "(set_side_levels s lvls' b)\<lparr>m_orderMap := (m_orderMap b)(ord_orderId (obj h a) \<mapsto> a)\<rparr>"
  have op: "OrderBook_addOrder (Some a) b h = Some (True, ?b, h')"
    using a(1) new add(1) live strip_eqD(1) [OF dat [of a]]
    by (simp add: addOrder_by_side deref_live s_def p_def del: deref.simps)
  have sorted: "sorted_wrt (price_before s) (map fst (G s))"
    using lad by (simp add: ladder_rep_def)
  have dG: "distinct (book_addrs G)"
    using rep by (simp add: book_rep_def)
  have ba: "set (book_addrs (G(s := ?g))) = insert a (set (book_addrs G))"
      "distinct (book_addrs (G(s := ?g)))"
    using book_addrs_upd [OF addrs_ladder_insert(1) [OF sorted]
        addrs_ladder_insert(2) [OF sorted book_rep_distinct_side [OF rep] nin] dG a(2)] by blast+
  have "ladder_rep t h' (side_levels t ?b) ((G(s := ?g)) t)" for t
  proof (cases "t = s")
    case True
    then show ?thesis using add(2) by simp
  next
    case False
    then have "set (addrs (G t)) \<inter> insert a (set (addrs (G s))) = {}"
      using a(2) book_rep_other_side [OF rep] in_book_addrs by blast
    then show ?thesis
      using False book_rep_ladder [OF rep, of t] rungs_relinked [OF _ rl]
      by (auto simp: ladder_rep_def)
  qed
  moreover have fresh: "ord_orderId (obj h c) \<noteq> ord_orderId (obj h a)" if "c \<in> set (book_addrs G)" for c
    using that new book_rep_map [OF rep] by (metis option.distinct(1))
  have "m_orderMap ?b i = Some c \<longleftrightarrow>
      c \<in> insert a (set (book_addrs G)) \<and> ord_orderId (obj h' c) = i" for i c
    using book_rep_map [OF rep, of i c] strip_eqD(1) [OF dat [of c]] fresh [of c] a(2) by auto
  ultimately have "book_rep h' ?b (G(s := ?g))"
    using ba by (simp add: book_rep_def)
  moreover have "relinked (insert a (set (book_addrs G))) h h'"
    using book_rep_live [OF rep] a(1) by (intro relinked_mono [OF rl]) (auto simp: in_book_addrs)
  ultimately show ?thesis
    using op by blast
qed

abbreviation book_drop :: "addr \<Rightarrow> (Side \<Rightarrow> ladder) \<Rightarrow> Side \<Rightarrow> ladder" where
  "book_drop a G \<equiv> (\<lambda>s. ladder_drop a (G s))"

lemma book_addrs_drop: "book_addrs (book_drop a G) = filter (\<lambda>b. b \<noteq> a) (book_addrs G)"
  by (simp add: book_addrs_def addrs_ladder_drop)

lemma book_rep_drop_other:
  assumes "book_rep h b G" and "a \<notin> set (addrs (G t))"
  shows "ladder_drop a (G t) = G t"
  using assms(2) rungs_nonempty [of t h "side_levels t b" "G t"] book_rep_ladder [OF assms(1), of t]
  by (simp add: ladder_drop_other ladder_rep_def)

lemma OrderBook_removeOrder_rep:
  assumes rep: "book_rep h b G" and a: "a \<in> set (book_addrs G)"
  shows "\<exists>b' h'. OrderBook_removeOrder (Some a) b h = Some (b', h') \<and>
           book_rep h' b' (book_drop a G) \<and> relinked (set (book_addrs G)) h h'"
proof -
  obtain s where s: "a \<in> set (addrs (G s))"
    using a in_book_addrs by blast
  have side: "ord_side (obj h a) = s" and al: "a \<in> live h"
    using book_rep_side [OF rep s] book_rep_live [OF rep] a by auto
  obtain lvls' h' where rm: "levels_removeOrder s (ord_price (obj h a)) (Some a) (side_levels s b) h = Some (lvls', h')"
      "ladder_rep s h' lvls' (ladder_drop a (G s))" and rl: "relinked (set (addrs (G s))) h h'"
    using levels_removeOrder_rep [OF book_rep_ladder [OF rep] s book_rep_distinct_side [OF rep]] by blast
  have live: "live h' = live h" and dat: "strip (obj h' c) = strip (obj h c)" for c
    using relinked_live [OF rl] relinked_strip [OF rl] .
  let ?b = "(set_side_levels s lvls' b)\<lparr>m_orderMap := (m_orderMap b)(ord_orderId (obj h a) := None)\<rparr>"
  have op: "OrderBook_removeOrder (Some a) b h = Some (?b, h')"
    using al rm(1) side live strip_eqD(1) [OF dat [of a]]
    by (simp add: removeOrder_by_side deref_live del: deref.simps)
  have "ladder_rep t h' (side_levels t ?b) (ladder_drop a (G t))" for t
  proof (cases "t = s")
    case True
    then show ?thesis using rm(2) by simp
  next
    case False
    then have dj: "set (addrs (G t)) \<inter> set (addrs (G s)) = {}"
      using book_rep_other_side [OF rep] by blast
    then have "ladder_drop a (G t) = G t"
      using s book_rep_drop_other [OF rep] by blast
    then show ?thesis
      using False book_rep_ladder [OF rep, of t] rungs_relinked [OF _ rl dj]
      by (auto simp: ladder_rep_def)
  qed
  moreover have "m_orderMap ?b i = Some c \<longleftrightarrow>
      c \<in> set (book_addrs (book_drop a G)) \<and> ord_orderId (obj h' c) = i" for i c
  proof (cases "i = ord_orderId (obj h a)")
    case True
    have "m_orderMap b i = Some a"
      using True a book_rep_map [OF rep] by blast
    then have "\<not> (c \<in> set (book_addrs G) \<and> ord_orderId (obj h c) = i \<and> c \<noteq> a)"
      using book_rep_map [OF rep, of i c] by auto
    then show ?thesis
      using True strip_eqD(1) [OF dat [of c]] by (simp add: book_addrs_drop) blast
  next
    case False
    then show ?thesis
      using book_rep_map [OF rep, of i c] strip_eqD(1) [OF dat [of c]] by (simp add: book_addrs_drop) blast
  qed
  moreover have "distinct (book_addrs (book_drop a G))"
    using rep by (simp add: book_addrs_drop book_rep_def)
  ultimately have "book_rep h' ?b (book_drop a G)"
    by (simp add: book_rep_def)
  moreover have "relinked (set (book_addrs G)) h h'"
    using book_rep_live [OF rep] by (intro relinked_mono [OF rl]) (auto simp: in_book_addrs)
  ultimately show ?thesis
    using op by blast
qed

lemma OrderBook_cancelOrder_rep:
  assumes rep: "book_rep h b G"
  shows "m_orderMap b i = None \<Longrightarrow> OrderBook_cancelOrder i b h = Some (nullptr, b, h)"
    and "m_orderMap b i = Some a \<Longrightarrow>
      \<exists>b' h'. OrderBook_cancelOrder i b h = Some (Some a, b', h') \<and>
        book_rep h' b' (book_drop a G) \<and> relinked (set (book_addrs G)) h h'"
proof -
  assume "m_orderMap b i = Some a"
  moreover from this have "a \<in> set (book_addrs G)"
    using book_rep_map [OF rep] by blast
  from OrderBook_removeOrder_rep [OF rep this]
  show "\<exists>b' h'. OrderBook_cancelOrder i b h = Some (Some a, b', h') \<and>
      book_rep h' b' (book_drop a G) \<and> relinked (set (book_addrs G)) h h'"
    using calculation by (auto simp: OrderBook_cancelOrder_def)
qed (simp add: OrderBook_cancelOrder_def)

text \<open>The best level of a side, as the matching loop reads and updates it.\<close>

lemma book_rep_best:
  assumes rep: "book_rep h b G" and G: "G s = (p, a # xs) # g"
  obtains lvl lvls where "side_levels s b = (p, lvl) # lvls" "level_rep h lvl (a # xs)" "p \<noteq> 0"
    "ord_price (obj h a) = p" "front lvl = Some a" "a \<in> live h"
proof -
  obtain e lvls where "side_levels s b = e # lvls" "rung_rep s h e (p, a # xs)"
    using book_rep_ladder [OF rep, of s] G by (auto simp: ladder_rep_def list_all2_Cons2)
  then show ?thesis
    using that [of "snd e" lvls] level_rep_live level_rep_front
    by (cases e) (fastforce simp: rung_rep_def rest_ok_def)
qed

lemma book_rep_fill_front:
  assumes rep: "book_rep h b G" and G: "G s = (p, a # xs) # g"
    and lvls: "side_levels s b = (p, lvl) # lvls" and q: "q \<le> remainingQty (obj h a)"
  shows "book_rep (h(a \<mapsto> Live (fill_by q (obj h a))))
           (set_side_levels s (om_set (price_before s) p (decreaseTotalQty q lvl) (side_levels s b)) b) G"
proof -
  let ?h = "h(a \<mapsto> Live (fill_by q (obj h a)))"
  let ?b = "set_side_levels s (om_set (price_before s) p (decreaseTotalQty q lvl) (side_levels s b)) b"
  have lad: "ladder_rep s h ((p, lvl) # lvls) ((p, a # xs) # g)"
    using book_rep_ladder [OF rep, of s] G lvls by simp
  then have best: "rung_rep s h (p, lvl) (p, a # xs)" and rest: "list_all2 (rung_rep s h) lvls g"
    by (simp_all add: ladder_rep_def)
  have nin: "a \<notin> set (addrs g)"
    using book_rep_distinct_side [OF rep, of s] G by auto
  have "rung_rep s ?h (p, decreaseTotalQty q lvl) (p, a # xs)"
    using best level_rep_fill_front [OF _ q] by (auto simp: rung_rep_def rest_ok_def)
  moreover have "list_all2 (rung_rep s ?h) lvls g"
    using rest nin rungs_cong [of g ?h h s lvls] by (metis fun_upd_other)
  ultimately have "ladder_rep s ?h (side_levels s ?b) (G s)"
    using lad G lvls by (simp add: ladder_rep_def)
  moreover have "ladder_rep t ?h (side_levels t ?b) (G t)" if "t \<noteq> s" for t
  proof -
    have "a \<notin> set (addrs (G t))"
      using book_rep_other_side [OF rep _ that] G by auto
    then show ?thesis
      using that book_rep_ladder [OF rep, of t] ladder_rep_cong [of "G t" ?h h t "side_levels t b"]
      by (metis fun_upd_other side_levels_set(1))
  qed
  ultimately have "ladder_rep t ?h (side_levels t ?b) (G t)" for t
    by (cases "t = s") auto
  moreover have "ord_orderId (obj ?h c) = ord_orderId (obj h c)" for c
    by simp
  ultimately show ?thesis
    using rep by (simp add: book_rep_def)
qed

end
