(* ===== verification/Slab_Pool.thy ===== *)
theory Slab_Pool
  imports CB_Prelude
begin

text \<open>
  \<open>include/core/SlabPool.h\<close>: the slab allocator with its intrusive free list.  The links of the
  free list live in the slots themselves, so \<open>popFree\<close> reads the next head out of slot memory and
  \<open>pushFree\<close> overwrites the slot.  The operating system's answers to the storage requests are the
  parameter \<open>os_mem\<close>.  The locale \<open>object_pool\<close> is the contract the order book and the engines
  rely on; it is interpreted on the model at the end of the theory.
\<close>

section \<open>State\<close>

record 'a SlabPool =
  m_slab :: ptr
  m_freeHead :: ptr
  m_bytes :: size_t
  m_capacity :: size_t
  m_allocated :: size_t
  m_hugeRequested :: bool
  m_hugeBacked :: bool
  m_mmapBacked :: bool
  mem :: "'a slotmem"

text \<open>
  The answers of \<open>mmap\<close> with and without \<open>MAP_HUGETLB\<close> and of aligned \<open>operator new[]\<close>;
  \<open>None\<close> is \<open>MAP_FAILED\<close>, respectively a thrown \<open>std::bad_alloc\<close>.
\<close>

record os_mem =
  mmap_huge :: ptr
  mmap_plain :: ptr
  operator_new :: ptr

datatype storage_release = NoRelease | Munmap addr size_t | OperatorDelete addr

section \<open>Operations\<close>

definition pushFree :: "addr \<Rightarrow> 'a SlabPool \<Rightarrow> 'a SlabPool option" where
  "pushFree slot p =
     (case mem p slot of
        None \<Rightarrow> None
      | Some _ \<Rightarrow> Some (p\<lparr>mem := (mem p)(slot \<mapsto> FreeSlot (m_freeHead p)), m_freeHead := Some slot\<rparr>))"

definition popFree :: "'a SlabPool \<Rightarrow> (addr \<times> 'a SlabPool) option" where
  "popFree p =
     (case m_freeHead p of
        None \<Rightarrow> None
      | Some slot \<Rightarrow> (case mem p slot of
            Some (FreeSlot n) \<Rightarrow> Some (slot, p\<lparr>m_freeHead := n\<rparr>)
          | _ \<Rightarrow> None))"

definition allocate :: "'a \<Rightarrow> 'a SlabPool \<Rightarrow> (ptr \<times> 'a SlabPool) option" where
  "allocate x p =
     (if m_freeHead p = nullptr then Some (nullptr, p)
      else do {
        (slot, p1) \<leftarrow> popFree p;
        Some (Some slot, p1\<lparr>m_allocated := m_allocated p1 + 1, mem := (mem p1)(slot \<mapsto> Live x)\<rparr>)
      })"

definition deallocate :: "ptr \<Rightarrow> 'a SlabPool \<Rightarrow> 'a SlabPool option" where
  "deallocate ob p =
     (case ob of
        None \<Rightarrow> Some p
      | Some a \<Rightarrow> do {
          _ \<leftarrow> deref (mem p) ob;
          p1 \<leftarrow> pushFree a p;
          Some (p1\<lparr>m_allocated := m_allocated p1 - 1\<rparr>)
        })"

definition owns :: "size_t \<Rightarrow> addr \<Rightarrow> 'a SlabPool \<Rightarrow> bool" where
  "owns sizeofT a p =
     (case m_slab p of
        None \<Rightarrow> False
      | Some base \<Rightarrow> a \<ge> base \<and> a < base + unat (m_capacity p * sizeofT) \<and>
                     (a - base) mod unat sizeofT = 0)"

definition capacity :: "'a SlabPool \<Rightarrow> size_t" where
  "capacity p = m_capacity p"

definition allocatedCount :: "'a SlabPool \<Rightarrow> size_t" where
  "allocatedCount p = m_allocated p"

definition freeCount :: "'a SlabPool \<Rightarrow> size_t" where
  "freeCount p = m_capacity p - m_allocated p"

definition storage_at :: "size_t \<Rightarrow> addr \<Rightarrow> size_t \<Rightarrow> 'a slotmem" where
  "storage_at sizeofT base bytes = (\<lambda>a.
     if base \<le> a \<and> (a - base) mod unat sizeofT = 0 \<and> (a - base) + unat sizeofT \<le> unat bytes
     then Some Raw else None)"

definition allocateStorage :: "size_t \<Rightarrow> os_mem \<Rightarrow> 'a SlabPool \<Rightarrow> 'a SlabPool result" where
  "allocateStorage sizeofT os p =
     (let use = (\<lambda>base. p\<lparr>m_slab := Some base, mem := storage_at sizeofT base (m_bytes p)\<rparr>)
      in case (if m_hugeRequested p then mmap_huge os else None) of
           Some base \<Rightarrow> Inr ((use base)\<lparr>m_hugeBacked := True, m_mmapBacked := True\<rparr>)
         | None \<Rightarrow>
             (case mmap_plain os of
                Some base \<Rightarrow> Inr ((use base)\<lparr>m_mmapBacked := True\<rparr>)
              | None \<Rightarrow>
                  (case operator_new os of
                     Some base \<Rightarrow> Inr (use base)
                   | None \<Rightarrow> Inl (Throws bad_alloc))))"

fun pushSlots :: "size_t \<Rightarrow> addr \<Rightarrow> nat list \<Rightarrow> 'a SlabPool \<Rightarrow> 'a SlabPool option" where
  "pushSlots sizeofT base [] p = Some p"
| "pushSlots sizeofT base (i # is) p =
     do { p1 \<leftarrow> pushFree (base + i * unat sizeofT) p; pushSlots sizeofT base is p1 }"

definition SlabPool_new :: "size_t \<Rightarrow> os_mem \<Rightarrow> size_t \<Rightarrow> bool \<Rightarrow> 'a SlabPool result" where
  "SlabPool_new sizeofT os cap requestHugePages =
     (let p0 = \<lparr>m_slab = nullptr, m_freeHead = nullptr, m_bytes = cap * sizeofT, m_capacity = cap,
                m_allocated = 0, m_hugeRequested = requestHugePages, m_hugeBacked = False,
                m_mmapBacked = False, mem = (\<lambda>_. None)\<rparr>
      in case allocateStorage sizeofT os p0 of
           Inl e \<Rightarrow> Inl e
         | Inr p1 \<Rightarrow> (case pushSlots sizeofT (the (m_slab p1)) [0..<unat cap] p1 of
               None \<Rightarrow> Inl UndefinedBehaviour
             | Some p2 \<Rightarrow> Inr p2))"

definition SlabPool_move :: "'a SlabPool \<Rightarrow> 'a SlabPool \<times> 'a SlabPool" where
  "SlabPool_move other =
     (other,
      other\<lparr>m_slab := nullptr, m_freeHead := nullptr, m_bytes := 0, m_capacity := 0,
            m_allocated := 0, m_hugeBacked := False, m_mmapBacked := False, mem := (\<lambda>_. None)\<rparr>)"

definition releaseStorage :: "'a SlabPool \<Rightarrow> storage_release" where
  "releaseStorage p =
     (case m_slab p of
        None \<Rightarrow> NoRelease
      | Some base \<Rightarrow> if m_mmapBacked p then Munmap base (m_bytes p) else OperatorDelete base)"

section \<open>Invariant\<close>

fun free_chain :: "'a slotmem \<Rightarrow> ptr \<Rightarrow> addr list \<Rightarrow> bool" where
  "free_chain h q [] \<longleftrightarrow> q = nullptr"
| "free_chain h q (a # as) \<longleftrightarrow> q = Some a \<and> (\<exists>n. h a = Some (FreeSlot n) \<and> free_chain h n as)"

definition pool_rep :: "'a SlabPool \<Rightarrow> addr list \<Rightarrow> bool" where
  "pool_rep p fl \<longleftrightarrow>
     free_chain (mem p) (m_freeHead p) fl \<and> distinct fl \<and>
     (\<forall>a n. mem p a = Some (FreeSlot n) \<longrightarrow> a \<in> set fl) \<and>
     finite (live (mem p)) \<and> unat (m_allocated p) = card (live (mem p)) \<and>
     card (live (mem p)) + length fl = unat (m_capacity p)"

definition pool_inv :: "'a SlabPool \<Rightarrow> bool" where
  "pool_inv p \<longleftrightarrow> (\<exists>fl. pool_rep p fl)"

lemma free_chain_upd [simp]:
  "a \<notin> set fl \<Longrightarrow> free_chain (h(a := v)) q fl = free_chain h q fl"
  by (induction fl arbitrary: q) auto

lemma free_chain_slot: "free_chain h q fl \<Longrightarrow> a \<in> set fl \<Longrightarrow> \<exists>n. h a = Some (FreeSlot n)"
  by (induction fl arbitrary: q) auto

lemma free_chain_not_live: "free_chain h q fl \<Longrightarrow> a \<in> live h \<Longrightarrow> a \<notin> set fl"
  using free_chain_slot by (fastforce elim: liveE)

lemma free_chain_cong:
  "(\<And>a. a \<in> set fl \<Longrightarrow> h' a = h a) \<Longrightarrow> free_chain h' q fl = free_chain h q fl"
  by (induction fl arbitrary: q) auto

lemma pool_rep_write:
  assumes rep: "pool_rep p fl" and live: "live h = live (mem p)"
    and other: "\<And>a. a \<notin> live (mem p) \<Longrightarrow> h a = mem p a"
  shows "pool_rep (p\<lparr>mem := h\<rparr>) fl"
proof -
  have fc: "free_chain (mem p) (m_freeHead p) fl"
    using rep by (simp add: pool_rep_def)
  then have "h a = mem p a" if "a \<in> set fl" for a
    using that free_chain_not_live other by metis
  then have "free_chain h (m_freeHead p) fl"
    using fc free_chain_cong [of fl h "mem p"] by metis
  moreover have "a \<in> set fl" if "h a = Some (FreeSlot n)" for a n
  proof -
    have "a \<notin> live (mem p)"
      using that live [symmetric] by (simp add: live_def)
    then show ?thesis
      using that other rep by (auto simp: pool_rep_def)
  qed
  ultimately show ?thesis
    using rep live by (auto simp: pool_rep_def)
qed

lemma pool_rep_allocate:
  assumes "pool_rep p (a # fl)"
  shows "allocate x p =
           Some (Some a, p\<lparr>m_freeHead := (case mem p a of Some (FreeSlot n) \<Rightarrow> n),
                            m_allocated := m_allocated p + 1, mem := (mem p)(a \<mapsto> Live x)\<rparr>)"
    and "pool_rep (p\<lparr>m_freeHead := (case mem p a of Some (FreeSlot n) \<Rightarrow> n),
                      m_allocated := m_allocated p + 1, mem := (mem p)(a \<mapsto> Live x)\<rparr>) fl"
    and "a \<notin> live (mem p)"
proof -
  obtain n where n: "mem p a = Some (FreeSlot n)" "m_freeHead p = Some a" "free_chain (mem p) n fl"
    using assms by (auto simp: pool_rep_def)
  show "allocate x p =
          Some (Some a, p\<lparr>m_freeHead := (case mem p a of Some (FreeSlot n) \<Rightarrow> n),
                           m_allocated := m_allocated p + 1, mem := (mem p)(a \<mapsto> Live x)\<rparr>)"
    using n by (simp add: allocate_def popFree_def)
  show nl: "a \<notin> live (mem p)"
    using n by (auto elim: liveE)
  have "card (live (mem p)) < unat (m_capacity p)"
    using assms by (auto simp: pool_rep_def)
  moreover have al: "unat (m_allocated p) = card (live (mem p))"
    using assms by (simp add: pool_rep_def)
  ultimately have "unat (m_allocated p) + unat (1 :: u64) < 18446744073709551616"
    using unat_u64_less [of "m_capacity p"] unfolding unat_1 by linarith
  from unat_add_u64 [OF this] al have "unat (m_allocated p + 1) = Suc (card (live (mem p)))"
    by simp
  then show "pool_rep (p\<lparr>m_freeHead := (case mem p a of Some (FreeSlot n) \<Rightarrow> n),
                           m_allocated := m_allocated p + 1, mem := (mem p)(a \<mapsto> Live x)\<rparr>) fl"
    using assms n nl by (auto simp: pool_rep_def)
qed

lemma pool_rep_deallocate:
  assumes "pool_rep p fl" and "a \<in> live (mem p)"
  shows "deallocate (Some a) p =
           Some (p\<lparr>mem := (mem p)(a \<mapsto> FreeSlot (m_freeHead p)), m_freeHead := Some a,
                   m_allocated := m_allocated p - 1\<rparr>)"
    and "pool_rep (p\<lparr>mem := (mem p)(a \<mapsto> FreeSlot (m_freeHead p)), m_freeHead := Some a,
                     m_allocated := m_allocated p - 1\<rparr>) (a # fl)"
proof -
  have nin: "a \<notin> set fl"
    using assms free_chain_not_live by (auto simp: pool_rep_def)
  show "deallocate (Some a) p =
          Some (p\<lparr>mem := (mem p)(a \<mapsto> FreeSlot (m_freeHead p)), m_freeHead := Some a,
                  m_allocated := m_allocated p - 1\<rparr>)"
    using assms(2) by (auto simp: deallocate_def pushFree_def elim!: liveE)
  have fin: "finite (live (mem p))" and cd: "unat (m_allocated p) = card (live (mem p))"
    using assms(1) by (auto simp: pool_rep_def)
  have "card (live (mem p)) > 0"
    using assms(2) fin card_gt_0_iff by blast
  then have "unat (m_allocated p - 1) = card (live (mem p)) - 1"
    using cd by (simp add: unat_sub_le)
  then show "pool_rep (p\<lparr>mem := (mem p)(a \<mapsto> FreeSlot (m_freeHead p)), m_freeHead := Some a,
                     m_allocated := m_allocated p - 1\<rparr>) (a # fl)"
    using assms nin fin \<open>card (live (mem p)) > 0\<close> by (auto simp: pool_rep_def)
qed

section \<open>Construction\<close>

lemma pushSlots_chain:
  assumes "free_chain (mem p) (m_freeHead p) fl"
    and "distinct (map (\<lambda>i. base + i * unat sz) is)"
    and "\<forall>i\<in>set is. mem p (base + i * unat sz) = Some Raw"
  shows "\<exists>p'. pushSlots sz base is p = Some p' \<and>
           free_chain (mem p') (m_freeHead p') (rev (map (\<lambda>i. base + i * unat sz) is) @ fl) \<and>
           (\<forall>a. a \<notin> (\<lambda>i. base + i * unat sz) ` set is \<longrightarrow> mem p' a = mem p a) \<and>
           m_capacity p' = m_capacity p \<and> m_allocated p' = m_allocated p \<and>
           m_bytes p' = m_bytes p \<and> m_slab p' = m_slab p"
  using assms
proof (induction "is" arbitrary: p fl)
  case Nil
  then show ?case by simp
next
  case (Cons i "is")
  let ?a = "base + i * unat sz"
  let ?p1 = "p\<lparr>mem := (mem p)(?a \<mapsto> FreeSlot (m_freeHead p)), m_freeHead := Some ?a\<rparr>"
  have raw: "mem p ?a = Some Raw"
    using Cons.prems(3) by simp
  then have nin: "?a \<notin> set fl"
    using free_chain_slot [OF Cons.prems(1)] by fastforce
  have c: "free_chain (mem ?p1) (m_freeHead ?p1) (?a # fl)"
    using Cons.prems(1) nin by simp
  have d: "distinct (map (\<lambda>i. base + i * unat sz) is)"
    using Cons.prems(2) by simp
  have r: "\<forall>i\<in>set is. mem ?p1 (base + i * unat sz) = Some Raw"
    using Cons.prems(2,3) by auto
  from Cons.IH [OF c d r] obtain p' where "pushSlots sz base is ?p1 = Some p'"
    and "free_chain (mem p') (m_freeHead p') (rev (map (\<lambda>i. base + i * unat sz) is) @ ?a # fl)"
    and "\<forall>a. a \<notin> (\<lambda>i. base + i * unat sz) ` set is \<longrightarrow> mem p' a = mem ?p1 a"
    and "m_capacity p' = m_capacity p" "m_allocated p' = m_allocated p"
      "m_bytes p' = m_bytes p" "m_slab p' = m_slab p"
    by auto
  then show ?case
    using raw by (auto simp: pushFree_def)
qed

text \<open>
  A storage answer exists and the byte count of the slab does not wrap: then the constructor
  returns a pool all of whose slots are free.
\<close>

definition storage_granted :: "os_mem \<Rightarrow> bool \<Rightarrow> bool" where
  "storage_granted os huge \<longleftrightarrow>
     (huge \<and> mmap_huge os \<noteq> None) \<or> mmap_plain os \<noteq> None \<or> operator_new os \<noteq> None"

lemma allocateStorage_granted:
  assumes "storage_granted os (m_hugeRequested p)"
  shows "\<exists>base p1. allocateStorage sz os p = Inr p1 \<and> m_slab p1 = Some base \<and>
           mem p1 = storage_at sz base (m_bytes p) \<and> m_freeHead p1 = m_freeHead p \<and>
           m_capacity p1 = m_capacity p \<and> m_allocated p1 = m_allocated p \<and> m_bytes p1 = m_bytes p"
  using assms
  by (auto simp: storage_granted_def allocateStorage_def Let_def split: option.splits)

lemma inj_slot_addr: "0 < unat sz \<Longrightarrow> inj_on (\<lambda>i. base + i * unat (sz :: size_t)) A"
  by (auto simp: inj_on_def)

lemma storage_at_slot:
  assumes "unat cap * unat sz < 18446744073709551616" and "i < unat cap"
  shows "storage_at sz base (cap * sz) (base + i * unat sz) = Some Raw"
proof -
  have "unat (cap * sz) = unat cap * unat sz"
    using assms(1) by (simp add: unat_word_ariths)
  moreover have "i * unat sz + unat sz \<le> unat cap * unat sz"
    using assms(2) by (metis Suc_leI add.commute mult_Suc mult_le_mono1)
  ultimately show ?thesis
    by (simp add: storage_at_def)
qed

lemma SlabPool_new_rep:
  assumes granted: "storage_granted os huge"
    and sz: "0 < unat sz" and nowrap: "unat cap * unat sz < 18446744073709551616"
  shows "\<exists>p fl. SlabPool_new sz os cap huge = Inr p \<and> pool_rep p fl \<and> live (mem p) = {} \<and>
           m_capacity p = cap \<and> m_allocated p = 0"
proof -
  let ?p0 = "\<lparr>m_slab = nullptr, m_freeHead = nullptr, m_bytes = cap * sz, m_capacity = cap,
              m_allocated = 0, m_hugeRequested = huge, m_hugeBacked = False,
              m_mmapBacked = False, mem = (\<lambda>_. None)\<rparr> :: 'a SlabPool"
  obtain base p1 where p1: "allocateStorage sz os ?p0 = Inr p1" "m_slab p1 = Some base"
      "mem p1 = storage_at sz base (cap * sz)" "m_freeHead p1 = nullptr"
      "m_capacity p1 = cap" "m_allocated p1 = 0"
    using allocateStorage_granted [of os ?p0 sz] granted by auto
  let ?A = "map (\<lambda>i. base + i * unat sz) [0..<unat cap]"
  have dist: "distinct ?A"
    by (simp add: distinct_map inj_slot_addr [OF sz])
  have raw: "\<forall>i\<in>set [0..<unat cap]. mem p1 (base + i * unat sz) = Some Raw"
    using p1(3) storage_at_slot [OF nowrap] by auto
  obtain p2 where p2: "pushSlots sz base [0..<unat cap] p1 = Some p2"
      "free_chain (mem p2) (m_freeHead p2) (rev ?A @ [])"
      "\<forall>a. a \<notin> (\<lambda>i. base + i * unat sz) ` set [0..<unat cap] \<longrightarrow> mem p2 a = mem p1 a"
      "m_capacity p2 = cap" "m_allocated p2 = 0"
    using pushSlots_chain [of p1 "[]" base sz "[0..<unat cap]"] p1(4-6) dist raw by auto
  have other: "a \<notin> set ?A \<Longrightarrow> mem p2 a = None \<or> mem p2 a = Some Raw" for a
    using p2(3) p1(3) by (auto simp: storage_at_def)
  have inA: "a \<in> set ?A \<Longrightarrow> \<exists>n. mem p2 a = Some (FreeSlot n)" for a
    using free_chain_slot [OF p2(2)] by simp
  have "a \<notin> live (mem p2)" for a
    using other [of a] inA [of a] by (cases "a \<in> set ?A") (auto elim!: liveE)
  then have live: "live (mem p2) = {}"
    by blast
  have "pool_rep p2 (rev ?A)"
    using p2 dist live other by (fastforce simp: pool_rep_def)
  then show ?thesis
    using p1(1,2) p2(1,4,5) live by (auto simp: SlabPool_new_def Let_def)
qed

section \<open>The pool contract\<close>

text \<open>
  What a client of the pool relies on: an allocation hands out a slot that holds no live object and
  fails only when every slot is in use, a deallocation of a live object succeeds, and writing to a
  live object keeps the pool intact.
\<close>

locale object_pool =
  fixes alloc :: "'o \<Rightarrow> 'p \<Rightarrow> (ptr \<times> 'p) option"
    and dealloc :: "ptr \<Rightarrow> 'p \<Rightarrow> 'p option"
    and contents :: "'p \<Rightarrow> 'o slotmem"
    and put :: "'o slotmem \<Rightarrow> 'p \<Rightarrow> 'p"
    and slots :: "'p \<Rightarrow> nat"
    and invar :: "'p \<Rightarrow> bool"
  assumes finite_live: "invar p \<Longrightarrow> finite (live (contents p))"
    and live_le: "invar p \<Longrightarrow> card (live (contents p)) \<le> slots p"
    and alloc_full: "invar p \<Longrightarrow> card (live (contents p)) = slots p \<Longrightarrow> alloc x p = Some (nullptr, p)"
    and alloc_room: "invar p \<Longrightarrow> card (live (contents p)) < slots p \<Longrightarrow>
      \<exists>a p'. alloc x p = Some (Some a, p') \<and> a \<notin> live (contents p) \<and>
             contents p' = (contents p)(a \<mapsto> Live x) \<and> invar p' \<and> slots p' = slots p"
    and dealloc_live: "invar p \<Longrightarrow> a \<in> live (contents p) \<Longrightarrow>
      \<exists>n p'. dealloc (Some a) p = Some p' \<and> contents p' = (contents p)(a \<mapsto> FreeSlot n) \<and>
             invar p' \<and> slots p' = slots p"
    and put_live: "invar p \<Longrightarrow> live h = live (contents p) \<Longrightarrow>
      (\<And>a. a \<notin> live (contents p) \<Longrightarrow> h a = contents p a) \<Longrightarrow> invar (put h p)"
    and contents_put: "contents (put h p) = h"
    and slots_put: "slots (put h p) = slots p"
begin

lemma alloc_cases:
  assumes "invar p"
  obtains (full) "alloc x p = Some (nullptr, p)" "card (live (contents p)) = slots p"
  | (room) a p' where "alloc x p = Some (Some a, p')" "a \<notin> live (contents p)"
      "contents p' = (contents p)(a \<mapsto> Live x)" "invar p'" "slots p' = slots p"
      "card (live (contents p)) < slots p"
  using alloc_full [OF assms] alloc_room [OF assms] live_le [OF assms]
  by (metis le_neq_implies_less)

lemma alloc_dealloc_live:
  assumes "invar p" and "alloc x p = Some (Some a, p')"
  shows "\<exists>n p''. dealloc (Some a) p' = Some p'' \<and> live (contents p'') = live (contents p)"
proof -
  from assms(1) show ?thesis
  proof (cases rule: alloc_cases [where x = x])
    case full
    with assms(2) show ?thesis by simp
  next
    case (room b q)
    with assms(2) have b: "b = a" "q = p'" by auto
    then have "a \<in> live (contents p')"
      using room by simp
    then obtain n p'' where "dealloc (Some a) p' = Some p''"
        "contents p'' = (contents p')(a \<mapsto> FreeSlot n)"
      using dealloc_live [of p' a] room b by auto
    then show ?thesis
      using room b by auto
  qed
qed

lemma put_object:
  "invar p \<Longrightarrow> a \<in> live (contents p) \<Longrightarrow> invar (put ((contents p)(a \<mapsto> Live x)) p)"
  by (rule put_live) auto

lemma distinct_in_live_le:
  "invar p \<Longrightarrow> distinct xs \<Longrightarrow> set xs \<subseteq> live (contents p) \<Longrightarrow> length xs \<le> slots p"
  by (metis card_mono distinct_card finite_live live_le order_trans)

end

lemma pool_rep_full:
  assumes "pool_rep p fl"
  shows "fl = [] \<longleftrightarrow> card (live (mem p)) = unat (m_capacity p)"
  using assms by (auto simp: pool_rep_def)

interpretation slab: object_pool
  "allocate :: 'a \<Rightarrow> 'a SlabPool \<Rightarrow> _" deallocate mem "\<lambda>h p. p\<lparr>mem := h\<rparr>" "\<lambda>p. unat (m_capacity p)" pool_inv
proof (unfold_locales, goal_cases)
  case (3 p x)
  then obtain fl where "pool_rep p fl" by (auto simp: pool_inv_def)
  with 3 have "m_freeHead p = nullptr"
    using pool_rep_full by (fastforce simp: pool_rep_def)
  then show ?case by (simp add: allocate_def)
next
  case (4 p x)
  then obtain fl where "pool_rep p fl" by (auto simp: pool_inv_def)
  with 4 obtain a fl' where "pool_rep p (a # fl')"
    using pool_rep_full by (metis less_irrefl neq_Nil_conv)
  from pool_rep_allocate [OF this] show ?case
    by (auto simp: pool_inv_def)
next
  case (5 p a)
  then obtain fl where "pool_rep p fl" by (auto simp: pool_inv_def)
  from pool_rep_deallocate [OF this 5(2)] show ?case
    by (auto simp: pool_inv_def)
next
  case (6 p h)
  then show ?case
    unfolding pool_inv_def using pool_rep_write by blast
qed (auto simp: pool_inv_def pool_rep_def)

end
