(* ===== verification/Matching_Engine.thy ===== *)
theory Matching_Engine
  imports Order_Book Slab_Pool
begin

text \<open>
  \<open>include/matching/MatchingEngine.h\<close>, \<open>src/MatchingEngine.cpp\<close> and \<open>include/core/OrderPool.h\<close>:
  the price-time priority engine over the pointer-level book.  The engine borrows the order pool by
  reference, so every operation takes and returns the pool beside the engine.  The match loop is a
  \<open>partial_function\<close> in the option monad: its result \<open>None\<close> covers both a bad dereference and a
  loop that never ends.
\<close>

section \<open>State\<close>

type_synonym OrderPool = "Order SlabPool"

record Fill =
  fill_buyOrderId :: u64
  fill_sellOrderId :: u64
  fill_price :: u32
  fill_qty :: u32
  fill_timestamp :: u64
  fill_symbolPacked :: u64

record MatchingEngine =
  m_book :: OrderBook
  m_fills :: "Fill list"
  m_currentSeq :: u64

definition MatchingEngine_new :: MatchingEngine where
  "MatchingEngine_new = \<lparr>m_book = empty_OrderBook, m_fills = [], m_currentSeq = 0\<rparr>"

section \<open>Trades\<close>

definition mk_fill :: "Order \<Rightarrow> Order \<Rightarrow> u32 \<Rightarrow> u32 \<Rightarrow> u64 \<Rightarrow> Fill" where
  "mk_fill resting incoming matchPrice matchQty seq =
     \<lparr>fill_buyOrderId = (if ord_side incoming = BUY then ord_orderId incoming else ord_orderId resting),
      fill_sellOrderId = (if ord_side incoming = BUY then ord_orderId resting else ord_orderId incoming),
      fill_price = matchPrice,
      fill_qty = matchQty,
      fill_timestamp = seq,
      fill_symbolPacked = ord_symbolPacked incoming\<rparr>"

definition executeTrade ::
  "ptr \<Rightarrow> ptr \<Rightarrow> u32 \<Rightarrow> u32 \<Rightarrow> MatchingEngine \<Rightarrow> OrderPool \<Rightarrow> (MatchingEngine \<times> OrderPool) option" where
  "executeTrade resting incoming matchPrice matchQty e p = do {
     h1 \<leftarrow> modify (mem p) resting (\<lambda>x. x\<lparr>ord_filledQty := ord_filledQty x + matchQty\<rparr>);
     h2 \<leftarrow> modify h1 incoming (\<lambda>x. x\<lparr>ord_filledQty := ord_filledQty x + matchQty\<rparr>);
     i \<leftarrow> deref h2 incoming;
     r \<leftarrow> deref h2 resting;
     Some (e\<lparr>m_fills := m_fills e @ [mk_fill r i matchPrice matchQty (m_currentSeq e)]\<rparr>,
           p\<lparr>mem := h2\<rparr>)
   }"

section \<open>The match loop\<close>

text \<open>
  The best opposite level: the loop leaves when the best price is reported as zero or when the
  level is missing.
\<close>

definition best_level :: "bool \<Rightarrow> OrderBook \<Rightarrow> (u32 \<times> PriceLevel) option" where
  "best_level incomingIsBuy b =
     (let restPrice = (if incomingIsBuy then getBestAsk b else getBestBid b)
      in if restPrice = 0 then None
         else case (if incomingIsBuy then getAskLevel restPrice b else getBidLevel restPrice b) of
                None \<Rightarrow> None
              | Some lvl \<Rightarrow> Some (restPrice, lvl))"

definition crosses :: "bool \<Rightarrow> u32 \<Rightarrow> u32 \<Rightarrow> bool" where
  "crosses incomingIsBuy restPrice price =
     (if incomingIsBuy then restPrice \<le> price else restPrice \<ge> price)"

text \<open>\<open>level->decreaseTotalQty(matchQty)\<close> through the pointer into the opposite map.\<close>

definition decrease_level :: "bool \<Rightarrow> u32 \<Rightarrow> PriceLevel \<Rightarrow> u32 \<Rightarrow> OrderBook \<Rightarrow> OrderBook" where
  "decrease_level incomingIsBuy restPrice lvl matchQty b =
     (if incomingIsBuy
      then b\<lparr>m_asks := om_set (price_before SELL) restPrice (decreaseTotalQty matchQty lvl) (m_asks b)\<rparr>
      else b\<lparr>m_bids := om_set (price_before BUY) restPrice (decreaseTotalQty matchQty lvl) (m_bids b)\<rparr>)"

text \<open>One pass of the loop body once the price check has been passed.\<close>

definition match_trade ::
  "bool \<Rightarrow> ptr \<Rightarrow> u32 \<Rightarrow> PriceLevel \<Rightarrow> MatchingEngine \<Rightarrow> OrderPool \<Rightarrow>
   (MatchingEngine \<times> OrderPool) option" where
  "match_trade incomingIsBuy incoming restPrice lvl e p = do {
     i \<leftarrow> deref (mem p) incoming;
     r \<leftarrow> deref (mem p) (front lvl);
     let matchQty = min (remainingQty i) (remainingQty r);
     (e1, p1) \<leftarrow> executeTrade (front lvl) incoming restPrice matchQty e p;
     let e2 = e1\<lparr>m_book := decrease_level incomingIsBuy restPrice lvl matchQty (m_book e1)\<rparr>;
     r1 \<leftarrow> deref (mem p1) (front lvl);
     if isFilled r1
     then do {
       (b, h) \<leftarrow> OrderBook_removeOrder (front lvl) (m_book e2) (mem p1);
       p2 \<leftarrow> deallocate (front lvl) (p1\<lparr>mem := h\<rparr>);
       Some (e2\<lparr>m_book := b\<rparr>, p2)
     }
     else Some (e2, p1)
   }"

partial_function (option) match_loop ::
  "bool \<Rightarrow> bool \<Rightarrow> ptr \<Rightarrow> MatchingEngine \<Rightarrow> OrderPool \<Rightarrow> (MatchingEngine \<times> OrderPool) option" where
  "match_loop incomingIsBuy respectPrice incoming e p = do {
     i \<leftarrow> deref (mem p) incoming;
     if isFilled i then Some (e, p)
     else case best_level incomingIsBuy (m_book e) of
       None \<Rightarrow> Some (e, p)
     | Some (restPrice, lvl) \<Rightarrow>
         if respectPrice \<and> \<not> crosses incomingIsBuy restPrice (ord_price i) then Some (e, p)
         else do {
           (e1, p1) \<leftarrow> match_trade incomingIsBuy incoming restPrice lvl e p;
           match_loop incomingIsBuy respectPrice incoming e1 p1
         }
   }"

declare match_loop.simps [code]

definition matchOneSide ::
  "ptr \<Rightarrow> bool \<Rightarrow> MatchingEngine \<Rightarrow> OrderPool \<Rightarrow> (MatchingEngine \<times> OrderPool) option" where
  "matchOneSide incoming respectPrice e p = do {
     i \<leftarrow> deref (mem p) incoming;
     match_loop (ord_side i = BUY) respectPrice incoming e p
   }"

section \<open>Order types\<close>

definition matchLimit :: "ptr \<Rightarrow> MatchingEngine \<Rightarrow> OrderPool \<Rightarrow> (MatchingEngine \<times> OrderPool) option" where
  "matchLimit order e p = do {
     (e1, p1) \<leftarrow> matchOneSide order True e p;
     x \<leftarrow> deref (mem p1) order;
     if \<not> isFilled x
     then do {
       (ok, b, h) \<leftarrow> OrderBook_addOrder order (m_book e1) (mem p1);
       let e2 = e1\<lparr>m_book := b\<rparr>;
       let p2 = p1\<lparr>mem := h\<rparr>;
       if \<not> ok then do { p3 \<leftarrow> deallocate order p2; Some (e2, p3) } else Some (e2, p2)
     }
     else do { p2 \<leftarrow> deallocate order p1; Some (e1, p2) }
   }"

definition matchMarket :: "ptr \<Rightarrow> MatchingEngine \<Rightarrow> OrderPool \<Rightarrow> (MatchingEngine \<times> OrderPool) option" where
  "matchMarket order e p = do {
     (e1, p1) \<leftarrow> matchOneSide order False e p;
     p2 \<leftarrow> deallocate order p1;
     Some (e1, p2)
   }"

definition matchIOC :: "ptr \<Rightarrow> MatchingEngine \<Rightarrow> OrderPool \<Rightarrow> (MatchingEngine \<times> OrderPool) option" where
  "matchIOC order e p = do {
     (e1, p1) \<leftarrow> matchOneSide order True e p;
     p2 \<leftarrow> deallocate order p1;
     Some (e1, p2)
   }"

section \<open>Public operations\<close>

definition processOrder ::
  "ptr \<Rightarrow> u64 \<Rightarrow> MatchingEngine \<Rightarrow> OrderPool \<Rightarrow> (MatchingEngine \<times> OrderPool) option" where
  "processOrder order sequenceNum e p =
     (if order = nullptr then Some (e, p)
      else do {
        x \<leftarrow> deref (mem p) order;
        if containsOrder (ord_orderId x) (m_book e)
        then do { p1 \<leftarrow> deallocate order p; Some (e, p1) }
        else let e1 = e\<lparr>m_currentSeq := sequenceNum\<rparr>
             in case ord_type x of
                  LIMIT \<Rightarrow> matchLimit order e1 p
                | MARKET \<Rightarrow> matchMarket order e1 p
                | IOC \<Rightarrow> matchIOC order e1 p
      })"

definition cancelOrder ::
  "u64 \<Rightarrow> MatchingEngine \<Rightarrow> OrderPool \<Rightarrow> (bool \<times> MatchingEngine \<times> OrderPool) option" where
  "cancelOrder orderId e p = do {
     (ob, b, h) \<leftarrow> OrderBook_cancelOrder orderId (m_book e) (mem p);
     if ob = nullptr then Some (False, e\<lparr>m_book := b\<rparr>, p\<lparr>mem := h\<rparr>)
     else do {
       p1 \<leftarrow> deallocate ob (p\<lparr>mem := h\<rparr>);
       Some (True, e\<lparr>m_book := b\<rparr>, p1)
     }
   }"

definition modifyOrder ::
  "u64 \<Rightarrow> u32 \<Rightarrow> u32 \<Rightarrow> u64 \<Rightarrow> MatchingEngine \<Rightarrow> OrderPool \<Rightarrow>
   (bool \<times> MatchingEngine \<times> OrderPool) option" where
  "modifyOrder orderId newPrice newQty sequenceNum e p = do {
     (ob, b, h) \<leftarrow> OrderBook_cancelOrder orderId (m_book e) (mem p);
     if ob = nullptr then Some (False, e\<lparr>m_book := b\<rparr>, p\<lparr>mem := h\<rparr>)
     else do {
       h1 \<leftarrow> modify h ob (\<lambda>x. x\<lparr>ord_price := newPrice, ord_qty := newQty,
                                ord_filledQty := 0, ord_type := LIMIT\<rparr>);
       (e1, p1) \<leftarrow> processOrder ob sequenceNum (e\<lparr>m_book := b\<rparr>) (p\<lparr>mem := h1\<rparr>);
       Some (True, e1, p1)
     }
   }"

definition drainFills :: "MatchingEngine \<Rightarrow> Fill list \<times> MatchingEngine" where
  "drainFills e = (m_fills e, e\<lparr>m_fills := []\<rparr>)"

text \<open>\<open>out.clear(); out.swap(m_fills)\<close>: the previous contents of the buffer are discarded.\<close>

definition drainFillsInto :: "Fill list \<Rightarrow> MatchingEngine \<Rightarrow> Fill list \<times> MatchingEngine" where
  "drainFillsInto out e = (m_fills e, e\<lparr>m_fills := []\<rparr>)"

end
