(* ===== verification/Engine_Spec.thy ===== *)
theory Engine_Spec
  imports Matching_Engine
begin

text \<open>
  The abstract specification of the matching engine: each side of the book is one list of orders in
  priority order, without pointers, levels or a pool.  Matching consumes the opposite list from the
  front, and a residual limit order is inserted behind every order of an equal or better price.
\<close>

section \<open>Specification\<close>

fun opposite :: "Side \<Rightarrow> Side" where
  "opposite BUY = SELL"
| "opposite SELL = BUY"

lemma opposite_simps [simp]: "opposite s \<noteq> s" "s \<noteq> opposite s" "opposite (opposite s) = s"
  by (cases s; simp)+

fun spec_match :: "u64 \<Rightarrow> bool \<Rightarrow> Order \<Rightarrow> Order list \<Rightarrow> Order \<times> Fill list \<times> Order list" where
  "spec_match ts respectPrice i [] = (i, [], [])"
| "spec_match ts respectPrice i (r # q) =
     (if isFilled i \<or> (respectPrice \<and> \<not> crosses (ord_side i = BUY) (ord_price r) (ord_price i))
      then (i, [], r # q)
      else
        let m = min (remainingQty i) (remainingQty r);
            i1 = fill_by m i;
            r1 = fill_by m r;
            f = mk_fill r i (ord_price r) m ts
        in if isFilled r1
           then (case spec_match ts respectPrice i1 q of (i2, fs, q2) \<Rightarrow> (i2, f # fs, q2))
           else (i1, [f], r1 # q))"

definition spec_enqueue :: "Side \<Rightarrow> Order \<Rightarrow> Order list \<Rightarrow> Order list" where
  "spec_enqueue s x q =
     takeWhile (\<lambda>r. \<not> price_before s (ord_price x) (ord_price r)) q @ [x] @
     dropWhile (\<lambda>r. \<not> price_before s (ord_price x) (ord_price r)) q"

type_synonym spec_book = "Side \<Rightarrow> Order list"

definition spec_contains :: "u64 \<Rightarrow> spec_book \<Rightarrow> bool" where
  "spec_contains i B \<longleftrightarrow> (\<exists>s. i \<in> ord_orderId ` set (B s))"

definition spec_process :: "u64 \<Rightarrow> Order \<Rightarrow> spec_book \<Rightarrow> Fill list \<times> spec_book" where
  "spec_process ts x B =
     (if spec_contains (ord_orderId x) B then ([], B)
      else case spec_match ts (ord_type x \<noteq> MARKET) x (B (opposite (ord_side x))) of
        (x1, fs, q) \<Rightarrow>
          let B1 = B(opposite (ord_side x) := q)
          in (fs, if ord_type x = LIMIT \<and> \<not> isFilled x1
                  then B1(ord_side x := spec_enqueue (ord_side x) x1 (B1 (ord_side x)))
                  else B1))"

definition spec_cancel :: "u64 \<Rightarrow> spec_book \<Rightarrow> bool \<times> spec_book" where
  "spec_cancel i B = (spec_contains i B, \<lambda>s. filter (\<lambda>x. ord_orderId x \<noteq> i) (B s))"

definition spec_find :: "u64 \<Rightarrow> spec_book \<Rightarrow> Order option" where
  "spec_find i B = find (\<lambda>x. ord_orderId x = i) (B BUY @ B SELL)"

definition spec_modify :: "u64 \<Rightarrow> u32 \<Rightarrow> u32 \<Rightarrow> u64 \<Rightarrow> spec_book \<Rightarrow> bool \<times> Fill list \<times> spec_book" where
  "spec_modify i newPrice newQty ts B =
     (case spec_find i B of
        None \<Rightarrow> (False, [], B)
      | Some x \<Rightarrow>
          (case spec_process ts (x\<lparr>ord_price := newPrice, ord_qty := newQty, ord_filledQty := 0,
                                   ord_type := LIMIT\<rparr>) (snd (spec_cancel i B)) of
             (fs, B1) \<Rightarrow> (True, fs, B1)))"

end
