(* ===== verification/Engine_Refinement.thy ===== *)
theory Engine_Refinement
  imports Engine_Spec
begin

text \<open>
  The pointer-level engine implements the abstract specification.  \<open>sys_rep\<close> is the state invariant
  of an engine and its pool, \<open>spec_of\<close> the abstraction to two priority queues.  Every public
  operation is shown to return (no bad dereference, no endless loop), to keep the invariant and to
  act on the abstraction as the specification says, touching only its own orders.
\<close>

section \<open>Invariant and abstraction\<close>

definition queue :: "Order slotmem \<Rightarrow> ladder \<Rightarrow> Order list" where
  "queue h g = map (\<lambda>a. strip (obj h a)) (addrs g)"

definition spec_of :: "Order slotmem \<Rightarrow> (Side \<Rightarrow> ladder) \<Rightarrow> spec_book" where
  "spec_of h G = (\<lambda>s. queue h (G s))"

definition book_open :: "Order slotmem \<Rightarrow> (Side \<Rightarrow> ladder) \<Rightarrow> bool" where
  "book_open h G \<longleftrightarrow> (\<forall>a\<in>set (book_addrs G). \<not> isFilled (obj h a))"

definition sys_rep :: "MatchingEngine \<Rightarrow> OrderPool \<Rightarrow> (Side \<Rightarrow> ladder) \<Rightarrow> bool" where
  "sys_rep e p G \<longleftrightarrow> book_rep (mem p) (m_book e) G \<and> book_open (mem p) G \<and> pool_inv p \<and>
     unat (m_capacity p) \<le> 4294967295"

text \<open>
  What an operation leaves alone: memory outside its own orders and \<open>A\<close>, the capacity of the pool,
  and the set of live objects that do not belong to the book.
\<close>

definition framed :: "addr set \<Rightarrow> OrderPool \<Rightarrow> (Side \<Rightarrow> ladder) \<Rightarrow> OrderPool \<Rightarrow> (Side \<Rightarrow> ladder) \<Rightarrow> bool" where
  "framed A p G p' G' \<longleftrightarrow>
     (\<forall>a. a \<notin> A \<union> set (book_addrs G) \<longrightarrow> mem p' a = mem p a) \<and> m_capacity p' = m_capacity p \<and>
     live (mem p') - set (book_addrs G') = live (mem p) - set (book_addrs G)"

lemma framed_refl: "framed A p G p G"
  by (simp add: framed_def)

lemma framed_trans:
  assumes "framed A p G p1 G1" and "framed A p1 G1 p2 G2" and "set (book_addrs G1) \<subseteq> A \<union> set (book_addrs G)"
  shows "framed A p G p2 G2"
  using assms by (auto simp: framed_def)

lemma sys_rep_simps:
  assumes "sys_rep e p G"
  shows "book_rep (mem p) (m_book e) G" "book_open (mem p) G" "pool_inv p" "unat (m_capacity p) \<le> 4294967295"
  using assms by (simp_all add: sys_rep_def)

lemma sys_rep_engine: "m_book e' = m_book e \<Longrightarrow> sys_rep e' p G = sys_rep e p G"
  by (simp add: sys_rep_def)

section \<open>The best opposite level\<close>

lemma best_level_side:
  "best_level (s = SELL) b =
     (case side_levels s b of
        [] \<Rightarrow> None
      | (p, _) # _ \<Rightarrow> if p = 0 then None
          else (case map_of (side_levels s b) p of None \<Rightarrow> None | Some lvl \<Rightarrow> Some (p, lvl)))"
  by (cases s) (auto simp: best_level_def getBestAsk_def getBestBid_def om_begin_def getAskLevel_def
      getBidLevel_def Let_def split: list.splits)

lemma decrease_level_side:
  "decrease_level (s = SELL) p lvl q b =
     set_side_levels s (om_set (price_before s) p (decreaseTotalQty q lvl) (side_levels s b)) b"
  by (cases s) (simp_all add: decrease_level_def)

lemma best_level_none:
  assumes "book_rep h b G" and "G s = []"
  shows "best_level (s = SELL) b = None"
  using book_rep_ladder [OF assms(1), of s] assms(2) by (simp add: best_level_side ladder_rep_def)

lemma best_level_some:
  assumes "book_rep h b G" and "G s = (p, a # xs) # g"
  obtains lvl lvls where "best_level (s = SELL) b = Some (p, lvl)" "side_levels s b = (p, lvl) # lvls"
    "front lvl = Some a" "ord_price (obj h a) = p"
proof -
  obtain lvl lvls where b: "side_levels s b = (p, lvl) # lvls" "p \<noteq> 0"
      "ord_price (obj h a) = p" "front lvl = Some a"
    using book_rep_best [OF assms] by metis
  then have "best_level (s = SELL) b = Some (p, lvl)"
    by (simp add: best_level_side)
  then show ?thesis
    using that b by blast
qed

lemma ladder_cases:
  assumes "ladder_rep s h lvls g"
  obtains "g = []" | p a xs g' where "g = (p, a # xs) # g'"
proof (cases g)
  case (Cons r g')
  then have "snd r \<noteq> []"
    using assms by (auto simp: ladder_rep_def dest!: rungs_nonempty)
  then show ?thesis
    using Cons that(2) by (cases r; cases "snd r") auto
qed (rule that(1))

lemma front_in_book:
  assumes "G s = (p, a # xs) # g"
  shows "a \<in> set (addrs (G s))" and "a \<in> set (book_addrs G)"
proof -
  show *: "a \<in> set (addrs (G s))"
    using assms by simp
  show "a \<in> set (book_addrs G)"
    unfolding in_book_addrs using * by blast
qed

section \<open>One trade\<close>

lemma executeTrade_live:
  assumes "r \<in> live (mem p)" and "i \<in> live (mem p)" and "r \<noteq> i"
  shows "executeTrade (Some r) (Some i) price q e p =
     Some (e\<lparr>m_fills := m_fills e @ [mk_fill (obj (mem p) r) (obj (mem p) i) price q (m_currentSeq e)]\<rparr>,
           p\<lparr>mem := (mem p)(r \<mapsto> Live (fill_by q (obj (mem p) r)), i \<mapsto> Live (fill_by q (obj (mem p) i)))\<rparr>)"
  using assms
  by (simp add: executeTrade_def modify_live deref_live mk_fill_def fill_by_def del: deref.simps)

text \<open>The state after the trade and the level update, before a filled order is removed.\<close>

lemma trade_book_rep:
  assumes rep: "book_rep h b G" and G: "G s = (pr, a # xs) # g"
    and lvls: "side_levels s b = (pr, lvl) # lvls"
    and i: "i \<in> live h" "i \<notin> set (book_addrs G)" and q: "q \<le> remainingQty (obj h a)"
  shows "book_rep (h(a \<mapsto> Live (fill_by q (obj h a)), i \<mapsto> Live (fill_by q (obj h i))))
           (decrease_level (s = SELL) pr lvl q b) G"
proof -
  let ?h = "h(a \<mapsto> Live (fill_by q (obj h a)))"
  have "book_rep ?h (decrease_level (s = SELL) pr lvl q b) G"
    using book_rep_fill_front [OF rep G lvls q] by (simp add: decrease_level_side)
  moreover have "book_rep (?h(i \<mapsto> Live (fill_by q (obj h i)))) (decrease_level (s = SELL) pr lvl q b) G =
      book_rep ?h (decrease_level (s = SELL) pr lvl q b) G"
    using i(2) by (intro book_rep_cong) auto
  ultimately show ?thesis
    by simp
qed

lemma pool_inv_two_writes:
  assumes "pool_inv p" and "a \<in> live (mem p)" and "i \<in> live (mem p)"
  shows "pool_inv (p\<lparr>mem := (mem p)(a \<mapsto> Live x, i \<mapsto> Live y)\<rparr>)"
  using assms by (intro slab.put_live) auto

lemma pool_inv_relinked: "pool_inv p \<Longrightarrow> relinked A (mem p) h \<Longrightarrow> pool_inv (p\<lparr>mem := h\<rparr>)"
  by (rule slab.put_live) (auto simp: relinked_live, auto simp: relinked_def)

text \<open>What a trade of quantity \<open>m\<close> between the front order \<open>a\<close> of side \<open>s\<close> and \<open>i\<close> guarantees.\<close>

definition trade_post ::
  "Side \<Rightarrow> addr \<Rightarrow> addr \<Rightarrow> u32 \<Rightarrow> MatchingEngine \<Rightarrow> OrderPool \<Rightarrow> (Side \<Rightarrow> ladder) \<Rightarrow>
   MatchingEngine \<Rightarrow> OrderPool \<Rightarrow> (Side \<Rightarrow> ladder) \<Rightarrow> bool" where
  "trade_post s a i m e p G e' p' G' \<longleftrightarrow>
     sys_rep e' p' G' \<and> framed {i} p G p' G' \<and> i \<in> live (mem p') \<and>
     set (book_addrs G') \<subseteq> set (book_addrs G) \<and>
     obj (mem p') i = fill_by m (obj (mem p) i) \<and>
     m_fills e' = m_fills e @ [mk_fill (obj (mem p) a) (obj (mem p) i) (ord_price (obj (mem p) a)) m (m_currentSeq e)] \<and>
     m_currentSeq e' = m_currentSeq e \<and>
     (\<forall>t. t \<noteq> s \<longrightarrow> queue (mem p') (G' t) = queue (mem p) (G t)) \<and>
     queue (mem p') (G' s) =
       (if isFilled (fill_by m (obj (mem p) a)) then tl (queue (mem p) (G s))
        else fill_by m (strip (obj (mem p) a)) # tl (queue (mem p) (G s)))"

lemma queue_cong:
  "(\<And>c. c \<in> set (addrs g) \<Longrightarrow> strip (obj h' c) = strip (obj h c)) \<Longrightarrow> queue h' g = queue h g"
  by (simp add: queue_def)

lemma match_trade_partial:
  assumes sys: "sys_rep e p G" and G: "G s = (pr, a # xs) # g"
    and lvl: "side_levels s (m_book e) = (pr, lvl) # lvls" "front lvl = Some a"
    and i: "i \<in> live (mem p)" "i \<notin> set (book_addrs G)"
  defines "m \<equiv> min (remainingQty (obj (mem p) i)) (remainingQty (obj (mem p) a))"
  assumes nf: "\<not> isFilled (fill_by m (obj (mem p) a))"
  shows "\<exists>e' p'. match_trade (s = SELL) (Some i) pr lvl e p = Some (e', p') \<and>
           trade_post s a i m e p G e' p' G"
proof -
  note rep = sys_rep_simps [OF sys]
  let ?h = "(mem p)(a \<mapsto> Live (fill_by m (obj (mem p) a)), i \<mapsto> Live (fill_by m (obj (mem p) i)))"
  let ?e = "e\<lparr>m_fills := m_fills e @ [mk_fill (obj (mem p) a) (obj (mem p) i) pr m (m_currentSeq e)],
             m_book := decrease_level (s = SELL) pr lvl m (m_book e)\<rparr>"
  have ab: "a \<in> set (addrs (G s))" "a \<in> set (book_addrs G)"
    using front_in_book [of G s pr a xs g] G by auto
  have a: "a \<in> live (mem p)" "a \<noteq> i"
    using ab i(2) book_rep_live [OF rep(1)] by auto
  have pr: "ord_price (obj (mem p) a) = pr"
    using book_rep_best [OF rep(1) G] by metis
  have inot: "i \<notin> set (addrs (G t))" for t
    using i(2) in_book_addrs by blast
  have op: "match_trade (s = SELL) (Some i) pr lvl e p = Some (?e, p\<lparr>mem := ?h\<rparr>)"
    using a i(1) nf lvl(2)
    by (simp add: match_trade_def deref_live executeTrade_live Let_def m_def [symmetric] del: deref.simps)
  have "book_rep ?h (m_book ?e) G"
    using trade_book_rep [OF rep(1) G lvl(1) i] by (simp add: m_def)
  moreover have "book_open ?h G"
    using rep(2) nf i(2) by (auto simp: book_open_def)
  moreover have "pool_inv (p\<lparr>mem := ?h\<rparr>)"
    using pool_inv_two_writes [OF rep(3) a(1) i(1)] .
  ultimately have "sys_rep ?e (p\<lparr>mem := ?h\<rparr>) G"
    using rep(4) by (simp add: sys_rep_def)
  moreover have "framed {i} p G (p\<lparr>mem := ?h\<rparr>) G"
    using a i ab by (auto simp: framed_def)
  moreover have "queue ?h (G t) = queue (mem p) (G t)" if "t \<noteq> s" for t
    using that inot [of t] book_rep_other_side [OF rep(1) ab(1)]
    by (intro queue_cong) auto
  moreover have "queue ?h (G s) = fill_by m (strip (obj (mem p) a)) # tl (queue (mem p) (G s))"
    using G inot [of s] book_rep_distinct_side [OF rep(1), of s]
    by (auto simp: queue_def strip_fill_by)
  ultimately have "trade_post s a i m e p G ?e (p\<lparr>mem := ?h\<rparr>) G"
    using nf pr by (simp add: trade_post_def)
  with op show ?thesis by blast
qed

lemma match_trade_full:
  assumes sys: "sys_rep e p G" and G: "G s = (pr, a # xs) # g"
    and lvl: "side_levels s (m_book e) = (pr, lvl) # lvls" "front lvl = Some a"
    and i: "i \<in> live (mem p)" "i \<notin> set (book_addrs G)"
  defines "m \<equiv> min (remainingQty (obj (mem p) i)) (remainingQty (obj (mem p) a))"
  assumes full: "isFilled (fill_by m (obj (mem p) a))"
  shows "\<exists>e' p'. match_trade (s = SELL) (Some i) pr lvl e p = Some (e', p') \<and>
           trade_post s a i m e p G e' p' (book_drop a G)"
proof -
  note rep = sys_rep_simps [OF sys]
  let ?h = "(mem p)(a \<mapsto> Live (fill_by m (obj (mem p) a)), i \<mapsto> Live (fill_by m (obj (mem p) i)))"
  let ?f = "mk_fill (obj (mem p) a) (obj (mem p) i) pr m (m_currentSeq e)"
  let ?b = "decrease_level (s = SELL) pr lvl m (m_book e)"
  have ab: "a \<in> set (addrs (G s))" "a \<in> set (book_addrs G)"
    using front_in_book [of G s pr a xs g] G by auto
  have a: "a \<in> live (mem p)" "a \<noteq> i"
    using ab i(2) book_rep_live [OF rep(1)] by auto
  have pr: "ord_price (obj (mem p) a) = pr"
    using book_rep_best [OF rep(1) G] by metis
  have inot: "i \<notin> set (addrs (G t))" for t
    using i(2) in_book_addrs by blast
  have bk: "book_rep ?h ?b G"
    using trade_book_rep [OF rep(1) G lvl(1) i] by (simp add: m_def)
  obtain b' h' where rm: "OrderBook_removeOrder (Some a) ?b ?h = Some (b', h')"
      "book_rep h' b' (book_drop a G)" and rl: "relinked (set (book_addrs G)) ?h h'"
    using OrderBook_removeOrder_rep [OF bk ab(2)] by blast
  have lv: "live h' = live (mem p)"
    using relinked_live [OF rl] a(1) i(1) by (simp add: insert_absorb)
  have "pool_inv (p\<lparr>mem := h'\<rparr>)"
    using pool_inv_relinked [of "p\<lparr>mem := ?h\<rparr>"] pool_inv_two_writes [OF rep(3) a(1) i(1)] rl by simp
  then obtain n p' where de: "deallocate (Some a) (p\<lparr>mem := h'\<rparr>) = Some p'"
      "mem p' = h'(a \<mapsto> FreeSlot n)" "pool_inv p'" "unat (m_capacity p') = unat (m_capacity p)"
    using slab.dealloc_live [of "p\<lparr>mem := h'\<rparr>" a] a(1) lv by auto
  let ?e = "e\<lparr>m_fills := m_fills e @ [?f], m_book := b'\<rparr>"
  have op: "match_trade (s = SELL) (Some i) pr lvl e p = Some (?e, p')"
    using a i(1) full lvl(2) rm(1) de(1)
    by (simp add: match_trade_def deref_live executeTrade_live Let_def m_def [symmetric] del: deref.simps)
  have dat: "strip (obj (mem p') c) = strip (obj (mem p) c)" if "c \<noteq> a" "c \<noteq> i" for c
    using that relinked_strip [OF rl, of c] de(2) by (simp add: obj_def)
  have oi: "obj (mem p') i = fill_by m (obj (mem p) i)" "i \<in> live (mem p')"
    using rl i a de(2) lv by (auto simp: relinked_def obj_def)
  have ba: "set (book_addrs (book_drop a G)) = set (book_addrs G) - {a}"
    by (auto simp: book_addrs_drop)
  have "book_rep (mem p') b' (book_drop a G) = book_rep h' b' (book_drop a G)"
    using ba de(2) by (intro book_rep_cong) auto
  with rm(2) have "book_rep (mem p') b' (book_drop a G)"
    by simp
  moreover have "book_open (mem p') (book_drop a G)"
    unfolding book_open_def
  proof
    fix c
    assume "c \<in> set (book_addrs (book_drop a G))"
    then have "c \<in> set (book_addrs G)" "c \<noteq> a" "c \<noteq> i"
      using ba i(2) by auto
    then show "\<not> isFilled (obj (mem p') c)"
      using rep(2) strip_eqD(9) [OF dat] by (simp add: book_open_def)
  qed
  ultimately have "sys_rep ?e p' (book_drop a G)"
    using rep(4) de(3,4) by (simp add: sys_rep_def)
  moreover have "framed {i} p G p' (book_drop a G)"
    using rl de(2,4) lv ab ba i a by (auto simp: framed_def relinked_def word_unat_eq_iff)
  moreover have "queue (mem p') (ladder_drop a (G t)) = queue (mem p) (G t)" if "t \<noteq> s" for t
  proof -
    have at: "a \<notin> set (addrs (G t))"
      using that book_rep_other_side [OF rep(1) ab(1)] by blast
    then have "queue (mem p') (G t) = queue (mem p) (G t)"
      using inot [of t] by (intro queue_cong dat) auto
    then show ?thesis
      using book_rep_drop_other [OF rep(1) at] by simp
  qed
  moreover have "queue (mem p') (ladder_drop a (G s)) = tl (queue (mem p) (G s))"
  proof -
    have "addrs (ladder_drop a (G s)) = xs @ addrs g"
      using G book_rep_distinct_side [OF rep(1), of s] by (simp add: addrs_ladder_drop)
    moreover have "c \<noteq> a" "c \<noteq> i" if "c \<in> set (xs @ addrs g)" for c
      using that G inot [of s] book_rep_distinct_side [OF rep(1), of s] by auto
    ultimately show ?thesis
      using G dat by (auto simp: queue_def)
  qed
  ultimately have "trade_post s a i m e p G ?e p' (book_drop a G)"
    using full pr oi ba by (auto simp: trade_post_def)
  with op show ?thesis by blast
qed

section \<open>The match loop\<close>

lemma fill_min_filled:
  assumes "\<not> isFilled (fill_by (min (remainingQty i) (remainingQty r)) r)"
  shows "isFilled (fill_by (min (remainingQty i) (remainingQty r)) i)"
proof -
  let ?m = "min (remainingQty i) (remainingQty r)"
  have "unat (remainingQty (fill_by ?m i)) = unat (remainingQty i) - unat ?m"
    and "unat (remainingQty (fill_by ?m r)) = unat (remainingQty r) - unat ?m"
    by (simp_all add: fill_by_nat(2))
  moreover have "0 < unat (remainingQty (fill_by ?m r))"
    using assms by (rule remaining_pos)
  ultimately have "unat (remainingQty (fill_by ?m i)) = 0"
    by (auto simp: unat_min)
  then show ?thesis
    by (simp add: remainingQty_0_iff [symmetric] unat_eq_zero)
qed

lemma mk_fill_strip: "mk_fill (strip r) (strip i) pr m ts = mk_fill r i pr m ts"
  by (simp add: mk_fill_def)

definition match_post ::
  "Side \<Rightarrow> bool \<Rightarrow> addr \<Rightarrow> MatchingEngine \<Rightarrow> OrderPool \<Rightarrow> (Side \<Rightarrow> ladder) \<Rightarrow>
   MatchingEngine \<Rightarrow> OrderPool \<Rightarrow> (Side \<Rightarrow> ladder) \<Rightarrow> bool" where
  "match_post s rp i e p G e' p' G' \<longleftrightarrow>
     sys_rep e' p' G' \<and> framed {i} p G p' G' \<and> i \<in> live (mem p') \<and>
     set (book_addrs G') \<subseteq> set (book_addrs G) \<and> m_currentSeq e' = m_currentSeq e \<and>
     (\<forall>t. t \<noteq> s \<longrightarrow> queue (mem p') (G' t) = queue (mem p) (G t)) \<and>
     (\<exists>fs. m_fills e' = m_fills e @ fs \<and>
        spec_match (m_currentSeq e) rp (strip (obj (mem p) i)) (queue (mem p) (G s)) =
          (strip (obj (mem p') i), fs, queue (mem p') (G' s)))"

lemma match_loop_stop:
  assumes "i \<in> live (mem p)"
    and "isFilled (obj (mem p) i) \<or> best_level isBuy (m_book e) = None \<or>
         (\<exists>pr lvl. best_level isBuy (m_book e) = Some (pr, lvl) \<and> rp \<and>
            \<not> crosses isBuy pr (ord_price (obj (mem p) i)))"
  shows "match_loop isBuy rp (Some i) e p = Some (e, p)"
  using assms by (subst match_loop.simps) (auto simp: deref_live simp del: deref.simps)

lemma match_loop_step:
  assumes "i \<in> live (mem p)" and "\<not> isFilled (obj (mem p) i)"
    and "best_level isBuy (m_book e) = Some (pr, lvl)"
    and "rp \<Longrightarrow> crosses isBuy pr (ord_price (obj (mem p) i))"
    and "match_trade isBuy (Some i) pr lvl e p = Some (e1, p1)"
  shows "match_loop isBuy rp (Some i) e p = match_loop isBuy rp (Some i) e1 p1"
  using assms by (subst match_loop.simps) (auto simp: deref_live simp del: deref.simps)

lemma match_post_stop:
  assumes "sys_rep e p G" and "i \<in> live (mem p)"
    and "queue (mem p) (G s) = [] \<or> isFilled (obj (mem p) i) \<or>
         (rp \<and> \<not> crosses (ord_side (obj (mem p) i) = BUY) (ord_price (hd (queue (mem p) (G s))))
            (ord_price (obj (mem p) i)))"
  shows "match_post s rp i e p G e p G"
  using assms by (cases "queue (mem p) (G s)") (auto simp: match_post_def framed_refl)

lemma match_post_step:
  assumes tr: "trade_post s a i m e p G e1 p1 G1"
    and m: "m = min (remainingQty (obj (mem p) i)) (remainingQty (obj (mem p) a))"
    and q: "queue (mem p) (G s) = strip (obj (mem p) a) # q"
    and go: "\<not> isFilled (obj (mem p) i)"
      "rp \<Longrightarrow> crosses (ord_side (obj (mem p) i) = BUY) (ord_price (obj (mem p) a)) (ord_price (obj (mem p) i))"
    and full: "isFilled (fill_by m (obj (mem p) a))"
    and post: "match_post s rp i e1 p1 G1 e' p' G'"
  shows "match_post s rp i e p G e' p' G'"
proof -
  let ?f = "mk_fill (obj (mem p) a) (obj (mem p) i) (ord_price (obj (mem p) a)) m (m_currentSeq e)"
  have t: "set (book_addrs G1) \<subseteq> set (book_addrs G)" "framed {i} p G p1 G1"
      "obj (mem p1) i = fill_by m (obj (mem p) i)" "m_fills e1 = m_fills e @ [?f]"
      "m_currentSeq e1 = m_currentSeq e" "queue (mem p1) (G1 s) = q"
      "\<forall>t. t \<noteq> s \<longrightarrow> queue (mem p1) (G1 t) = queue (mem p) (G t)"
    using tr full q by (auto simp: trade_post_def)
  obtain fs where fs: "m_fills e' = m_fills e1 @ fs"
      "spec_match (m_currentSeq e1) rp (strip (obj (mem p1) i)) q =
        (strip (obj (mem p') i), fs, queue (mem p') (G' s))"
    using post t(6) by (auto simp: match_post_def)
  have fl: "isFilled (fill_by m (strip (obj (mem p) a)))"
    using full strip_fields(11) [of "fill_by m (obj (mem p) a)"] by (simp add: strip_fill_by)
  have "spec_match (m_currentSeq e) rp (strip (obj (mem p) i)) (queue (mem p) (G s)) =
      (strip (obj (mem p') i), ?f # fs, queue (mem p') (G' s))"
    using go fl fs(2) q t(3,5)
    by (simp add: Let_def m [symmetric] strip_fill_by mk_fill_strip)
  moreover have "framed {i} p G p' G'"
    using post t(1,2) by (auto simp: match_post_def intro: framed_trans)
  ultimately show ?thesis
    using post t fs(1) by (auto simp: match_post_def)
qed

lemma match_post_last:
  assumes tr: "trade_post s a i m e p G e1 p1 G1"
    and m: "m = min (remainingQty (obj (mem p) i)) (remainingQty (obj (mem p) a))"
    and q: "queue (mem p) (G s) = strip (obj (mem p) a) # q"
    and go: "\<not> isFilled (obj (mem p) i)"
      "rp \<Longrightarrow> crosses (ord_side (obj (mem p) i) = BUY) (ord_price (obj (mem p) a)) (ord_price (obj (mem p) i))"
    and part: "\<not> isFilled (fill_by m (obj (mem p) a))"
  shows "match_post s rp i e p G e1 p1 G1"
proof -
  have fl: "\<not> isFilled (fill_by m (strip (obj (mem p) a)))"
    using part strip_fields(11) [of "fill_by m (obj (mem p) a)"] by (simp add: strip_fill_by)
  have "spec_match (m_currentSeq e) rp (strip (obj (mem p) i)) (queue (mem p) (G s)) =
      (strip (obj (mem p1) i),
       [mk_fill (obj (mem p) a) (obj (mem p) i) (ord_price (obj (mem p) a)) m (m_currentSeq e)],
       queue (mem p1) (G1 s))"
    using go fl q tr part
    by (simp add: Let_def m [symmetric] strip_fill_by mk_fill_strip trade_post_def)
  then show ?thesis
    using tr by (simp add: match_post_def trade_post_def)
qed

lemma match_loop_rep:
  assumes "sys_rep e p G" and "i \<in> live (mem p)" and "i \<notin> set (book_addrs G)"
    and "ord_side (obj (mem p) i) = opposite s"
  shows "\<exists>e' p' G'. match_loop (s = SELL) rp (Some i) e p = Some (e', p') \<and>
           match_post s rp i e p G e' p' G'"
  using assms
proof (induction "length (addrs (G s))" arbitrary: e p G rule: less_induct)
  case less
  note rep = sys_rep_simps [OF less.prems(1)]
  have buy: "(ord_side (obj (mem p) i) = BUY) = (s = SELL)"
    using less.prems(4) by (cases s) auto
  show ?case
  proof (cases rule: ladder_cases [OF book_rep_ladder [OF rep(1), of s]])
    case 1
    then have "match_loop (s = SELL) rp (Some i) e p = Some (e, p)"
      using best_level_none [OF rep(1)] less.prems(2) by (intro match_loop_stop) auto
    moreover have "match_post s rp i e p G e p G"
      using 1 less.prems by (intro match_post_stop) (auto simp: queue_def)
    ultimately show ?thesis by blast
  next
    case (2 pr a xs g)
    obtain lvl lvls where lvl: "best_level (s = SELL) (m_book e) = Some (pr, lvl)"
        "side_levels s (m_book e) = (pr, lvl) # lvls" "front lvl = Some a" "ord_price (obj (mem p) a) = pr"
      using best_level_some [OF rep(1) 2] .
    have q: "queue (mem p) (G s) = strip (obj (mem p) a) # tl (queue (mem p) (G s))"
      using 2 by (simp add: queue_def)
    let ?m = "min (remainingQty (obj (mem p) i)) (remainingQty (obj (mem p) a))"
    show ?thesis
    proof (cases "isFilled (obj (mem p) i) \<or> (rp \<and> \<not> crosses (s = SELL) pr (ord_price (obj (mem p) i)))")
      case True
      then have "match_loop (s = SELL) rp (Some i) e p = Some (e, p)"
        using lvl(1) less.prems(2) by (intro match_loop_stop) auto
      moreover have "match_post s rp i e p G e p G"
        using True less.prems lvl(4) buy 2 by (intro match_post_stop) (auto simp: queue_def)
      ultimately show ?thesis by blast
    next
      case False
      then have go: "\<not> isFilled (obj (mem p) i)"
          "rp \<Longrightarrow> crosses (ord_side (obj (mem p) i) = BUY) (ord_price (obj (mem p) a)) (ord_price (obj (mem p) i))"
        using buy lvl(4) by auto
      show ?thesis
      proof (cases "isFilled (fill_by ?m (obj (mem p) a))")
        case full: True
        obtain e1 p1 where tr: "match_trade (s = SELL) (Some i) pr lvl e p = Some (e1, p1)"
            "trade_post s a i ?m e p G e1 p1 (book_drop a G)"
          using match_trade_full [OF less.prems(1) 2 lvl(2,3) less.prems(2,3) full] by blast
        have shorter: "length (addrs (ladder_drop a (G s))) < length (addrs (G s))"
          unfolding addrs_ladder_drop
          using front_in_book(1) [of G s, OF 2] by (rule length_filter_less) simp
        have "i \<notin> set (book_addrs (book_drop a G))" "i \<in> live (mem p1)" "sys_rep e1 p1 (book_drop a G)"
          "ord_side (obj (mem p1) i) = opposite s"
          using tr(2) less.prems(3,4) by (auto simp: trade_post_def)
        with less.hyps [of "book_drop a G"] shorter obtain e' p' G' where
          "match_loop (s = SELL) rp (Some i) e1 p1 = Some (e', p')"
          "match_post s rp i e1 p1 (book_drop a G) e' p' G'" by blast
        moreover have "match_loop (s = SELL) rp (Some i) e p = match_loop (s = SELL) rp (Some i) e1 p1"
          using match_loop_step [OF less.prems(2) go(1) lvl(1) _ tr(1)] go(2) buy lvl(4) by simp
        ultimately show ?thesis
          using match_post_step [where rp = rp, OF tr(2) refl q go full] by auto
      next
        case part: False
        obtain e1 p1 where tr: "match_trade (s = SELL) (Some i) pr lvl e p = Some (e1, p1)"
            "trade_post s a i ?m e p G e1 p1 G"
          using match_trade_partial [OF less.prems(1) 2 lvl(2,3) less.prems(2,3) part] by blast
        have "match_loop (s = SELL) rp (Some i) e1 p1 = Some (e1, p1)"
          using tr(2) fill_min_filled [OF part] by (intro match_loop_stop) (auto simp: trade_post_def)
        moreover have "match_loop (s = SELL) rp (Some i) e p = match_loop (s = SELL) rp (Some i) e1 p1"
          using match_loop_step [OF less.prems(2) go(1) lvl(1) _ tr(1)] go(2) buy lvl(4) by simp
        ultimately show ?thesis
          using match_post_last [where rp = rp, OF tr(2) refl q go part] by auto
      qed
    qed
  qed
qed

lemma matchOneSide_rep:
  assumes "sys_rep e p G" and "i \<in> live (mem p)" and "i \<notin> set (book_addrs G)"
  defines "s \<equiv> opposite (ord_side (obj (mem p) i))"
  shows "\<exists>e' p' G'. matchOneSide (Some i) rp e p = Some (e', p') \<and> match_post s rp i e p G e' p' G'"
proof -
  have "ord_side (obj (mem p) i) = opposite s" and "(ord_side (obj (mem p) i) = BUY) = (s = SELL)"
    by (cases "ord_side (obj (mem p) i)"; simp add: s_def)+
  then show ?thesis
    using match_loop_rep [OF assms(1-3), of s rp] assms(2)
    by (simp add: matchOneSide_def deref_live del: deref.simps)
qed

section \<open>Resting and freeing the incoming order\<close>

lemma spec_enqueue_split:
  assumes "\<forall>r\<in>set l1. \<not> price_before s (ord_price x) (ord_price r)"
    and "\<forall>r\<in>set l2. price_before s (ord_price x) (ord_price r)"
  shows "spec_enqueue s x (l1 @ l2) = l1 @ x # l2"
proof -
  have "takeWhile (\<lambda>r. \<not> price_before s (ord_price x) (ord_price r)) l2 = []"
    and "dropWhile (\<lambda>r. \<not> price_before s (ord_price x) (ord_price r)) l2 = l2"
    using assms(2) by (cases l2; simp)+
  then show ?thesis
    using assms(1) by (simp add: spec_enqueue_def)
qed

lemma ladder_rung_price:
  assumes "ladder_rep s h lvls g" and "r \<in> set g" and "a \<in> set (snd r)"
  shows "ord_price (obj h a) = fst r"
  using assms list_all2_right [of "rung_rep s h" lvls g r]
  by (auto simp: ladder_rep_def rung_rep_def rest_ok_def)

lemma queue_append [simp]: "queue h (g1 @ g2) = queue h g1 @ queue h g2"
  "queue h ((p, xs) # g) = map (\<lambda>a. strip (obj h a)) xs @ queue h g" "queue h [] = []"
  by (simp_all add: queue_def)

lemma queue_price:
  assumes "ladder_rep s h lvls g" and "set g1 \<subseteq> set g" and "x \<in> set (queue h g1)"
  shows "ord_price x \<in> fst ` set g1"
proof -
  obtain r a where "r \<in> set g1" "a \<in> set (snd r)" "x = strip (obj h a)"
    using assms(3) by (auto simp: queue_def addrs_def)
  moreover from this have "ord_price (obj h a) = fst r"
    using assms(2) by (intro ladder_rung_price [OF assms(1)]) auto
  ultimately show ?thesis by simp
qed

lemma queue_ladder_insert:
  assumes rep: "ladder_rep s h lvls g"
  shows "queue h (ladder_insert s (ord_price (obj h a)) a g) =
         spec_enqueue s (strip (obj h a)) (queue h g)"
proof -
  let ?p = "ord_price (obj h a)" and ?x = "strip (obj h a)"
  have sg: "sorted_wrt (price_before s) (map fst g)"
    using rep by (simp add: ladder_rep_def)
  have asym: "price_before s q ?p \<Longrightarrow> \<not> price_before s ?p q" for q
    using side_map.lt_irrefl side_map.lt_trans by blast
  show ?thesis
  proof (cases "map_of g ?p")
    case None
    then have ins: "ladder_insert s ?p a g = om_set (price_before s) ?p [a] g"
      by (simp add: ladder_insert_def om_at_def)
    have "?p \<notin> fst ` set g"
      using None by (simp add: map_of_eq_None_iff)
    from side_map.om_set_absent [OF sg this, of "[a]"] obtain m1 m2
      where g: "g = m1 @ m2" and "om_set (price_before s) ?p [a] g = m1 @ (?p, [a]) # m2"
        and lt: "\<forall>e\<in>set m1. price_before s (fst e) ?p" "\<forall>e\<in>set m2. price_before s ?p (fst e)" by blast
    have "spec_enqueue s ?x (queue h m1 @ queue h m2) = queue h m1 @ ?x # queue h m2"
      using lt asym queue_price [OF rep, of m1] queue_price [OF rep, of m2] g
      by (intro spec_enqueue_split) fastforce+
    then show ?thesis
      using ins \<open>om_set (price_before s) ?p [a] g = m1 @ (?p, [a]) # m2\<close> by (simp add: g)
  next
    case (Some xs)
    then have ins: "ladder_insert s ?p a g = om_set (price_before s) ?p (xs @ [a]) g"
      by (simp add: ladder_insert_def om_at_def)
    obtain m1 m2 where g: "g = m1 @ (?p, xs) # m2"
      using side_map.map_of_split [OF Some] by blast
    then have eq: "ladder_insert s ?p a g = m1 @ (?p, xs @ [a]) # m2"
      using ins sg side_map.om_set_present [of s m1 ?p xs m2] by simp
    have lt: "\<forall>e\<in>set m1. price_before s (fst e) ?p" "\<forall>e\<in>set m2. price_before s ?p (fst e)"
      using sg g by (auto simp: sorted_wrt_append)
    have l1: "\<forall>r\<in>set (queue h (m1 @ [(?p, xs)])). \<not> price_before s (ord_price ?x) (ord_price r)"
      using lt(1) asym queue_price [OF rep, of "m1 @ [(?p, xs)]"] g side_map.lt_irrefl [of s ?p]
      by fastforce
    have l2: "\<forall>r\<in>set (queue h m2). price_before s (ord_price ?x) (ord_price r)"
      using lt(2) queue_price [OF rep, of m2] g by fastforce
    show ?thesis
      using spec_enqueue_split [OF l1 l2] eq by (simp add: g)
  qed
qed

end
