(* ===== verification/Engine_Operations.thy ===== *)
theory Engine_Operations
  imports Engine_Refinement
begin

text \<open>
  The public operations of the engine (\<open>processOrder\<close>, \<open>cancelOrder\<close>, \<open>modifyOrder\<close>) return from every
  well-formed state, keep the invariant, refine the specification, and leave every live object that
  belongs neither to the book nor to the call untouched.  In particular no order object is leaked.
\<close>

section \<open>Frames that consume or hand out an order\<close>

definition op_frame ::
  "addr set \<Rightarrow> addr set \<Rightarrow> OrderPool \<Rightarrow> (Side \<Rightarrow> ladder) \<Rightarrow> OrderPool \<Rightarrow> (Side \<Rightarrow> ladder) \<Rightarrow> bool" where
  "op_frame A D p G p' G' \<longleftrightarrow>
     (\<forall>a. a \<notin> A \<union> set (book_addrs G) \<longrightarrow> mem p' a = mem p a) \<and> m_capacity p' = m_capacity p \<and>
     live (mem p') - set (book_addrs G') = live (mem p) - set (book_addrs G) - D"

lemma framed_op_frame:
  assumes "framed A p G p1 G1" and "op_frame A D p1 G1 p2 G2"
    and "set (book_addrs G1) \<subseteq> A \<union> set (book_addrs G)"
  shows "op_frame A D p G p2 G2"
  using assms by (auto simp: framed_def op_frame_def)

lemma spec_of_cong:
  assumes "\<And>c. c \<in> set (book_addrs G) \<Longrightarrow> strip (obj h' c) = strip (obj h c)"
  shows "spec_of h' G = spec_of h G"
  using assms by (auto simp: spec_of_def in_book_addrs intro!: queue_cong)

lemma book_open_cong:
  assumes "\<And>c. c \<in> set (book_addrs G) \<Longrightarrow> strip (obj h' c) = strip (obj h c)"
  shows "book_open h' G = book_open h G"
  using strip_eqD(9) [OF assms] by (simp add: book_open_def)

lemma contains_spec:
  assumes "book_rep h b G"
  shows "containsOrder i b \<longleftrightarrow> spec_contains i (spec_of h G)"
proof -
  have "containsOrder i b \<longleftrightarrow> (\<exists>a. m_orderMap b i = Some a)"
    by (auto simp: containsOrder_def)
  also have "\<dots> \<longleftrightarrow> (\<exists>s. \<exists>a\<in>set (addrs (G s)). ord_orderId (obj h a) = i)"
    unfolding book_rep_map [OF assms] in_book_addrs by blast
  also have "\<dots> \<longleftrightarrow> spec_contains i (spec_of h G)"
    unfolding spec_contains_def spec_of_def queue_def by (auto simp: image_iff)
  finally show ?thesis .
qed

lemma sys_rep_write:
  assumes "sys_rep e p G" and "i \<in> live (mem p)" and "i \<notin> set (book_addrs G)"
  shows "sys_rep e (p\<lparr>mem := (mem p)(i \<mapsto> Live x)\<rparr>) G"
    and "spec_of ((mem p)(i \<mapsto> Live x)) G = spec_of (mem p) G"
proof -
  note rep = sys_rep_simps [OF assms(1)]
  have "book_rep ((mem p)(i \<mapsto> Live x)) (m_book e) G = book_rep (mem p) (m_book e) G"
    using assms(3) by (intro book_rep_cong) auto
  moreover have "book_open ((mem p)(i \<mapsto> Live x)) G = book_open (mem p) G"
    using assms(3) by (intro book_open_cong) auto
  moreover have "pool_inv (p\<lparr>mem := (mem p)(i \<mapsto> Live x)\<rparr>)"
    using rep(3) assms(2) by (intro slab.put_live) auto
  ultimately show "sys_rep e (p\<lparr>mem := (mem p)(i \<mapsto> Live x)\<rparr>) G"
    using rep by (simp add: sys_rep_def)
  show "spec_of ((mem p)(i \<mapsto> Live x)) G = spec_of (mem p) G"
    using assms(3) by (intro spec_of_cong) auto
qed

lemma free_order:
  assumes sys: "sys_rep e p G" and i: "i \<in> live (mem p)" "i \<notin> set (book_addrs G)"
  shows "\<exists>p'. deallocate (Some i) p = Some p' \<and> sys_rep e p' G \<and>
           spec_of (mem p') G = spec_of (mem p) G \<and> op_frame {i} {i} p G p' G"
proof -
  note rep = sys_rep_simps [OF sys]
  obtain n p' where p': "deallocate (Some i) p = Some p'" "mem p' = (mem p)(i \<mapsto> FreeSlot n)"
      "pool_inv p'" "unat (m_capacity p') = unat (m_capacity p)"
    using slab.dealloc_live [OF rep(3) i(1)] by blast
  have "book_rep (mem p') (m_book e) G = book_rep (mem p) (m_book e) G"
    using i(2) p'(2) by (intro book_rep_cong) auto
  moreover have same: "strip (obj (mem p') c) = strip (obj (mem p) c)" if "c \<in> set (book_addrs G)" for c
    using that i(2) p'(2) by (auto simp: obj_def)
  ultimately have "sys_rep e p' G"
    using rep p'(3,4) book_open_cong [OF same] by (simp add: sys_rep_def)
  moreover have "op_frame {i} {i} p G p' G"
    using p'(2,4) i by (auto simp: op_frame_def word_unat_eq_iff)
  ultimately show ?thesis
    using p'(1) spec_of_cong [OF same] by blast
qed

lemma book_room:
  assumes sys: "sys_rep e p G" and i: "i \<in> live (mem p)" "i \<notin> set (book_addrs G)"
  shows "length (book_addrs G) < 4294967295"
proof -
  note rep = sys_rep_simps [OF sys]
  have "distinct (i # book_addrs G)" "set (i # book_addrs G) \<subseteq> live (mem p)"
    using i book_rep_live [OF rep(1)] rep(1) by (auto simp: book_rep_def)
  then have "length (i # book_addrs G) \<le> unat (m_capacity p)"
    using slab.distinct_in_live_le [OF rep(3)] by blast
  then show ?thesis
    using rep(4) by simp
qed

lemma rest_order:
  assumes sys: "sys_rep e p G" and i: "i \<in> live (mem p)" "i \<notin> set (book_addrs G)"
    and x: "ord_price (obj (mem p) i) \<noteq> 0" "\<not> isFilled (obj (mem p) i)"
      "\<not> spec_contains (ord_orderId (obj (mem p) i)) (spec_of (mem p) G)"
  defines "s \<equiv> ord_side (obj (mem p) i)"
  shows "\<exists>b h G'. OrderBook_addOrder (Some i) (m_book e) (mem p) = Some (True, b, h) \<and>
           sys_rep (e\<lparr>m_book := b\<rparr>) (p\<lparr>mem := h\<rparr>) G' \<and>
           spec_of h G' = (spec_of (mem p) G)
             (s := spec_enqueue s (strip (obj (mem p) i)) (spec_of (mem p) G s)) \<and>
           op_frame {i} {i} p G (p\<lparr>mem := h\<rparr>) G'"
proof -
  note rep = sys_rep_simps [OF sys]
  let ?G = "G(s := ladder_insert s (ord_price (obj (mem p) i)) i (G s))"
  have new: "m_orderMap (m_book e) (ord_orderId (obj (mem p) i)) = None"
    using x(3) unfolding contains_spec [OF rep(1), symmetric] by (simp add: containsOrder_def)
  obtain b h where add: "OrderBook_addOrder (Some i) (m_book e) (mem p) = Some (True, b, h)"
      "book_rep h b ?G" and rl: "relinked (insert i (set (book_addrs G))) (mem p) h"
    using OrderBook_addOrder_rep [OF rep(1) i x(1) new book_room [OF sys i]] unfolding s_def by blast
  have srt: "sorted_wrt (price_before s) (map fst (G s))"
    using book_rep_ladder [OF rep(1), of s] by (simp add: ladder_rep_def)
  have ad: "set (book_addrs ?G) = insert i (set (book_addrs G))"
    using addrs_ladder_insert(1) [OF srt] by (cases s) (auto simp: book_addrs_def)
  have "book_open h ?G"
    using rep(2) x(2) unfolding book_open_def ad
    by (auto simp: strip_eqD(9) [OF relinked_strip [OF rl]])
  then have "sys_rep (e\<lparr>m_book := b\<rparr>) (p\<lparr>mem := h\<rparr>) ?G"
    using add(2) pool_inv_relinked [OF rep(3) rl] rep(4) by (simp add: sys_rep_def)
  moreover have "spec_of h ?G = (spec_of (mem p) G)
      (s := spec_enqueue s (strip (obj (mem p) i)) (spec_of (mem p) G s))"
  proof
    fix t
    have "queue h g = queue (mem p) g" for g
      by (rule queue_cong) (rule relinked_strip [OF rl])
    then show "spec_of h ?G t = ((spec_of (mem p) G)
        (s := spec_enqueue s (strip (obj (mem p) i)) (spec_of (mem p) G s))) t"
      using queue_ladder_insert [OF book_rep_ladder [OF rep(1), of s], of i] by (simp add: spec_of_def)
  qed
  moreover have "op_frame {i} {i} p G (p\<lparr>mem := h\<rparr>) ?G"
    unfolding op_frame_def ad using rl by (auto simp: relinked_live [OF rl], auto simp: relinked_def)
  ultimately show ?thesis
    using add(1) by blast
qed

section \<open>Processing an order\<close>

lemma spec_match_data:
  assumes "spec_match ts rp i q = (i', fs, q')"
  shows "ord_orderId i' = ord_orderId i" "ord_side i' = ord_side i" "ord_price i' = ord_price i"
    "ord_qty i' = ord_qty i" "ord_type i' = ord_type i"
    "ord_orderId ` set q' \<subseteq> ord_orderId ` set q"
proof -
  have "ord_orderId i' = ord_orderId i \<and> ord_side i' = ord_side i \<and> ord_price i' = ord_price i \<and>
      ord_qty i' = ord_qty i \<and> ord_type i' = ord_type i \<and> ord_orderId ` set q' \<subseteq> ord_orderId ` set q"
    using assms
  proof (induction q arbitrary: i i' fs q')
    case (Cons r q)
    let ?m = "min (remainingQty i) (remainingQty r)"
    obtain i2 fs2 q2 where rec: "spec_match ts rp (fill_by ?m i) q = (i2, fs2, q2)"
      by (cases "spec_match ts rp (fill_by ?m i) q") auto
    show ?case
      using Cons.prems Cons.IH [OF rec] rec by (auto simp: Let_def split: if_splits)
  qed auto
  then show "ord_orderId i' = ord_orderId i" "ord_side i' = ord_side i" "ord_price i' = ord_price i"
    "ord_qty i' = ord_qty i" "ord_type i' = ord_type i"
    "ord_orderId ` set q' \<subseteq> ord_orderId ` set q" by blast+
qed

lemma spec_contains_match:
  assumes "spec_match ts rp i (B s) = (i', fs, q')" and "\<not> spec_contains k B"
  shows "\<not> spec_contains k (B(s := q'))"
  using spec_match_data(6) [OF assms(1)] assms(2) by (auto simp: spec_contains_def)

definition process_post ::
  "u64 \<Rightarrow> addr \<Rightarrow> MatchingEngine \<Rightarrow> OrderPool \<Rightarrow> (Side \<Rightarrow> ladder) \<Rightarrow>
   MatchingEngine \<Rightarrow> OrderPool \<Rightarrow> (Side \<Rightarrow> ladder) \<Rightarrow> bool" where
  "process_post ts i e p G e' p' G' \<longleftrightarrow>
     sys_rep e' p' G' \<and> op_frame {i} {i} p G p' G' \<and>
     (\<exists>fs. m_fills e' = m_fills e @ fs \<and>
        spec_process ts (strip (obj (mem p) i)) (spec_of (mem p) G) = (fs, spec_of (mem p') G'))"

text \<open>The state after matching, as far as the order types need it.\<close>

lemma matched_state:
  assumes sys: "sys_rep e p G" and i: "i \<in> live (mem p)" "i \<notin> set (book_addrs G)"
  obtains e1 p1 G1 fs where
    "matchOneSide (Some i) rp e p = Some (e1, p1)" "sys_rep e1 p1 G1" "framed {i} p G p1 G1"
    "i \<in> live (mem p1)" "i \<notin> set (book_addrs G1)" "set (book_addrs G1) \<subseteq> set (book_addrs G)"
    "m_fills e1 = m_fills e @ fs"
    "spec_match (m_currentSeq e) rp (strip (obj (mem p) i))
       (spec_of (mem p) G (opposite (ord_side (obj (mem p) i)))) =
       (strip (obj (mem p1) i), fs, spec_of (mem p1) G1 (opposite (ord_side (obj (mem p) i))))"
    "spec_of (mem p1) G1 = (spec_of (mem p) G)(opposite (ord_side (obj (mem p) i)) :=
       spec_of (mem p1) G1 (opposite (ord_side (obj (mem p) i))))"
proof -
  obtain e1 p1 G1 where m: "matchOneSide (Some i) rp e p = Some (e1, p1)"
      "match_post (opposite (ord_side (obj (mem p) i))) rp i e p G e1 p1 G1"
    using matchOneSide_rep [OF sys i] by blast
  moreover from m(2) have "spec_of (mem p1) G1 = (spec_of (mem p) G)
      (opposite (ord_side (obj (mem p) i)) := spec_of (mem p1) G1 (opposite (ord_side (obj (mem p) i))))"
    by (auto simp: match_post_def spec_of_def fun_eq_iff)
  moreover have "i \<notin> set (book_addrs G1)"
    using m(2) i(2) by (auto simp: match_post_def)
  ultimately show ?thesis
    using that unfolding match_post_def spec_of_def by blast
qed

lemma matchDrop_rep:
  assumes sys: "sys_rep e p G" and i: "i \<in> live (mem p)" "i \<notin> set (book_addrs G)"
    and new: "\<not> spec_contains (ord_orderId (obj (mem p) i)) (spec_of (mem p) G)"
    and ty: "rp = (ord_type (obj (mem p) i) \<noteq> MARKET)" "ord_type (obj (mem p) i) \<noteq> LIMIT"
  shows "\<exists>e1 p1 p2 G2. matchOneSide (Some i) rp e p = Some (e1, p1) \<and> deallocate (Some i) p1 = Some p2 \<and>
           process_post (m_currentSeq e) i e p G e1 p2 G2"
proof -
  obtain e1 p1 G1 fs where m: "matchOneSide (Some i) rp e p = Some (e1, p1)" "sys_rep e1 p1 G1"
      "framed {i} p G p1 G1" "i \<in> live (mem p1)" "i \<notin> set (book_addrs G1)"
      "set (book_addrs G1) \<subseteq> set (book_addrs G)" "m_fills e1 = m_fills e @ fs"
    and sp: "spec_match (m_currentSeq e) rp (strip (obj (mem p) i))
       (spec_of (mem p) G (opposite (ord_side (obj (mem p) i)))) =
       (strip (obj (mem p1) i), fs, spec_of (mem p1) G1 (opposite (ord_side (obj (mem p) i))))"
      "spec_of (mem p1) G1 = (spec_of (mem p) G)(opposite (ord_side (obj (mem p) i)) :=
       spec_of (mem p1) G1 (opposite (ord_side (obj (mem p) i))))"
    using matched_state [OF sys i, of rp] by blast
  obtain p2 where d: "deallocate (Some i) p1 = Some p2" "sys_rep e1 p2 G1"
      "spec_of (mem p2) G1 = spec_of (mem p1) G1" "op_frame {i} {i} p1 G1 p2 G1"
    using free_order [OF m(2,4,5)] by blast
  have "op_frame {i} {i} p G p2 G1"
    using framed_op_frame [OF m(3) d(4)] m(6) by blast
  moreover have "spec_process (m_currentSeq e) (strip (obj (mem p) i)) (spec_of (mem p) G) =
      (fs, spec_of (mem p2) G1)"
    using new ty sp(1) sp(2) [symmetric] d(3) by (simp add: spec_process_def)
  ultimately show ?thesis
    using m(1,7) d(1,2) by (auto simp: process_post_def)
qed

lemma matchLimit_rep:
  assumes sys: "sys_rep e p G" and i: "i \<in> live (mem p)" "i \<notin> set (book_addrs G)"
    and new: "\<not> spec_contains (ord_orderId (obj (mem p) i)) (spec_of (mem p) G)"
    and ty: "ord_type (obj (mem p) i) = LIMIT" and pr: "ord_price (obj (mem p) i) \<noteq> 0"
  shows "\<exists>e2 p2 G2. matchLimit (Some i) e p = Some (e2, p2) \<and>
           process_post (m_currentSeq e) i e p G e2 p2 G2"
proof -
  let ?s = "ord_side (obj (mem p) i)" and ?x = "strip (obj (mem p) i)"
  obtain e1 p1 G1 fs where m: "matchOneSide (Some i) True e p = Some (e1, p1)" "sys_rep e1 p1 G1"
      "framed {i} p G p1 G1" "i \<in> live (mem p1)" "i \<notin> set (book_addrs G1)"
      "set (book_addrs G1) \<subseteq> set (book_addrs G)" "m_fills e1 = m_fills e @ fs"
    and sp: "spec_match (m_currentSeq e) True ?x (spec_of (mem p) G (opposite ?s)) =
       (strip (obj (mem p1) i), fs, spec_of (mem p1) G1 (opposite ?s))"
      "spec_of (mem p1) G1 = (spec_of (mem p) G)(opposite ?s := spec_of (mem p1) G1 (opposite ?s))"
    using matched_state [OF sys i, of True] by blast
  note dat = spec_match_data [OF sp(1), simplified]
  have new1: "\<not> spec_contains (ord_orderId (obj (mem p1) i)) (spec_of (mem p1) G1)"
    using spec_contains_match [OF sp(1) new] sp(2) dat(1) by simp
  have same: "spec_of (mem p1) G1 ?s = spec_of (mem p) G ?s"
    by (subst sp(2)) simp
  show ?thesis
  proof (cases "isFilled (obj (mem p1) i)")
    case True
    obtain p2 where d: "deallocate (Some i) p1 = Some p2" "sys_rep e1 p2 G1"
        "spec_of (mem p2) G1 = spec_of (mem p1) G1" "op_frame {i} {i} p1 G1 p2 G1"
      using free_order [OF m(2,4,5)] by blast
    have "op_frame {i} {i} p G p2 G1"
      using framed_op_frame [OF m(3) d(4)] m(6) by blast
    moreover have "spec_process (m_currentSeq e) ?x (spec_of (mem p) G) = (fs, spec_of (mem p2) G1)"
      using new ty True sp(1) sp(2) [symmetric] d(3) by (simp add: spec_process_def)
    moreover have "matchLimit (Some i) e p = Some (e1, p2)"
      using m(1,4) d(1) True by (simp add: matchLimit_def deref_live del: deref.simps)
    ultimately show ?thesis
      using m(7) d(2) by (auto simp: process_post_def)
  next
    case False
    have "ord_price (obj (mem p1) i) \<noteq> 0"
      using pr dat(3) by simp
    then obtain b h G2 where a: "OrderBook_addOrder (Some i) (m_book e1) (mem p1) = Some (True, b, h)"
        "sys_rep (e1\<lparr>m_book := b\<rparr>) (p1\<lparr>mem := h\<rparr>) G2"
        "spec_of h G2 = (spec_of (mem p1) G1)
           (?s := spec_enqueue ?s (strip (obj (mem p1) i)) (spec_of (mem p1) G1 ?s))"
        "op_frame {i} {i} p1 G1 (p1\<lparr>mem := h\<rparr>) G2"
      using rest_order [OF m(2,4,5) _ False new1] dat(2) by auto
    have "op_frame {i} {i} p G (p1\<lparr>mem := h\<rparr>) G2"
      using framed_op_frame [OF m(3) a(4)] m(6) by blast
    moreover have "spec_process (m_currentSeq e) ?x (spec_of (mem p) G) = (fs, spec_of h G2)"
      unfolding a(3) same using new ty False sp(1) sp(2) [symmetric] by (simp add: spec_process_def)
    moreover have "matchLimit (Some i) e p = Some (e1\<lparr>m_book := b\<rparr>, p1\<lparr>mem := h\<rparr>)"
      using m(1,4) a(1) False by (simp add: matchLimit_def deref_live del: deref.simps)
    ultimately show ?thesis
      using m(7) a(2) by (auto simp: process_post_def)
  qed
qed

lemma processOrder_rep:
  assumes sys: "sys_rep e p G" and i: "i \<in> live (mem p)" "i \<notin> set (book_addrs G)"
    and pr: "ord_type (obj (mem p) i) = LIMIT \<longrightarrow> ord_price (obj (mem p) i) \<noteq> 0"
  shows "\<exists>e' p' G'. processOrder (Some i) ts e p = Some (e', p') \<and> process_post ts i e p G e' p' G'"
proof (cases "containsOrder (ord_orderId (obj (mem p) i)) (m_book e)")
  case True
  then have "spec_contains (ord_orderId (obj (mem p) i)) (spec_of (mem p) G)"
    using contains_spec [OF sys_rep_simps(1) [OF sys]] by blast
  moreover obtain p' where "deallocate (Some i) p = Some p'" "sys_rep e p' G"
      "spec_of (mem p') G = spec_of (mem p) G" "op_frame {i} {i} p G p' G"
    using free_order [OF sys i] by blast
  ultimately show ?thesis
    using True i(1)
    by (auto simp: processOrder_def deref_live process_post_def spec_process_def simp del: deref.simps)
next
  case False
  then have new: "\<not> spec_contains (ord_orderId (obj (mem p) i)) (spec_of (mem p) G)"
    using contains_spec [OF sys_rep_simps(1) [OF sys]] by blast
  let ?e = "e\<lparr>m_currentSeq := ts\<rparr>"
  have sys1: "sys_rep ?e p G"
    using sys by (simp add: sys_rep_def)
  have post: "process_post (m_currentSeq ?e) i ?e p G e' p' G' = process_post ts i e p G e' p' G'" for e' p' G'
    by (simp add: process_post_def)
  show ?thesis
  proof (cases "ord_type (obj (mem p) i)")
    case LIMIT
    then show ?thesis
      using matchLimit_rep [OF sys1 i new] pr False i(1) unfolding post
      by (simp add: processOrder_def deref_live Let_def del: deref.simps)
  next
    case MARKET
    then obtain e1 p1 p2 G2 where "matchOneSide (Some i) False ?e p = Some (e1, p1)"
        "deallocate (Some i) p1 = Some p2" "process_post ts i e p G e1 p2 G2"
      using matchDrop_rep [OF sys1 i new, of False] unfolding post by auto
    with MARKET False i(1) show ?thesis
      by (auto simp: processOrder_def deref_live Let_def matchMarket_def simp del: deref.simps)
  next
    case IOC
    then obtain e1 p1 p2 G2 where "matchOneSide (Some i) True ?e p = Some (e1, p1)"
        "deallocate (Some i) p1 = Some p2" "process_post ts i e p G e1 p2 G2"
      using matchDrop_rep [OF sys1 i new, of True] unfolding post by auto
    with IOC False i(1) show ?thesis
      by (auto simp: processOrder_def deref_live Let_def matchIOC_def simp del: deref.simps)
  qed
qed

section \<open>Cancelling and modifying\<close>

lemma book_id_unique:
  assumes "book_rep h b G" and "m_orderMap b i = Some a" and "c \<in> set (book_addrs G)"
  shows "ord_orderId (obj h c) = i \<longleftrightarrow> c = a"
  using book_rep_map [OF assms(1), of i] assms(2,3) by force

lemma spec_of_drop:
  assumes rep: "book_rep h b G" and a: "m_orderMap b i = Some a"
  shows "spec_of h (book_drop a G) = snd (spec_cancel i (spec_of h G))"
proof
  fix s
  have eq: "c \<noteq> a \<longleftrightarrow> ord_orderId (obj h c) \<noteq> i" if "c \<in> set (addrs (G s))" for c
  proof -
    have "c \<in> set (book_addrs G)"
      using that in_book_addrs by blast
    then show ?thesis
      using book_id_unique [OF rep a] by blast
  qed
  have "filter (\<lambda>c. c \<noteq> a) (addrs (G s)) = filter (\<lambda>c. ord_orderId (obj h c) \<noteq> i) (addrs (G s))"
    using eq by (rule filter_cong [OF refl])
  then show "spec_of h (book_drop a G) s = snd (spec_cancel i (spec_of h G)) s"
    by (simp add: spec_of_def queue_def spec_cancel_def addrs_ladder_drop filter_map comp_def)
qed

lemma spec_cancel_missing: "\<not> spec_contains i B \<Longrightarrow> spec_cancel i B = (False, B)"
  by (auto simp: spec_cancel_def spec_contains_def fun_eq_iff filter_id_conv)

lemma spec_find_missing: "\<not> spec_contains i B \<Longrightarrow> spec_find i B = None"
  by (auto simp: spec_find_def spec_contains_def find_None_iff)

lemma spec_find_order:
  assumes rep: "book_rep h b G" and a: "m_orderMap b i = Some a"
  shows "spec_find i (spec_of h G) = Some (strip (obj h a))"
proof -
  have "spec_of h G BUY @ spec_of h G SELL = map (\<lambda>c. strip (obj h c)) (book_addrs G)"
    by (simp add: spec_of_def queue_def book_addrs_def)
  moreover have "find (\<lambda>x. ord_orderId x = i) (map (\<lambda>c. strip (obj h c)) xs) = Some (strip (obj h a))"
    if "a \<in> set xs" "set xs \<subseteq> set (book_addrs G)" for xs
    using that by (induction xs) (auto simp: book_id_unique [OF rep a])
  ultimately show ?thesis
    using book_rep_map [OF rep, of i a] a by (simp add: spec_find_def)
qed

text \<open>A successful book cancel hands the order object to the caller.\<close>

lemma book_cancel:
  assumes sys: "sys_rep e p G" and a: "m_orderMap (m_book e) i = Some a"
  shows "\<exists>b h. OrderBook_cancelOrder i (m_book e) (mem p) = Some (Some a, b, h) \<and>
           sys_rep (e\<lparr>m_book := b\<rparr>) (p\<lparr>mem := h\<rparr>) (book_drop a G) \<and>
           spec_of h (book_drop a G) = snd (spec_cancel i (spec_of (mem p) G)) \<and>
           strip (obj h a) = strip (obj (mem p) a) \<and> a \<in> live h \<and> a \<notin> set (book_addrs (book_drop a G)) \<and>
           set (book_addrs (book_drop a G)) \<subseteq> set (book_addrs G) \<and> live h = live (mem p) \<and>
           (\<forall>c. c \<notin> set (book_addrs G) \<longrightarrow> h c = mem p c) \<and>
           live h - set (book_addrs (book_drop a G)) = insert a (live (mem p) - set (book_addrs G))"
proof -
  note rep = sys_rep_simps [OF sys]
  have ab: "a \<in> set (book_addrs G)"
    using book_rep_map [OF rep(1), of i a] a by blast
  obtain b h where c: "OrderBook_cancelOrder i (m_book e) (mem p) = Some (Some a, b, h)"
      "book_rep h b (book_drop a G)" and rl: "relinked (set (book_addrs G)) (mem p) h"
    using OrderBook_cancelOrder_rep(2) [OF rep(1) a] by blast
  have ba: "set (book_addrs (book_drop a G)) = set (book_addrs G) - {a}"
    by (auto simp: book_addrs_drop)
  have al: "a \<in> live (mem p)" and lv: "live h = live (mem p)"
    using ab book_rep_live [OF rep(1)] relinked_live [OF rl] by auto
  have "book_open h (book_drop a G) = book_open (mem p) (book_drop a G)"
    by (rule book_open_cong) (rule relinked_strip [OF rl])
  also have "\<dots>"
    using rep(2) by (simp add: book_open_def ba)
  finally have "sys_rep (e\<lparr>m_book := b\<rparr>) (p\<lparr>mem := h\<rparr>) (book_drop a G)"
    using c(2) pool_inv_relinked [OF rep(3) rl] rep(4) by (simp add: sys_rep_def)
  moreover have "spec_of h (book_drop a G) = spec_of (mem p) (book_drop a G)"
    by (rule spec_of_cong) (rule relinked_strip [OF rl])
  moreover have "\<forall>c. c \<notin> set (book_addrs G) \<longrightarrow> h c = mem p c"
    using rl by (simp add: relinked_def)
  moreover have "live h - (set (book_addrs G) - {a}) = insert a (live (mem p) - set (book_addrs G))"
    using lv al by auto
  ultimately show ?thesis
    using c(1) lv al relinked_strip [OF rl, of a] spec_of_drop [OF rep(1) a] unfolding ba by auto
qed

definition cancel_post ::
  "u64 \<Rightarrow> bool \<Rightarrow> MatchingEngine \<Rightarrow> OrderPool \<Rightarrow> (Side \<Rightarrow> ladder) \<Rightarrow>
   MatchingEngine \<Rightarrow> OrderPool \<Rightarrow> (Side \<Rightarrow> ladder) \<Rightarrow> bool" where
  "cancel_post i ok e p G e' p' G' \<longleftrightarrow>
     sys_rep e' p' G' \<and> op_frame {} {} p G p' G' \<and> m_fills e' = m_fills e \<and>
     spec_cancel i (spec_of (mem p) G) = (ok, spec_of (mem p') G')"

lemma cancelOrder_rep:
  assumes sys: "sys_rep e p G"
  shows "\<exists>ok e' p' G'. cancelOrder i e p = Some (ok, e', p') \<and> cancel_post i ok e p G e' p' G'"
proof (cases "m_orderMap (m_book e) i")
  case None
  note rep = sys_rep_simps [OF sys]
  have "\<not> spec_contains i (spec_of (mem p) G)"
    unfolding contains_spec [OF rep(1), symmetric] using None by (simp add: containsOrder_def)
  moreover have "cancelOrder i e p = Some (False, e, p)"
    using OrderBook_cancelOrder_rep(1) [OF rep(1) None] by (simp add: cancelOrder_def)
  ultimately show ?thesis
    using sys by (auto simp: cancel_post_def spec_cancel_missing op_frame_def)
next
  case (Some a)
  note rep = sys_rep_simps [OF sys]
  obtain b h where c: "OrderBook_cancelOrder i (m_book e) (mem p) = Some (Some a, b, h)"
      "sys_rep (e\<lparr>m_book := b\<rparr>) (p\<lparr>mem := h\<rparr>) (book_drop a G)"
      "spec_of h (book_drop a G) = snd (spec_cancel i (spec_of (mem p) G))"
      "a \<in> live h" "a \<notin> set (book_addrs (book_drop a G))" "live h = live (mem p)"
      "\<forall>c. c \<notin> set (book_addrs G) \<longrightarrow> h c = mem p c"
      "live h - set (book_addrs (book_drop a G)) = insert a (live (mem p) - set (book_addrs G))"
    using book_cancel [OF sys Some] by blast
  obtain p' where d: "deallocate (Some a) (p\<lparr>mem := h\<rparr>) = Some p'"
      "sys_rep (e\<lparr>m_book := b\<rparr>) p' (book_drop a G)"
      "spec_of (mem p') (book_drop a G) = spec_of h (book_drop a G)"
      "op_frame {a} {a} (p\<lparr>mem := h\<rparr>) (book_drop a G) p' (book_drop a G)"
    using free_order [OF c(2)] c(4,5) by auto
  have ab: "a \<in> set (book_addrs G)"
    using book_rep_map [OF rep(1), of i a] Some by blast
  have "set (book_addrs (book_drop a G)) = set (book_addrs G) - {a}"
    by (auto simp: book_addrs_drop)
  then have "op_frame {} {} p G p' (book_drop a G)"
    using d(4) c(7,8) ab by (auto simp: op_frame_def)
  moreover have "spec_contains i (spec_of (mem p) G)"
    unfolding contains_spec [OF rep(1), symmetric] using Some by (simp add: containsOrder_def)
  ultimately have "cancel_post i True e p G (e\<lparr>m_book := b\<rparr>) p' (book_drop a G)"
    unfolding cancel_post_def using d(2,3) c(3) by (simp add: spec_cancel_def)
  moreover have "cancelOrder i e p = Some (True, e\<lparr>m_book := b\<rparr>, p')"
    using c(1) d(1) by (simp add: cancelOrder_def)
  ultimately show ?thesis by blast
qed

definition modify_post ::
  "u64 \<Rightarrow> u32 \<Rightarrow> u32 \<Rightarrow> u64 \<Rightarrow> bool \<Rightarrow> MatchingEngine \<Rightarrow> OrderPool \<Rightarrow> (Side \<Rightarrow> ladder) \<Rightarrow>
   MatchingEngine \<Rightarrow> OrderPool \<Rightarrow> (Side \<Rightarrow> ladder) \<Rightarrow> bool" where
  "modify_post i pr q ts ok e p G e' p' G' \<longleftrightarrow>
     sys_rep e' p' G' \<and> op_frame {} {} p G p' G' \<and>
     (\<exists>fs. m_fills e' = m_fills e @ fs \<and>
        spec_modify i pr q ts (spec_of (mem p) G) = (ok, fs, spec_of (mem p') G'))"

lemma strip_amend:
  "strip (x\<lparr>ord_price := pr, ord_qty := q, ord_filledQty := f, ord_type := t\<rparr>) =
   (strip x)\<lparr>ord_price := pr, ord_qty := q, ord_filledQty := f, ord_type := t\<rparr>"
  by (cases x) (simp add: strip_def)

lemma modifyOrder_rep:
  assumes sys: "sys_rep e p G" and pr: "pr \<noteq> 0"
  shows "\<exists>ok e' p' G'. modifyOrder i pr q ts e p = Some (ok, e', p') \<and>
           modify_post i pr q ts ok e p G e' p' G'"
proof (cases "m_orderMap (m_book e) i")
  case None
  note rep = sys_rep_simps [OF sys]
  have "\<not> spec_contains i (spec_of (mem p) G)"
    unfolding contains_spec [OF rep(1), symmetric] using None by (simp add: containsOrder_def)
  then have "modify_post i pr q ts False e p G e p G"
    using sys by (simp add: modify_post_def spec_modify_def spec_find_missing op_frame_def)
  moreover have "modifyOrder i pr q ts e p = Some (False, e, p)"
    using OrderBook_cancelOrder_rep(1) [OF rep(1) None] by (simp add: modifyOrder_def)
  ultimately show ?thesis by blast
next
  case (Some a)
  note rep = sys_rep_simps [OF sys]
  obtain b h where c: "OrderBook_cancelOrder i (m_book e) (mem p) = Some (Some a, b, h)"
      "sys_rep (e\<lparr>m_book := b\<rparr>) (p\<lparr>mem := h\<rparr>) (book_drop a G)"
      "spec_of h (book_drop a G) = snd (spec_cancel i (spec_of (mem p) G))"
      "strip (obj h a) = strip (obj (mem p) a)"
      "a \<in> live h" "a \<notin> set (book_addrs (book_drop a G))" "live h = live (mem p)"
      "\<forall>c. c \<notin> set (book_addrs G) \<longrightarrow> h c = mem p c"
      "live h - set (book_addrs (book_drop a G)) = insert a (live (mem p) - set (book_addrs G))"
    using book_cancel [OF sys Some] by blast
  let ?x = "(obj h a)\<lparr>ord_price := pr, ord_qty := q, ord_filledQty := 0, ord_type := LIMIT\<rparr>"
  let ?h = "h(a \<mapsto> Live ?x)"
  have w: "sys_rep (e\<lparr>m_book := b\<rparr>) (p\<lparr>mem := ?h\<rparr>) (book_drop a G)"
      "spec_of ?h (book_drop a G) = spec_of h (book_drop a G)"
    using sys_rep_write [OF c(2), of a ?x] c(5,6) by simp_all
  obtain e' p' G' where pc: "processOrder (Some a) ts (e\<lparr>m_book := b\<rparr>) (p\<lparr>mem := ?h\<rparr>) = Some (e', p')"
      "process_post ts a (e\<lparr>m_book := b\<rparr>) (p\<lparr>mem := ?h\<rparr>) (book_drop a G) e' p' G'"
    using processOrder_rep [OF w(1), of a ts] c(6) pr by auto
  have sx: "strip ?x = (strip (obj (mem p) a))\<lparr>ord_price := pr, ord_qty := q, ord_filledQty := 0, ord_type := LIMIT\<rparr>"
    by (simp only: strip_amend c(4))
  obtain fs where fs: "m_fills e' = m_fills e @ fs"
      "spec_process ts (strip ?x) (snd (spec_cancel i (spec_of (mem p) G))) = (fs, spec_of (mem p') G')"
    using pc(2) c(3) w(2) by (auto simp: process_post_def)
  have ab: "a \<in> set (book_addrs G)"
    using book_rep_map [OF rep(1), of i a] Some by blast
  have "set (book_addrs (book_drop a G)) = set (book_addrs G) - {a}"
    by (auto simp: book_addrs_drop)
  then have fr: "op_frame {} {} p G p' G'"
    using pc(2) c(5,8,9) ab by (auto simp: op_frame_def process_post_def insert_absorb)
  have "spec_modify i pr q ts (spec_of (mem p) G) = (True, fs, spec_of (mem p') G')"
    using fs(2) spec_find_order [OF rep(1) Some] unfolding sx by (simp add: spec_modify_def)
  then have "modify_post i pr q ts True e p G e' p' G'"
    using pc(2) fs(1) fr by (simp add: modify_post_def process_post_def)
  moreover have "modifyOrder i pr q ts e p = Some (True, e', p')"
    using c(1,5) pc(1) by (simp add: modifyOrder_def modify_live)
  ultimately show ?thesis by blast
qed

end
