(* ===== verification/Engine_Contract.thy ===== *)
theory Engine_Contract
  imports Engine_Operations
begin

text \<open>
  The contract of the matching engine as its clients see it.  \<open>engine_ok\<close> hides the ghost ladders of
  the refinement, \<open>book_of\<close> reads the two priority queues out of the pointer structure by following
  the links, and \<open>resting\<close> is the set of pool objects the book owns.  The locale \<open>order_engine\<close> states
  what an engine on a shared pool promises; its clients (the replay engine and the shards) are
  verified against the locale, and the pointer-level engine is its instance.
\<close>

section \<open>Reading the book\<close>

fun level_walk :: "Order slotmem \<Rightarrow> nat \<Rightarrow> ptr \<Rightarrow> Order list" where
  "level_walk h (Suc n) (Some a) = strip (obj h a) # level_walk h n (ord_next (obj h a))"
| "level_walk h _ _ = []"

definition book_of :: "MatchingEngine \<Rightarrow> OrderPool \<Rightarrow> spec_book" where
  "book_of e p = (\<lambda>s. concat (map (\<lambda>(_, lvl). level_walk (mem p) (unat (getOrderCount lvl)) (front lvl))
                                 (side_levels s (m_book e))))"

definition resting :: "MatchingEngine \<Rightarrow> addr set" where
  "resting e = ran (m_orderMap (m_book e))"

definition engine_ok :: "MatchingEngine \<Rightarrow> OrderPool \<Rightarrow> bool" where
  "engine_ok e p \<longleftrightarrow> (\<exists>G. sys_rep e p G)"

lemma level_walk_links:
  "links h q xs nullptr \<Longrightarrow> level_walk h (length xs) (hd_ptr xs nullptr) = map (\<lambda>a. strip (obj h a)) xs"
proof (induction xs arbitrary: q)
  case Nil
  then show ?case by simp
next
  case (Cons x xs)
  then show ?case
    using Cons.IH [of "Some x"] by simp
qed

lemma level_walk_rep:
  "level_rep h lvl xs \<Longrightarrow>
   level_walk h (unat (getOrderCount lvl)) (front lvl) = map (\<lambda>a. strip (obj h a)) xs"
  using level_walk_links [of h nullptr xs]
  by (simp add: level_rep_def getOrderCount_def front_def)

lemma book_of_spec:
  assumes "sys_rep e p G"
  shows "book_of e p = spec_of (mem p) G"
proof
  fix s
  let ?f = "\<lambda>(_, lvl). level_walk (mem p) (unat (getOrderCount lvl)) (front lvl)"
  have "list_all2 (rung_rep s (mem p)) (side_levels s (m_book e)) (G s)"
    using book_rep_ladder [OF sys_rep_simps(1) [OF assms], of s] by (simp add: ladder_rep_def)
  then have "concat (map ?f (side_levels s (m_book e))) = queue (mem p) (G s)"
    by (induction rule: list_all2_induct)
      (auto simp: rung_rep_def level_walk_rep queue_def addrs_def)
  then show "book_of e p s = spec_of (mem p) G s"
    by (simp add: book_of_def spec_of_def)
qed

lemma resting_spec:
  assumes "sys_rep e p G"
  shows "resting e = set (book_addrs G)"
  using book_rep_map [OF sys_rep_simps(1) [OF assms]] by (auto simp: resting_def ran_def)

section \<open>The interface\<close>

text \<open>
  A call that may use the objects of \<open>A\<close> beside its own \<open>O\<close>: nothing else changes, and the live
  objects outside the book are those from before except the ones in \<open>D\<close>, which the call consumed.
\<close>

definition heap_frame :: "addr set \<Rightarrow> addr set \<Rightarrow> 'a slotmem \<Rightarrow> addr set \<Rightarrow> 'a slotmem \<Rightarrow> addr set \<Rightarrow> bool" where
  "heap_frame A D h O1 h' O2 \<longleftrightarrow>
     (\<forall>a. a \<notin> A \<union> O1 \<longrightarrow> h' a = h a) \<and> live h' - O2 = live h - O1 - D"

locale order_engine = object_pool alloc dealloc contents put slots invar
  for alloc :: "Order \<Rightarrow> 'p \<Rightarrow> (ptr \<times> 'p) option" and dealloc contents put slots invar +
  fixes ok :: "'e \<Rightarrow> 'p \<Rightarrow> bool"
    and book :: "'e \<Rightarrow> 'p \<Rightarrow> spec_book"
    and owned :: "'e \<Rightarrow> addr set"
    and fills :: "'e \<Rightarrow> Fill list"
    and process :: "ptr \<Rightarrow> u64 \<Rightarrow> 'e \<Rightarrow> 'p \<Rightarrow> ('e \<times> 'p) option"
    and cancel :: "u64 \<Rightarrow> 'e \<Rightarrow> 'p \<Rightarrow> (bool \<times> 'e \<times> 'p) option"
    and amend :: "u64 \<Rightarrow> u32 \<Rightarrow> u32 \<Rightarrow> u64 \<Rightarrow> 'e \<Rightarrow> 'p \<Rightarrow> (bool \<times> 'e \<times> 'p) option"
  assumes ok_pool: "ok e p \<Longrightarrow> invar p"
    and ok_owned: "ok e p \<Longrightarrow> owned e \<subseteq> live (contents p)"
    and ok_frame: "ok e p \<Longrightarrow> invar p' \<Longrightarrow> slots p' = slots p \<Longrightarrow>
      (\<And>a. a \<in> owned e \<Longrightarrow> contents p' a = contents p a) \<Longrightarrow> ok e p' \<and> book e p' = book e p"
    and process_law: "ok e p \<Longrightarrow> i \<in> live (contents p) \<Longrightarrow> i \<notin> owned e \<Longrightarrow>
      (ord_type (obj (contents p) i) = LIMIT \<longrightarrow> ord_price (obj (contents p) i) \<noteq> 0) \<Longrightarrow>
      \<exists>e' p' fs. process (Some i) ts e p = Some (e', p') \<and> ok e' p' \<and> slots p' = slots p \<and>
        heap_frame {i} {i} (contents p) (owned e) (contents p') (owned e') \<and>
        fills e' = fills e @ fs \<and>
        spec_process ts (strip (obj (contents p) i)) (book e p) = (fs, book e' p')"
    and cancel_law: "ok e p \<Longrightarrow>
      \<exists>b e' p'. cancel k e p = Some (b, e', p') \<and> ok e' p' \<and> slots p' = slots p \<and>
        heap_frame {} {} (contents p) (owned e) (contents p') (owned e') \<and>
        fills e' = fills e \<and> spec_cancel k (book e p) = (b, book e' p')"
    and amend_law: "ok e p \<Longrightarrow> pr \<noteq> 0 \<Longrightarrow>
      \<exists>b e' p' fs. amend k pr q ts e p = Some (b, e', p') \<and> ok e' p' \<and> slots p' = slots p \<and>
        heap_frame {} {} (contents p) (owned e) (contents p') (owned e') \<and>
        fills e' = fills e @ fs \<and> spec_modify k pr q ts (book e p) = (b, fs, book e' p')"
begin

text \<open>Two engines on one pool: a call on one of them leaves the other as it was.\<close>

lemma neighbour_kept:
  assumes "ok e' p'" and "slots p' = slots p" and "ok n p" and "owned n \<inter> owned e = {}"
    and "owned n \<inter> A = {}" and "heap_frame A D (contents p) (owned e) (contents p') (owned e')"
    and "owned n \<inter> D = {}"
  shows "ok n p'" and "book n p' = book n p" and "owned n \<inter> owned e' = {}"
proof -
  have "contents p' a = contents p a" if "a \<in> owned n" for a
    using assms(4,5,6) that by (auto simp: heap_frame_def)
  then show "ok n p'" and "book n p' = book n p"
    using ok_frame [OF assms(3) ok_pool [OF assms(1)] assms(2)] by blast+
  have "owned n \<subseteq> live (contents p') - owned e'"
    using assms(4,6,7) ok_owned [OF assms(3)] by (auto simp: heap_frame_def)
  then show "owned n \<inter> owned e' = {}" by blast
qed

text \<open>
  Admitting an order: take a slot, fill in the order and hand it to the engine.  A full pool is
  the only reason to fail.
\<close>

lemma admit:
  assumes ok: "ok e p" and x: "ord_type x = LIMIT \<longrightarrow> ord_price x \<noteq> 0"
    and room: "card (live (contents p)) < slots p"
  shows "\<exists>a p1 e' p' fs. alloc y p = Some (Some a, p1) \<and> a \<in> live (contents p1) \<and>
           process (Some a) ts e (put ((contents p1)(a \<mapsto> Live x)) p1) = Some (e', p') \<and>
           ok e' p' \<and> slots p' = slots p \<and> a \<notin> live (contents p) \<and>
           heap_frame {a} {} (contents p) (owned e) (contents p') (owned e') \<and>
           fills e' = fills e @ fs \<and> spec_process ts (strip x) (book e p) = (fs, book e' p')"
proof -
  obtain a p1 where a: "alloc y p = Some (Some a, p1)" "a \<notin> live (contents p)"
      "contents p1 = (contents p)(a \<mapsto> Live y)" "invar p1" "slots p1 = slots p"
    using alloc_room [OF ok_pool [OF ok] room] by blast
  let ?p = "put ((contents p1)(a \<mapsto> Live x)) p1"
  have c: "contents ?p = (contents p)(a \<mapsto> Live x)" "slots ?p = slots p" "invar ?p"
    using a(3-5) by (auto simp: contents_put slots_put intro!: put_live)
  have na: "a \<notin> owned e"
    using a(2) ok_owned [OF ok] by blast
  have "contents ?p b = contents p b" if "b \<in> owned e" for b
    using that na unfolding c(1) by auto
  then have e: "ok e ?p" "book e ?p = book e p"
    using ok_frame [OF ok c(3,2)] by blast+
  have "a \<in> live (contents ?p)" "obj (contents ?p) a = x"
    using c(1) by auto
  then obtain e' p' fs where pr: "process (Some a) ts e ?p = Some (e', p')" "ok e' p'"
      "slots p' = slots p" "heap_frame {a} {a} (contents ?p) (owned e) (contents p') (owned e')"
      "fills e' = fills e @ fs" "spec_process ts (strip x) (book e p) = (fs, book e' p')"
    using process_law [OF e(1) _ na, of ts] x c(2) e(2) by auto
  have "live (contents ?p) = insert a (live (contents p))"
    using c(1) by simp
  then have "heap_frame {a} {} (contents p) (owned e) (contents p') (owned e')"
    using pr(4) a(2) c(1) by (auto simp: heap_frame_def)
  then show ?thesis
    using a(1-3) pr by auto
qed

end

section \<open>The pointer-level engine implements the interface\<close>

lemma op_frame_heap:
  assumes "sys_rep e p G" and "sys_rep e' p' G'" and "op_frame A D p G p' G'"
  shows "heap_frame A D (mem p) (resting e) (mem p') (resting e')" and "m_capacity p' = m_capacity p"
  using assms by (simp_all add: op_frame_def heap_frame_def resting_spec)

lemma engine_ok_frame:
  assumes "engine_ok e p" and "pool_inv p'" and "unat (m_capacity p') = unat (m_capacity p)"
    and "\<And>a. a \<in> resting e \<Longrightarrow> mem p' a = mem p a"
  shows "engine_ok e p' \<and> book_of e p' = book_of e p"
proof -
  obtain G where G: "sys_rep e p G"
    using assms(1) by (auto simp: engine_ok_def)
  have same: "mem p' a = mem p a" if "a \<in> set (book_addrs G)" for a
    using that assms(4) resting_spec [OF G] by blast
  have "book_rep (mem p') (m_book e) G = book_rep (mem p) (m_book e) G"
    using same by (rule book_rep_cong)
  moreover have "book_open (mem p') G = book_open (mem p) G"
    using same by (intro book_open_cong) (simp add: obj_def)
  ultimately have G': "sys_rep e p' G"
    using G assms(2,3) by (simp add: sys_rep_def)
  have "spec_of (mem p') G = spec_of (mem p) G"
    using same by (intro spec_of_cong) (simp add: obj_def)
  then show ?thesis
    using G' book_of_spec [OF G] book_of_spec [OF G'] by (auto simp: engine_ok_def)
qed

lemma processOrder_law:
  assumes "engine_ok e p" and i: "i \<in> live (mem p)" "i \<notin> resting e"
    "ord_type (obj (mem p) i) = LIMIT \<longrightarrow> ord_price (obj (mem p) i) \<noteq> 0"
  shows "\<exists>e' p' fs. processOrder (Some i) ts e p = Some (e', p') \<and> engine_ok e' p' \<and>
      unat (m_capacity p') = unat (m_capacity p) \<and>
      heap_frame {i} {i} (mem p) (resting e) (mem p') (resting e') \<and> m_fills e' = m_fills e @ fs \<and>
      spec_process ts (strip (obj (mem p) i)) (book_of e p) = (fs, book_of e' p')"
proof -
  obtain G where G: "sys_rep e p G"
    using assms(1) by (auto simp: engine_ok_def)
  have "i \<notin> set (book_addrs G)"
    using i(2) resting_spec [OF G] by blast
  then obtain e' p' G' where r: "processOrder (Some i) ts e p = Some (e', p')"
      "process_post ts i e p G e' p' G'"
    using processOrder_rep [OF G i(1) _ i(3)] by blast
  then have G': "sys_rep e' p' G'" and fr: "op_frame {i} {i} p G p' G'"
    by (simp_all add: process_post_def)
  show ?thesis
    using r G' op_frame_heap [OF G G' fr]
    by (auto simp: process_post_def engine_ok_def book_of_spec [OF G] book_of_spec [OF G'])
qed

lemma cancelOrder_law:
  assumes "engine_ok e p"
  shows "\<exists>b e' p'. cancelOrder k e p = Some (b, e', p') \<and> engine_ok e' p' \<and>
      unat (m_capacity p') = unat (m_capacity p) \<and>
      heap_frame {} {} (mem p) (resting e) (mem p') (resting e') \<and> m_fills e' = m_fills e \<and>
      spec_cancel k (book_of e p) = (b, book_of e' p')"
proof -
  obtain G where G: "sys_rep e p G"
    using assms by (auto simp: engine_ok_def)
  obtain b e' p' G' where r: "cancelOrder k e p = Some (b, e', p')" "cancel_post k b e p G e' p' G'"
    using cancelOrder_rep [OF G] by blast
  then have G': "sys_rep e' p' G'" and fr: "op_frame {} {} p G p' G'"
    by (simp_all add: cancel_post_def)
  show ?thesis
    using r G' op_frame_heap [OF G G' fr]
    by (auto simp: cancel_post_def engine_ok_def book_of_spec [OF G] book_of_spec [OF G'])
qed

lemma modifyOrder_law:
  assumes "engine_ok e p" and "pr \<noteq> 0"
  shows "\<exists>b e' p' fs. modifyOrder k pr q ts e p = Some (b, e', p') \<and> engine_ok e' p' \<and>
      unat (m_capacity p') = unat (m_capacity p) \<and>
      heap_frame {} {} (mem p) (resting e) (mem p') (resting e') \<and> m_fills e' = m_fills e @ fs \<and>
      spec_modify k pr q ts (book_of e p) = (b, fs, book_of e' p')"
proof -
  obtain G where G: "sys_rep e p G"
    using assms(1) by (auto simp: engine_ok_def)
  obtain b e' p' G' where r: "modifyOrder k pr q ts e p = Some (b, e', p')"
      "modify_post k pr q ts b e p G e' p' G'"
    using modifyOrder_rep [OF G assms(2)] by blast
  then have G': "sys_rep e' p' G'" and fr: "op_frame {} {} p G p' G'"
    by (simp_all add: modify_post_def)
  show ?thesis
    using r G' op_frame_heap [OF G G' fr]
    by (auto simp: modify_post_def engine_ok_def book_of_spec [OF G] book_of_spec [OF G'])
qed

interpretation engine: order_engine allocate deallocate mem "\<lambda>h p. p\<lparr>mem := h\<rparr>"
  "\<lambda>p. unat (m_capacity p)" pool_inv engine_ok book_of resting m_fills processOrder cancelOrder modifyOrder
proof unfold_locales
  fix e p
  assume "engine_ok e p"
  then obtain G where G: "sys_rep e p G"
    by (auto simp: engine_ok_def)
  show "pool_inv p"
    by (rule sys_rep_simps(3) [OF G])
  show "resting e \<subseteq> live (mem p)"
    using book_rep_live [OF sys_rep_simps(1) [OF G]] resting_spec [OF G] by blast
qed (fact engine_ok_frame processOrder_law cancelOrder_law modifyOrder_law)+

section \<open>Initial states\<close>

lemma sys_rep_new:
  assumes "pool_inv p" and "unat (m_capacity p) \<le> 4294967295"
  shows "sys_rep MatchingEngine_new p (\<lambda>_. [])"
  using assms book_rep_empty
  by (simp add: sys_rep_def MatchingEngine_new_def book_open_def book_addrs_def)

lemma engine_ok_new:
  assumes "pool_inv p" and "unat (m_capacity p) \<le> 4294967295"
  shows "engine_ok MatchingEngine_new p" and "book_of MatchingEngine_new p = (\<lambda>_. [])"
    and "resting MatchingEngine_new = {}"
proof -
  note G = sys_rep_new [OF assms]
  show "engine_ok MatchingEngine_new p"
    using G by (auto simp: engine_ok_def)
  show "book_of MatchingEngine_new p = (\<lambda>_. [])"
    by (simp add: book_of_spec [OF G] spec_of_def queue_def)
  show "resting MatchingEngine_new = {}"
    by (simp add: resting_spec [OF G] book_addrs_def)
qed

end
