(* ===== verification/Market_Rules.thy ===== *)
theory Market_Rules
  imports Engine_Contract
begin

text \<open>
  What the specification of the engine guarantees to its users: quantities are conserved, resting
  orders trade strictly in price-time order at their own prices, a limit is never traded through,
  matching goes on as long as the order can trade, and the book is never left crossed.
\<close>

section \<open>Induction over a match\<close>

definition may_trade :: "bool \<Rightarrow> Order \<Rightarrow> Order \<Rightarrow> bool" where
  "may_trade rp i r \<longleftrightarrow> \<not> isFilled i \<and> (rp \<longrightarrow> crosses (ord_side i = BUY) (ord_price r) (ord_price i))"

lemma spec_match_rel_induct [consumes 1, case_names stop part full]:
  assumes "spec_match ts rp i q = (i', fs, q')"
    and "\<And>i q. q = [] \<or> \<not> may_trade rp i (hd q) \<Longrightarrow> P i q i [] q"
    and "\<And>i r q m. may_trade rp i r \<Longrightarrow> m = min (remainingQty i) (remainingQty r) \<Longrightarrow>
          \<not> isFilled (fill_by m r) \<Longrightarrow>
          P i (r # q) (fill_by m i) [mk_fill r i (ord_price r) m ts] (fill_by m r # q)"
    and "\<And>i r q m i' fs q'. may_trade rp i r \<Longrightarrow> m = min (remainingQty i) (remainingQty r) \<Longrightarrow>
          isFilled (fill_by m r) \<Longrightarrow> P (fill_by m i) q i' fs q' \<Longrightarrow>
          P i (r # q) i' (mk_fill r i (ord_price r) m ts # fs) q'"
  shows "P i q i' fs q'"
  using assms(1)
proof (induction q arbitrary: i i' fs q')
  case Nil
  then show ?case
    using assms(2) by simp
next
  case (Cons r q)
  let ?m = "min (remainingQty i) (remainingQty r)"
  obtain i2 fs2 q2 where rec: "spec_match ts rp (fill_by ?m i) q = (i2, fs2, q2)"
    by (cases "spec_match ts rp (fill_by ?m i) q") auto
  show ?case
  proof (cases "may_trade rp i r")
    case False
    then have "i' = i" "fs = []" "q' = r # q"
      using Cons.prems by (auto simp: may_trade_def split: if_splits)
    with False show ?thesis
      using assms(2) [of "r # q" i] by simp
  next
    case True
    then have go: "\<not> (isFilled i \<or> (rp \<and> \<not> crosses (ord_side i = BUY) (ord_price r) (ord_price i)))"
      by (auto simp: may_trade_def)
    show ?thesis
    proof (cases "isFilled (fill_by ?m r)")
      case full: True
      then have "i' = i2" "fs = mk_fill r i (ord_price r) ?m ts # fs2" "q' = q2"
        using Cons.prems rec go by (simp_all add: Let_def)
      then show ?thesis
        using assms(4) [OF True refl full Cons.IH [OF rec]] by simp
    next
      case part: False
      then have "i' = fill_by ?m i" "fs = [mk_fill r i (ord_price r) ?m ts]" "q' = fill_by ?m r # q"
        using Cons.prems go by (simp_all add: Let_def)
      then show ?thesis
        using assms(3) [OF True refl part] by simp
    qed
  qed
qed

section \<open>Quantities\<close>

definition open_qty :: "Order list \<Rightarrow> nat" where
  "open_qty q = (\<Sum>x\<leftarrow>q. unat (remainingQty x))"

definition traded_qty :: "Fill list \<Rightarrow> nat" where
  "traded_qty fs = (\<Sum>f\<leftarrow>fs. unat (fill_qty f))"

lemma qty_simps [simp]:
  "open_qty [] = 0" "open_qty (x # q) = unat (remainingQty x) + open_qty q"
  "open_qty (q1 @ q2) = open_qty q1 + open_qty q2"
  "traded_qty [] = 0" "traded_qty (f # fs) = unat (fill_qty f) + traded_qty fs"
  "traded_qty (fs1 @ fs2) = traded_qty fs1 + traded_qty fs2"
  by (simp_all add: open_qty_def traded_qty_def)

lemma fill_qty_mk [simp]: "fill_qty (mk_fill r i pr m ts) = m" "fill_price (mk_fill r i pr m ts) = pr"
  "fill_timestamp (mk_fill r i pr m ts) = ts"
  "fill_symbolPacked (mk_fill r i pr m ts) = ord_symbolPacked i"
  by (simp_all add: mk_fill_def)

lemma fill_min:
  assumes "m = min (remainingQty i) (remainingQty r)"
  shows "unat m + unat (remainingQty (fill_by m i)) = unat (remainingQty i)"
    and "unat m + unat (remainingQty (fill_by m r)) = unat (remainingQty r)"
proof -
  have le: "m \<le> remainingQty i" "m \<le> remainingQty r"
    using assms by simp_all
  then have "unat m \<le> unat (remainingQty i)" "unat m \<le> unat (remainingQty r)"
    by (simp_all add: word_le_nat_alt)
  then show "unat m + unat (remainingQty (fill_by m i)) = unat (remainingQty i)"
    and "unat m + unat (remainingQty (fill_by m r)) = unat (remainingQty r)"
    using fill_by_nat(2) [OF le(1)] fill_by_nat(2) [OF le(2)] by simp_all
qed

lemma spec_match_conserves:
  assumes "spec_match ts rp i q = (i', fs, q')"
  shows "traded_qty fs + unat (remainingQty i') = unat (remainingQty i)"
    and "traded_qty fs + open_qty q' = open_qty q"
proof -
  have "traded_qty fs + unat (remainingQty i') = unat (remainingQty i) \<and>
        traded_qty fs + open_qty q' = open_qty q"
    using assms
  proof (induction rule: spec_match_rel_induct)
    case (full i r q m i' fs q')
    have "unat (remainingQty (fill_by m r)) = 0"
      using full(3) by (simp add: remainingQty_0_iff [symmetric])
    then show ?case
      using full(4) fill_min [OF full(2)] by auto
  qed (use fill_min in auto)
  then show "traded_qty fs + unat (remainingQty i') = unat (remainingQty i)"
    and "traded_qty fs + open_qty q' = open_qty q" by blast+
qed

section \<open>Price-time priority\<close>

definition maker_id :: "Side \<Rightarrow> Fill \<Rightarrow> u64" where
  "maker_id s f = (if s = BUY then fill_sellOrderId f else fill_buyOrderId f)"

definition taker_id :: "Side \<Rightarrow> Fill \<Rightarrow> u64" where
  "taker_id s f = (if s = BUY then fill_buyOrderId f else fill_sellOrderId f)"

lemma maker_taker_mk [simp]:
  "maker_id (ord_side i) (mk_fill r i pr m ts) = ord_orderId r"
  "taker_id (ord_side i) (mk_fill r i pr m ts) = ord_orderId i"
  by (simp_all add: maker_id_def taker_id_def mk_fill_def)

lemma spec_match_priority:
  assumes "spec_match ts rp i q = (i', fs, q')"
  shows "map (maker_id (ord_side i)) fs = map ord_orderId (take (length fs) q)"
    and "map fill_price fs = map ord_price (take (length fs) q)"
    and "q' = drop (length fs) q \<or>
         (\<exists>k m. length fs = Suc k \<and> k < length q \<and> isFilled i' \<and> \<not> isFilled (fill_by m (q ! k)) \<and>
            q' = fill_by m (q ! k) # drop (length fs) q)"
proof -
  have "map (maker_id (ord_side i)) fs = map ord_orderId (take (length fs) q) \<and>
    map fill_price fs = map ord_price (take (length fs) q) \<and>
    (q' = drop (length fs) q \<or>
         (\<exists>k m. length fs = Suc k \<and> k < length q \<and> isFilled i' \<and> \<not> isFilled (fill_by m (q ! k)) \<and>
            q' = fill_by m (q ! k) # drop (length fs) q))"
    using assms
  proof (induction rule: spec_match_rel_induct)
    case (part i r q m)
    then show ?case
      using fill_min_filled [of i r] by auto
  next
    case (full i r q m i' fs q')
    then show ?case by auto
  qed auto
  then show "map (maker_id (ord_side i)) fs = map ord_orderId (take (length fs) q)"
    and "map fill_price fs = map ord_price (take (length fs) q)"
    and "q' = drop (length fs) q \<or>
         (\<exists>k m. length fs = Suc k \<and> k < length q \<and> isFilled i' \<and> \<not> isFilled (fill_by m (q ! k)) \<and>
            q' = fill_by m (q ! k) # drop (length fs) q)"
    by blast+
qed

lemma spec_match_fills:
  assumes "spec_match ts rp i q = (i', fs, q')" and "\<forall>r\<in>set q. \<not> isFilled r" and "f \<in> set fs"
  shows "fill_timestamp f = ts" "fill_symbolPacked f = ord_symbolPacked i"
    "taker_id (ord_side i) f = ord_orderId i" "0 < fill_qty f"
    "rp \<longrightarrow> crosses (ord_side i = BUY) (fill_price f) (ord_price i)"
proof -
  have "f \<in> set fs \<longrightarrow> (\<forall>r\<in>set q. \<not> isFilled r) \<longrightarrow>
    fill_timestamp f = ts \<and> fill_symbolPacked f = ord_symbolPacked i \<and>
    taker_id (ord_side i) f = ord_orderId i \<and> 0 < fill_qty f \<and>
    (rp \<longrightarrow> crosses (ord_side i = BUY) (fill_price f) (ord_price i))"
    using assms(1)
  proof (induction rule: spec_match_rel_induct)
    case (part i r q m)
    then show ?case
      by (auto simp: may_trade_def remainingQty_0_iff word_neq_0_conv [symmetric] min_def)
  next
    case (full i r q m i' fs q')
    then show ?case
      by (auto simp: may_trade_def remainingQty_0_iff word_neq_0_conv [symmetric] min_def)
  qed auto
  with assms(2,3) show "fill_timestamp f = ts" "fill_symbolPacked f = ord_symbolPacked i"
    "taker_id (ord_side i) f = ord_orderId i" "0 < fill_qty f"
    "rp \<longrightarrow> crosses (ord_side i = BUY) (fill_price f) (ord_price i)" by blast+
qed

lemma spec_match_exhausts:
  assumes "spec_match ts rp i q = (i', fs, q')"
  shows "q' = [] \<or> \<not> may_trade rp i' (hd q')"
  using assms
proof (induction rule: spec_match_rel_induct)
  case (part i r q m)
  then show ?case
    using fill_min_filled [of i r] by (auto simp: may_trade_def)
qed auto

section \<open>Well-formed books\<close>

definition queue_sorted :: "Side \<Rightarrow> Order list \<Rightarrow> bool" where
  "queue_sorted s q \<longleftrightarrow> sorted_wrt (\<lambda>x y. \<not> price_before s (ord_price y) (ord_price x)) q"

definition order_rests :: "Side \<Rightarrow> Order \<Rightarrow> bool" where
  "order_rests s x \<longleftrightarrow> ord_side x = s \<and> ord_price x \<noteq> 0 \<and> \<not> isFilled x"

definition book_wf :: "spec_book \<Rightarrow> bool" where
  "book_wf B \<longleftrightarrow> (\<forall>s. queue_sorted s (B s) \<and> (\<forall>x\<in>set (B s). order_rests s x)) \<and>
     distinct (map ord_orderId (B BUY @ B SELL))"

definition uncrossed :: "spec_book \<Rightarrow> bool" where
  "uncrossed B \<longleftrightarrow> (\<forall>b\<in>set (B BUY). \<forall>a\<in>set (B SELL). ord_price b < ord_price a)"

lemma book_wf_sides:
  "book_wf B \<longleftrightarrow> (\<forall>s. queue_sorted s (B s) \<and> (\<forall>x\<in>set (B s). order_rests s x) \<and>
     distinct (map ord_orderId (B s)) \<and>
     ord_orderId ` set (B s) \<inter> ord_orderId ` set (B (opposite s)) = {})"
proof -
  have all: "(\<forall>s. P s) \<longleftrightarrow> P BUY \<and> P SELL" for P :: "Side \<Rightarrow> bool"
    by (metis Side.exhaust)
  show ?thesis
    unfolding book_wf_def all by auto
qed

lemma uncrossed_side:
  "uncrossed B \<longleftrightarrow> (\<forall>x\<in>set (B s). \<forall>r\<in>set (B (opposite s)). \<not> crosses (s = BUY) (ord_price r) (ord_price x))"
  by (cases s) (auto simp: uncrossed_def crosses_def not_le)

lemma uncrossed_prices:
  "uncrossed B \<Longrightarrow> x \<in> set (B s) \<Longrightarrow> pr \<in> ord_price ` set (B (opposite s)) \<Longrightarrow>
   \<not> crosses (s = BUY) pr (ord_price x)"
  by (auto simp: uncrossed_side [of B s])

text \<open>Matching keeps a suffix of the queue, up to the filled quantity of its first order.\<close>

definition same_terms :: "Order \<Rightarrow> Order \<Rightarrow> bool" where
  "same_terms x y \<longleftrightarrow> x\<lparr>ord_filledQty := 0\<rparr> = y\<lparr>ord_filledQty := 0\<rparr>"

lemma same_terms_fields:
  assumes "same_terms x y"
  shows "ord_orderId x = ord_orderId y" "ord_side x = ord_side y" "ord_price x = ord_price y"
    "ord_qty x = ord_qty y" "ord_symbolPacked x = ord_symbolPacked y" "ord_type x = ord_type y"
  using assms by (cases x; cases y; simp add: same_terms_def)+

lemma same_terms_fill [simp]: "same_terms (fill_by m x) x" "same_terms x x"
  by (simp_all add: same_terms_def fill_by_def)

lemma spec_match_suffix:
  assumes "spec_match ts rp i q = (i', fs, q')"
  shows "\<exists>k. list_all2 same_terms q' (drop k q)"
  using assms
proof (induction rule: spec_match_rel_induct)
  case (stop i q)
  have "list_all2 same_terms q (drop 0 q)"
    by (simp add: list_all2_refl)
  then show ?case by blast
next
  case (part i r q m)
  have "list_all2 same_terms (fill_by m r # q) (drop 0 (r # q))"
    by (simp add: list_all2_refl)
  then show ?case by blast
next
  case (full i r q m i' fs q')
  then obtain k where "list_all2 same_terms q' (drop (Suc k) (r # q))"
    by auto
  then show ?case by blast
qed

lemma spec_match_open:
  assumes "spec_match ts rp i q = (i', fs, q')" and "\<forall>r\<in>set q. \<not> isFilled r"
  shows "\<forall>r\<in>set q'. \<not> isFilled r"
  using assms by (induction rule: spec_match_rel_induct) auto

lemma queue_sorted_drop: "queue_sorted s q \<Longrightarrow> queue_sorted s (drop k q)"
  by (simp add: queue_sorted_def sorted_wrt_drop)

lemma queue_sorted_cong:
  assumes "map ord_price q' = map ord_price q"
  shows "queue_sorted s q' = queue_sorted s q"
proof -
  have "queue_sorted s x \<longleftrightarrow> sorted_wrt (\<lambda>a b. \<not> price_before s b a) (map ord_price x)" for x
    by (simp add: queue_sorted_def sorted_wrt_map)
  with assms show ?thesis by simp
qed

lemma same_terms_map:
  assumes "list_all2 same_terms q' q"
  shows "map ord_price q' = map ord_price q" "map ord_orderId q' = map ord_orderId q"
    "map ord_side q' = map ord_side q"
  using assms by (induction rule: list_all2_induct) (auto dest: same_terms_fields)

lemma spec_match_queue:
  assumes m: "spec_match ts rp i q = (i', fs, q')" and srt: "queue_sorted s q"
    and r: "\<forall>x\<in>set q. order_rests s x" and d: "distinct (map ord_orderId q)"
  shows "queue_sorted s q'" "\<forall>x\<in>set q'. order_rests s x" "distinct (map ord_orderId q')"
    "ord_orderId ` set q' \<subseteq> ord_orderId ` set q" "ord_price ` set q' \<subseteq> ord_price ` set q"
proof -
  obtain k where k: "list_all2 same_terms q' (drop k q)"
    using spec_match_suffix [OF m] by blast
  note eq = same_terms_map [OF k]
  have sub: "set (drop k q) \<subseteq> set q"
    by (rule set_drop_subset)
  show "queue_sorted s q'"
    using queue_sorted_cong [OF eq(1)] queue_sorted_drop [OF srt] by simp
  show "distinct (map ord_orderId q')"
    unfolding eq(2) using d by (simp add: drop_map [symmetric] distinct_drop)
  show "ord_orderId ` set q' \<subseteq> ord_orderId ` set q"
    using eq(2) sub by (metis image_mono list.set_map)
  show "ord_price ` set q' \<subseteq> ord_price ` set q"
    using eq(1) sub by (metis image_mono list.set_map)
  show "\<forall>x\<in>set q'. order_rests s x"
  proof
    fix x
    assume x: "x \<in> set q'"
    then obtain y where "y \<in> set (drop k q)" "same_terms x y"
      using k by (metis list_all2_conv_all_nth in_set_conv_nth)
    moreover have "\<not> isFilled x"
      using spec_match_open [OF m] r x by (auto simp: order_rests_def)
    ultimately show "order_rests s x"
      using r sub same_terms_fields by (fastforce simp: order_rests_def)
  qed
qed

lemma spec_enqueue_sorted:
  assumes "queue_sorted s q"
  obtains l1 l2 where "q = l1 @ l2" "spec_enqueue s x q = l1 @ x # l2"
    "\<forall>r\<in>set l1. \<not> price_before s (ord_price x) (ord_price r)"
    "\<forall>r\<in>set l2. price_before s (ord_price x) (ord_price r)"
proof -
  let ?P = "\<lambda>r. \<not> price_before s (ord_price x) (ord_price r)"
  let ?l1 = "takeWhile ?P q" and ?l2 = "dropWhile ?P q"
  have q: "q = ?l1 @ ?l2" by simp
  have "\<forall>r\<in>set ?l2. price_before s (ord_price x) (ord_price r)"
  proof (cases ?l2)
    case Nil
    show ?thesis
      unfolding Nil by simp
  next
    case (Cons r l)
    then have h: "price_before s (ord_price x) (ord_price r)"
      using hd_dropWhile [of ?P q] by simp
    have "queue_sorted s (r # l)"
      using assms q Cons unfolding queue_sorted_def by (metis sorted_wrt_append)
    then have "\<not> price_before s (ord_price y) (ord_price r)" if "y \<in> set l" for y
      using that by (auto simp: queue_sorted_def)
    then have "price_before s (ord_price x) (ord_price y)" if "y \<in> set l" for y
      using that h side_map.lt_total side_map.lt_trans by metis
    then show ?thesis
      unfolding Cons using h by simp
  qed
  moreover have "\<forall>r\<in>set ?l1. ?P r"
    using set_takeWhileD by fastforce
  moreover have "spec_enqueue s x q = ?l1 @ x # ?l2"
    by (simp add: spec_enqueue_def)
  ultimately show ?thesis
    by (intro that [OF q])
qed

lemma open_qty_enqueue: "open_qty (spec_enqueue s x q) = open_qty q + unat (remainingQty x)"
proof -
  let ?P = "\<lambda>r. \<not> price_before s (ord_price x) (ord_price r)"
  have "open_qty q = open_qty (takeWhile ?P q) + open_qty (dropWhile ?P q)"
    by (metis qty_simps(3) takeWhile_dropWhile_id)
  then show ?thesis
    by (simp add: spec_enqueue_def)
qed

lemma spec_enqueue_set: "set (spec_enqueue s x q) = insert x (set q)"
proof -
  let ?P = "\<lambda>r. \<not> price_before s (ord_price x) (ord_price r)"
  have "set q = set (takeWhile ?P q) \<union> set (dropWhile ?P q)"
    by (metis set_append takeWhile_dropWhile_id)
  then show ?thesis
    by (auto simp: spec_enqueue_def)
qed

lemma spec_enqueue_wf:
  assumes "queue_sorted s q"
  shows "queue_sorted s (spec_enqueue s x q)"
    and "distinct (map ord_orderId q) \<Longrightarrow> ord_orderId x \<notin> ord_orderId ` set q \<Longrightarrow>
         distinct (map ord_orderId (spec_enqueue s x q))"
proof -
  obtain l1 l2 where l: "q = l1 @ l2" "spec_enqueue s x q = l1 @ x # l2"
      "\<forall>r\<in>set l1. \<not> price_before s (ord_price x) (ord_price r)"
      "\<forall>r\<in>set l2. price_before s (ord_price x) (ord_price r)"
    using spec_enqueue_sorted [OF assms] .
  have "\<not> price_before s (ord_price r) (ord_price x)" if "r \<in> set l2" for r
    using l(4) that side_map.lt_irrefl side_map.lt_trans by blast
  then show "queue_sorted s (spec_enqueue s x q)"
    using assms l by (auto simp: queue_sorted_def sorted_wrt_append)
  show "distinct (map ord_orderId (spec_enqueue s x q))"
    if "distinct (map ord_orderId q)" "ord_orderId x \<notin> ord_orderId ` set q"
    using that l(1,2) by auto
qed

section \<open>The operations keep the book well-formed and uncrossed\<close>

lemma not_crossed_behind:
  assumes "queue_sorted (opposite s) (r # q)" and "\<not> crosses (s = BUY) (ord_price r) pr"
  shows "\<forall>y\<in>set (r # q). \<not> crosses (s = BUY) (ord_price y) pr"
  using assms by (cases s) (auto simp: queue_sorted_def crosses_def not_less not_le)

lemma spec_process_split:
  assumes "\<not> spec_contains (ord_orderId x) B"
    and "spec_match ts (ord_type x \<noteq> MARKET) x (B (opposite (ord_side x))) = (x1, fs, q)"
  shows "spec_process ts x B = (fs, \<lambda>s. if s = opposite (ord_side x) then q
           else if ord_type x = LIMIT \<and> \<not> isFilled x1 then spec_enqueue s x1 (B s) else B s)"
proof -
  let ?o = "opposite (ord_side x)"
  have "spec_process ts x B = (fs, if ord_type x = LIMIT \<and> \<not> isFilled x1
      then B(?o := q, ord_side x := spec_enqueue (ord_side x) x1 (B (ord_side x))) else B(?o := q))"
    using assms by (simp add: spec_process_def Let_def)
  moreover have "(if ord_type x = LIMIT \<and> \<not> isFilled x1
      then B(?o := q, ord_side x := spec_enqueue (ord_side x) x1 (B (ord_side x))) else B(?o := q)) s =
      (if s = ?o then q else if ord_type x = LIMIT \<and> \<not> isFilled x1 then spec_enqueue s x1 (B s) else B s)" for s
    by (cases s; cases "ord_side x"; simp)
  ultimately show ?thesis
    by (simp only: prod.inject simp_thms) (rule ext)
qed

lemma book_wfI:
  assumes "queue_sorted t (B t)" "\<forall>x\<in>set (B t). order_rests t x" "distinct (map ord_orderId (B t))"
    and "queue_sorted (opposite t) (B (opposite t))" "\<forall>x\<in>set (B (opposite t)). order_rests (opposite t) x"
      "distinct (map ord_orderId (B (opposite t)))"
    and "ord_orderId ` set (B t) \<inter> ord_orderId ` set (B (opposite t)) = {}"
  shows "book_wf B"
proof -
  have "queue_sorted s (B s) \<and> (\<forall>x\<in>set (B s). order_rests s x)" for s
    using assms by (cases s; cases t; simp)
  moreover have "distinct (map ord_orderId (B BUY @ B SELL))"
    using assms by (cases t) auto
  ultimately show ?thesis
    by (simp add: book_wf_def)
qed

lemma spec_process_wf:
  assumes wf: "book_wf B" and pr: "ord_type x = LIMIT \<longrightarrow> ord_price x \<noteq> 0"
    and step: "spec_process ts x B = (fs, B')"
  shows "book_wf B'" and "uncrossed B \<Longrightarrow> uncrossed B'"
proof -
  let ?s = "ord_side x"
  have "book_wf B' \<and> (uncrossed B \<longrightarrow> uncrossed B')"
  proof (cases "spec_contains (ord_orderId x) B")
    case True
    then show ?thesis
      using wf step by (simp add: spec_process_def)
  next
    case False
    obtain x1 fs1 q where m: "spec_match ts (ord_type x \<noteq> MARKET) x (B (opposite ?s)) = (x1, fs1, q)"
      by (cases "spec_match ts (ord_type x \<noteq> MARKET) x (B (opposite ?s))") auto
    note dat = spec_match_data [OF m]
    have B': "B' = (\<lambda>s. if s = opposite ?s then q
        else if ord_type x = LIMIT \<and> \<not> isFilled x1 then spec_enqueue s x1 (B s) else B s)"
      using spec_process_split [OF False m] step by simp
    note W = wf [unfolded book_wf_sides, rule_format]
    have o: "queue_sorted (opposite ?s) (B (opposite ?s))" "\<forall>x\<in>set (B (opposite ?s)). order_rests (opposite ?s) x"
        "distinct (map ord_orderId (B (opposite ?s)))"
      using W [of "opposite ?s"] by simp_all
    note q = spec_match_queue [OF m o]
    have new: "ord_orderId x1 \<notin> ord_orderId ` set (B s)" for s
      using False dat(1) by (auto simp: spec_contains_def)
    have disj: "ord_orderId ` set (B ?s) \<inter> ord_orderId ` set q = {}" and newq: "ord_orderId x1 \<notin> ord_orderId ` set q"
      using W [of ?s] q(4) new [of "opposite ?s"] by blast+
    have unc: "uncrossed B \<Longrightarrow> x2 \<in> set (B ?s) \<Longrightarrow> r \<in> set q \<Longrightarrow>
        \<not> crosses (?s = BUY) (ord_price r) (ord_price x2)" for x2 r
      using q(5) by (intro uncrossed_prices) auto
    show ?thesis
    proof (cases "ord_type x = LIMIT \<and> \<not> isFilled x1")
      case rest: True
      then have "order_rests ?s x1"
        using pr dat by (simp add: order_rests_def)
      then have "book_wf B'"
        using B' rest W [of ?s] q(1-3) disj newq new [of ?s] spec_enqueue_wf [of ?s "B ?s" x1]
        by (intro book_wfI [of ?s]) (auto simp: spec_enqueue_set)
      moreover have "\<forall>r\<in>set q. \<not> crosses (?s = BUY) (ord_price r) (ord_price x1)"
      proof (cases q)
        case (Cons r q2)
        have "\<not> crosses (?s = BUY) (ord_price r) (ord_price x1)"
          using spec_match_exhausts [OF m] rest Cons dat(2) by (auto simp: may_trade_def)
        then show ?thesis
          using q(1) not_crossed_behind [of ?s r q2] unfolding Cons by blast
      qed simp
      moreover have "B' ?s = spec_enqueue ?s x1 (B ?s)" "B' (opposite ?s) = q"
        using B' rest by simp_all
      ultimately show ?thesis
        using unc by (simp add: uncrossed_side [of B' ?s] spec_enqueue_set)
    next
      case drop: False
      then have B2: "B' = B(opposite ?s := q)"
        using B' by (auto simp: fun_eq_iff)
      have "book_wf B'"
        using B2 W [of ?s] q(1-3) disj by (intro book_wfI [of ?s]) simp_all
      moreover have "B' ?s = B ?s" "B' (opposite ?s) = q"
        using B2 by simp_all
      ultimately show ?thesis
        using unc by (simp add: uncrossed_side [of B' ?s])
    qed
  qed
  then show "book_wf B'" and "uncrossed B \<Longrightarrow> uncrossed B'" by blast+
qed

lemma spec_cancel_wf:
  assumes "book_wf B"
  shows "book_wf (snd (spec_cancel i B))" and "uncrossed B \<Longrightarrow> uncrossed (snd (spec_cancel i B))"
proof -
  let ?P = "\<lambda>x. ord_orderId x \<noteq> i"
  have "queue_sorted s (filter P q)" if "queue_sorted s q" for s P q
    using that by (simp add: queue_sorted_def sorted_wrt_filter)
  moreover have "distinct (map ord_orderId (filter ?P (B BUY @ B SELL)))"
    using assms unfolding book_wf_def by (intro distinct_map_filter) blast
  ultimately show "book_wf (snd (spec_cancel i B))"
    using assms by (simp add: book_wf_def spec_cancel_def)
  show "uncrossed (snd (spec_cancel i B))" if "uncrossed B"
    using that by (simp add: uncrossed_def spec_cancel_def)
qed

lemma spec_modify_wf:
  assumes wf: "book_wf B" and pr: "pr \<noteq> 0" and step: "spec_modify i pr q ts B = (ok, fs, B')"
  shows "book_wf B'" and "uncrossed B \<Longrightarrow> uncrossed B'"
proof -
  have "book_wf B' \<and> (uncrossed B \<longrightarrow> uncrossed B')"
  proof (cases "spec_find i B")
    case None
    then show ?thesis
      using wf step by (simp add: spec_modify_def)
  next
    case (Some x)
    then have "spec_process ts (x\<lparr>ord_price := pr, ord_qty := q, ord_filledQty := 0, ord_type := LIMIT\<rparr>)
        (snd (spec_cancel i B)) = (fs, B')"
      using step by (auto simp: spec_modify_def split: prod.splits)
    from spec_process_wf [OF spec_cancel_wf(1) [OF wf] _ this]
    show ?thesis
      using pr spec_cancel_wf(2) [OF wf] by simp
  qed
  then show "book_wf B'" and "uncrossed B \<Longrightarrow> uncrossed B'" by blast+
qed

section \<open>Books of the engine\<close>

lemma queue_sorted_ladder:
  assumes "ladder_rep s h lvls g"
  shows "queue_sorted s (queue h g)"
proof -
  have "\<forall>r\<in>set g. \<forall>a\<in>set (snd r). ord_price (obj h a) = fst r"
    using ladder_rung_price [OF assms] by blast
  moreover have "sorted_wrt (price_before s) (map fst g)"
    using assms by (simp add: ladder_rep_def)
  ultimately show ?thesis
  proof (induction g)
    case (Cons r g)
    have irr: "\<not> price_before s q q" for q
      by (rule side_map.lt_irrefl)
    have asym: "price_before s q q' \<Longrightarrow> \<not> price_before s q' q" for q q'
      using side_map.lt_irrefl side_map.lt_trans by blast
    have "sorted_wrt (\<lambda>x y. \<not> price_before s (ord_price y) (ord_price x)) (map (\<lambda>a. strip (obj h a)) xs)"
      if "\<forall>a\<in>set xs. ord_price (obj h a) = fst r" for xs
      using that irr by (induction xs) auto
    then have "sorted_wrt (\<lambda>x y. \<not> price_before s (ord_price y) (ord_price x)) (map (\<lambda>a. strip (obj h a)) (snd r))"
      using Cons.prems(1) by simp
    moreover have "\<not> price_before s (ord_price y) (fst r)" if "y \<in> set (queue h g)" for y
    proof -
      obtain r' a where "r' \<in> set g" "a \<in> set (snd r')" "y = strip (obj h a)"
        using \<open>y \<in> set (queue h g)\<close> by (auto simp: queue_def addrs_def)
      then show ?thesis
        using Cons.prems asym by (auto simp: sorted_wrt_map)
    qed
    ultimately show ?case
      using Cons by (cases r) (auto simp: queue_sorted_def sorted_wrt_append)
  qed (simp add: queue_sorted_def)
qed

lemma engine_book_wf:
  assumes "engine_ok e p"
  shows "book_wf (book_of e p)"
proof -
  obtain G where G: "sys_rep e p G"
    using assms by (auto simp: engine_ok_def)
  note rep = sys_rep_simps [OF G]
  have "inj_on (\<lambda>a. ord_orderId (obj (mem p) a)) (set (book_addrs G))"
    using book_rep_map [OF rep(1)] by (intro inj_onI) (metis option.inject)
  then have "distinct (map ord_orderId (book_of e p BUY @ book_of e p SELL))"
    using rep(1) by (simp add: book_of_spec [OF G] spec_of_def queue_def book_rep_def book_addrs_def
        distinct_map comp_def inj_on_def) blast
  moreover have "order_rests s x" if "x \<in> set (book_of e p s)" for s x
  proof -
    obtain a where a: "a \<in> set (addrs (G s))" "x = strip (obj (mem p) a)"
      using \<open>x \<in> set (book_of e p s)\<close> by (auto simp: book_of_spec [OF G] spec_of_def queue_def)
    then have "a \<in> set (book_addrs G)"
      using in_book_addrs by blast
    then show ?thesis
      using a rep(2) book_rep_side [OF rep(1) a(1)] by (simp add: order_rests_def book_open_def)
  qed
  moreover have "queue_sorted s (book_of e p s)" for s
    using queue_sorted_ladder [OF book_rep_ladder [OF rep(1)]] by (simp add: book_of_spec [OF G] spec_of_def)
  ultimately show ?thesis
    by (simp add: book_wf_def)
qed

end
