(* ===== verification/Feed_Protocol.thy ===== *)
theory Feed_Protocol
  imports Order_Record
begin

text \<open>
  \<open>include/feed/BinaryProtocol.h\<close>, \<open>include/feed/FeedParser.h\<close> and \<open>src/FeedParser.cpp\<close>: the 40-byte
  feed message, its byte image, the constructors and validity checks, and the parser for buffers and
  files.  A message type, side or order type on the wire is an arbitrary byte, so those members are
  bytes in the model and only a validated byte is converted to its enumeration.
\<close>

section \<open>Messages\<close>

text \<open>The values of \<open>enum class MsgType : uint8_t\<close>, and the underlying values of the order enumerations.\<close>

abbreviation (input) MSG_ADD :: u8 where "MSG_ADD \<equiv> 0"
abbreviation (input) MSG_CANCEL :: u8 where "MSG_CANCEL \<equiv> 1"
abbreviation (input) MSG_MODIFY :: u8 where "MSG_MODIFY \<equiv> 2"

fun side_code :: "Side \<Rightarrow> u8" where
  "side_code BUY = 0"
| "side_code SELL = 1"

fun type_code :: "OrderType \<Rightarrow> u8" where
  "type_code LIMIT = 0"
| "type_code MARKET = 1"
| "type_code IOC = 2"

text \<open>\<open>static_cast\<close> back to the enumerations; the sources apply it to validated bytes only.\<close>

definition to_Side :: "u8 \<Rightarrow> Side" where
  "to_Side b = (if b = side_code BUY then BUY else SELL)"

definition to_OrderType :: "u8 \<Rightarrow> OrderType" where
  "to_OrderType b = (if b = type_code LIMIT then LIMIT else if b = type_code MARKET then MARKET else IOC)"

record FeedMessage =
  msg_sequence :: u64
  msg_orderId :: u64
  msg_symbolPacked :: u64
  msg_price :: u32
  msg_qty :: u32
  msg_msgType :: u8
  msg_side :: u8
  msg_orderType :: u8
  msg_pad :: "u8 \<times> u8 \<times> u8 \<times> u8 \<times> u8"

definition default_FeedMessage :: FeedMessage where
  "default_FeedMessage = \<lparr>msg_sequence = 0, msg_orderId = 0, msg_symbolPacked = 0, msg_price = 0,
     msg_qty = 0, msg_msgType = MSG_ADD, msg_side = 0, msg_orderType = 0, msg_pad = (0, 0, 0, 0, 0)\<rparr>"

definition kFeedMessageSize :: nat where
  "kFeedMessageSize = 40"

definition encodeMessage :: "FeedMessage \<Rightarrow> u8 list" where
  "encodeMessage m =
     bytes_u64 (msg_sequence m) @ bytes_u64 (msg_orderId m) @ bytes_u64 (msg_symbolPacked m) @
     bytes_u32 (msg_price m) @ bytes_u32 (msg_qty m) @
     [msg_msgType m, msg_side m, msg_orderType m] @
     (case msg_pad m of (a, b, c, d, e) \<Rightarrow> [a, b, c, d, e])"

definition decodeMessage :: "u8 list \<Rightarrow> FeedMessage" where
  "decodeMessage src =
     \<lparr>msg_sequence = u64_bytes (take 8 src),
      msg_orderId = u64_bytes (take 8 (drop 8 src)),
      msg_symbolPacked = u64_bytes (take 8 (drop 16 src)),
      msg_price = u32_bytes (take 4 (drop 24 src)),
      msg_qty = u32_bytes (take 4 (drop 28 src)),
      msg_msgType = src ! 32, msg_side = src ! 33, msg_orderType = src ! 34,
      msg_pad = (src ! 35, src ! 36, src ! 37, src ! 38, src ! 39)\<rparr>"

definition makeAdd :: "u64 \<Rightarrow> u64 \<Rightarrow> Side \<Rightarrow> OrderType \<Rightarrow> u32 \<Rightarrow> u32 \<Rightarrow> u64 \<Rightarrow> FeedMessage" where
  "makeAdd seq i side type price qty symbolPacked =
     default_FeedMessage\<lparr>msg_sequence := seq, msg_orderId := i, msg_symbolPacked := symbolPacked,
       msg_price := price, msg_qty := qty, msg_msgType := MSG_ADD,
       msg_side := side_code side, msg_orderType := type_code type\<rparr>"

definition makeCancel :: "u64 \<Rightarrow> u64 \<Rightarrow> FeedMessage" where
  "makeCancel seq i =
     default_FeedMessage\<lparr>msg_sequence := seq, msg_orderId := i, msg_msgType := MSG_CANCEL\<rparr>"

definition makeModify :: "u64 \<Rightarrow> u64 \<Rightarrow> u32 \<Rightarrow> u32 \<Rightarrow> FeedMessage" where
  "makeModify seq i newPrice newQty =
     default_FeedMessage\<lparr>msg_sequence := seq, msg_orderId := i, msg_price := newPrice,
       msg_qty := newQty, msg_msgType := MSG_MODIFY\<rparr>"

definition isValidMsgType :: "u8 \<Rightarrow> bool" where
  "isValidMsgType t \<longleftrightarrow> t = MSG_ADD \<or> t = MSG_CANCEL \<or> t = MSG_MODIFY"

definition isValidSide :: "u8 \<Rightarrow> bool" where
  "isValidSide b \<longleftrightarrow> b = side_code BUY \<or> b = side_code SELL"

definition isValidOrderType :: "u8 \<Rightarrow> bool" where
  "isValidOrderType t \<longleftrightarrow> t = type_code LIMIT \<or> t = type_code MARKET \<or> t = type_code IOC"

definition isValidFeedMessage :: "FeedMessage \<Rightarrow> bool" where
  "isValidFeedMessage m \<longleftrightarrow>
     (if \<not> isValidMsgType (msg_msgType m) \<or> msg_orderId m = 0 then False
      else if msg_msgType m = MSG_ADD then
        (if \<not> isValidSide (msg_side m) \<or> \<not> isValidOrderType (msg_orderType m) \<or> msg_qty m = 0 then False
         else if msg_orderType m \<noteq> type_code MARKET \<and> msg_price m = 0 then False
         else True)
      else if msg_msgType m = MSG_CANCEL then True
      else if msg_msgType m = MSG_MODIFY then msg_price m \<noteq> 0 \<and> msg_qty m \<noteq> 0
      else False)"

section \<open>Parser\<close>

definition parseBuffer :: "u8 list \<Rightarrow> FeedMessage list \<times> nat" where
  "parseBuffer data =
     (let n = length data div kFeedMessageSize
      in (map (\<lambda>i. decodeMessage (drop (i * kFeedMessageSize) data)) [0..<n], n * kFeedMessageSize))"

text \<open>\<open>std::memcpy\<close> of \<open>bs\<close> to offset \<open>off\<close> of a buffer.\<close>

definition memcpy_at :: "nat \<Rightarrow> u8 list \<Rightarrow> u8 list \<Rightarrow> u8 list" where
  "memcpy_at off bs buf = take off buf @ bs @ drop (off + length bs) buf"

definition encodeAll :: "FeedMessage list \<Rightarrow> u8 list" where
  "encodeAll msgs =
     fold (\<lambda>i buf. memcpy_at (i * kFeedMessageSize) (encodeMessage (msgs ! i)) buf)
       [0..<length msgs] (replicate (length msgs * kFeedMessageSize) 0)"

text \<open>
  Files.  What the runtime does with a stream is a parameter: whether the file opens, the state of the
  stream after \<open>write\<close>, and what has reached the file once the stream is closed.
\<close>

type_synonym files = "string \<rightharpoonup> u8 list"

record out_stream =
  os_opens :: bool
  os_good :: "u8 list \<Rightarrow> bool"
  os_stored :: "u8 list \<Rightarrow> u8 list"

definition writeFile :: "out_stream \<Rightarrow> string \<Rightarrow> FeedMessage list \<Rightarrow> files \<Rightarrow> bool \<times> files" where
  "writeFile os path msgs fs =
     (if \<not> os_opens os then (False, fs)
      else let buf = encodeAll msgs in (os_good os buf, fs(path \<mapsto> os_stored os buf)))"

text \<open>\<open>rd\<close> tells whether \<open>ifstream::read\<close> delivers the bytes asked for.\<close>

definition readFile :: "bool \<Rightarrow> string \<Rightarrow> files \<Rightarrow> FeedMessage list option" where
  "readFile rd path fs =
     (case fs path of
        None \<Rightarrow> None
      | Some bs \<Rightarrow>
          if length bs mod kFeedMessageSize \<noteq> 0 then None
          else if length bs > 0 \<and> \<not> rd then None
          else Some (fst (parseBuffer bs)))"

section \<open>Valid messages\<close>

lemma valid_cases:
  "isValidFeedMessage m \<Longrightarrow> msg_msgType m = MSG_ADD \<or> msg_msgType m = MSG_CANCEL \<or>
     msg_msgType m = MSG_MODIFY \<and> msg_price m \<noteq> 0 \<and> msg_qty m \<noteq> 0"
  by (auto simp: isValidFeedMessage_def isValidMsgType_def split: if_splits)

lemma codes_round [simp]: "to_Side (side_code s) = s" "to_OrderType (type_code t) = t"
  by (cases s; simp add: to_Side_def) (cases t; simp add: to_OrderType_def)

section \<open>The byte image of a message\<close>

lemma length_encodeMessage [simp]: "length (encodeMessage m) = kFeedMessageSize"
  by (simp add: encodeMessage_def kFeedMessageSize_def split: prod.split)

lemma decodeMessage_prefix: "decodeMessage (encodeMessage m @ rest) = m"
  by (cases m) (simp add: encodeMessage_def decodeMessage_def nth_append split: prod.split)

lemma decodeMessage_take:
  assumes "kFeedMessageSize \<le> length bs"
  shows "decodeMessage (take kFeedMessageSize bs) = decodeMessage bs"
  using assms by (simp add: decodeMessage_def kFeedMessageSize_def drop_take min_def)

lemma five_nth:
  assumes "length bs = 40"
  shows "drop 32 bs = [bs ! 32, bs ! 33, bs ! 34, bs ! 35, bs ! 36, bs ! 37, bs ! 38, bs ! 39]"
  using assms by (simp add: list_eq_iff_nth_eq nth_Cons' less_Suc_eq numeral_eq_Suc)

lemma encodeMessage_decode:
  assumes "length bs = kFeedMessageSize"
  shows "encodeMessage (decodeMessage bs) = bs"
proof -
  have l: "length bs = 40"
    using assms by (simp add: kFeedMessageSize_def)
  have "bs = take 8 bs @ take 8 (drop 8 bs) @ take 8 (drop 16 bs) @ take 4 (drop 24 bs) @
      take 4 (drop 28 bs) @ drop 32 bs"
    using take_drop_field [of 4 28 bs] take_drop_field [of 4 24 bs] take_drop_field [of 8 16 bs]
      take_drop_field [of 8 8 bs] take_drop_field [of 8 0 bs] by simp
  then show ?thesis
    using l five_nth [OF l] by (simp add: encodeMessage_def decodeMessage_def)
qed

interpretation feed_codec: fixed_codec encodeMessage decodeMessage kFeedMessageSize
  using decodeMessage_prefix [where rest = "[]"] by unfold_locales (simp_all add: encodeMessage_decode)

section \<open>Buffers\<close>

lemma parse_frames:
  "parseBuffer bs = (map decodeMessage (chunks kFeedMessageSize (length bs div kFeedMessageSize) bs),
     length bs div kFeedMessageSize * kFeedMessageSize)"
proof -
  let ?w = kFeedMessageSize
  have "decodeMessage (drop (i * ?w) bs) = decodeMessage (take ?w (drop (i * ?w) bs))"
    if "i < length bs div ?w" for i
  proof -
    have "Suc i * ?w \<le> length bs div ?w * ?w"
      using that by (intro mult_le_mono1) simp
    also have "\<dots> \<le> length bs"
      by (rule div_times_less_eq_dividend)
    finally have "?w \<le> length (drop (i * ?w) bs)"
      by simp
    then show ?thesis
      using decodeMessage_take by simp
  qed
  then show ?thesis
    by (simp add: parseBuffer_def Let_def chunks_def)
qed

lemma memcpy_fold:
  assumes "\<And>x. length (enc x) = w"
  shows "n \<le> length xs \<Longrightarrow>
    fold (\<lambda>i buf. memcpy_at (i * w) (enc (xs ! i)) buf) [0..<n] (replicate (length xs * w) 0) =
    concat (map enc (take n xs)) @ replicate ((length xs - n) * w) 0"
proof (induction n)
  case 0
  then show ?case by simp
next
  case (Suc n)
  let ?done = "concat (map enc (take n xs))"
  have len: "length ?done = n * w"
    using Suc.prems assms by (simp add: length_concat comp_def sum_list_triv)
  have tail: "(length xs - n) * w - w = (length xs - Suc n) * w"
    by (simp add: diff_mult_distrib)
  have "memcpy_at (n * w) (enc (xs ! n)) (?done @ replicate ((length xs - n) * w) 0) =
      ?done @ enc (xs ! n) @ replicate ((length xs - Suc n) * w) 0"
    using len assms tail by (simp add: memcpy_at_def)
  moreover have "concat (map enc (take (Suc n) xs)) = ?done @ enc (xs ! n)"
    using Suc.prems by (simp add: take_Suc_conv_app_nth)
  ultimately show ?case
    using Suc by simp
qed

lemma encodeAll_concat: "encodeAll msgs = concat (map encodeMessage msgs)"
  using memcpy_fold [of encodeMessage kFeedMessageSize "length msgs" msgs] by (simp add: encodeAll_def)

lemma kFeedMessageSize_pos [simp]: "0 < kFeedMessageSize"
  by (simp add: kFeedMessageSize_def)

lemma length_encodeAll: "length (encodeAll msgs) = length msgs * kFeedMessageSize"
  unfolding encodeAll_concat by (rule feed_codec.length_concat_enc)

lemma parse_encodeAll: "fst (parseBuffer (encodeAll msgs)) = msgs"
  using feed_codec.decode_encode_all [of msgs "[]"] feed_codec.length_concat_enc [of msgs]
  by (simp add: parse_frames encodeAll_concat)

lemma readFile_encodeAll: "fs path = Some (encodeAll msgs) \<Longrightarrow> readFile True path fs = Some msgs"
  by (simp add: readFile_def length_encodeAll parse_encodeAll)

text \<open>A stream that is cut anywhere: the unconsumed tail of one read is the head of the next.\<close>

lemma parse_resume:
  assumes "parseBuffer bs1 = (ms1, n1)"
  shows "parseBuffer (bs1 @ bs2) =
    (ms1 @ fst (parseBuffer (drop n1 bs1 @ bs2)), n1 + snd (parseBuffer (drop n1 bs1 @ bs2)))"
proof -
  let ?w = kFeedMessageSize
  let ?k = "length bs1 div ?w"
  have n1: "n1 = ?k * ?w" and ms1: "ms1 = map decodeMessage (chunks ?w ?k bs1)" and le: "?k * ?w \<le> length bs1"
    using assms by (auto simp: parse_frames)
  let ?r = "drop n1 bs1 @ bs2"
  have len: "length (bs1 @ bs2) = ?k * ?w + length ?r"
    unfolding length_append length_drop n1 using le by linarith
  have split: "chunks w (k + j) xs = chunks w k xs @ chunks w j (drop (k * w) xs)" for w k j xs
    by (induction k arbitrary: xs) (simp_all add: chunks_Suc add.commute)
  have "length (bs1 @ bs2) div ?w = ?k + length ?r div ?w"
    unfolding len by simp
  moreover have "chunks ?w ?k (bs1 @ bs2) = chunks ?w ?k bs1"
    using le by (rule feed_codec.chunks_prefix)
  moreover have "drop (?k * ?w) (bs1 @ bs2) = ?r"
    using le n1 by simp
  ultimately show ?thesis
    by (simp add: parse_frames split n1 ms1 algebra_simps)
qed

end
