(* ===== verification/Analytics.thy ===== *)
theory Analytics
  imports Order_Book Complex_Main
begin

text \<open>
  \<open>include/replay/ReplayStats.h\<close> (\<open>RunningStats\<close>) and \<open>include/analytics/*.h\<close>: the single-pass
  statistics and the four trackers of the replay engine.  A \<open>double\<close> is a real number and every
  floating-point operation is the exact result passed through a rounding function \<open>rnd\<close>, a parameter
  of the definitions: \<open>rnd = id\<close> is exact arithmetic, and facts that hold for every \<open>rnd\<close> hold for the
  hardware.  Infinity, the initial extreme value, is \<open>None\<close>.
\<close>

section \<open>Running statistics\<close>

record RunningStats =
  rs_n :: u64
  rs_mean :: real
  rs_m2 :: real
  rs_minV :: "real option"
  rs_maxV :: "real option"

definition empty_RunningStats :: RunningStats where
  "empty_RunningStats = \<lparr>rs_n = 0, rs_mean = 0, rs_m2 = 0, rs_minV = None, rs_maxV = None\<rparr>"

definition RunningStats_add :: "(real \<Rightarrow> real) \<Rightarrow> real \<Rightarrow> RunningStats \<Rightarrow> RunningStats" where
  "RunningStats_add rnd x st =
     (let n = rs_n st + 1;
          delta = rnd (x - rs_mean st);
          mean = rnd (rs_mean st + rnd (delta / rnd (real (unat n))));
          delta2 = rnd (x - mean);
          m2 = rnd (rs_m2 st + rnd (delta * delta2))
      in \<lparr>rs_n = n, rs_mean = mean, rs_m2 = m2,
          rs_minV = (case rs_minV st of None \<Rightarrow> Some x | Some v \<Rightarrow> Some (if x < v then x else v)),
          rs_maxV = (case rs_maxV st of None \<Rightarrow> Some x | Some v \<Rightarrow> Some (if x > v then x else v))\<rparr>)"

definition RunningStats_variance :: "(real \<Rightarrow> real) \<Rightarrow> RunningStats \<Rightarrow> real" where
  "RunningStats_variance rnd st = (if rs_n st > 1 then rnd (rs_m2 st / rnd (real (unat (rs_n st - 1)))) else 0)"

definition RunningStats_stddev :: "(real \<Rightarrow> real) \<Rightarrow> RunningStats \<Rightarrow> real" where
  "RunningStats_stddev rnd st = rnd (sqrt (RunningStats_variance rnd st))"

definition RunningStats_min :: "RunningStats \<Rightarrow> real" where
  "RunningStats_min st = (if rs_n st \<noteq> 0 then the (rs_minV st) else 0)"

definition RunningStats_max :: "RunningStats \<Rightarrow> real" where
  "RunningStats_max st = (if rs_n st \<noteq> 0 then the (rs_maxV st) else 0)"

section \<open>Trackers\<close>

record SpreadTracker =
  st_last :: u32
  st_stats :: RunningStats

definition SpreadTracker_new :: SpreadTracker where
  "SpreadTracker_new = \<lparr>st_last = 0, st_stats = empty_RunningStats\<rparr>"

definition SpreadTracker_update :: "(real \<Rightarrow> real) \<Rightarrow> OrderBook \<Rightarrow> SpreadTracker \<Rightarrow> SpreadTracker" where
  "SpreadTracker_update rnd book t =
     (let s = getSpread book
      in if getBestBid book \<noteq> 0 \<and> getBestAsk book \<noteq> 0
         then t\<lparr>st_last := s, st_stats := RunningStats_add rnd (real (unat s)) (st_stats t)\<rparr>
         else t)"

record QueueDepthTracker =
  qd_bidQty :: u64
  qd_askQty :: u64
  qd_depthStats :: RunningStats

definition QueueDepthTracker_new :: QueueDepthTracker where
  "QueueDepthTracker_new = \<lparr>qd_bidQty = 0, qd_askQty = 0, qd_depthStats = empty_RunningStats\<rparr>"

definition QueueDepthTracker_update ::
  "(real \<Rightarrow> real) \<Rightarrow> OrderBook \<Rightarrow> QueueDepthTracker \<Rightarrow> QueueDepthTracker" where
  "QueueDepthTracker_update rnd book t =
     (let b = getBestBidQty book; a = getBestAskQty book
      in t\<lparr>qd_bidQty := b, qd_askQty := a,
           qd_depthStats := RunningStats_add rnd (rnd (real (unat (b + a)))) (qd_depthStats t)\<rparr>)"

record ImbalanceTracker =
  im_last :: real
  im_stats :: RunningStats

definition ImbalanceTracker_new :: ImbalanceTracker where
  "ImbalanceTracker_new = \<lparr>im_last = 0, im_stats = empty_RunningStats\<rparr>"

definition ImbalanceTracker_update ::
  "(real \<Rightarrow> real) \<Rightarrow> OrderBook \<Rightarrow> ImbalanceTracker \<Rightarrow> ImbalanceTracker" where
  "ImbalanceTracker_update rnd book t =
     (let b = getBestBidQty book; a = getBestAskQty book; denom = b + a
      in if denom = 0 then t
         else let v = rnd (rnd (rnd (real (unat b)) - rnd (real (unat a))) / rnd (real (unat denom)))
              in t\<lparr>im_last := v, im_stats := RunningStats_add rnd v (im_stats t)\<rparr>)"

text \<open>The fill-rate ring; an index outside the ring is \<open>None\<close>.\<close>

record FillRateTracker =
  fr_ring :: "u8 list"
  fr_window :: size_t
  fr_head :: size_t
  fr_count :: size_t
  fr_windowFilled :: u64
  fr_totalOrders :: u64
  fr_totalFilled :: u64

definition FillRateTracker_new :: "size_t \<Rightarrow> FillRateTracker" where
  "FillRateTracker_new window =
     \<lparr>fr_ring = replicate (unat window) 0, fr_window = window, fr_head = 0, fr_count = 0,
      fr_windowFilled = 0, fr_totalOrders = 0, fr_totalFilled = 0\<rparr>"

definition FillRateTracker_onOrder :: "bool \<Rightarrow> FillRateTracker \<Rightarrow> FillRateTracker option" where
  "FillRateTracker_onOrder filled t =
     (let h = unat (fr_head t); v = (if filled then 1 else 0 :: u8)
      in if h < length (fr_ring t) \<and> fr_window t \<noteq> 0
         then Some (t\<lparr>fr_totalOrders := fr_totalOrders t + 1,
                      fr_totalFilled := (if filled then fr_totalFilled t + 1 else fr_totalFilled t),
                      fr_windowFilled := fr_windowFilled t - ucast (fr_ring t ! h) + ucast v,
                      fr_ring := (fr_ring t)[h := v],
                      fr_head := (fr_head t + 1) mod fr_window t,
                      fr_count := (if fr_count t < fr_window t then fr_count t + 1 else fr_count t)\<rparr>)
         else None)"

definition FillRateTracker_windowRate :: "(real \<Rightarrow> real) \<Rightarrow> FillRateTracker \<Rightarrow> real" where
  "FillRateTracker_windowRate rnd t =
     (if fr_count t \<noteq> 0 then rnd (rnd (real (unat (fr_windowFilled t))) / rnd (real (unat (fr_count t)))) else 0)"

definition FillRateTracker_cumulativeRate :: "(real \<Rightarrow> real) \<Rightarrow> FillRateTracker \<Rightarrow> real" where
  "FillRateTracker_cumulativeRate rnd t =
     (if fr_totalOrders t \<noteq> 0
      then rnd (rnd (real (unat (fr_totalFilled t))) / rnd (real (unat (fr_totalOrders t)))) else 0)"

section \<open>Welford's recurrence\<close>

definition samples_mean :: "real list \<Rightarrow> real" where
  "samples_mean xs = sum_list xs / real (length xs)"

definition samples_m2 :: "real list \<Rightarrow> real" where
  "samples_m2 xs = (\<Sum>x\<leftarrow>xs. (x - samples_mean xs)\<^sup>2)"

definition stats_of :: "(real \<Rightarrow> real) \<Rightarrow> real list \<Rightarrow> RunningStats" where
  "stats_of rnd xs = fold (RunningStats_add rnd) xs empty_RunningStats"

lemma stats_of_simps [simp]: "stats_of rnd [] = empty_RunningStats"
  "stats_of rnd (xs @ [x]) = RunningStats_add rnd x (stats_of rnd xs)"
  by (simp_all add: stats_of_def)

lemma stats_of_n: "rs_n (stats_of rnd xs) = of_nat (length xs)"
  by (induction xs rule: rev_induct)
    (simp_all add: empty_RunningStats_def RunningStats_add_def Let_def)

lemma sum_sq_dev: "(\<Sum>x\<leftarrow>xs. (x - c)\<^sup>2) = (\<Sum>x\<leftarrow>xs. x\<^sup>2) - 2 * c * sum_list xs + real (length xs) * c\<^sup>2" for c :: real
  by (induction xs) (auto simp: power2_eq_square algebra_simps)

lemma samples_m2_alt:
  assumes "xs \<noteq> []"
  shows "samples_m2 xs = (\<Sum>x\<leftarrow>xs. x\<^sup>2) - (sum_list xs)\<^sup>2 / real (length xs)"
proof -
  have "q - 2 * (s / n) * s + n * (s / n)\<^sup>2 = q - s\<^sup>2 / n" if "n \<noteq> 0" for q s n :: real
    using that by (simp add: power2_eq_square field_simps)
  then show ?thesis
    unfolding samples_m2_def sum_sq_dev samples_mean_def using assms by simp
qed

lemma welford_step:
  fixes s q x n :: real
  assumes "n > 0"
  defines "m \<equiv> s / n" and "m' \<equiv> (s + x) / (n + 1)"
  shows "m + (x - m) / (n + 1) = m'"
    and "q - s\<^sup>2 / n + (x - m) * (x - m') = (q + x\<^sup>2) - (s + x)\<^sup>2 / (n + 1)"
proof -
  have n: "n \<noteq> 0" "n + 1 \<noteq> 0"
    using assms(1) by simp_all
  have sm: "s = m * n" and xm: "x = m' * (n + 1) - m * n"
    using n by (simp_all add: m_def m'_def)
  have "x - m = (m' - m) * (n + 1)"
    unfolding xm by (simp add: algebra_simps)
  then show "m + (x - m) / (n + 1) = m'"
    using n by simp
  have "s\<^sup>2 / n = m * m * n" "(s + x)\<^sup>2 / (n + 1) = m' * m' * (n + 1)"
    using n by (simp_all add: m_def m'_def power2_eq_square)
  then show "q - s\<^sup>2 / n + (x - m) * (x - m') = (q + x\<^sup>2) - (s + x)\<^sup>2 / (n + 1)"
    unfolding xm by (simp add: power2_eq_square algebra_simps)
qed

lemma welford:
  assumes "xs \<noteq> []" and "length xs < 18446744073709551616"
  shows "rs_mean (stats_of (\<lambda>v. v) xs) = samples_mean xs \<and> rs_m2 (stats_of (\<lambda>v. v) xs) = samples_m2 xs"
  using assms
proof (induction xs rule: rev_induct)
  case Nil
  then show ?case by simp
next
  case (snoc x xs)
  have n: "unat (of_nat (length xs) + 1 :: u64) = Suc (length xs)"
    using snoc.prems(2) by (simp add: unat_word_ariths unat_of_nat take_bit_eq_mod)
  have r: "real (unat (of_nat (length xs) + 1 :: u64)) = real (length xs) + 1"
    unfolding n by simp
  show ?case
  proof (cases "xs = []")
    case True
    then show ?thesis
      by (simp add: stats_of_def empty_RunningStats_def RunningStats_add_def Let_def samples_mean_def samples_m2_def)
  next
    case False
    then have IH: "rs_mean (stats_of (\<lambda>v. v) xs) = samples_mean xs" "rs_m2 (stats_of (\<lambda>v. v) xs) = samples_m2 xs"
      using snoc by simp_all
    have pos: "0 < real (length xs)"
      using False by simp
    note w = welford_step(1) [OF pos, where s = "sum_list xs" and x = x]
      welford_step(2) [OF pos, where s = "sum_list xs" and x = x and q = "\<Sum>x\<leftarrow>xs. x\<^sup>2"]
    show ?thesis
      using w r IH False
      by (simp add: RunningStats_add_def Let_def stats_of_n samples_m2_alt samples_mean_def add.commute)
  qed
qed

lemma stats_extremes:
  "rs_minV (stats_of rnd xs) = (if xs = [] then None else Some (Min (set xs))) \<and>
   rs_maxV (stats_of rnd xs) = (if xs = [] then None else Some (Max (set xs)))"
proof (induction xs rule: rev_induct)
  case Nil
  then show ?case by (simp add: empty_RunningStats_def)
next
  case (snoc x xs)
  have mm: "min x v = (if x < v then x else v)" "max x v = (if x > v then x else v)" for v :: real
    by (auto simp: min_def max_def)
  show ?case
  proof (cases "xs = []")
    case True
    then show ?thesis
      by (simp add: stats_of_def empty_RunningStats_def RunningStats_add_def Let_def)
  next
    case False
    then have "Min (set (xs @ [x])) = min x (Min (set xs))" "Max (set (xs @ [x])) = max x (Max (set xs))"
      by simp_all
    then show ?thesis
      using snoc False unfolding mm by (simp add: RunningStats_add_def Let_def)
  qed
qed

section \<open>The fill-rate window\<close>

definition outcome :: "bool \<Rightarrow> u8" where
  "outcome b = (if b then 1 else 0)"

definition hits :: "bool list \<Rightarrow> nat" where
  "hits bs = length (filter id bs)"

text \<open>
  The ring read from the head on is the padding of the slots never written followed by the last
  outcomes, oldest first.
\<close>

definition fill_rate_rep :: "bool list \<Rightarrow> FillRateTracker \<Rightarrow> bool" where
  "fill_rate_rep bs t \<longleftrightarrow>
     (let w = unat (fr_window t); c = min (length bs) w
      in 0 < w \<and> length (fr_ring t) = w \<and> unat (fr_head t) < w \<and> unat (fr_count t) = c \<and>
         rotate (unat (fr_head t)) (fr_ring t) =
           replicate (w - c) 0 @ map outcome (drop (length bs - c) bs) \<and>
         unat (fr_windowFilled t) = hits (drop (length bs - c) bs) \<and>
         fr_totalOrders t = of_nat (length bs) \<and> fr_totalFilled t = of_nat (hits bs))"

lemma fill_rate_new: "w \<noteq> 0 \<Longrightarrow> fill_rate_rep [] (FillRateTracker_new w)"
  by (simp add: fill_rate_rep_def FillRateTracker_new_def Let_def hits_def unat_gt_0 rotate_drop_take)

lemma rotate_update:
  assumes "h < length xs"
  shows "rotate (Suc h) (xs[h := v]) = tl (rotate h xs) @ [v]" and "hd (rotate h xs) = xs ! h"
proof -
  have "rotate h (xs[h := v]) = v # tl (rotate h xs)"
    using assms by (simp add: rotate_drop_take drop_update_swap take_update_swap list_update_beyond
        Cons_nth_drop_Suc [symmetric])
  then show "rotate (Suc h) (xs[h := v]) = tl (rotate h xs) @ [v]"
    by (simp only: rotate_Suc) simp
  show "hd (rotate h xs) = xs ! h"
    using assms by (simp add: rotate_drop_take hd_drop_conv_nth)
qed

lemma hits_simps [simp]: "hits [] = 0" "hits (b # bs) = of_bool b + hits bs"
  "hits (bs @ cs) = hits bs + hits cs"
  by (simp_all add: hits_def)

lemma hits_le: "hits bs \<le> length bs"
  by (simp add: hits_def)

lemma unat_outcome [simp]: "unat (ucast (outcome b) :: u64) = of_bool b"
  by (simp add: outcome_def)

lemma rotate_mod: "n < length xs \<Longrightarrow> rotate (Suc n mod length xs) xs = rotate (Suc n) xs"
  by (rule rotate_conv_mod [symmetric])

lemma unat_add_below:
  fixes x y w :: u64
  assumes "unat x + unat y \<le> unat w"
  shows "unat (x + y) = unat x + unat y"
proof -
  have "unat x + unat y < 18446744073709551616"
    using assms unat_u64_less [of w] by linarith
  then show ?thesis by (rule unat_add_u64)
qed

lemma unat_ring_next:
  assumes "h < w"
  shows "unat ((h + 1) mod w :: u64) = Suc (unat h) mod unat w"
proof -
  have "unat h + unat (1 :: u64) \<le> unat w"
    using assms by (simp add: word_less_nat_alt)
  from unat_add_below [OF this] show ?thesis
    by (simp add: unat_mod)
qed

lemma fill_rate_step:
  assumes rep: "fill_rate_rep bs t"
  shows "\<exists>t'. FillRateTracker_onOrder b t = Some t' \<and> fill_rate_rep (bs @ [b]) t'"
proof -
  define w where "w = unat (fr_window t)"
  define c where "c = min (length bs) w"
  define h where "h = unat (fr_head t)"
  have r: "0 < w" "length (fr_ring t) = w" "h < w" "unat (fr_count t) = c"
      "rotate h (fr_ring t) = replicate (w - c) 0 @ map outcome (drop (length bs - c) bs)"
      "unat (fr_windowFilled t) = hits (drop (length bs - c) bs)"
      "fr_totalOrders t = of_nat (length bs)" "fr_totalFilled t = of_nat (hits bs)"
    using rep by (simp_all add: fill_rate_rep_def w_def c_def h_def Let_def)
  define v where "v = outcome b"
  define t' where "t' = t\<lparr>fr_totalOrders := fr_totalOrders t + 1,
      fr_totalFilled := (if b then fr_totalFilled t + 1 else fr_totalFilled t),
      fr_windowFilled := fr_windowFilled t - ucast (fr_ring t ! h) + ucast v,
      fr_ring := (fr_ring t)[h := v],
      fr_head := (fr_head t + 1) mod fr_window t,
      fr_count := (if fr_count t < fr_window t then fr_count t + 1 else fr_count t)\<rparr>"
  have op: "FillRateTracker_onOrder b t = Some t'"
    using r(1-3) by (auto simp: FillRateTracker_onOrder_def Let_def t'_def v_def outcome_def h_def w_def)
  define c' where "c' = min (length (bs @ [b])) w"
  have m: "min (Suc (length bs)) w = c'"
    by (simp add: c'_def)
  have hw: "fr_head t < fr_window t"
    using r(3) by (simp add: word_less_nat_alt h_def w_def)
  have head: "unat (fr_head t') = Suc h mod w"
    using unat_ring_next [OF hw] by (simp add: t'_def h_def w_def)
  have rot: "rotate (Suc h mod w) (fr_ring t') = tl (rotate h (fr_ring t)) @ [v]"
    using rotate_update(1) [of h "fr_ring t" v] rotate_mod [of h "fr_ring t'"] r(2,3) by (simp add: t'_def)
  have old: "fr_ring t ! h = hd (rotate h (fr_ring t))"
    using rotate_update(2) [of h "fr_ring t"] r(2,3) by simp
  show ?thesis
  proof (cases "length bs < w")
    case True
    then have c: "c = length bs" "c' = Suc (length bs)"
      by (simp_all add: c_def c'_def)
    have "rotate h (fr_ring t) = 0 # replicate (w - Suc c) 0 @ map outcome bs"
      using r(5) c(1) True by (simp add: Suc_diff_Suc [symmetric] del: Suc_diff_Suc)
    then have ring: "rotate (Suc h mod w) (fr_ring t') = replicate (w - c') 0 @ map outcome (bs @ [b])"
        "fr_ring t ! h = 0"
      using rot old c by (simp_all add: v_def)
    have "unat (fr_windowFilled t') = hits (bs @ [b])"
      using r(6) c(1) ring(2) hits_le [of bs] True unat_add_below [of "fr_windowFilled t" "ucast v" "fr_window t"]
      by (simp add: t'_def v_def w_def split: if_splits)
    moreover have "unat (fr_count t') = c'"
      using r(4) c True unat_add_below [of "fr_count t" 1 "fr_window t"]
      by (simp add: t'_def word_less_nat_alt w_def)
    ultimately have "fill_rate_rep (bs @ [b]) t'"
      using r head ring(1) c
      by (simp add: fill_rate_rep_def Let_def m t'_def w_def [symmetric])
    with op show ?thesis by blast
  next
    case False
    then have c: "c = w" "c' = w" and nz: "length bs - w < length bs"
      using r(1) by (simp_all add: c_def c'_def)
    let ?last = "drop (length bs - w) bs"
    obtain o1 rest where last: "?last = o1 # rest"
      using nz by (metis Cons_nth_drop_Suc)
    have drp: "drop (length (bs @ [b]) - w) (bs @ [b]) = rest @ [b]"
      using last False r(1) by (simp add: Suc_diff_le drop_Suc tl_drop [symmetric] not_less)
    have ring: "rotate (Suc h mod w) (fr_ring t') = map outcome (rest @ [b])" "fr_ring t ! h = outcome o1"
      using rot old r(5) c last by (simp_all add: v_def)
    have lr: "length rest < w"
      using arg_cong [OF last, of length] False by simp
    have "unat (fr_windowFilled t - ucast (outcome o1)) = hits rest"
      using r(6) c(1) last by (simp add: unat_sub word_le_nat_alt)
    then have "unat (fr_windowFilled t') = hits (rest @ [b])"
      using ring(2) hits_le [of rest] lr
        unat_add_below [of "fr_windowFilled t - ucast (outcome o1)" "ucast v" "fr_window t"]
      by (simp add: t'_def v_def w_def)
    moreover have "unat (fr_count t') = c'"
      using r(4) c by (simp add: t'_def word_less_nat_alt w_def)
    ultimately have "fill_rate_rep (bs @ [b]) t'"
      using r head ring(1) c drp
      by (simp add: fill_rate_rep_def Let_def m t'_def w_def [symmetric])
    with op show ?thesis by blast
  qed
qed

end
