(* ===== verification/Replay_Engine.thy ===== *)
theory Replay_Engine
  imports Market_Rules Feed_Protocol Analytics
begin

text \<open>
  \<open>include/replay/ReplayEngine.h\<close>, \<open>src/ReplayEngine.cpp\<close> and \<open>include/replay/ReplayStats.h\<close>: one
  thread applies a feed to an engine and its pool, counts what happened and, in normal mode, samples
  the book after each message.  The clock reading is a parameter.  The refinement shows that a replay
  computes the fold of the engine's specification over the valid messages of the feed.
\<close>

section \<open>State\<close>

datatype ReplayMode = NORMAL_MODE | MAX_MODE

record ReplayStats =
  rst_messages :: u64
  rst_adds :: u64
  rst_cancels :: u64
  rst_modifies :: u64
  rst_cancelMisses :: u64
  rst_invalidMessages :: u64
  rst_droppedAdds :: u64
  rst_fills :: u64
  rst_matchedVolume :: u64
  rst_elapsedSeconds :: real

definition empty_ReplayStats :: ReplayStats where
  "empty_ReplayStats = \<lparr>rst_messages = 0, rst_adds = 0, rst_cancels = 0, rst_modifies = 0,
     rst_cancelMisses = 0, rst_invalidMessages = 0, rst_droppedAdds = 0, rst_fills = 0,
     rst_matchedVolume = 0, rst_elapsedSeconds = 0\<rparr>"

definition throughputMsgsPerSec :: "(real \<Rightarrow> real) \<Rightarrow> ReplayStats \<Rightarrow> real" where
  "throughputMsgsPerSec rnd st =
     (if rst_elapsedSeconds st > 0
      then rnd (rnd (real (unat (rst_messages st))) / rst_elapsedSeconds st) else 0)"

record ReplayEngine =
  rep_engine :: MatchingEngine
  rep_pool :: OrderPool
  rep_spread :: SpreadTracker
  rep_fillRate :: FillRateTracker
  rep_queueDepth :: QueueDepthTracker
  rep_imbalance :: ImbalanceTracker
  rep_fillScratch :: "Fill list"

definition ReplayEngine_new :: "MatchingEngine \<Rightarrow> OrderPool \<Rightarrow> ReplayEngine" where
  "ReplayEngine_new e p =
     \<lparr>rep_engine = e, rep_pool = p, rep_spread = SpreadTracker_new,
      rep_fillRate = FillRateTracker_new 1000, rep_queueDepth = QueueDepthTracker_new,
      rep_imbalance = ImbalanceTracker_new, rep_fillScratch = []\<rparr>"

section \<open>Operations\<close>

text \<open>The assignments to a freshly allocated order.\<close>

definition set_order :: "FeedMessage \<Rightarrow> Order \<Rightarrow> Order" where
  "set_order m x = x\<lparr>ord_orderId := msg_orderId m, ord_symbolPacked := msg_symbolPacked m,
     ord_price := msg_price m, ord_qty := msg_qty m, ord_filledQty := 0,
     ord_side := to_Side (msg_side m), ord_type := to_OrderType (msg_orderType m)\<rparr>"

text \<open>Allocate, fill in, process; the flag tells whether the pool had a slot.\<close>

definition submit_order ::
  "FeedMessage \<Rightarrow> MatchingEngine \<Rightarrow> OrderPool \<Rightarrow> (bool \<times> MatchingEngine \<times> OrderPool) option" where
  "submit_order m e p = do {
     (ob, p1) \<leftarrow> allocate default_Order p;
     if ob = nullptr then Some (False, e, p1)
     else do {
       h \<leftarrow> modify (mem p1) ob (set_order m);
       (e1, p2) \<leftarrow> processOrder ob (msg_sequence m) e (p1\<lparr>mem := h\<rparr>);
       Some (True, e1, p2)
     }
   }"

text \<open>Draining the fills of one message and adding them to the counters.\<close>

definition drain_step :: "ReplayEngine \<Rightarrow> ReplayStats \<Rightarrow> size_t \<times> ReplayEngine \<times> ReplayStats" where
  "drain_step r st =
     (let (scratch, e) = drainFillsInto (rep_fillScratch r) (rep_engine r);
          n = of_nat (length scratch) :: size_t
      in (n, r\<lparr>rep_engine := e, rep_fillScratch := scratch\<rparr>,
          st\<lparr>rst_fills := rst_fills st + n,
             rst_matchedVolume := fold (\<lambda>f v. v + ucast (fill_qty f)) scratch (rst_matchedVolume st)\<rparr>))"

definition ReplayEngine_applyMessage ::
  "FeedMessage \<Rightarrow> ReplayEngine \<Rightarrow> ReplayStats \<Rightarrow> (size_t \<times> ReplayEngine \<times> ReplayStats) option" where
  "ReplayEngine_applyMessage m r st =
     (if \<not> isValidFeedMessage m
      then Some (0, r, st\<lparr>rst_invalidMessages := rst_invalidMessages st + 1\<rparr>)
      else
        let st1 = st\<lparr>rst_messages := rst_messages st + 1\<rparr>
        in if msg_msgType m = MSG_ADD then do {
             let st2 = st1\<lparr>rst_adds := rst_adds st1 + 1\<rparr>;
             (ok, e, p) \<leftarrow> submit_order m (rep_engine r) (rep_pool r);
             if \<not> ok
             then Some (0, r\<lparr>rep_engine := e, rep_pool := p\<rparr>, st2\<lparr>rst_droppedAdds := rst_droppedAdds st2 + 1\<rparr>)
             else Some (drain_step (r\<lparr>rep_engine := e, rep_pool := p\<rparr>) st2)
           }
           else if msg_msgType m = MSG_CANCEL then do {
             let st2 = st1\<lparr>rst_cancels := rst_cancels st1 + 1\<rparr>;
             (ok, e, p) \<leftarrow> cancelOrder (msg_orderId m) (rep_engine r) (rep_pool r);
             let st3 = (if \<not> ok then st2\<lparr>rst_cancelMisses := rst_cancelMisses st2 + 1\<rparr> else st2);
             Some (drain_step (r\<lparr>rep_engine := e, rep_pool := p\<rparr>) st3)
           }
           else if msg_msgType m = MSG_MODIFY then do {
             let st2 = st1\<lparr>rst_modifies := rst_modifies st1 + 1\<rparr>;
             (ok, e, p) \<leftarrow> modifyOrder (msg_orderId m) (msg_price m) (msg_qty m) (msg_sequence m)
                            (rep_engine r) (rep_pool r);
             let st3 = (if \<not> ok then st2\<lparr>rst_cancelMisses := rst_cancelMisses st2 + 1\<rparr> else st2);
             Some (drain_step (r\<lparr>rep_engine := e, rep_pool := p\<rparr>) st3)
           }
           else Some (drain_step r st1))"

text \<open>The body of the sampling loop after \<open>applyMessage\<close>.\<close>

definition sample_book :: "(real \<Rightarrow> real) \<Rightarrow> FeedMessage \<Rightarrow> size_t \<Rightarrow> ReplayEngine \<Rightarrow> ReplayEngine option" where
  "sample_book rnd m fills r =
     (let book = m_book (rep_engine r);
          r1 = r\<lparr>rep_spread := SpreadTracker_update rnd book (rep_spread r),
                 rep_queueDepth := QueueDepthTracker_update rnd book (rep_queueDepth r),
                 rep_imbalance := ImbalanceTracker_update rnd book (rep_imbalance r)\<rparr>
      in if msg_msgType m = MSG_ADD
         then do { fr \<leftarrow> FillRateTracker_onOrder (fills > 0) (rep_fillRate r1);
                   Some (r1\<lparr>rep_fillRate := fr\<rparr>) }
         else Some r1)"

fun run_max :: "FeedMessage list \<Rightarrow> ReplayEngine \<Rightarrow> ReplayStats \<Rightarrow> (ReplayEngine \<times> ReplayStats) option" where
  "run_max [] r st = Some (r, st)"
| "run_max (m # ms) r st = do {
     (_, r1, st1) \<leftarrow> ReplayEngine_applyMessage m r st;
     run_max ms r1 st1
   }"

fun run_normal ::
  "(real \<Rightarrow> real) \<Rightarrow> FeedMessage list \<Rightarrow> ReplayEngine \<Rightarrow> ReplayStats \<Rightarrow> (ReplayEngine \<times> ReplayStats) option" where
  "run_normal rnd [] r st = Some (r, st)"
| "run_normal rnd (m # ms) r st = do {
     (fills, r1, st1) \<leftarrow> ReplayEngine_applyMessage m r st;
     r2 \<leftarrow> sample_book rnd m fills r1;
     run_normal rnd ms r2 st1
   }"

text \<open>\<open>elapsed\<close> is the difference of the two clock readings in seconds.\<close>

definition ReplayEngine_run ::
  "(real \<Rightarrow> real) \<Rightarrow> real \<Rightarrow> FeedMessage list \<Rightarrow> ReplayMode \<Rightarrow> nat \<Rightarrow> ReplayEngine \<Rightarrow>
   (ReplayStats \<times> ReplayEngine) option" where
  "ReplayEngine_run rnd elapsed feed mode warmup r =
     (case mode of
        MAX_MODE \<Rightarrow> do {
          (r1, st1) \<leftarrow> run_max (take warmup feed) r empty_ReplayStats;
          (r2, st2) \<leftarrow> run_max (drop warmup feed) r1 st1;
          Some (st2\<lparr>rst_elapsedSeconds := elapsed\<rparr>, r2)
        }
      | NORMAL_MODE \<Rightarrow> do {
          (r1, st1) \<leftarrow> run_normal rnd feed r empty_ReplayStats;
          Some (st1\<lparr>rst_elapsedSeconds := elapsed\<rparr>, r1)
        })"

section \<open>Specification of a replay\<close>

definition order_of :: "FeedMessage \<Rightarrow> Order" where
  "order_of m = set_order m default_Order"

definition book_size :: "spec_book \<Rightarrow> nat" where
  "book_size B = length (B BUY) + length (B SELL)"

definition spec_apply :: "nat \<Rightarrow> FeedMessage \<Rightarrow> spec_book \<Rightarrow> Fill list \<times> spec_book" where
  "spec_apply cap m B =
     (if \<not> isValidFeedMessage m then ([], B)
      else if msg_msgType m = MSG_ADD then
        (if book_size B < cap then spec_process (msg_sequence m) (order_of m) B else ([], B))
      else if msg_msgType m = MSG_CANCEL then ([], snd (spec_cancel (msg_orderId m) B))
      else snd (spec_modify (msg_orderId m) (msg_price m) (msg_qty m) (msg_sequence m) B))"

fun spec_replay :: "nat \<Rightarrow> FeedMessage list \<Rightarrow> spec_book \<Rightarrow> Fill list \<times> spec_book" where
  "spec_replay cap [] B = ([], B)"
| "spec_replay cap (m # ms) B =
     (let (fs, B1) = spec_apply cap m B; (gs, B2) = spec_replay cap ms B1 in (fs @ gs, B2))"

text \<open>What a replay counts of a message.\<close>

datatype verdict = Invalid | Dropped | Added | Cancelled | CancelMissed | Modified | ModifyMissed

definition spec_verdict :: "nat \<Rightarrow> FeedMessage \<Rightarrow> spec_book \<Rightarrow> verdict" where
  "spec_verdict cap m B =
     (if \<not> isValidFeedMessage m then Invalid
      else if msg_msgType m = MSG_ADD then (if book_size B < cap then Added else Dropped)
      else if msg_msgType m = MSG_CANCEL then (if fst (spec_cancel (msg_orderId m) B) then Cancelled else CancelMissed)
      else if fst (spec_modify (msg_orderId m) (msg_price m) (msg_qty m) (msg_sequence m) B) then Modified
      else ModifyMissed)"

fun spec_verdicts :: "nat \<Rightarrow> FeedMessage list \<Rightarrow> spec_book \<Rightarrow> verdict list" where
  "spec_verdicts cap [] B = []"
| "spec_verdicts cap (m # ms) B = spec_verdict cap m B # spec_verdicts cap ms (snd (spec_apply cap m B))"

text \<open>The messages that submit an order.\<close>

definition valid_adds :: "FeedMessage list \<Rightarrow> FeedMessage list" where
  "valid_adds ms = filter (\<lambda>m. isValidFeedMessage m \<and> msg_msgType m = MSG_ADD) ms"

section \<open>Refinement\<close>

definition replay_ok :: "ReplayEngine \<Rightarrow> bool" where
  "replay_ok r \<longleftrightarrow> engine_ok (rep_engine r) (rep_pool r) \<and>
     live (mem (rep_pool r)) = resting (rep_engine r) \<and> m_fills (rep_engine r) = []"

definition replay_book :: "ReplayEngine \<Rightarrow> spec_book" where
  "replay_book r = book_of (rep_engine r) (rep_pool r)"

definition replay_cap :: "ReplayEngine \<Rightarrow> nat" where
  "replay_cap r = unat (m_capacity (rep_pool r))"

lemma engine_drained [simp]:
  "engine_ok (e\<lparr>m_fills := fs\<rparr>) p = engine_ok e p" "book_of (e\<lparr>m_fills := fs\<rparr>) p = book_of e p"
  "resting (e\<lparr>m_fills := fs\<rparr>) = resting e"
  by (simp_all add: engine_ok_def sys_rep_def book_of_def resting_def)

lemma resting_card:
  assumes "engine_ok e p"
  shows "card (resting e) = book_size (book_of e p)"
proof -
  obtain G where G: "sys_rep e p G"
    using assms by (auto simp: engine_ok_def)
  have "distinct (book_addrs G)"
    using sys_rep_simps(1) [OF G] by (simp add: book_rep_def)
  then have "card (set (book_addrs G)) = length (book_addrs G)"
    by (rule distinct_card)
  then show ?thesis
    by (simp add: resting_spec [OF G] book_of_spec [OF G] book_size_def spec_of_def queue_def book_addrs_def)
qed

lemma valid_add:
  assumes "isValidFeedMessage m" and "msg_msgType m = MSG_ADD"
  shows "ord_type (order_of m) = LIMIT \<longrightarrow> ord_price (order_of m) \<noteq> 0" and "\<not> isFilled (order_of m)"
  using assms
  by (auto simp: isValidFeedMessage_def order_of_def set_order_def to_OrderType_def isFilled_def
      split: if_splits)

lemma strip_order_of [simp]: "strip (order_of m) = order_of m"
  by (simp add: strip_def order_of_def set_order_def default_Order_def)

text \<open>Submitting an order to an engine, with the other objects of the pool left alone.\<close>

lemma submit_order_full:
  assumes "engine_ok e p" and "card (live (mem p)) = unat (m_capacity p)"
  shows "submit_order m e p = Some (False, e, p)"
  using slab.alloc_full [OF engine.ok_pool [OF assms(1)] assms(2)] by (simp add: submit_order_def)

lemma submit_order_room:
  assumes ok: "engine_ok e p" and room: "card (live (mem p)) < unat (m_capacity p)"
    and v: "isValidFeedMessage m" "msg_msgType m = MSG_ADD"
  shows "\<exists>a e' p' fs. submit_order m e p = Some (True, e', p') \<and> engine_ok e' p' \<and>
           unat (m_capacity p') = unat (m_capacity p) \<and> a \<notin> live (mem p) \<and>
           heap_frame {a} {} (mem p) (resting e) (mem p') (resting e') \<and> m_fills e' = m_fills e @ fs \<and>
           spec_process (msg_sequence m) (order_of m) (book_of e p) = (fs, book_of e' p')"
proof -
  obtain a p1 e' p' fs where a: "allocate default_Order p = Some (Some a, p1)"
      "a \<in> live (mem p1)"
      "processOrder (Some a) (msg_sequence m) e (p1\<lparr>mem := (mem p1)(a \<mapsto> Live (order_of m))\<rparr>) = Some (e', p')"
      "engine_ok e' p'" "unat (m_capacity p') = unat (m_capacity p)" "a \<notin> live (mem p)"
      "heap_frame {a} {} (mem p) (resting e) (mem p') (resting e')" "m_fills e' = m_fills e @ fs"
      "spec_process (msg_sequence m) (order_of m) (book_of e p) = (fs, book_of e' p')"
    using engine.admit [OF ok valid_add(1) [OF v] room, of default_Order "msg_sequence m"] by auto
  obtain b p2 where "allocate default_Order p = Some (Some b, p2)" "mem p2 = (mem p)(b \<mapsto> Live default_Order)"
    using slab.alloc_room [OF engine.ok_pool [OF ok] room, of default_Order] by blast
  then have "obj (mem p1) a = default_Order"
    using a(1) by simp
  then have "modify (mem p1) (Some a) (set_order m) = Some ((mem p1)(a \<mapsto> Live (order_of m)))"
    using a(2) by (simp add: modify_live order_of_def)
  then show ?thesis
    using a by (auto simp: submit_order_def)
qed

definition volume :: "Fill list \<Rightarrow> u64" where
  "volume fs = of_nat (traded_qty fs)"

lemma fold_volume: "fold (\<lambda>f v. v + ucast (fill_qty f)) fs w = w + volume fs"
  by (induction fs arbitrary: w) (simp_all add: volume_def add.assoc)

text \<open>The counters, as tallies of the verdicts.\<close>

definition tally :: "verdict set \<Rightarrow> verdict list \<Rightarrow> u64" where
  "tally A vs = of_nat (length (filter (\<lambda>v. v \<in> A) vs))"

lemma tally_simps [simp]:
  "tally A [] = 0" "tally A (v # vs) = of_bool (v \<in> A) + tally A vs" "tally A (vs @ ws) = tally A vs + tally A ws"
  by (simp_all add: tally_def)

definition counted :: "verdict list \<Rightarrow> ReplayStats \<Rightarrow> ReplayStats \<Rightarrow> bool" where
  "counted vs st st' \<longleftrightarrow>
     rst_messages st' = rst_messages st + tally (- {Invalid}) vs \<and>
     rst_adds st' = rst_adds st + tally {Added, Dropped} vs \<and>
     rst_cancels st' = rst_cancels st + tally {Cancelled, CancelMissed} vs \<and>
     rst_modifies st' = rst_modifies st + tally {Modified, ModifyMissed} vs \<and>
     rst_cancelMisses st' = rst_cancelMisses st + tally {CancelMissed, ModifyMissed} vs \<and>
     rst_invalidMessages st' = rst_invalidMessages st + tally {Invalid} vs \<and>
     rst_droppedAdds st' = rst_droppedAdds st + tally {Dropped} vs"

lemma counted_append: "counted vs st st1 \<Longrightarrow> counted ws st1 st2 \<Longrightarrow> counted (vs @ ws) st st2"
  by (simp add: counted_def add.assoc)

text \<open>What one message does, and the counters it moves.\<close>

definition step_post ::
  "FeedMessage \<Rightarrow> Fill list \<Rightarrow> size_t \<Rightarrow> ReplayEngine \<Rightarrow> ReplayStats \<Rightarrow> ReplayEngine \<Rightarrow> ReplayStats \<Rightarrow> bool" where
  "step_post m fs n r st r' st' \<longleftrightarrow>
     replay_ok r' \<and> replay_cap r' = replay_cap r \<and> n = of_nat (length fs) \<and>
     spec_apply (replay_cap r) m (replay_book r) = (fs, replay_book r') \<and>
     (fs \<noteq> [] \<longrightarrow> rep_fillScratch r' = fs) \<and> rep_fillRate r' = rep_fillRate r \<and>
     rst_fills st' = rst_fills st + of_nat (length fs) \<and>
     rst_matchedVolume st' = rst_matchedVolume st + volume fs \<and>
     counted [spec_verdict (replay_cap r) m (replay_book r)] st st'"

lemma drain_step_eq:
  "m_fills (rep_engine r) = fs \<Longrightarrow>
   drain_step r st = (of_nat (length fs), r\<lparr>rep_engine := (rep_engine r)\<lparr>m_fills := []\<rparr>, rep_fillScratch := fs\<rparr>,
     st\<lparr>rst_fills := rst_fills st + of_nat (length fs), rst_matchedVolume := rst_matchedVolume st + volume fs\<rparr>)"
  by (simp add: drain_step_def drainFillsInto_def fold_volume Let_def)

lemma live_kept:
  assumes "heap_frame A {} (mem p) (resting e) (mem p') (resting e')" and "live (mem p) = resting e"
    and "engine_ok e' p'"
  shows "live (mem p') = resting e'"
  using assms(1,2) engine.ok_owned [OF assms(3)] by (auto simp: heap_frame_def)

lemmas apply_simps = ReplayEngine_applyMessage_def step_post_def spec_apply_def spec_verdict_def counted_def
  replay_cap_def replay_ok_def replay_book_def Let_def

definition applies :: "FeedMessage \<Rightarrow> ReplayEngine \<Rightarrow> ReplayStats \<Rightarrow> bool" where
  "applies m r st \<longleftrightarrow>
     (\<exists>n r' st' fs. ReplayEngine_applyMessage m r st = Some (n, r', st') \<and> step_post m fs n r st r' st')"

lemma apply_add:
  assumes ok: "replay_ok r" and m: "isValidFeedMessage m" "msg_msgType m = MSG_ADD"
  shows "applies m r st"
proof -
  let ?e = "rep_engine r" and ?p = "rep_pool r"
  have e: "engine_ok ?e ?p" "live (mem ?p) = resting ?e" "m_fills ?e = []"
    using ok by (simp_all add: replay_ok_def)
  have sz: "card (live (mem ?p)) = book_size (book_of ?e ?p)"
    using resting_card [OF e(1)] e(2) by simp
  have le: "card (live (mem ?p)) \<le> unat (m_capacity ?p)"
    using slab.live_le [OF engine.ok_pool [OF e(1)]] .
  show ?thesis
  proof (cases "card (live (mem ?p)) < unat (m_capacity ?p)")
    case False
    then have "submit_order m ?e ?p = Some (False, ?e, ?p)"
      using le by (intro submit_order_full [OF e(1)]) simp
    then show ?thesis
      using False m sz e by (simp add: applies_def apply_simps volume_def)
  next
    case True
    obtain a e' p' fs where s: "submit_order m ?e ?p = Some (True, e', p')" "engine_ok e' p'"
        "unat (m_capacity p') = unat (m_capacity ?p)" "a \<notin> live (mem ?p)"
        "heap_frame {a} {} (mem ?p) (resting ?e) (mem p') (resting e')" "m_fills e' = fs"
        "spec_process (msg_sequence m) (order_of m) (book_of ?e ?p) = (fs, book_of e' p')"
      using submit_order_room [OF e(1) True m] e(3) by auto
    have "live (mem p') = resting e'"
      using s(5) e(2) s(2) by (rule live_kept)
    then show ?thesis
      using True m sz s by (simp add: applies_def apply_simps drain_step_eq)
  qed
qed

lemma apply_cancel:
  assumes ok: "replay_ok r" and m: "isValidFeedMessage m" "msg_msgType m = MSG_CANCEL"
  shows "applies m r st"
proof -
  let ?e = "rep_engine r" and ?p = "rep_pool r"
  have e: "engine_ok ?e ?p" "live (mem ?p) = resting ?e" "m_fills ?e = []"
    using ok by (simp_all add: replay_ok_def)
  obtain b e' p' where s: "cancelOrder (msg_orderId m) ?e ?p = Some (b, e', p')" "engine_ok e' p'"
      "unat (m_capacity p') = unat (m_capacity ?p)"
      "heap_frame {} {} (mem ?p) (resting ?e) (mem p') (resting e')" "m_fills e' = []"
      "spec_cancel (msg_orderId m) (book_of ?e ?p) = (b, book_of e' p')"
    using engine.cancel_law [OF e(1), where k = "msg_orderId m"] e(3) by auto
  have "live (mem p') = resting e'"
    using s(4) e(2) s(2) by (rule live_kept)
  then show ?thesis
    using m s by (simp add: applies_def apply_simps drain_step_eq volume_def)
qed

lemma apply_modify:
  assumes ok: "replay_ok r" and m: "isValidFeedMessage m" "msg_msgType m = MSG_MODIFY" "msg_price m \<noteq> 0"
  shows "applies m r st"
proof -
  let ?e = "rep_engine r" and ?p = "rep_pool r"
  have e: "engine_ok ?e ?p" "live (mem ?p) = resting ?e" "m_fills ?e = []"
    using ok by (simp_all add: replay_ok_def)
  obtain b e' p' fs where s: "modifyOrder (msg_orderId m) (msg_price m) (msg_qty m) (msg_sequence m) ?e ?p = Some (b, e', p')"
      "engine_ok e' p'" "unat (m_capacity p') = unat (m_capacity ?p)"
      "heap_frame {} {} (mem ?p) (resting ?e) (mem p') (resting e')" "m_fills e' = fs"
      "spec_modify (msg_orderId m) (msg_price m) (msg_qty m) (msg_sequence m) (book_of ?e ?p) = (b, fs, book_of e' p')"
    using engine.amend_law [OF e(1) m(3), where k = "msg_orderId m" and q = "msg_qty m" and ts = "msg_sequence m"] e(3) by auto
  have "live (mem p') = resting e'"
    using s(4) e(2) s(2) by (rule live_kept)
  then show ?thesis
    using m s by (simp add: applies_def apply_simps drain_step_eq volume_def)
qed

lemma applyMessage_rep:
  assumes ok: "replay_ok r"
  shows "\<exists>n r' st' fs. ReplayEngine_applyMessage m r st = Some (n, r', st') \<and> step_post m fs n r st r' st'"
proof -
  have "applies m r st" if "\<not> isValidFeedMessage m"
    using that ok by (simp add: applies_def apply_simps volume_def)
  then have "applies m r st"
    using valid_cases [of m] apply_add [OF ok] apply_cancel [OF ok] apply_modify [OF ok] by blast
  then show ?thesis
    by (simp add: applies_def)
qed

section \<open>Whole runs\<close>

text \<open>The fills that pass through the scratch buffer during a run, in order.\<close>

fun replay_fills :: "FeedMessage list \<Rightarrow> ReplayEngine \<Rightarrow> ReplayStats \<Rightarrow> Fill list option" where
  "replay_fills [] r st = Some []"
| "replay_fills (m # ms) r st = do {
     (n, r1, st1) \<leftarrow> ReplayEngine_applyMessage m r st;
     fs \<leftarrow> replay_fills ms r1 st1;
     Some (take (unat n) (rep_fillScratch r1) @ fs)
   }"

lemma spec_match_length: "spec_match ts rp i q = (i', fs, q') \<Longrightarrow> length fs \<le> length q"
  using spec_match_priority(1) [of ts rp i q i' fs q'] by (metis length_map length_take min.absorb_iff2 min.commute nle_le)

lemma spec_process_length:
  assumes "spec_process ts x B = (fs, B')"
  shows "length fs \<le> book_size B"
proof (cases "spec_contains (ord_orderId x) B")
  case True
  then show ?thesis
    using assms by (simp add: spec_process_def)
next
  case False
  obtain x1 gs q where m: "spec_match ts (ord_type x \<noteq> MARKET) x (B (opposite (ord_side x))) = (x1, gs, q)"
    by (cases "spec_match ts (ord_type x \<noteq> MARKET) x (B (opposite (ord_side x)))") auto
  have "fs = gs"
    using assms spec_process_split [OF False m] by simp
  then show ?thesis
    using spec_match_length [OF m] by (cases "ord_side x") (auto simp: book_size_def)
qed

lemma book_size_cancel: "book_size (snd (spec_cancel i B)) \<le> book_size B"
  by (simp add: book_size_def spec_cancel_def add_mono)

lemma spec_apply_length:
  assumes "spec_apply cap m B = (fs, B')"
  shows "length fs \<le> book_size B"
proof -
  have "length fs \<le> book_size B" if "spec_modify i pr q ts B = (ok, fs, B')" for i pr q ts ok
  proof (cases "spec_find i B")
    case None
    then show ?thesis
      using that by (simp add: spec_modify_def)
  next
    case (Some x)
    then show ?thesis
      using that spec_process_length book_size_cancel [of i B]
      by (fastforce simp: spec_modify_def split: prod.splits intro: order_trans)
  qed
  then show ?thesis
    using assms spec_process_length
    by (auto simp: spec_apply_def prod_eq_iff split: if_splits)
qed

lemma replay_book_size: "replay_ok r \<Longrightarrow> book_size (replay_book r) < 4294967296"
proof -
  assume "replay_ok r"
  then have e: "engine_ok (rep_engine r) (rep_pool r)" "live (mem (rep_pool r)) = resting (rep_engine r)"
    by (simp_all add: replay_ok_def)
  have "book_size (replay_book r) \<le> unat (m_capacity (rep_pool r))"
    using resting_card [OF e(1)] slab.live_le [OF engine.ok_pool [OF e(1)]] e(2) by (simp add: replay_book_def)
  also have "\<dots> \<le> 4294967295"
    using e(1) by (auto simp: engine_ok_def sys_rep_def)
  finally show ?thesis by simp
qed

lemma step_post_count:
  assumes "step_post m fs n r st r' st'" and "replay_ok r"
  shows "unat n = length fs" and "take (unat n) (rep_fillScratch r') = fs" and "n > 0 \<longleftrightarrow> fs \<noteq> []"
proof -
  have "length fs < 18446744073709551616"
    using spec_apply_length replay_book_size [OF assms(2)] assms(1) by (fastforce simp: step_post_def)
  then show n: "unat n = length fs"
    using assms(1) by (simp add: step_post_def unat_of_nat take_bit_eq_mod)
  show "take (unat n) (rep_fillScratch r') = fs"
    using n assms(1) by (cases "fs = []") (simp_all add: step_post_def)
  show "n > 0 \<longleftrightarrow> fs \<noteq> []"
    using n by (metis length_0_conv unat_eq_zero word_neq_0_conv)
qed

definition run_post ::
  "FeedMessage list \<Rightarrow> Fill list \<Rightarrow> ReplayEngine \<Rightarrow> ReplayStats \<Rightarrow> ReplayEngine \<Rightarrow> ReplayStats \<Rightarrow> bool" where
  "run_post ms fs r st r' st' \<longleftrightarrow>
     replay_ok r' \<and> replay_cap r' = replay_cap r \<and>
     spec_replay (replay_cap r) ms (replay_book r) = (fs, replay_book r') \<and>
     rst_fills st' = rst_fills st + of_nat (length fs) \<and>
     rst_matchedVolume st' = rst_matchedVolume st + volume fs \<and>
     counted (spec_verdicts (replay_cap r) ms (replay_book r)) st st'"

lemma volume_append: "volume (fs @ gs) = volume fs + volume gs"
  by (simp add: volume_def)

lemma run_post_Nil: "replay_ok r \<Longrightarrow> run_post [] [] r st r st"
  by (simp add: run_post_def volume_def counted_def)

lemma run_post_Cons:
  assumes "step_post m fs n r st r1 st1" and "run_post ms gs r1 st1 r2 st2"
  shows "run_post (m # ms) (fs @ gs) r st r2 st2"
  using assms counted_append [of "[spec_verdict (replay_cap r) m (replay_book r)]"]
  by (simp add: step_post_def run_post_def volume_append ac_simps) metis

lemma replay_ok_trackers [simp]:
  "replay_ok (r\<lparr>rep_spread := a, rep_queueDepth := b, rep_imbalance := c\<rparr>) = replay_ok r"
  "replay_ok (r\<lparr>rep_fillRate := d\<rparr>) = replay_ok r"
  by (simp_all add: replay_ok_def)

lemma run_max_rep:
  assumes "replay_ok r"
  shows "\<exists>r' st' fs. run_max ms r st = Some (r', st') \<and> replay_fills ms r st = Some fs \<and> run_post ms fs r st r' st'"
  using assms
proof (induction ms arbitrary: r st)
  case Nil
  then show ?case
    using run_post_Nil by simp
next
  case (Cons m ms)
  obtain n r1 st1 fs where a: "ReplayEngine_applyMessage m r st = Some (n, r1, st1)" "step_post m fs n r st r1 st1"
    using applyMessage_rep [OF Cons.prems] by blast
  then have "replay_ok r1"
    by (simp add: step_post_def)
  then obtain r2 st2 gs where b: "run_max ms r1 st1 = Some (r2, st2)" "replay_fills ms r1 st1 = Some gs"
      "run_post ms gs r1 st1 r2 st2"
    using Cons.IH by blast
  show ?case
    using a b run_post_Cons [OF a(2) b(3)] step_post_count(2) [OF a(2) Cons.prems] by simp
qed

text \<open>The outcomes the fill-rate tracker sees: one per message of type ADD, valid or not.\<close>

fun spec_outcomes :: "nat \<Rightarrow> FeedMessage list \<Rightarrow> spec_book \<Rightarrow> bool list" where
  "spec_outcomes cap [] B = []"
| "spec_outcomes cap (m # ms) B =
     (let (fs, B1) = spec_apply cap m B
      in (if msg_msgType m = MSG_ADD then [fs \<noteq> []] else []) @ spec_outcomes cap ms B1)"

lemma sample_book_rep:
  assumes "fill_rate_rep bs (rep_fillRate r)"
  shows "\<exists>r'. sample_book rnd m n r = Some r' \<and> rep_engine r' = rep_engine r \<and> rep_pool r' = rep_pool r \<and>
           fill_rate_rep (bs @ (if msg_msgType m = MSG_ADD then [n > 0] else [])) (rep_fillRate r')"
  using fill_rate_step [OF assms, of "n > 0"] assms by (auto simp: sample_book_def Let_def)

lemma run_normal_rep:
  assumes "replay_ok r" and "fill_rate_rep bs (rep_fillRate r)"
  shows "\<exists>r' st' fs. run_normal rnd ms r st = Some (r', st') \<and> run_post ms fs r st r' st' \<and>
           fill_rate_rep (bs @ spec_outcomes (replay_cap r) ms (replay_book r)) (rep_fillRate r')"
  using assms
proof (induction ms arbitrary: r st bs)
  case Nil
  then show ?case
    using run_post_Nil by auto
next
  case (Cons m ms)
  obtain n r1 st1 fs where a: "ReplayEngine_applyMessage m r st = Some (n, r1, st1)" "step_post m fs n r st r1 st1"
    using applyMessage_rep [OF Cons.prems(1)] by blast
  let ?bs = "bs @ (if msg_msgType m = MSG_ADD then [n > 0] else [])"
  have "fill_rate_rep bs (rep_fillRate r1)"
    using a(2) Cons.prems(2) by (simp add: step_post_def)
  then obtain r2 where s: "sample_book rnd m n r1 = Some r2" "rep_engine r2 = rep_engine r1" "rep_pool r2 = rep_pool r1"
      "fill_rate_rep ?bs (rep_fillRate r2)"
    using sample_book_rep by blast
  have same: "replay_ok r2 = replay_ok r1" "replay_cap r2 = replay_cap r1" "replay_book r2 = replay_book r1"
    using s(2,3) by (simp_all add: replay_ok_def replay_cap_def replay_book_def)
  have "replay_ok r2"
    using a(2) same(1) by (simp add: step_post_def)
  then obtain r3 st3 gs where b: "run_normal rnd ms r2 st1 = Some (r3, st3)" "run_post ms gs r2 st1 r3 st3"
      "fill_rate_rep (?bs @ spec_outcomes (replay_cap r2) ms (replay_book r2)) (rep_fillRate r3)"
    using Cons.IH [OF _ s(4)] by blast
  have "run_post ms gs r1 st1 r3 st3"
    using b(2) same by (simp add: run_post_def)
  from run_post_Cons [OF a(2) this] have "run_post (m # ms) (fs @ gs) r st r3 st3" .
  moreover have "?bs @ spec_outcomes (replay_cap r2) ms (replay_book r2) =
      bs @ spec_outcomes (replay_cap r) (m # ms) (replay_book r)"
    using a(2) step_post_count(3) [OF a(2) Cons.prems(1)] same by (simp add: step_post_def)
  ultimately show ?case
    using a(1) s(1) b(1,3) by auto
qed

text \<open>A run in either mode.\<close>

lemma run_post_append:
  assumes "run_post ms fs r st r1 st1" and "run_post ns gs r1 st1 r2 st2"
  shows "run_post (ms @ ns) (fs @ gs) r st r2 st2"
proof -
  have "spec_replay c (ms @ ns) B = (case spec_replay c ms B of (fs, B1) \<Rightarrow>
      case spec_replay c ns B1 of (gs, B2) \<Rightarrow> (fs @ gs, B2))" for c B
    by (induction ms arbitrary: B) (auto split: prod.splits)
  moreover have "spec_verdicts c (ms @ ns) B = spec_verdicts c ms B @ spec_verdicts c ns (snd (spec_replay c ms B))" for c B
    by (induction ms arbitrary: B) (auto split: prod.splits)
  ultimately show ?thesis
    using assms counted_append by (simp add: run_post_def volume_append ac_simps) blast
qed

lemma run_post_elapsed [simp]:
  "run_post ms fs r st r' (st'\<lparr>rst_elapsedSeconds := t\<rparr>) = run_post ms fs r st r' st'"
  by (simp add: run_post_def counted_def)

lemma ReplayEngine_run_rep:
  assumes "replay_ok r" and "fill_rate_rep bs (rep_fillRate r)"
  shows "\<exists>st r' fs. ReplayEngine_run rnd elapsed feed mode warmup r = Some (st, r') \<and>
           run_post feed fs r empty_ReplayStats r' st \<and>
           (mode = NORMAL_MODE \<longrightarrow>
              fill_rate_rep (bs @ spec_outcomes (replay_cap r) feed (replay_book r)) (rep_fillRate r'))"
proof (cases mode)
  case NORMAL_MODE
  then show ?thesis
    using run_normal_rep [OF assms, of rnd feed empty_ReplayStats] by (auto simp: ReplayEngine_run_def)
next
  case MAX_MODE
  obtain r1 st1 fs where a: "run_max (take warmup feed) r empty_ReplayStats = Some (r1, st1)"
      "run_post (take warmup feed) fs r empty_ReplayStats r1 st1"
    using run_max_rep [OF assms(1)] by blast
  then have "replay_ok r1"
    by (simp add: run_post_def)
  then obtain r2 st2 gs where b: "run_max (drop warmup feed) r1 st1 = Some (r2, st2)"
      "run_post (drop warmup feed) gs r1 st1 r2 st2"
    using run_max_rep by blast
  have "run_post feed (fs @ gs) r empty_ReplayStats r2 st2"
    using run_post_append [OF a(2) b(2)] by simp
  then show ?thesis
    using MAX_MODE a(1) b(1) by (auto simp: ReplayEngine_run_def)
qed

lemma replay_ok_new:
  assumes "pool_inv p" and "unat (m_capacity p) \<le> 4294967295" and "live (mem p) = {}"
  shows "replay_ok (ReplayEngine_new MatchingEngine_new p)"
    and "replay_book (ReplayEngine_new MatchingEngine_new p) = (\<lambda>_. [])"
    and "fill_rate_rep [] (rep_fillRate (ReplayEngine_new MatchingEngine_new p))"
  using engine_ok_new [OF assms(1,2)] assms(3) fill_rate_new [of 1000]
  by (simp_all add: replay_ok_def replay_book_def ReplayEngine_new_def MatchingEngine_new_def)

end
