(* ===== verification/Sample_States.thy ===== *)
theory Sample_States
  imports Replay_Engine
begin

text \<open>
  Concrete states on which the properties are instantiated: a pool of four slots, an engine that has
  replayed a short feed and holds resting orders on both sides, and a further order that has been
  allocated but not yet processed.
\<close>

definition sample_os :: os_mem where
  "sample_os = \<lparr>mmap_huge = None, mmap_plain = Some 4096, operator_new = None\<rparr>"

definition sample_pool :: OrderPool where
  "sample_pool = projr (SlabPool_new sizeof_Order sample_os 4 False)"

definition sample_feed :: "FeedMessage list" where
  "sample_feed = [makeAdd 1 11 BUY LIMIT 100 5 7, makeAdd 2 12 SELL LIMIT 103 4 7,
     makeAdd 3 13 SELL LIMIT 103 6 7]"

definition sample_replay :: ReplayEngine where
  "sample_replay = fst (the (run_max sample_feed (ReplayEngine_new MatchingEngine_new sample_pool) empty_ReplayStats))"

abbreviation (input) sample_engine :: MatchingEngine where
  "sample_engine \<equiv> rep_engine sample_replay"

definition sample_taker :: Order where
  "sample_taker = order_of (makeAdd 4 14 BUY LIMIT 104 7 7)"

definition sample_pending :: "ptr \<times> OrderPool" where
  "sample_pending = the (allocate sample_taker (rep_pool sample_replay))"

lemma sample_pool_ok: "pool_inv sample_pool" "live (mem sample_pool) = {}" "m_capacity sample_pool = 4"
proof -
  obtain p :: OrderPool and fl where "SlabPool_new sizeof_Order sample_os 4 False = Inr p" "pool_rep p fl"
      "live (mem p) = {}" "m_capacity p = 4"
    using SlabPool_new_rep [of sample_os False sizeof_Order 4]
    by (auto simp: sample_os_def storage_granted_def sizeof_Order_def)
  then show "pool_inv sample_pool" "live (mem sample_pool) = {}" "m_capacity sample_pool = 4"
    by (auto simp: sample_pool_def pool_inv_def)
qed

lemma sample_new_ok:
  "replay_ok (ReplayEngine_new MatchingEngine_new sample_pool)"
  "fill_rate_rep [] (rep_fillRate (ReplayEngine_new MatchingEngine_new sample_pool))"
  using replay_ok_new [of sample_pool] sample_pool_ok by simp_all

lemma sample_replay_ok:
  "replay_ok sample_replay" "replay_cap sample_replay = 4"
  "replay_book sample_replay = snd (spec_replay 4 sample_feed (\<lambda>_. []))"
proof -
  let ?r = "ReplayEngine_new MatchingEngine_new sample_pool"
  obtain r' st' fs where "run_max sample_feed ?r empty_ReplayStats = Some (r', st')"
      "run_post sample_feed fs ?r empty_ReplayStats r' st'"
    using run_max_rep [OF sample_new_ok(1)] by blast
  moreover have "replay_cap ?r = 4" "replay_book ?r = (\<lambda>_. [])"
    using sample_pool_ok replay_ok_new(2) [of sample_pool] by (simp_all add: replay_cap_def ReplayEngine_new_def)
  ultimately show "replay_ok sample_replay" "replay_cap sample_replay = 4"
      "replay_book sample_replay = snd (spec_replay 4 sample_feed (\<lambda>_. []))"
    by (simp_all add: sample_replay_def run_post_def)
qed

lemma sample_engine_ok: "engine_ok sample_engine (rep_pool sample_replay)"
  using sample_replay_ok(1) by (simp add: replay_ok_def)

lemma sample_book:
  "book_of sample_engine (rep_pool sample_replay) BUY = [order_of (makeAdd 1 11 BUY LIMIT 100 5 7)]"
  "book_of sample_engine (rep_pool sample_replay) SELL =
     [order_of (makeAdd 2 12 SELL LIMIT 103 4 7), order_of (makeAdd 3 13 SELL LIMIT 103 6 7)]"
  unfolding replay_book_def [symmetric] sample_replay_ok(3) by code_simp+

lemma sample_uncrossed: "uncrossed (book_of sample_engine (rep_pool sample_replay))"
  unfolding uncrossed_def sample_book by code_simp

text \<open>The pending order: allocated, outside the book.\<close>

lemma sample_pending_ok:
  obtains a where "fst sample_pending = Some a" "a \<in> live (mem (snd sample_pending))" "a \<notin> resting sample_engine"
    "obj (mem (snd sample_pending)) a = sample_taker" "engine_ok sample_engine (snd sample_pending)"
    "book_of sample_engine (snd sample_pending) = book_of sample_engine (rep_pool sample_replay)"
proof -
  let ?p = "rep_pool sample_replay"
  have "card (live (mem ?p)) = 3"
    using resting_card [OF sample_engine_ok] sample_replay_ok(1) by (simp add: replay_ok_def book_size_def sample_book)
  then have "card (live (mem ?p)) < unat (m_capacity ?p)"
    using sample_replay_ok(2) by (simp add: replay_cap_def)
  from slab.alloc_room [OF engine.ok_pool [OF sample_engine_ok] this, of sample_taker]
  obtain a p1 where a: "allocate sample_taker ?p = Some (Some a, p1)" "a \<notin> live (mem ?p)"
      "mem p1 = (mem ?p)(a \<mapsto> Live sample_taker)" "pool_inv p1" "unat (m_capacity p1) = unat (m_capacity ?p)"
    by blast
  have na: "a \<notin> resting sample_engine"
    using a(2) engine.ok_owned [OF sample_engine_ok] by blast
  have "mem p1 b = mem ?p b" if "b \<in> resting sample_engine" for b
    using that na unfolding a(3) by auto
  then have "engine_ok sample_engine p1 \<and> book_of sample_engine p1 = book_of sample_engine ?p"
    by (rule engine.ok_frame [OF sample_engine_ok a(4,5)])
  then show ?thesis
    using that [of a] a(1,3) na by (simp add: sample_pending_def)
qed

end
