(* ===== verification/Top_Of_Book.thy ===== *)
theory Top_Of_Book
  imports Market_Rules
begin

text \<open>
  The queries of the order book (\<open>getBestBid\<close>, \<open>getBestAsk\<close>, \<open>getSpread\<close>, \<open>getBestBidQty\<close>,
  \<open>getBestAskQty\<close>) read off the abstract queues: the best price is the price of the first order, and the
  top quantity is the open quantity of the orders at that price.
\<close>

definition best_price :: "Order list \<Rightarrow> u32" where
  "best_price q = (case q of [] \<Rightarrow> 0 | x # _ \<Rightarrow> ord_price x)"

definition best_group :: "Order list \<Rightarrow> Order list" where
  "best_group q = takeWhile (\<lambda>x. ord_price x = best_price q) q"

definition side_price :: "Side \<Rightarrow> OrderBook \<Rightarrow> u32" where
  "side_price s b = (case side_levels s b of [] \<Rightarrow> 0 | (p, _) # _ \<Rightarrow> p)"

definition side_qty :: "Side \<Rightarrow> OrderBook \<Rightarrow> u64" where
  "side_qty s b = (case side_levels s b of [] \<Rightarrow> 0 | (_, lvl) # _ \<Rightarrow> getTotalQty lvl)"

lemma side_queries:
  "getBestBid b = side_price BUY b" "getBestAsk b = side_price SELL b"
  "getBestBidQty b = side_qty BUY b" "getBestAskQty b = side_qty SELL b"
  by (simp_all add: getBestBid_def getBestAsk_def getBestBidQty_def getBestAskQty_def side_price_def
      side_qty_def om_begin_def split: list.split)

lemma side_top:
  assumes "engine_ok e p"
  shows "side_price s (m_book e) = best_price (book_of e p s)"
    and "unat (side_qty s (m_book e)) = open_qty (best_group (book_of e p s))"
proof -
  obtain G where G: "sys_rep e p G"
    using assms by (auto simp: engine_ok_def)
  let ?h = "mem p" and ?q = "book_of e p s"
  have q: "?q = queue ?h (G s)"
    by (simp add: book_of_spec [OF G] spec_of_def)
  have rep: "ladder_rep s ?h (side_levels s (m_book e)) (G s)"
    by (rule book_rep_ladder [OF sys_rep_simps(1) [OF G]])
  have "side_price s (m_book e) = best_price ?q \<and> unat (side_qty s (m_book e)) = open_qty (best_group ?q)"
  proof (cases rule: ladder_cases [OF rep])
    case 1
    then show ?thesis
      using rep q by (simp add: ladder_rep_def side_price_def side_qty_def best_price_def best_group_def)
  next
    case (2 pr a xs g)
    then obtain lvl lvls where lv: "side_levels s (m_book e) = (pr, lvl) # lvls" "level_rep ?h lvl (a # xs)"
      using rep by (auto simp: ladder_rep_def list_all2_Cons2 rung_rep_def)
    have pr: "\<forall>c\<in>set (a # xs). ord_price (obj ?h c) = pr"
      using ladder_rung_price [OF rep, of "(pr, a # xs)"] 2 by simp
    have worse: "ord_price x \<noteq> pr" if "x \<in> set (queue ?h g)" for x
    proof -
      have "ord_price x \<in> fst ` set g"
        using queue_price [OF rep _ that] 2 by auto
      then show ?thesis
        using rep 2 side_map.lt_irrefl by (auto simp: ladder_rep_def)
    qed
    let ?top = "map (\<lambda>c. strip (obj ?h c)) (a # xs)"
    have split: "?q = ?top @ queue ?h g" and bp: "best_price ?q = pr"
      using q 2 pr by (simp_all add: best_price_def)
    have "best_group ?q = ?top"
      unfolding best_group_def bp unfolding split
      using pr worse by (cases "queue ?h g") (simp_all add: takeWhile_append)
    moreover have "unat (getTotalQty lvl) = open_qty ?top"
      using lv(2) by (simp add: level_rep_def getTotalQty_def level_qty_def open_qty_def comp_def)
    ultimately show ?thesis
      using lv(1) bp by (simp add: side_price_def side_qty_def)
  qed
  then show "side_price s (m_book e) = best_price ?q"
    and "unat (side_qty s (m_book e)) = open_qty (best_group ?q)" by blast+
qed

lemma best_price_best:
  assumes "book_wf B" and "x \<in> set (B s)"
  shows "best_price (B s) \<noteq> 0" and "\<not> price_before s (ord_price x) (best_price (B s))"
proof -
  obtain y q where q: "B s = y # q"
    using assms(2) by (cases "B s") auto
  have "queue_sorted s (y # q)" "order_rests s y"
    using assms(1) q unfolding book_wf_def by (metis, metis list.set_intros(1))
  then show "best_price (B s) \<noteq> 0" and "\<not> price_before s (ord_price x) (best_price (B s))"
    using assms(2) q side_map.lt_irrefl by (auto simp: best_price_def queue_sorted_def order_rests_def)
qed

lemma two_sided_top:
  assumes "book_wf B" and "uncrossed B" and "B BUY \<noteq> []" and "B SELL \<noteq> []"
  shows "best_price (B BUY) < best_price (B SELL)" and "0 < best_price (B BUY)"
proof -
  obtain x xs y ys where "B BUY = x # xs" "B SELL = y # ys"
    using assms(3,4) by (meson list.exhaust)
  then show "best_price (B BUY) < best_price (B SELL)" and "0 < best_price (B BUY)"
    using assms(2) best_price_best(1) [OF assms(1), of x BUY]
    by (simp_all add: uncrossed_def best_price_def word_neq_0_conv)
qed

lemma spread_top:
  assumes "engine_ok e p" and "uncrossed (book_of e p)"
  shows "getSpread (m_book e) =
    (if book_of e p BUY = [] \<or> book_of e p SELL = [] then 0
     else best_price (book_of e p SELL) - best_price (book_of e p BUY))"
  using two_sided_top [OF engine_book_wf [OF assms(1)] assms(2)]
  by (auto simp: getSpread_def side_queries side_top [OF assms(1)] best_price_def [of "[]"] Let_def)

end
