(* ===== verification/Engine_Properties.thy ===== *)
theory Engine_Properties
  imports Sample_States Top_Of_Book
begin

text \<open>
  The properties of the matching engine and its book, stated on the pointer-level operations through
  \<open>engine_ok\<close> (the state invariant), \<open>book_of\<close> (the priority queues read out of the memory) and
  \<open>resting\<close> (the objects the book owns).
\<close>

lemma sample_taker_simps:
  "ord_side sample_taker = BUY" "ord_type sample_taker = LIMIT" "ord_price sample_taker = 104"
  "ord_orderId sample_taker = 14" "remainingQty sample_taker = 7" "strip sample_taker = sample_taker"
  by (simp_all add: sample_taker_def order_of_def set_order_def makeAdd_def strip_def default_Order_def remainingQty_def
      to_Side_def to_OrderType_def)

lemma sample_order_id: "ord_orderId (order_of (makeAdd ts i s t pr q y)) = i"
  by (simp add: order_of_def set_order_def makeAdd_def)

text \<open>The premises of the properties about a submitted order hold of the pending sample order.\<close>

lemma sample_submit:
  obtains a where "fst sample_pending = Some a" "engine_ok sample_engine (snd sample_pending)"
    "a \<in> live (mem (snd sample_pending))" "a \<notin> resting sample_engine"
    "ord_type (obj (mem (snd sample_pending)) a) = LIMIT \<longrightarrow> ord_price (obj (mem (snd sample_pending)) a) \<noteq> 0"
    "\<not> spec_contains (ord_orderId (obj (mem (snd sample_pending)) a)) (book_of sample_engine (snd sample_pending))"
    "obj (mem (snd sample_pending)) a = sample_taker"
proof (rule sample_pending_ok)
  fix a
  assume a: "fst sample_pending = Some a" "a \<in> live (mem (snd sample_pending))" "a \<notin> resting sample_engine"
    "obj (mem (snd sample_pending)) a = sample_taker" "engine_ok sample_engine (snd sample_pending)"
    "book_of sample_engine (snd sample_pending) = book_of sample_engine (rep_pool sample_replay)"
  have "14 \<notin> ord_orderId ` set (book_of sample_engine (rep_pool sample_replay) s)" for s
    by (cases s) (simp_all add: sample_book sample_order_id)
  then show thesis
    using a by (intro that [of a]) (auto simp: sample_taker_simps spec_contains_def)
qed

section \<open>Refinement\<close>

text \<open>
  (C1) \<open>processOrder\<close> on any well-formed engine and any live order outside the book returns (no null or
  dangling access, no endless match loop), keeps the engine well-formed, appends exactly the fills of
  the price-time specification, leaves exactly the specified queues, and neither touches nor leaks
  other objects of the pool.
\<close>

theorem processOrder_refines:
  assumes "engine_ok e p" and "i \<in> live (mem p)" and "i \<notin> resting e"
    and "ord_type (obj (mem p) i) = LIMIT \<longrightarrow> ord_price (obj (mem p) i) \<noteq> 0"
  shows "\<exists>e' p' fs. processOrder (Some i) ts e p = Some (e', p') \<and> engine_ok e' p' \<and>
           m_fills e' = m_fills e @ fs \<and>
           spec_process ts (strip (obj (mem p) i)) (book_of e p) = (fs, book_of e' p') \<and>
           (\<forall>a. a \<notin> insert i (resting e) \<longrightarrow> mem p' a = mem p a) \<and>
           live (mem p') - resting e' = live (mem p) - resting e - {i}"
  using engine.process_law [OF assms, of ts] by (auto simp: heap_frame_def)

theorem processOrder_refines_witness:
  "\<exists>a e' p' fs. fst sample_pending = Some a \<and>
     processOrder (Some a) 4 sample_engine (snd sample_pending) = Some (e', p') \<and> engine_ok e' p' \<and>
     spec_process 4 sample_taker (book_of sample_engine (snd sample_pending)) = (fs, book_of e' p')"
proof (rule sample_submit)
  fix a
  assume a: "fst sample_pending = Some a" "engine_ok sample_engine (snd sample_pending)"
    "a \<in> live (mem (snd sample_pending))" "a \<notin> resting sample_engine"
    "ord_type (obj (mem (snd sample_pending)) a) = LIMIT \<longrightarrow> ord_price (obj (mem (snd sample_pending)) a) \<noteq> 0"
    "obj (mem (snd sample_pending)) a = sample_taker"
  show ?thesis
    using processOrder_refines [OF a(2-5), of 4] a(1) unfolding a(6) sample_taker_simps by fastforce
qed

text \<open>
  (C20) \<open>cancelOrder\<close> returns, reports whether the id was resting, removes exactly that order from the
  queues, produces no fill, and gives its object back to the pool.
\<close>

theorem cancelOrder_refines:
  assumes "engine_ok e p"
  shows "\<exists>ok e' p'. cancelOrder k e p = Some (ok, e', p') \<and> engine_ok e' p' \<and> m_fills e' = m_fills e \<and>
           ok = spec_contains k (book_of e p) \<and>
           book_of e' p' = (\<lambda>s. filter (\<lambda>x. ord_orderId x \<noteq> k) (book_of e p s)) \<and>
           (\<forall>a. a \<notin> resting e \<longrightarrow> mem p' a = mem p a) \<and>
           live (mem p') - resting e' = live (mem p) - resting e"
  using engine.cancel_law [OF assms, of k] by (auto simp: heap_frame_def spec_cancel_def)

theorem cancelOrder_refines_witness:
  "\<exists>e' p'. cancelOrder 12 sample_engine (rep_pool sample_replay) = Some (True, e', p') \<and>
     book_of e' p' SELL = [order_of (makeAdd 3 13 SELL LIMIT 103 6 7)]"
  using cancelOrder_refines [OF sample_engine_ok, of 12]
  by (auto simp: sample_book sample_order_id spec_contains_def intro!: exI [of _ SELL])

text \<open>
  (C8) \<open>modifyOrder\<close> with a nonzero price returns; for a resting id it acts as a cancel followed by the
  submission of the same order as a fresh limit order with the new price and quantity (so it loses its
  time priority), for any other id it reports a miss and changes nothing.
\<close>

theorem modifyOrder_refines:
  assumes "engine_ok e p" and "pr \<noteq> 0"
  shows "\<exists>ok e' p' fs. modifyOrder k pr q ts e p = Some (ok, e', p') \<and> engine_ok e' p' \<and>
           m_fills e' = m_fills e @ fs \<and> spec_modify k pr q ts (book_of e p) = (ok, fs, book_of e' p') \<and>
           (\<forall>a. a \<notin> resting e \<longrightarrow> mem p' a = mem p a) \<and>
           live (mem p') - resting e' = live (mem p) - resting e"
  using engine.amend_law [OF assms, of k q ts] by (auto simp: heap_frame_def)

theorem modifyOrder_refines_witness:
  "\<exists>e' p' fs. modifyOrder 11 103 9 5 sample_engine (rep_pool sample_replay) = Some (True, e', p') \<and>
     m_fills e' = m_fills sample_engine @ fs \<and> length fs = 2 \<and> book_of e' p' BUY = []"
proof -
  obtain ok e' p' fs where m: "modifyOrder 11 103 9 5 sample_engine (rep_pool sample_replay) = Some (ok, e', p')"
      "m_fills e' = m_fills sample_engine @ fs"
      "spec_modify 11 103 9 5 (book_of sample_engine (rep_pool sample_replay)) = (ok, fs, book_of e' p')"
    using modifyOrder_refines [OF sample_engine_ok, of 103 11 9 5] by auto
  have "let r = spec_modify 11 103 9 5 (snd (spec_replay 4 sample_feed (\<lambda>_. [])))
      in fst r \<and> length (fst (snd r)) = 2 \<and> snd (snd r) BUY = []"
    by code_simp
  then show ?thesis
    using m sample_replay_ok(3) by (simp add: replay_book_def Let_def)
qed

section \<open>Market rules\<close>

text \<open>What \<open>processOrder\<close> of a new order does, in terms of the match on the opposite queue.\<close>

lemma processOrder_match:
  assumes "engine_ok e p" and "i \<in> live (mem p)" and "i \<notin> resting e"
    and "ord_type (obj (mem p) i) = LIMIT \<longrightarrow> ord_price (obj (mem p) i) \<noteq> 0"
    and "\<not> spec_contains (ord_orderId (obj (mem p) i)) (book_of e p)"
    and x: "x = obj (mem p) i"
  obtains e' p' x1 fs q where "processOrder (Some i) ts e p = Some (e', p')" "m_fills e' = m_fills e @ fs"
    "spec_match ts (ord_type x \<noteq> MARKET) (strip x) (book_of e p (opposite (ord_side x))) = (x1, fs, q)"
    "book_of e' p' (opposite (ord_side x)) = q"
    "book_of e' p' (ord_side x) = (if ord_type x = LIMIT \<and> \<not> isFilled x1
       then spec_enqueue (ord_side x) x1 (book_of e p (ord_side x)) else book_of e p (ord_side x))"
proof -
  obtain e' p' fs where a: "processOrder (Some i) ts e p = Some (e', p')" "engine_ok e' p'"
      "m_fills e' = m_fills e @ fs" "spec_process ts (strip x) (book_of e p) = (fs, book_of e' p')"
    using engine.process_law [OF assms(1-4), of ts] by (auto simp: x)
  obtain x1 gs q where m: "spec_match ts (ord_type x \<noteq> MARKET) (strip x) (book_of e p (opposite (ord_side x))) = (x1, gs, q)"
    by (cases "spec_match ts (ord_type x \<noteq> MARKET) (strip x) (book_of e p (opposite (ord_side x)))") auto
  have "\<not> spec_contains (ord_orderId (strip x)) (book_of e p)"
    using assms(5) by (simp add: x)
  note sp = spec_process_split [OF this, of ts x1 gs q] m
  have "gs = fs" "book_of e' p' = (\<lambda>s. if s = opposite (ord_side x) then q
       else if ord_type x = LIMIT \<and> \<not> isFilled x1 then spec_enqueue s x1 (book_of e p s) else book_of e p s)"
    using sp a(4) unfolding strip_fields by simp_all
  then show ?thesis
    using a(1,3) m by (intro that [of e' p' fs x1 q]) simp_all
qed

text \<open>
  (C4) Quantity is conserved: what the fills of an order trade is exactly what leaves the opposite side,
  and what they trade plus what stays open of the order is its open quantity before; the rest of a limit
  order, and only of a limit order, is added to its own side.
\<close>

theorem processOrder_conserves:
  assumes "engine_ok e p" and "i \<in> live (mem p)" and "i \<notin> resting e"
    and "ord_type (obj (mem p) i) = LIMIT \<longrightarrow> ord_price (obj (mem p) i) \<noteq> 0"
    and "\<not> spec_contains (ord_orderId (obj (mem p) i)) (book_of e p)"
  defines "s \<equiv> ord_side (obj (mem p) i)"
  shows "\<exists>e' p' fs rest. processOrder (Some i) ts e p = Some (e', p') \<and> m_fills e' = m_fills e @ fs \<and>
           traded_qty fs + open_qty (book_of e' p' (opposite s)) = open_qty (book_of e p (opposite s)) \<and>
           traded_qty fs + rest = unat (remainingQty (obj (mem p) i)) \<and>
           open_qty (book_of e' p' s) =
             open_qty (book_of e p s) + (if ord_type (obj (mem p) i) = LIMIT then rest else 0)"
proof -
  let ?x = "obj (mem p) i"
  obtain e' p' x1 fs q where m: "processOrder (Some i) ts e p = Some (e', p')" "m_fills e' = m_fills e @ fs"
      "spec_match ts (ord_type ?x \<noteq> MARKET) (strip ?x) (book_of e p (opposite s)) = (x1, fs, q)"
      "book_of e' p' (opposite s) = q"
      "book_of e' p' s = (if ord_type ?x = LIMIT \<and> \<not> isFilled x1
         then spec_enqueue s x1 (book_of e p s) else book_of e p s)"
    unfolding s_def by (rule processOrder_match [OF assms(1-5) refl])
  have "open_qty (spec_enqueue s x1 (book_of e p s)) = open_qty (book_of e p s) + unat (remainingQty x1)"
    by (rule open_qty_enqueue)
  moreover have "isFilled x1 \<Longrightarrow> unat (remainingQty x1) = 0"
    by (simp add: remainingQty_0_iff [symmetric])
  ultimately have "open_qty (book_of e' p' s) =
      open_qty (book_of e p s) + (if ord_type (obj (mem p) i) = LIMIT then unat (remainingQty x1) else 0)"
    by (auto simp: m(5))
  then show ?thesis
    using m(1,2,4) spec_match_conserves [OF m(3)] by (intro exI [of _ e'] exI [of _ p'] exI [of _ fs]) auto
qed

theorem processOrder_conserves_witness:
  "\<exists>a e' p' fs rest. fst sample_pending = Some a \<and>
     processOrder (Some a) 4 sample_engine (snd sample_pending) = Some (e', p') \<and>
     m_fills e' = m_fills sample_engine @ fs \<and> traded_qty fs + rest = 7"
proof (rule sample_submit)
  fix a
  assume a: "fst sample_pending = Some a" "engine_ok sample_engine (snd sample_pending)"
    "a \<in> live (mem (snd sample_pending))" "a \<notin> resting sample_engine"
    "ord_type (obj (mem (snd sample_pending)) a) = LIMIT \<longrightarrow> ord_price (obj (mem (snd sample_pending)) a) \<noteq> 0"
    "\<not> spec_contains (ord_orderId (obj (mem (snd sample_pending)) a)) (book_of sample_engine (snd sample_pending))"
    "obj (mem (snd sample_pending)) a = sample_taker"
  show ?thesis
    using processOrder_conserves [OF a(2-6), of 4] a(1) unfolding a(7) sample_taker_simps by fastforce
qed

text \<open>
  (C3) Price-time priority: an order trades with the front of the opposite queue, in queue order and one
  fill per resting order, each at the price of the resting order and never beyond the limit of a
  non-market order; the queue it leaves is the untouched suffix, at most headed by one partly filled
  order, and matching stops only when the order is filled or the first remaining order does not cross.
\<close>

theorem processOrder_price_time:
  assumes "engine_ok e p" and "i \<in> live (mem p)" and "i \<notin> resting e"
    and "ord_type (obj (mem p) i) = LIMIT \<longrightarrow> ord_price (obj (mem p) i) \<noteq> 0"
    and "\<not> spec_contains (ord_orderId (obj (mem p) i)) (book_of e p)"
  defines "x \<equiv> obj (mem p) i"
  defines "q \<equiv> book_of e p (opposite (ord_side x))"
  shows "\<exists>e' p' fs q'. processOrder (Some i) ts e p = Some (e', p') \<and> m_fills e' = m_fills e @ fs \<and>
           q' = book_of e' p' (opposite (ord_side x)) \<and> queue_sorted (opposite (ord_side x)) q \<and>
           map (maker_id (ord_side x)) fs = map ord_orderId (take (length fs) q) \<and>
           map fill_price fs = map ord_price (take (length fs) q) \<and>
           (\<forall>f\<in>set fs. taker_id (ord_side x) f = ord_orderId x \<and> 0 < fill_qty f \<and> fill_timestamp f = ts \<and>
              (ord_type x \<noteq> MARKET \<longrightarrow> crosses (ord_side x = BUY) (fill_price f) (ord_price x))) \<and>
           (q' = drop (length fs) q \<or> (\<exists>m. fs \<noteq> [] \<and> q' = fill_by m (q ! (length fs - 1)) # drop (length fs) q)) \<and>
           (traded_qty fs < unat (remainingQty x) \<longrightarrow>
              q' = [] \<or> (ord_type x \<noteq> MARKET \<and> \<not> crosses (ord_side x = BUY) (ord_price (hd q')) (ord_price x)))"
proof -
  obtain e' p' x1 fs q' where m: "processOrder (Some i) ts e p = Some (e', p')" "m_fills e' = m_fills e @ fs"
      "spec_match ts (ord_type x \<noteq> MARKET) (strip x) q = (x1, fs, q')"
      "book_of e' p' (opposite (ord_side x)) = q'"
    unfolding q_def x_def by (rule processOrder_match [OF assms(1-5) refl])
  have wf: "book_wf (book_of e p)"
    by (rule engine_book_wf [OF assms(1)])
  then have "\<forall>r\<in>set q. \<not> isFilled r" and srt: "queue_sorted (opposite (ord_side x)) q"
    by (auto simp: book_wf_def q_def order_rests_def)
  note fills = spec_match_fills [OF m(3) this(1)]
  have stop: "q' = [] \<or> (ord_type x \<noteq> MARKET \<and> \<not> crosses (ord_side x = BUY) (ord_price (hd q')) (ord_price x))"
    if "traded_qty fs < unat (remainingQty x)"
  proof -
    have "\<not> isFilled x1"
      using that spec_match_conserves(1) [OF m(3)] by (auto simp: remainingQty_0_iff [symmetric])
    then show ?thesis
      using spec_match_exhausts [OF m(3)] spec_match_data(2,3) [OF m(3)] by (auto simp: may_trade_def)
  qed
  have suffix: "q' = drop (length fs) q \<or> (\<exists>m. fs \<noteq> [] \<and> q' = fill_by m (q ! (length fs - 1)) # drop (length fs) q)"
    using spec_match_priority(3) [OF m(3)] by auto
  have "\<forall>f\<in>set fs. taker_id (ord_side x) f = ord_orderId x \<and> 0 < fill_qty f \<and> fill_timestamp f = ts \<and>
      (ord_type x \<noteq> MARKET \<longrightarrow> crosses (ord_side x = BUY) (fill_price f) (ord_price x))"
    using fills by auto
  then show ?thesis
    using m(1,2,4) srt spec_match_priority(1,2) [OF m(3)] suffix stop
    by (intro exI [of _ e'] exI [of _ p'] exI [of _ fs] exI [of _ q']) auto
qed

theorem processOrder_price_time_witness:
  "\<exists>a e' p' fs. fst sample_pending = Some a \<and>
     processOrder (Some a) 4 sample_engine (snd sample_pending) = Some (e', p') \<and>
     m_fills e' = m_fills sample_engine @ fs \<and>
     map (maker_id BUY) fs = map ord_orderId (take (length fs) (book_of sample_engine (snd sample_pending) SELL))"
proof (rule sample_submit)
  fix a
  assume a: "fst sample_pending = Some a" "engine_ok sample_engine (snd sample_pending)"
    "a \<in> live (mem (snd sample_pending))" "a \<notin> resting sample_engine"
    "ord_type (obj (mem (snd sample_pending)) a) = LIMIT \<longrightarrow> ord_price (obj (mem (snd sample_pending)) a) \<noteq> 0"
    "\<not> spec_contains (ord_orderId (obj (mem (snd sample_pending)) a)) (book_of sample_engine (snd sample_pending))"
    "obj (mem (snd sample_pending)) a = sample_taker"
  show ?thesis
    using processOrder_price_time [OF a(2-6), of 4] a(1) unfolding a(7) sample_taker_simps opposite.simps by blast
qed

text \<open>
  Time priority of a resting order: the unfilled rest of a limit order takes its place behind every
  order of an equal or better price on its own side and ahead of every order of a worse price, and the
  relative order of the others does not change.
\<close>

lemma processOrder_rests_last:
  assumes "engine_ok e p" and "i \<in> live (mem p)" and "i \<notin> resting e"
    and "ord_type (obj (mem p) i) = LIMIT" and "ord_price (obj (mem p) i) \<noteq> 0"
    and "\<not> spec_contains (ord_orderId (obj (mem p) i)) (book_of e p)"
  defines "x \<equiv> obj (mem p) i"
  shows "\<exists>e' p'. processOrder (Some i) ts e p = Some (e', p') \<and>
           (book_of e' p' (ord_side x) = book_of e p (ord_side x) \<or>
            (\<exists>l1 l2 rest. book_of e p (ord_side x) = l1 @ l2 \<and> book_of e' p' (ord_side x) = l1 @ rest # l2 \<and>
               ord_orderId rest = ord_orderId x \<and> ord_price rest = ord_price x \<and> \<not> isFilled rest \<and>
               (\<forall>r\<in>set l1. \<not> price_before (ord_side x) (ord_price x) (ord_price r)) \<and>
               (\<forall>r\<in>set l2. price_before (ord_side x) (ord_price x) (ord_price r))))"
proof -
  have lim: "ord_type (obj (mem p) i) = LIMIT \<longrightarrow> ord_price (obj (mem p) i) \<noteq> 0"
    using assms(5) by simp
  obtain e' p' x1 fs q where m: "processOrder (Some i) ts e p = Some (e', p')" "m_fills e' = m_fills e @ fs"
      "spec_match ts (ord_type x \<noteq> MARKET) (strip x) (book_of e p (opposite (ord_side x))) = (x1, fs, q)"
      "book_of e' p' (opposite (ord_side x)) = q"
      "book_of e' p' (ord_side x) = (if ord_type x = LIMIT \<and> \<not> isFilled x1
         then spec_enqueue (ord_side x) x1 (book_of e p (ord_side x)) else book_of e p (ord_side x))"
    unfolding x_def by (rule processOrder_match [OF assms(1-3) lim assms(6) refl])
  have "queue_sorted (ord_side x) (book_of e p (ord_side x))"
    using engine_book_wf [OF assms(1)] by (simp add: book_wf_def)
  then obtain l1 l2 where l: "book_of e p (ord_side x) = l1 @ l2"
      "spec_enqueue (ord_side x) x1 (book_of e p (ord_side x)) = l1 @ x1 # l2"
      "\<forall>r\<in>set l1. \<not> price_before (ord_side x) (ord_price x1) (ord_price r)"
      "\<forall>r\<in>set l2. price_before (ord_side x) (ord_price x1) (ord_price r)"
    by (rule spec_enqueue_sorted)
  show ?thesis
    using m(1,5) l spec_match_data(1,3) [OF m(3)] by (cases "ord_type x = LIMIT \<and> \<not> isFilled x1") auto
qed

text \<open>
  (C5) The book is never left crossed: from a well-formed engine whose best bid is below its best ask,
  each of the three operations returns in such an engine again.
\<close>

theorem book_stays_uncrossed:
  assumes "engine_ok e p" and "uncrossed (book_of e p)"
  shows "(i \<in> live (mem p) \<and> i \<notin> resting e \<and>
            (ord_type (obj (mem p) i) = LIMIT \<longrightarrow> ord_price (obj (mem p) i) \<noteq> 0) \<longrightarrow>
          (\<exists>e' p'. processOrder (Some i) ts e p = Some (e', p') \<and> engine_ok e' p' \<and> uncrossed (book_of e' p'))) \<and>
         (\<exists>ok e' p'. cancelOrder k e p = Some (ok, e', p') \<and> engine_ok e' p' \<and> uncrossed (book_of e' p')) \<and>
         (pr \<noteq> 0 \<longrightarrow>
          (\<exists>ok e' p'. modifyOrder k pr q ts e p = Some (ok, e', p') \<and> engine_ok e' p' \<and> uncrossed (book_of e' p')))"
proof (intro conjI impI)
  have wf: "book_wf (book_of e p)"
    by (rule engine_book_wf [OF assms(1)])
  show "\<exists>e' p'. processOrder (Some i) ts e p = Some (e', p') \<and> engine_ok e' p' \<and> uncrossed (book_of e' p')"
    if "i \<in> live (mem p) \<and> i \<notin> resting e \<and>
      (ord_type (obj (mem p) i) = LIMIT \<longrightarrow> ord_price (obj (mem p) i) \<noteq> 0)"
    using engine.process_law [OF assms(1), of i ts] spec_process_wf(2) [OF wf] assms(2) that
    by (metis strip_fields)
  show "\<exists>ok e' p'. cancelOrder k e p = Some (ok, e', p') \<and> engine_ok e' p' \<and> uncrossed (book_of e' p')"
    using engine.cancel_law [OF assms(1), of k] spec_cancel_wf(2) [OF wf assms(2), of k] by (metis snd_conv)
  show "\<exists>ok e' p'. modifyOrder k pr q ts e p = Some (ok, e', p') \<and> engine_ok e' p' \<and> uncrossed (book_of e' p')"
    if "pr \<noteq> 0"
    using engine.amend_law [OF assms(1) that, of k q ts] spec_modify_wf(2) [OF wf that _ assms(2)] by metis
qed

theorem book_stays_uncrossed_witness:
  "\<exists>ok e' p'. modifyOrder 11 103 9 5 sample_engine (rep_pool sample_replay) = Some (ok, e', p') \<and>
     engine_ok e' p' \<and> uncrossed (book_of e' p')"
  using book_stays_uncrossed [OF sample_engine_ok sample_uncrossed, where pr = 103 and k = 11 and q = 9 and ts = 5] by simp

text \<open>
  (C23) The queries of the book agree with the queues: the best prices are those of the first orders (zero
  for an empty side), the top quantities are the open quantities at those prices, and on an uncrossed
  book the spread is the exact positive difference, or zero when a side is empty.
\<close>

theorem book_queries:
  assumes "engine_ok e p" and "uncrossed (book_of e p)"
  shows "getBestBid (m_book e) = best_price (book_of e p BUY) \<and> getBestAsk (m_book e) = best_price (book_of e p SELL) \<and>
         unat (getBestBidQty (m_book e)) = open_qty (best_group (book_of e p BUY)) \<and>
         unat (getBestAskQty (m_book e)) = open_qty (best_group (book_of e p SELL)) \<and>
         int (unat (getSpread (m_book e))) =
           (if book_of e p BUY = [] \<or> book_of e p SELL = [] then 0
            else int (unat (best_price (book_of e p SELL))) - int (unat (best_price (book_of e p BUY)))) \<and>
         (book_of e p BUY \<noteq> [] \<and> book_of e p SELL \<noteq> [] \<longrightarrow> getSpread (m_book e) > 0)"
proof -
  let ?b = "book_of e p"
  have wf: "book_wf ?b"
    by (rule engine_book_wf [OF assms(1)])
  note top = side_top [OF assms(1)]
  have "int (unat (getSpread (m_book e))) = (if ?b BUY = [] \<or> ?b SELL = [] then 0
      else int (unat (best_price (?b SELL))) - int (unat (best_price (?b BUY)))) \<and>
      (?b BUY \<noteq> [] \<and> ?b SELL \<noteq> [] \<longrightarrow> getSpread (m_book e) > 0)"
  proof (cases "?b BUY = [] \<or> ?b SELL = []")
    case False
    then have l: "best_price (?b BUY) < best_price (?b SELL)"
      using two_sided_top [OF wf assms(2)] by blast
    then have "unat (best_price (?b SELL) - best_price (?b BUY)) = unat (best_price (?b SELL)) - unat (best_price (?b BUY))"
      by (intro unat_sub) simp
    moreover have "unat (best_price (?b BUY)) < unat (best_price (?b SELL))"
      using l by (simp add: word_less_nat_alt)
    ultimately show ?thesis
      using False spread_top [OF assms] by (auto simp: word_less_nat_alt of_nat_diff)
  qed (use spread_top [OF assms] in auto)
  then show ?thesis
    by (simp add: side_queries top)
qed

theorem book_queries_witness:
  "getBestBid (m_book sample_engine) = 100 \<and> unat (getBestAskQty (m_book sample_engine)) = 10"
proof -
  have "best_price (book_of sample_engine (rep_pool sample_replay) BUY) = 100"
    "open_qty (best_group (book_of sample_engine (rep_pool sample_replay) SELL)) = 10"
    unfolding sample_book by code_simp+
  then show ?thesis
    using book_queries [OF sample_engine_ok sample_uncrossed] by simp
qed

end
