(* ===== verification/Reference_Matcher.thy ===== *)
theory Reference_Matcher
  imports Replay_Engine
begin

text \<open>
  \<open>include/matching/ReferenceMatcher.h\<close>: the deliberately simple matcher the engine is tested against.
  It keeps all resting orders in one vector in arrival order and scans it for the best counterparty.
  The equivalence with the engine's specification, and through the refinement with the pointer-level
  engine, is proved in \<open>Reference_Equivalence\<close>.
\<close>

section \<open>State\<close>

record RestingOrder =
  ro_orderId :: u64
  ro_symbolPacked :: u64
  ro_price :: u32
  ro_qty :: u32
  ro_filledQty :: u32
  ro_side :: Side
  ro_sequence :: u64

definition ro_remainingQty :: "RestingOrder \<Rightarrow> u32" where
  "ro_remainingQty r = (if ro_filledQty r \<ge> ro_qty r then 0 else ro_qty r - ro_filledQty r)"

record ReferenceMatcher =
  rm_book :: "RestingOrder list"
  rm_fills :: "Fill list"

section \<open>Choosing the counterparty\<close>

definition betterPriceTime :: "Side \<Rightarrow> RestingOrder \<Rightarrow> RestingOrder \<Rightarrow> bool" where
  "betterPriceTime incomingSide a b =
     (if ro_price a \<noteq> ro_price b
      then (if incomingSide = BUY then ro_price a < ro_price b else ro_price a > ro_price b)
      else ro_sequence a < ro_sequence b)"

text \<open>The two \<open>continue\<close> guards of the scan.\<close>

definition ref_skips :: "Side \<Rightarrow> u32 \<Rightarrow> OrderType \<Rightarrow> RestingOrder \<Rightarrow> bool" where
  "ref_skips incomingSide incomingPrice type it \<longleftrightarrow>
     (ro_side it = incomingSide \<or> ro_remainingQty it = 0) \<or>
     (type \<noteq> MARKET \<and>
      \<not> (if incomingSide = BUY then ro_price it \<le> incomingPrice else ro_price it \<ge> incomingPrice))"

definition scan_step ::
  "Side \<Rightarrow> u32 \<Rightarrow> OrderType \<Rightarrow> RestingOrder list \<Rightarrow> nat \<Rightarrow> nat option \<Rightarrow> nat option" where
  "scan_step incomingSide incomingPrice type book k best =
     (if ref_skips incomingSide incomingPrice type (book ! k) then best
      else case best of
             None \<Rightarrow> Some k
           | Some j \<Rightarrow> if betterPriceTime incomingSide (book ! k) (book ! j) then Some k else best)"

definition bestOpposite :: "Side \<Rightarrow> u32 \<Rightarrow> OrderType \<Rightarrow> RestingOrder list \<Rightarrow> nat option" where
  "bestOpposite incomingSide incomingPrice type book =
     fold (scan_step incomingSide incomingPrice type book) [0..<length book] None"

lemma scan_result:
  "n \<le> length book \<Longrightarrow> fold (scan_step s pr t book) [0..<n] None = Some k \<Longrightarrow>
   k < n \<and> \<not> ref_skips s pr t (book ! k)"
proof (induction n arbitrary: k)
  case 0
  then show ?case by simp
next
  case (Suc n)
  let ?b = "fold (scan_step s pr t book) [0..<n] None"
  have IH: "?b = Some j \<Longrightarrow> j < n \<and> \<not> ref_skips s pr t (book ! j)" for j
    using Suc by simp
  have "scan_step s pr t book n ?b = Some k"
    using Suc.prems(2) by simp
  then show ?case
    using IH by (fastforce simp: scan_step_def split: if_splits option.splits)
qed

lemma bestOpposite_some:
  assumes "bestOpposite s pr t book = Some k"
  shows "k < length book" and "ro_remainingQty (book ! k) \<noteq> 0" and "\<not> ref_skips s pr t (book ! k)"
  using scan_result [of "length book" book s pr t k] assms
  by (auto simp: bestOpposite_def ref_skips_def)

section \<open>Matching\<close>

definition ro_fill_by :: "u32 \<Rightarrow> RestingOrder \<Rightarrow> RestingOrder" where
  "ro_fill_by q r = r\<lparr>ro_filledQty := ro_filledQty r + q\<rparr>"

definition ref_fill :: "RestingOrder \<Rightarrow> RestingOrder \<Rightarrow> u32 \<Rightarrow> u64 \<Rightarrow> Fill" where
  "ref_fill best incoming qty ts =
     \<lparr>fill_buyOrderId = (if ro_side incoming = BUY then ro_orderId incoming else ro_orderId best),
      fill_sellOrderId = (if ro_side incoming = BUY then ro_orderId best else ro_orderId incoming),
      fill_price = ro_price best, fill_qty = qty, fill_timestamp = ts,
      fill_symbolPacked = ro_symbolPacked incoming\<rparr>"

definition erase_at :: "nat \<Rightarrow> 'a list \<Rightarrow> 'a list" where
  "erase_at k xs = take k xs @ drop (Suc k) xs"

lemma unat_ro_remaining: "unat (ro_remainingQty r) = unat (ro_qty r) - unat (ro_filledQty r)"
  by (auto simp: ro_remainingQty_def word_le_nat_alt unat_sub_le)

lemma ro_fill_remaining:
  assumes "q \<le> ro_remainingQty r"
  shows "unat (ro_remainingQty (ro_fill_by q r)) = unat (ro_remainingQty r) - unat q"
proof -
  have q: "unat q \<le> unat (ro_qty r) - unat (ro_filledQty r)"
    using assms by (simp add: word_le_nat_alt unat_ro_remaining)
  have "unat (ro_filledQty r) + unat q < 4294967296"
    using q unat_u32_less [of "ro_qty r"] unat_u32_less [of "ro_filledQty r"] by linarith
  then show ?thesis
    by (simp add: unat_ro_remaining ro_fill_by_def unat_add_u32)
qed

text \<open>
  The loop ends: the counterparty has open quantity, so every round takes something off the
  incoming order.
\<close>

function rm_match ::
  "RestingOrder \<Rightarrow> OrderType \<Rightarrow> u64 \<Rightarrow> ReferenceMatcher \<Rightarrow> RestingOrder \<times> ReferenceMatcher" where
  "rm_match incoming type ts R =
     (if ro_remainingQty incoming > 0 then
        (case bestOpposite (ro_side incoming) (ro_price incoming) type (rm_book R) of
           None \<Rightarrow> (incoming, R)
         | Some k \<Rightarrow>
             let best = rm_book R ! k;
                 qty = min (ro_remainingQty incoming) (ro_remainingQty best);
                 book1 = (rm_book R)[k := ro_fill_by qty best];
                 book2 = (if ro_remainingQty (book1 ! k) = 0 then erase_at k book1 else book1)
             in rm_match (ro_fill_by qty incoming) type ts
                  (R\<lparr>rm_book := book2, rm_fills := rm_fills R @ [ref_fill best incoming qty ts]\<rparr>))
      else (incoming, R))"
  by pat_completeness auto
termination
proof (relation "measure (\<lambda>(incoming, _). unat (ro_remainingQty incoming))")
  fix incoming type ts R k best qty book1 book2
  assume pos: "ro_remainingQty incoming > 0"
    and best: "bestOpposite (ro_side incoming) (ro_price incoming) type (rm_book R) = Some k"
    and b: "best = rm_book R ! k" and q: "qty = min (ro_remainingQty incoming) (ro_remainingQty best)"
  have "0 < unat qty"
    using pos bestOpposite_some(2) [OF best] b q by (simp add: min_def unat_gt_0 word_neq_0_conv)
  moreover have "unat (ro_remainingQty (ro_fill_by qty incoming)) = unat (ro_remainingQty incoming) - unat qty"
    using q by (intro ro_fill_remaining) simp
  ultimately show "((ro_fill_by qty incoming, type, ts,
      R\<lparr>rm_book := book2, rm_fills := rm_fills R @ [ref_fill best incoming qty ts]\<rparr>), (incoming, type, ts, R))
      \<in> measure (\<lambda>(incoming, _). unat (ro_remainingQty incoming))"
    using pos by (simp add: unat_gt_0 word_neq_0_conv)
qed simp

declare rm_match.simps [simp del]

section \<open>Messages\<close>

definition rm_add :: "FeedMessage \<Rightarrow> ReferenceMatcher \<Rightarrow> ReferenceMatcher" where
  "rm_add msg R =
     (let incoming = \<lparr>ro_orderId = msg_orderId msg, ro_symbolPacked = msg_symbolPacked msg,
            ro_price = msg_price msg, ro_qty = msg_qty msg, ro_filledQty = 0,
            ro_side = to_Side (msg_side msg), ro_sequence = msg_sequence msg\<rparr>;
          (incoming1, R1) = rm_match incoming (to_OrderType (msg_orderType msg)) (msg_sequence msg) R
      in if ro_remainingQty incoming1 > 0 \<and> to_OrderType (msg_orderType msg) = LIMIT
         then R1\<lparr>rm_book := rm_book R1 @ [incoming1]\<rparr> else R1)"

definition eraseOrder :: "u64 \<Rightarrow> ReferenceMatcher \<Rightarrow> RestingOrder option \<times> ReferenceMatcher" where
  "eraseOrder orderId R =
     (case List.extract (\<lambda>x. ro_orderId x = orderId) (rm_book R) of
        None \<Rightarrow> (None, R)
      | Some (before, it, after) \<Rightarrow> (Some it, R\<lparr>rm_book := before @ after\<rparr>))"

definition rm_apply :: "FeedMessage \<Rightarrow> ReferenceMatcher \<Rightarrow> ReferenceMatcher" where
  "rm_apply msg R =
     (if msg_msgType msg = MSG_ADD then rm_add msg R
      else if msg_msgType msg = MSG_CANCEL then snd (eraseOrder (msg_orderId msg) R)
      else if msg_msgType msg = MSG_MODIFY then
        (case eraseOrder (msg_orderId msg) R of
           (None, R1) \<Rightarrow> R1
         | (Some old, R1) \<Rightarrow>
             rm_add (msg\<lparr>msg_msgType := MSG_ADD, msg_symbolPacked := ro_symbolPacked old,
                         msg_side := side_code (ro_side old), msg_orderType := type_code LIMIT\<rparr>) R1)
      else R)"

definition rm_run :: "FeedMessage list \<Rightarrow> ReferenceMatcher \<Rightarrow> Fill list \<times> ReferenceMatcher" where
  "rm_run feed R =
     (let R1 = fold (\<lambda>msg R. if isValidFeedMessage msg then rm_apply msg R else R) feed
                 (R\<lparr>rm_book := [], rm_fills := []\<rparr>)
      in (rm_fills R1, R1))"

end
