(* ===== verification/Reference_Equivalence.thy ===== *)
theory Reference_Equivalence
  imports Reference_Matcher Sample_States
begin

text \<open>
  The engine and the reference matcher agree.  The arrival-ordered vector of the reference, ranked by
  price with equal prices in arrival order, is the abstract book of the engine; the scan for the best
  counterparty finds the head of that ranking; and every message keeps the correspondence and emits
  the same fills.
\<close>

section \<open>Ranking an arrival-ordered vector\<close>

definition to_order :: "RestingOrder \<Rightarrow> Order" where
  "to_order r = \<lparr>ord_next = nullptr, ord_prev = nullptr, ord_orderId = ro_orderId r,
     ord_symbolPacked = ro_symbolPacked r, ord_price = ro_price r, ord_qty = ro_qty r,
     ord_filledQty = ro_filledQty r, ord_side = ro_side r, ord_type = LIMIT\<rparr>"

lemma to_order_simps [simp]:
  "ord_orderId (to_order r) = ro_orderId r" "ord_symbolPacked (to_order r) = ro_symbolPacked r"
  "ord_price (to_order r) = ro_price r" "ord_qty (to_order r) = ro_qty r"
  "ord_filledQty (to_order r) = ro_filledQty r" "ord_side (to_order r) = ro_side r"
  "ord_type (to_order r) = LIMIT" "remainingQty (to_order r) = ro_remainingQty r"
  "isFilled (to_order r) \<longleftrightarrow> ro_remainingQty r = 0"
  "to_order (ro_fill_by q r) = fill_by q (to_order r)"
  by (auto simp: to_order_def remainingQty_def ro_remainingQty_def isFilled_def ro_fill_by_def fill_by_def)

definition ranked :: "Side \<Rightarrow> Order list \<Rightarrow> Order list" where
  "ranked s xs = fold (spec_enqueue s) (filter (\<lambda>x. ord_side x = s) xs) []"

lemma ranked_simps [simp]:
  "ranked s [] = []"
  "ranked s (xs @ [x]) = (if ord_side x = s then spec_enqueue s x (ranked s xs) else ranked s xs)"
  by (simp_all add: ranked_def)

lemma ranked_sorted: "queue_sorted s (ranked s xs)"
  by (induction xs rule: rev_induct) (auto simp: queue_sorted_def [of s "[]"] intro: spec_enqueue_wf(1))

lemma ranked_set: "set (ranked s xs) = {x \<in> set xs. ord_side x = s}"
  by (induction xs rule: rev_induct) (auto simp: spec_enqueue_set)

lemma ranked_distinct:
  assumes "distinct (map ord_orderId xs)"
  shows "distinct (map ord_orderId (ranked s xs))"
  using assms
proof (induction xs rule: rev_induct)
  case (snoc x xs)
  have "ord_orderId ` set (ranked s xs) \<subseteq> ord_orderId ` set xs"
    by (auto simp: ranked_set)
  then show ?case
    using snoc spec_enqueue_wf(2) [OF ranked_sorted, of s xs x] by auto
qed simp

lemma enqueue_filter:
  assumes "queue_sorted s q"
  shows "filter P (spec_enqueue s x q) = (if P x then spec_enqueue s x (filter P q) else filter P q)"
proof -
  obtain l1 l2 where l: "q = l1 @ l2" "spec_enqueue s x q = l1 @ x # l2"
      "\<forall>r\<in>set l1. \<not> price_before s (ord_price x) (ord_price r)"
      "\<forall>r\<in>set l2. price_before s (ord_price x) (ord_price r)"
    using spec_enqueue_sorted [OF assms] .
  have "spec_enqueue s x (filter P l1 @ filter P l2) = filter P l1 @ x # filter P l2"
    using l(3,4) by (intro spec_enqueue_split) auto
  then show ?thesis
    using l(1,2) by simp
qed

lemma ranked_filter: "ranked s (filter P xs) = filter P (ranked s xs)"
  by (induction xs rule: rev_induct) (auto simp: enqueue_filter [OF ranked_sorted])

lemma ranked_map:
  assumes "\<And>x. x \<in> set xs \<Longrightarrow> ord_price (f x) = ord_price x \<and> ord_side (f x) = ord_side x"
  shows "ranked s (map f xs) = map f (ranked s xs)"
  using assms
proof (induction xs rule: rev_induct)
  case (snoc x xs)
  have "spec_enqueue s (f x) (map f q) = map f (spec_enqueue s x q)" if "set q \<subseteq> set xs" for q
  proof -
    have "\<And>r. r \<in> set q \<Longrightarrow> ord_price (f r) = ord_price r"
      using snoc.prems that by auto
    moreover have "ord_price (f x) = ord_price x"
      using snoc.prems by simp
    ultimately show ?thesis
      by (simp add: spec_enqueue_def takeWhile_map dropWhile_map comp_def cong: takeWhile_cong dropWhile_cong)
  qed
  moreover have "set (ranked s xs) \<subseteq> set xs"
    by (auto simp: ranked_set)
  ultimately show ?case
    using snoc by simp
qed simp

section \<open>The scan finds the head of the ranking\<close>

lemma hd_enqueue:
  "hd (spec_enqueue s x q) =
     (if q = [] \<or> price_before s (ord_price x) (ord_price (hd q)) then x else hd q)"
  by (cases q) (auto simp: spec_enqueue_def)

lemma enqueue_nonempty [simp]: "spec_enqueue s x q \<noteq> []"
  by (simp add: spec_enqueue_def)

lemma better_ranks:
  assumes "ro_sequence b \<le> ro_sequence a"
  shows "betterPriceTime s a b \<longleftrightarrow> price_before (opposite s) (ro_price a) (ro_price b)"
  using assms by (cases s) (auto simp: betterPriceTime_def)

lemma scan_ranks:
  fixes s :: Side and pr :: u32 and t :: OrderType
  assumes "sorted (map ro_sequence book)" and "n \<le> length book"
  defines "elig \<equiv> filter (\<lambda>r. \<not> ref_skips s pr t r) (take n book)"
  shows "(case fold (scan_step s pr t book) [0..<n] None of
      None \<Rightarrow> ranked (opposite s) (map to_order elig) = []
    | Some k \<Rightarrow> ranked (opposite s) (map to_order elig) \<noteq> [] \<and>
        to_order (book ! k) = hd (ranked (opposite s) (map to_order elig)))"
  using assms(2) unfolding elig_def
proof (induction n)
  case 0
  then show ?case by simp
next
  case (Suc n)
  let ?b = "fold (scan_step s pr t book) [0..<n] None"
  let ?e = "filter (\<lambda>r. \<not> ref_skips s pr t r) (take n book)"
  let ?q = "ranked (opposite s) (map to_order ?e)"
  have "fold (scan_step s pr t book) [0..<Suc n] None = scan_step s pr t book n ?b"
    by simp
  then have step: "fold (scan_step s pr t book) [0..<Suc n] None =
      (if ref_skips s pr t (book ! n) then ?b
       else case ?b of None \<Rightarrow> Some n
         | Some j \<Rightarrow> if betterPriceTime s (book ! n) (book ! j) then Some n else ?b)"
    by (simp only: scan_step_def)
  have tk: "take (Suc n) book = take n book @ [book ! n]"
    using Suc.prems by (simp add: take_Suc_conv_app_nth)
  show ?case
  proof (cases "ref_skips s pr t (book ! n)")
    case True
    then have e: "filter (\<lambda>r. \<not> ref_skips s pr t r) (take (Suc n) book) = ?e"
      by (simp add: tk)
    show ?thesis
      unfolding step e using Suc True by simp
  next
    case False
    then have opp: "ro_side (book ! n) = opposite s"
      by (cases s; cases "ro_side (book ! n)") (auto simp: ref_skips_def)
    have q: "ranked (opposite s) (map to_order (filter (\<lambda>r. \<not> ref_skips s pr t r) (take (Suc n) book))) =
        spec_enqueue (opposite s) (to_order (book ! n)) ?q"
      unfolding tk using False opp by simp
    show ?thesis
    proof (cases ?b)
      case None
      then show ?thesis
        unfolding step q using Suc False by (simp add: hd_enqueue)
    next
      case (Some j)
      have j: "j < n"
        using scan_result [OF _ Some] Suc.prems by simp
      have "ro_sequence (book ! j) \<le> ro_sequence (book ! n)"
        using assms(1) j Suc.prems by (auto simp: sorted_iff_nth_mono)
      then have "betterPriceTime s (book ! n) (book ! j) \<longleftrightarrow>
          price_before (opposite s) (ro_price (book ! n)) (ro_price (book ! j))"
        by (rule better_ranks)
      moreover have "?q \<noteq> []" "to_order (book ! j) = hd ?q"
        using Suc Some by auto
      moreover from this(2) have "ord_price (hd ?q) = ro_price (book ! j)"
        by (metis to_order_simps(3))
      ultimately show ?thesis
        unfolding step q using False Some by (simp add: hd_enqueue)
    qed
  qed
qed

text \<open>The part of the invariant that concerns the vector alone.\<close>

definition ref_inv :: "RestingOrder list \<Rightarrow> bool" where
  "ref_inv book \<longleftrightarrow> sorted (map ro_sequence book) \<and> distinct (map ro_orderId book) \<and>
     (\<forall>r\<in>set book. ro_remainingQty r \<noteq> 0)"

definition ref_queue :: "Side \<Rightarrow> RestingOrder list \<Rightarrow> Order list" where
  "ref_queue s book = ranked s (map to_order book)"

lemma filter_crossing:
  fixes rp :: bool and pr :: u32
  assumes "queue_sorted (opposite s) q"
  defines "c \<equiv> \<lambda>x. rp \<longrightarrow> crosses (s = BUY) (ord_price x) pr"
  shows "filter c q = [] \<longleftrightarrow> q = [] \<or> \<not> c (hd q)" and "filter c q \<noteq> [] \<Longrightarrow> hd (filter c q) = hd q"
proof -
  have *: "\<not> c (hd q) \<Longrightarrow> filter c q = []"
  proof (cases q)
    case (Cons r q')
    assume "\<not> c (hd q)"
    then show ?thesis
      using not_crossed_behind [of s r q' pr] assms(1) Cons by (auto simp: c_def filter_empty_conv)
  qed simp
  show "filter c q = [] \<longleftrightarrow> q = [] \<or> \<not> c (hd q)"
    using * by (cases q) auto
  show "hd (filter c q) = hd q" if "filter c q \<noteq> []"
    using that * by (cases q) auto
qed

lemma bestOpposite_ranks:
  fixes s :: Side and pr :: u32 and t :: OrderType
  assumes inv: "ref_inv book"
  defines "q \<equiv> ref_queue (opposite s) book"
  defines "c \<equiv> \<lambda>x. t \<noteq> MARKET \<longrightarrow> crosses (s = BUY) (ord_price x) pr"
  shows "bestOpposite s pr t book = None \<Longrightarrow> q = [] \<or> \<not> c (hd q)"
    and "bestOpposite s pr t book = Some k \<Longrightarrow> q \<noteq> [] \<and> c (hd q) \<and> hd q = to_order (book ! k)"
proof -
  let ?el = "filter (\<lambda>r. \<not> ref_skips s pr t r) book"
  have opp: "ro_side r \<noteq> s \<longleftrightarrow> ro_side r = opposite s" for r
    by (cases s; cases "ro_side r") auto
  have "\<not> ref_skips s pr t r \<longleftrightarrow> ro_side r = opposite s \<and> c (to_order r)" if "r \<in> set book" for r
    using inv that opp [of r] by (auto simp: ref_skips_def ref_inv_def c_def crosses_def)
  then have "?el = filter (\<lambda>r. ro_side r = opposite s \<and> c (to_order r)) book"
    by (intro filter_cong) auto
  then have "map to_order ?el = filter (\<lambda>x. ord_side x = opposite s \<and> c x) (map to_order book)"
    by (simp add: filter_map comp_def)
  then have "ranked (opposite s) (map to_order ?el) = filter (\<lambda>x. ord_side x = opposite s \<and> c x) q"
    by (simp add: ranked_filter q_def ref_queue_def)
  also have "\<dots> = filter c q"
    by (rule filter_cong) (auto simp: q_def ref_queue_def ranked_set)
  finally have el: "ranked (opposite s) (map to_order ?el) = filter c q" .
  have srt: "queue_sorted (opposite s) q"
    by (simp add: q_def ref_queue_def ranked_sorted)
  note fc = filter_crossing [OF srt, of "t \<noteq> MARKET" pr]
  have sorted: "sorted (map ro_sequence book)"
    using inv by (simp add: ref_inv_def)
  from scan_ranks [OF this order_refl, of s pr t]
  have scan: "case bestOpposite s pr t book of None \<Rightarrow> filter c q = []
      | Some k \<Rightarrow> filter c q \<noteq> [] \<and> to_order (book ! k) = hd (filter c q)"
    unfolding take_all [OF order_refl] el bestOpposite_def .
  show "q = [] \<or> \<not> c (hd q)" if "bestOpposite s pr t book = None"
    using scan that fc(1) unfolding c_def by simp
  show "q \<noteq> [] \<and> c (hd q) \<and> hd q = to_order (book ! k)" if "bestOpposite s pr t book = Some k"
    using scan that fc unfolding c_def by auto
qed

section \<open>One match\<close>

lemma spec_match_stop: "q = [] \<or> \<not> may_trade rp i (hd q) \<Longrightarrow> spec_match ts rp i q = (i, [], q)"
  by (cases q) (auto simp: may_trade_def)

text \<open>One trade of the specification, with the partly filled case left to the next round.\<close>

lemma spec_match_trade:
  assumes "may_trade rp i r"
  defines "m \<equiv> min (remainingQty i) (remainingQty r)"
  shows "spec_match ts rp i (r # q) =
    (case spec_match ts rp (fill_by m i) (if isFilled (fill_by m r) then q else fill_by m r # q) of
       (i', fs, q') \<Rightarrow> (i', mk_fill r i (ord_price r) m ts # fs, q'))"
proof -
  have go: "\<not> (isFilled i \<or> (rp \<and> \<not> crosses (ord_side i = BUY) (ord_price r) (ord_price i)))"
    using assms(1) by (auto simp: may_trade_def)
  show ?thesis
  proof (cases "isFilled (fill_by m r)")
    case True
    then show ?thesis
      using go by (cases rp) (simp_all add: Let_def m_def)
  next
    case False
    then have "isFilled (fill_by m i)"
      using fill_min_filled [of i r] by (simp add: m_def)
    then have "spec_match ts rp (fill_by m i) (fill_by m r # q) = (fill_by m i, [], fill_by m r # q)"
      by simp
    with False go show ?thesis
      by (cases rp) (simp_all add: Let_def m_def)
  qed
qed

definition taker_order :: "OrderType \<Rightarrow> RestingOrder \<Rightarrow> Order" where
  "taker_order t r = (to_order r)\<lparr>ord_type := t\<rparr>"

lemma taker_order_simps [simp]:
  "ord_orderId (taker_order t r) = ro_orderId r" "ord_symbolPacked (taker_order t r) = ro_symbolPacked r"
  "ord_price (taker_order t r) = ro_price r" "ord_qty (taker_order t r) = ro_qty r"
  "ord_side (taker_order t r) = ro_side r" "ord_type (taker_order t r) = t"
  "remainingQty (taker_order t r) = ro_remainingQty r"
  "isFilled (taker_order t r) \<longleftrightarrow> ro_remainingQty r = 0"
  "taker_order t (ro_fill_by q r) = fill_by q (taker_order t r)" "taker_order LIMIT r = to_order r"
  by (auto simp: taker_order_def to_order_def remainingQty_def ro_remainingQty_def isFilled_def
      ro_fill_by_def fill_by_def)

lemma ref_fill_mk: "ref_fill best r q ts = mk_fill (to_order best) (taker_order t r) (ro_price best) q ts"
  by (simp add: ref_fill_def mk_fill_def)

lemma erase_at_filter:
  assumes "distinct (map f xs)" and "k < length xs"
  shows "erase_at k xs = filter (\<lambda>x. f x \<noteq> f (xs ! k)) xs"
proof -
  have xs: "xs = take k xs @ xs ! k # drop (Suc k) xs"
    using assms(2) by (simp add: id_take_nth_drop)
  have "distinct (map f (take k xs @ xs ! k # drop (Suc k) xs))"
    using assms(1) xs by simp
  then have "f (xs ! k) \<notin> f ` set (take k xs)" "f (xs ! k) \<notin> f ` set (drop (Suc k) xs)"
    by auto
  then have "filter (\<lambda>x. f x \<noteq> f (xs ! k)) (take k xs) = take k xs"
      "filter (\<lambda>x. f x \<noteq> f (xs ! k)) (drop (Suc k) xs) = drop (Suc k) xs"
    unfolding filter_id_conv by (metis imageI)+
  then have "filter (\<lambda>x. f x \<noteq> f (xs ! k)) (take k xs @ xs ! k # drop (Suc k) xs) = erase_at k xs"
    by (simp add: erase_at_def)
  then show ?thesis
    by (simp flip: xs)
qed

lemma update_map:
  assumes "distinct (map f xs)" and "k < length xs"
  shows "xs[k := y] = map (\<lambda>x. if f x = f (xs ! k) then y else x) xs"
  using assms by (intro nth_equalityI) (auto simp: nth_list_update distinct_conv_nth)

text \<open>What one trade does to the vector, seen through the ranking.\<close>

lemma ref_trade:
  assumes inv: "ref_inv book" and k: "k < length book" and q: "ref_queue s book = to_order (book ! k) # q"
    and le: "m \<le> ro_remainingQty (book ! k)"
  defines "best \<equiv> ro_fill_by m (book ! k)"
  defines "book2 \<equiv> (if ro_remainingQty best = 0 then erase_at k (book[k := best]) else book[k := best])"
  shows "ref_inv book2" and "ref_queue s book2 = (if ro_remainingQty best = 0 then q else to_order best # q)"
    and "ro_side (book ! k) = s" and "t \<noteq> s \<Longrightarrow> ref_queue t book2 = ref_queue t book"
    and "ro_orderId ` set book2 \<subseteq> ro_orderId ` set book" and "ro_sequence ` set book2 \<subseteq> ro_sequence ` set book"
proof -
  let ?i = "ro_orderId (book ! k)"
  let ?keep = "\<lambda>x. ord_orderId x \<noteq> ?i"
  let ?upd = "\<lambda>x. if ord_orderId x = ?i then to_order best else x"
  have d: "distinct (map ro_orderId book)" and d': "distinct (map ord_orderId (map to_order book))"
    using inv by (simp_all add: ref_inv_def comp_def)
  have "to_order (book ! k) \<in> set (ref_queue s book)"
    using q by simp
  then show side: "ro_side (book ! k) = s"
    by (simp add: ref_queue_def ranked_set)
  have "distinct (map ord_orderId (to_order (book ! k) # q))"
    using ranked_distinct [OF d', of s] q by (simp add: ref_queue_def)
  then have qi: "\<forall>x\<in>set q. ord_orderId x \<noteq> ?i"
    by (simp add: image_iff) metis
  have other: "\<forall>x\<in>set (ref_queue u book). ord_orderId x \<noteq> ?i" if "u \<noteq> s" for u
  proof
    fix x
    assume "x \<in> set (ref_queue u book)"
    then obtain r where r: "r \<in> set book" "x = to_order r" "ro_side r = u"
      by (auto simp: ref_queue_def ranked_set)
    then have "r \<noteq> book ! k"
      using that side by auto
    then show "ord_orderId x \<noteq> ?i"
      using r d k by (metis distinct_map inj_onD nth_mem to_order_simps(1))
  qed
  have er: "erase_at k (book[k := best]) = erase_at k book"
    by (simp add: erase_at_def)
  have qe: "ref_queue u (erase_at k book) = filter ?keep (ref_queue u book)" for u
  proof -
    have "map to_order (erase_at k book) = filter ?keep (map to_order book)"
      by (simp add: erase_at_filter [OF d k] filter_map comp_def)
    then show ?thesis
      by (simp add: ref_queue_def ranked_filter)
  qed
  have qu: "ref_queue u (book[k := best]) = map ?upd (ref_queue u book)" for u
  proof -
    have "map to_order (book[k := best]) = map ?upd (map to_order book)"
      by (simp add: update_map [OF d k, of best])
    moreover have "ord_price (?upd x) = ord_price x \<and> ord_side (?upd x) = ord_side x"
      if xin: "x \<in> set (map to_order book)" for x
    proof -
      obtain r where r: "r \<in> set book" "x = to_order r"
        using xin by auto
      then have "ro_orderId r = ?i \<Longrightarrow> r = book ! k"
        using d k by (metis distinct_map inj_onD nth_mem)
      then show ?thesis
        using r by (auto simp: best_def ro_fill_by_def)
    qed
    ultimately show ?thesis
      unfolding ref_queue_def by (metis (no_types, lifting) ranked_map)
  qed
  show "ref_queue s book2 = (if ro_remainingQty best = 0 then q else to_order best # q)"
    using qi by (auto simp: book2_def er qe qu q map_idI)
  show "ref_queue t book2 = ref_queue t book" if "t \<noteq> s"
    using other [OF that] by (auto simp: book2_def er qe qu map_idI)
  have ids: "map ro_orderId (book[k := best]) = map ro_orderId book"
    and sqs: "map ro_sequence (book[k := best]) = map ro_sequence book"
    using k by (simp_all add: map_update best_def ro_fill_by_def list_update_same_conv)
  have sub: "set (erase_at k book) \<subseteq> set book"
    by (auto simp: erase_at_filter [OF d k])
  have "sorted (map ro_sequence (erase_at k book))" "distinct (map ro_orderId (erase_at k book))"
    using inv d by (simp_all add: erase_at_filter [OF d k] ref_inv_def sorted_filter distinct_map_filter)
  then show "ref_inv book2"
    using inv sub ids sqs set_update_subset_insert [of book k best]
    by (auto simp: ref_inv_def book2_def er)
  have "ro_orderId ` set (book[k := best]) = ro_orderId ` set book"
      "ro_sequence ` set (book[k := best]) = ro_sequence ` set book"
    using ids sqs by (metis list.set_map)+
  then show "ro_orderId ` set book2 \<subseteq> ro_orderId ` set book" "ro_sequence ` set book2 \<subseteq> ro_sequence ` set book"
    using sub by (auto simp: book2_def er)
qed

text \<open>The loops run in step.\<close>

lemma rm_match_spec:
  assumes "ref_inv (rm_book R)" and "s = ro_side incoming"
    and "rm_match incoming t ts R = (incoming', R')"
  shows "ref_inv (rm_book R') \<and>
    (\<exists>fs. rm_fills R' = rm_fills R @ fs \<and>
       spec_match ts (t \<noteq> MARKET) (taker_order t incoming) (ref_queue (opposite s) (rm_book R)) =
         (taker_order t incoming', fs, ref_queue (opposite s) (rm_book R'))) \<and>
    ref_queue s (rm_book R') = ref_queue s (rm_book R) \<and>
    ro_orderId ` set (rm_book R') \<subseteq> ro_orderId ` set (rm_book R) \<and>
    ro_sequence ` set (rm_book R') \<subseteq> ro_sequence ` set (rm_book R) \<and>
    ro_sequence incoming' = ro_sequence incoming"
  using assms
proof (induction incoming t ts R rule: rm_match.induct)
  case (1 incoming t ts R)
  let ?book = "rm_book R" and ?i = "taker_order t incoming"
  let ?q = "ref_queue (opposite s) ?book"
  note best = bestOpposite_ranks [OF "1.prems"(1), where s = s and pr = "ro_price incoming" and t = t]
  have go: "may_trade (t \<noteq> MARKET) ?i (hd ?q) \<longleftrightarrow> ro_remainingQty incoming > 0 \<and>
      (t \<noteq> MARKET \<longrightarrow> crosses (s = BUY) (ord_price (hd ?q)) (ro_price incoming))"
    using "1.prems"(2) by (auto simp: may_trade_def word_neq_0_conv)
  show ?case
  proof (cases "ro_remainingQty incoming > 0 \<and> bestOpposite s (ro_price incoming) t ?book \<noteq> None")
    case False
    then have "rm_match incoming t ts R = (incoming, R)"
      using "1.prems"(2) by (subst rm_match.simps) auto
    moreover have "?q = [] \<or> \<not> may_trade (t \<noteq> MARKET) ?i (hd ?q)"
      using False best(1) go by auto
    then have "spec_match ts (t \<noteq> MARKET) ?i ?q = (?i, [], ?q)"
      by (rule spec_match_stop)
    ultimately show ?thesis
      using 1 by simp
  next
    case True
    then obtain k where k: "bestOpposite s (ro_price incoming) t ?book = Some k" and pos: "ro_remainingQty incoming > 0"
      by auto
    let ?b = "?book ! k"
    define m where "m = min (ro_remainingQty incoming) (ro_remainingQty ?b)"
    define b where "b = ro_fill_by m ?b"
    define book2 where "book2 = (if ro_remainingQty b = 0 then erase_at k (?book[k := b]) else ?book[k := b])"
    let ?R = "R\<lparr>rm_book := book2, rm_fills := rm_fills R @ [ref_fill ?b incoming m ts]\<rparr>"
    have kl: "k < length ?book"
      using bestOpposite_some(1) [OF k] .
    have hd: "?q \<noteq> []" "hd ?q = to_order ?b"
        and cr: "may_trade (t \<noteq> MARKET) ?i (to_order ?b)"
      using best(2) [OF k] go pos by auto
    then have q: "?q = to_order ?b # tl ?q"
      by (metis list.collapse)
    have tr: "ref_inv book2" "ref_queue (opposite s) book2 = (if ro_remainingQty b = 0 then tl ?q else to_order b # tl ?q)"
        "ref_queue s book2 = ref_queue s ?book" "ro_orderId ` set book2 \<subseteq> ro_orderId ` set ?book"
        "ro_sequence ` set book2 \<subseteq> ro_sequence ` set ?book"
      using ref_trade [OF "1.prems"(1) kl q, of m, folded b_def, folded book2_def] by (simp_all add: m_def)
    have rec: "rm_match incoming t ts R = rm_match (ro_fill_by m incoming) t ts ?R"
      using k pos "1.prems"(2) kl by (subst rm_match.simps) (simp add: Let_def m_def b_def book2_def)
    have IH: "ref_inv (rm_book R') \<and>
        (\<exists>fs. rm_fills R' = rm_fills ?R @ fs \<and>
           spec_match ts (t \<noteq> MARKET) (taker_order t (ro_fill_by m incoming)) (ref_queue (opposite s) book2) =
             (taker_order t incoming', fs, ref_queue (opposite s) (rm_book R'))) \<and>
        ref_queue s (rm_book R') = ref_queue s book2 \<and>
        ro_orderId ` set (rm_book R') \<subseteq> ro_orderId ` set book2 \<and>
        ro_sequence ` set (rm_book R') \<subseteq> ro_sequence ` set book2 \<and>
        ro_sequence incoming' = ro_sequence (ro_fill_by m incoming)"
      using "1.IH" [of k ?b m "?book[k := b]" book2] k pos "1.prems"(2,3) tr(1) rec kl
      by (simp add: m_def b_def book2_def ro_fill_by_def [of _ incoming])
    then obtain fs where fs: "rm_fills R' = rm_fills ?R @ fs"
        "spec_match ts (t \<noteq> MARKET) (fill_by m ?i) (ref_queue (opposite s) book2) =
           (taker_order t incoming', fs, ref_queue (opposite s) (rm_book R'))"
      by auto
    have "spec_match ts (t \<noteq> MARKET) ?i (to_order ?b # tl ?q) =
        (taker_order t incoming', ref_fill ?b incoming m ts # fs, ref_queue (opposite s) (rm_book R'))"
    proof -
      have eqs: "min (remainingQty ?i) (remainingQty (to_order ?b)) = m" "fill_by m (to_order ?b) = to_order b"
          "ord_price (to_order ?b) = ro_price ?b"
        by (simp_all add: m_def b_def)
      have rest: "(if isFilled (to_order b) then tl ?q else to_order b # tl ?q) = ref_queue (opposite s) book2"
        by (simp add: tr(2))
      show ?thesis
        unfolding spec_match_trade [OF cr] eqs rest fs(2) ref_fill_mk [of ?b incoming m ts t] by simp
    qed
    then have sm: "spec_match ts (t \<noteq> MARKET) ?i ?q =
        (taker_order t incoming', ref_fill ?b incoming m ts # fs, ref_queue (opposite s) (rm_book R'))"
      by (metis q)
    moreover have "ro_sequence (ro_fill_by m incoming) = ro_sequence incoming"
      by (simp add: ro_fill_by_def)
    ultimately show ?thesis
      using IH fs(1) tr(3) order_trans [OF _ tr(4)] order_trans [OF _ tr(5)] by simp
  qed
qed

section \<open>Messages\<close>

definition ref_rel :: "u64 \<Rightarrow> ReferenceMatcher \<Rightarrow> spec_book \<Rightarrow> bool" where
  "ref_rel seq R B \<longleftrightarrow> ref_inv (rm_book R) \<and> B = (\<lambda>s. ref_queue s (rm_book R)) \<and>
     (\<forall>r\<in>set (rm_book R). ro_sequence r \<le> seq)"

definition ref_ids :: "ReferenceMatcher \<Rightarrow> u64 set" where
  "ref_ids R = ro_orderId ` set (rm_book R)"

lemma ref_contains: "ref_rel seq R B \<Longrightarrow> spec_contains i B \<longleftrightarrow> i \<in> ref_ids R"
proof -
  assume "ref_rel seq R B"
  then have "spec_contains i B \<longleftrightarrow> (\<exists>s. i \<in> ord_orderId ` set (ref_queue s (rm_book R)))"
    by (simp add: spec_contains_def ref_rel_def)
  also have "\<dots> \<longleftrightarrow> i \<in> ref_ids R"
    by (fastforce simp: ref_queue_def ranked_set ref_ids_def image_iff)
  finally show ?thesis .
qed

lemma ref_absent: "ref_rel seq R B \<Longrightarrow> i \<notin> ref_ids R \<Longrightarrow> x \<in> set (B s) \<Longrightarrow> ord_orderId x \<noteq> i"
  using ref_contains [of seq R B i] by (auto simp: spec_contains_def)

lemma two_sides: "t = s \<or> t = opposite s"
  by (cases s; cases t) auto

lemma ref_inv_snoc:
  assumes "ref_inv book" and "\<forall>r\<in>set book. ro_sequence r \<le> ro_sequence x"
    and "ro_orderId x \<notin> ro_orderId ` set book" and "ro_remainingQty x \<noteq> 0"
  shows "ref_inv (book @ [x])"
  using assms by (auto simp: ref_inv_def sorted_append)

lemma ref_queue_snoc:
  "ref_queue s (book @ [x]) = (if ro_side x = s then spec_enqueue s (to_order x) (ref_queue s book) else ref_queue s book)"
  by (simp add: ref_queue_def)

lemma rm_add_spec:
  assumes rel: "ref_rel seq R B" and new: "msg_orderId m \<notin> ref_ids R" and seq: "seq \<le> msg_sequence m"
  shows "\<exists>fs B'. spec_process (msg_sequence m) (order_of m) B = (fs, B') \<and>
           ref_rel (msg_sequence m) (rm_add m R) B' \<and> rm_fills (rm_add m R) = rm_fills R @ fs \<and>
           ref_ids (rm_add m R) \<subseteq> insert (msg_orderId m) (ref_ids R)"
proof -
  let ?t = "to_OrderType (msg_orderType m)"
  let ?inc = "\<lparr>ro_orderId = msg_orderId m, ro_symbolPacked = msg_symbolPacked m, ro_price = msg_price m,
     ro_qty = msg_qty m, ro_filledQty = 0, ro_side = to_Side (msg_side m), ro_sequence = msg_sequence m\<rparr>"
  define s where "s = to_Side (msg_side m)"
  have x: "order_of m = taker_order ?t ?inc"
    by (simp add: order_of_def set_order_def default_Order_def taker_order_def to_order_def)
  obtain inc1 R1 where m: "rm_match ?inc ?t (msg_sequence m) R = (inc1, R1)"
    by (cases "rm_match ?inc ?t (msg_sequence m) R") auto
  have inv: "ref_inv (rm_book R)" and B: "B = (\<lambda>s. ref_queue s (rm_book R))" and le: "\<forall>r\<in>set (rm_book R). ro_sequence r \<le> seq"
    using rel by (simp_all add: ref_rel_def)
  from rm_match_spec [OF inv _ m, of s] obtain fs where r1: "ref_inv (rm_book R1)" "rm_fills R1 = rm_fills R @ fs"
      "spec_match (msg_sequence m) (?t \<noteq> MARKET) (taker_order ?t ?inc) (B (opposite s)) =
         (taker_order ?t inc1, fs, ref_queue (opposite s) (rm_book R1))"
      "ref_queue s (rm_book R1) = B s" "ro_orderId ` set (rm_book R1) \<subseteq> ro_orderId ` set (rm_book R)"
      "ro_sequence ` set (rm_book R1) \<subseteq> ro_sequence ` set (rm_book R)" "ro_sequence inc1 = msg_sequence m"
    unfolding B s_def by auto
  have inc1: "ro_orderId inc1 = msg_orderId m" "ro_side inc1 = s"
    using spec_match_data(1,2) [OF r1(3)] by (simp_all add: s_def)
  have old: "\<forall>r\<in>set (rm_book R1). ro_sequence r \<le> msg_sequence m"
  proof
    fix r
    assume "r \<in> set (rm_book R1)"
    then have "ro_sequence r \<in> ro_sequence ` set (rm_book R)"
      by (rule subsetD [OF r1(6) imageI])
    then have "ro_sequence r \<le> seq"
      using le by (elim imageE) simp
    then show "ro_sequence r \<le> msg_sequence m"
      using seq by (rule order_trans)
  qed
  have nc: "\<not> spec_contains (ord_orderId (order_of m)) B"
    using new ref_contains [OF rel] by (simp add: x)
  have side: "ord_side (order_of m) = s" "ord_type (order_of m) = ?t"
    by (simp_all add: x s_def)
  define B' where "B' = (\<lambda>u. if u = opposite s then ref_queue (opposite s) (rm_book R1)
      else if ?t = LIMIT \<and> ro_remainingQty inc1 \<noteq> 0 then spec_enqueue u (taker_order ?t inc1) (B u) else B u)"
  have B'_alt: "B' = (\<lambda>u. if u = opposite s then ref_queue (opposite s) (rm_book R1)
      else if ?t = LIMIT \<and> \<not> isFilled (taker_order ?t inc1) then spec_enqueue u (taker_order ?t inc1) (B u) else B u)"
    unfolding B'_def taker_order_simps ..
  have m': "spec_match (msg_sequence m) (ord_type (order_of m) \<noteq> MARKET) (order_of m)
      (B (opposite (ord_side (order_of m)))) = (taker_order ?t inc1, fs, ref_queue (opposite s) (rm_book R1))"
    unfolding side using r1(3) x by simp
  have sp: "spec_process (msg_sequence m) (order_of m) B = (fs, B')"
    using spec_process_split [OF nc m'] unfolding side B'_alt .
  show ?thesis
  proof (cases "?t = LIMIT \<and> ro_remainingQty inc1 \<noteq> 0")
    case True
    then have R': "rm_add m R = R1\<lparr>rm_book := rm_book R1 @ [inc1]\<rparr>"
      using m by (simp add: rm_add_def word_neq_0_conv)
    have "ref_inv (rm_book R1 @ [inc1])"
      using r1(1,5,7) old new True inc1(1) by (intro ref_inv_snoc) (auto simp: ref_ids_def)
    moreover have "B' u = ref_queue u (rm_book R1 @ [inc1])" for u
      using two_sides [of u s] True r1(4) inc1(2) by (auto simp: B'_def ref_queue_snoc)
    ultimately have "ref_rel (msg_sequence m) (rm_add m R) B'"
      using old r1(7) by (auto simp: ref_rel_def R')
    then show ?thesis
      using sp r1(2,5) inc1(1) by (auto simp: R' ref_ids_def)
  next
    case False
    then have R': "rm_add m R = R1"
      using m by (auto simp: rm_add_def)
    have "B' u = ref_queue u (rm_book R1)" for u
      using two_sides [of u s] False r1(4) by (auto simp: B'_def)
    then have "ref_rel (msg_sequence m) (rm_add m R) B'"
      using old r1(1) by (auto simp: ref_rel_def R')
    then show ?thesis
      using sp r1(2,5) by (auto simp: R' ref_ids_def)
  qed
qed

lemma eraseOrder_spec:
  assumes rel: "ref_rel seq R B"
  shows "i \<notin> ref_ids R \<Longrightarrow> eraseOrder i R = (None, R)"
    and "i \<in> ref_ids R \<Longrightarrow> \<exists>old R1. eraseOrder i R = (Some old, R1) \<and> old \<in> set (rm_book R) \<and>
      ro_orderId old = i \<and> rm_fills R1 = rm_fills R \<and> ref_rel seq R1 (snd (spec_cancel i B)) \<and> ref_ids R1 = ref_ids R - {i}"
proof -
  show "eraseOrder i R = (None, R)" if "i \<notin> ref_ids R"
  proof -
    have "List.extract (\<lambda>x. ro_orderId x = i) (rm_book R) = None"
      using that by (auto simp: extract_None_iff ref_ids_def)
    then show ?thesis
      by (simp add: eraseOrder_def)
  qed
  show "\<exists>old R1. eraseOrder i R = (Some old, R1) \<and> old \<in> set (rm_book R) \<and> ro_orderId old = i \<and>
      rm_fills R1 = rm_fills R \<and> ref_rel seq R1 (snd (spec_cancel i B)) \<and> ref_ids R1 = ref_ids R - {i}"
    if "i \<in> ref_ids R"
  proof -
    have "List.extract (\<lambda>x. ro_orderId x = i) (rm_book R) \<noteq> None"
      using that by (auto simp: extract_None_iff ref_ids_def)
    then obtain xs old ys where ex: "List.extract (\<lambda>x. ro_orderId x = i) (rm_book R) = Some (xs, old, ys)"
      by auto
    then have b: "rm_book R = xs @ old # ys" "ro_orderId old = i" "\<forall>y\<in>set xs. ro_orderId y \<noteq> i"
      by (auto simp: extract_Some_iff)
    have inv: "ref_inv (rm_book R)"
      using rel by (simp add: ref_rel_def)
    then have ys: "\<forall>y\<in>set ys. ro_orderId y \<noteq> i"
      using b by (auto simp: ref_inv_def image_iff)
    have f: "xs @ ys = filter (\<lambda>x. ro_orderId x \<noteq> i) (rm_book R)"
      using b ys by simp
    have inv': "ref_inv (xs @ ys)"
      using inv unfolding f by (auto simp: ref_inv_def sorted_filter distinct_map_filter)
    have "map to_order (xs @ ys) = filter (\<lambda>x. ord_orderId x \<noteq> i) (map to_order (rm_book R))"
      unfolding f by (simp add: filter_map comp_def)
    then have "ref_queue s (xs @ ys) = filter (\<lambda>x. ord_orderId x \<noteq> i) (ref_queue s (rm_book R))" for s
      by (simp add: ref_queue_def ranked_filter)
    then have "ref_rel seq (R\<lparr>rm_book := xs @ ys\<rparr>) (snd (spec_cancel i B))"
      using rel inv' b by (auto simp: ref_rel_def spec_cancel_def)
    moreover have "ref_ids (R\<lparr>rm_book := xs @ ys\<rparr>) = ref_ids R - {i}"
      unfolding ref_ids_def using f by auto
    ultimately show ?thesis
      using ex b by (auto simp: eraseOrder_def)
  qed
qed

lemma ref_find:
  assumes rel: "ref_rel seq R B" and old: "old \<in> set (rm_book R)"
  shows "spec_find (ro_orderId old) B = Some (to_order old)"
proof -
  let ?i = "ro_orderId old"
  have inv: "ref_inv (rm_book R)" and B: "B = (\<lambda>s. ref_queue s (rm_book R))"
    using rel by (simp_all add: ref_rel_def)
  have mem: "set (B BUY @ B SELL) = to_order ` set (rm_book R)"
  proof -
    have side: "ro_side x \<noteq> SELL \<longleftrightarrow> ro_side x = BUY" for x
      by (cases "ro_side x") auto
    show ?thesis
      unfolding B by (auto simp: ref_queue_def ranked_set side)
  qed
  have uniq: "x = old" if "x \<in> set (rm_book R)" "ro_orderId x = ?i" for x
    using inv that old by (auto simp: ref_inv_def distinct_map inj_on_def)
  have "find (\<lambda>x. ord_orderId x = ?i) (B BUY @ B SELL) \<noteq> None"
    using old mem by (auto simp: find_None_iff)
  then obtain x where x: "find (\<lambda>x. ord_orderId x = ?i) (B BUY @ B SELL) = Some x"
    by auto
  then have "x \<in> to_order ` set (rm_book R)" and i: "ord_orderId x = ?i"
    unfolding mem [symmetric] by (auto simp: find_Some_iff simp del: set_append)
  then obtain y where y: "y \<in> set (rm_book R)" "x = to_order y"
    by blast
  then have "x = to_order old"
    using uniq [OF y(1)] i by simp
  then show ?thesis
    using x by (simp add: spec_find_def)
qed

lemma ref_rel_later: "ref_rel seq R B \<Longrightarrow> seq \<le> seq' \<Longrightarrow> ref_rel seq' R B"
  by (auto simp: ref_rel_def)

lemma rm_modify_spec:
  assumes rel: "ref_rel (msg_sequence m) R B" and m: "msg_msgType m = MSG_MODIFY"
  shows "\<exists>fs B'. snd (spec_modify (msg_orderId m) (msg_price m) (msg_qty m) (msg_sequence m) B) = (fs, B') \<and>
           ref_rel (msg_sequence m) (rm_apply m R) B' \<and> rm_fills (rm_apply m R) = rm_fills R @ fs \<and>
           ref_ids (rm_apply m R) \<subseteq> ref_ids R"
proof (cases "msg_orderId m \<in> ref_ids R")
  case True
  obtain old R1 where e: "eraseOrder (msg_orderId m) R = (Some old, R1)" "old \<in> set (rm_book R)"
      "ro_orderId old = msg_orderId m" "rm_fills R1 = rm_fills R"
      "ref_rel (msg_sequence m) R1 (snd (spec_cancel (msg_orderId m) B))" "ref_ids R1 = ref_ids R - {msg_orderId m}"
    using eraseOrder_spec(2) [OF rel True] by blast
  let ?n = "m\<lparr>msg_msgType := MSG_ADD, msg_symbolPacked := ro_symbolPacked old,
              msg_side := side_code (ro_side old), msg_orderType := type_code LIMIT\<rparr>"
  have n: "order_of ?n = (to_order old)\<lparr>ord_price := msg_price m, ord_qty := msg_qty m,
                              ord_filledQty := 0, ord_type := LIMIT\<rparr>"
    using e(3) by (simp add: order_of_def set_order_def default_Order_def to_order_def codes_round to_OrderType_def)
  have R': "rm_apply m R = rm_add ?n R1"
    using m e(1) by (simp add: rm_apply_def)
  have sm: "spec_modify (msg_orderId m) (msg_price m) (msg_qty m) (msg_sequence m) B =
      (case spec_process (msg_sequence m) (order_of ?n) (snd (spec_cancel (msg_orderId m) B)) of (fs, B1) \<Rightarrow> (True, fs, B1))"
    using ref_find [OF rel e(2)] e(3) unfolding n by (simp add: spec_modify_def)
  have fresh: "msg_orderId ?n \<notin> ref_ids R1"
    using e(6) by simp
  from rm_add_spec [OF e(5) fresh] obtain fs B' where
      "spec_process (msg_sequence m) (order_of ?n) (snd (spec_cancel (msg_orderId m) B)) = (fs, B')"
      "ref_rel (msg_sequence m) (rm_add ?n R1) B'" "rm_fills (rm_add ?n R1) = rm_fills R @ fs"
      "ref_ids (rm_add ?n R1) \<subseteq> insert (msg_orderId m) (ref_ids R1)"
    using e(4) by auto
  then show ?thesis
    unfolding R' sm using e(6) True by auto
next
  case False
  have "spec_find (msg_orderId m) B = None"
    using ref_absent [OF rel False] by (auto simp: spec_find_def find_None_iff)
  then show ?thesis
    using eraseOrder_spec(1) [OF rel False] m rel by (simp add: rm_apply_def spec_modify_def)
qed

lemma rm_apply_spec:
  assumes rel: "ref_rel seq R B" and valid: "isValidFeedMessage m" and seq: "seq \<le> msg_sequence m"
    and add: "msg_msgType m = MSG_ADD \<Longrightarrow> msg_orderId m \<notin> ref_ids R \<and> book_size B < cap"
  shows "\<exists>fs B'. spec_apply cap m B = (fs, B') \<and> ref_rel (msg_sequence m) (rm_apply m R) B' \<and>
           rm_fills (rm_apply m R) = rm_fills R @ fs \<and>
           ref_ids (rm_apply m R) \<subseteq> ref_ids R \<union> (if msg_msgType m = MSG_ADD then {msg_orderId m} else {})"
proof -
  have rel': "ref_rel (msg_sequence m) R B"
    using rel seq by (rule ref_rel_later)
  consider (a) "msg_msgType m = MSG_ADD" | (c) "msg_msgType m = MSG_CANCEL" | (m) "msg_msgType m = MSG_MODIFY"
    using valid_cases [OF valid] by blast
  then show ?thesis
  proof cases
    case a
    then have eqs: "rm_apply m R = rm_add m R"
        "spec_apply cap m B = spec_process (msg_sequence m) (order_of m) B"
        "(if msg_msgType m = MSG_ADD then {msg_orderId m} else {}) = {msg_orderId m}"
      using add valid by (simp_all add: spec_apply_def rm_apply_def)
    show ?thesis
      using rm_add_spec [OF rel conjunct1 [OF add [OF a]] seq] unfolding eqs Un_insert_right Un_empty_right .
  next
    case c
    have eqs: "rm_apply m R = snd (eraseOrder (msg_orderId m) R)"
        "spec_apply cap m B = ([], snd (spec_cancel (msg_orderId m) B))"
      using c valid by (simp_all add: spec_apply_def rm_apply_def)
    show ?thesis
    proof (cases "msg_orderId m \<in> ref_ids R")
      case True
      obtain old R1 where e: "eraseOrder (msg_orderId m) R = (Some old, R1)" "rm_fills R1 = rm_fills R"
          "ref_rel (msg_sequence m) R1 (snd (spec_cancel (msg_orderId m) B))" "ref_ids R1 \<subseteq> ref_ids R"
        using eraseOrder_spec(2) [OF rel' True] by blast
      show ?thesis
        unfolding eqs e(1) using e(2-4) by (simp add: le_supI1)
    next
      case False
      have "snd (spec_cancel (msg_orderId m) B) = B"
        using ref_absent [OF rel' False] by (auto simp: spec_cancel_def filter_id_conv)
      then show ?thesis
        unfolding eqs using eraseOrder_spec(1) [OF rel' False] rel' by simp
    qed
  next
    case m
    have eq: "spec_apply cap m B = snd (spec_modify (msg_orderId m) (msg_price m) (msg_qty m) (msg_sequence m) B)"
      using m valid by (simp add: spec_apply_def)
    show ?thesis
      unfolding eq using rm_modify_spec [OF rel' m] by blast
  qed
qed

section \<open>Feeds\<close>

lemma ref_book_size:
  assumes "ref_rel seq R B"
  shows "book_size B = card (ref_ids R)"
proof -
  have len: "length (ranked s xs) = length (filter (\<lambda>x. ord_side x = s) xs)" for s xs
  proof -
    have one: "length (spec_enqueue s x q) = Suc (length q)" for x q
      using arg_cong [OF takeWhile_dropWhile_id, of length "\<lambda>r. \<not> price_before s (ord_price x) (ord_price r)" q]
      by (simp add: spec_enqueue_def del: takeWhile_dropWhile_id)
    have "length (fold (spec_enqueue s) ys q) = length ys + length q" for ys q
      by (induction ys arbitrary: q) (simp_all add: one)
    then show ?thesis
      by (simp add: ranked_def)
  qed
  have side: "ro_side x = SELL \<longleftrightarrow> \<not> ro_side x = BUY" for x
    by (cases "ro_side x") auto
  have "book_size B = length (rm_book R)"
    using assms sum_length_filter_compl [of "\<lambda>x. ro_side x = BUY" "rm_book R"]
    by (simp add: ref_rel_def book_size_def ref_queue_def len filter_map comp_def side)
  also have "\<dots> = card (ref_ids R)"
    using assms distinct_card [of "map ro_orderId (rm_book R)"] by (simp add: ref_rel_def ref_inv_def ref_ids_def)
  finally show ?thesis .
qed

lemma rm_feed_spec:
  assumes "ref_rel seq R B"
    and "sorted (map msg_sequence (filter isValidFeedMessage ms))"
    and "\<forall>m\<in>set ms. isValidFeedMessage m \<longrightarrow> seq \<le> msg_sequence m"
    and "distinct (map msg_orderId (valid_adds ms))"
    and "msg_orderId ` set (valid_adds ms) \<inter> ref_ids R = {}"
    and "card (ref_ids R) + length (valid_adds ms) \<le> cap"
    and "R' = fold (\<lambda>msg R. if isValidFeedMessage msg then rm_apply msg R else R) ms R"
  shows "\<exists>fs. spec_replay cap ms B = (fs, \<lambda>s. ref_queue s (rm_book R')) \<and> rm_fills R' = rm_fills R @ fs"
  using assms
proof (induction ms arbitrary: seq R B)
  case Nil
  then show ?case
    by (simp add: ref_rel_def)
next
  case (Cons m ms)
  show ?case
  proof (cases "isValidFeedMessage m")
    case False
    then have "spec_replay cap (m # ms) B = spec_replay cap ms B"
      by (simp add: spec_apply_def split_beta)
    then show ?thesis
      using Cons.IH [OF Cons.prems(1)] Cons.prems(2-7) False by (simp add: valid_adds_def)
  next
    case True
    have fin: "finite (ref_ids R)"
      by (simp add: ref_ids_def)
    let ?new = "if msg_msgType m = MSG_ADD then {msg_orderId m} else {}"
    have "\<exists>fs B'. spec_apply cap m B = (fs, B') \<and> ref_rel (msg_sequence m) (rm_apply m R) B' \<and>
        rm_fills (rm_apply m R) = rm_fills R @ fs \<and> ref_ids (rm_apply m R) \<subseteq> ref_ids R \<union> ?new"
      using Cons.prems(3,5,6) True ref_book_size [OF Cons.prems(1)]
      by (intro rm_apply_spec [OF Cons.prems(1) True]) (auto simp: valid_adds_def)
    then obtain fs B' where a: "spec_apply cap m B = (fs, B')" "ref_rel (msg_sequence m) (rm_apply m R) B'"
        "rm_fills (rm_apply m R) = rm_fills R @ fs" "ref_ids (rm_apply m R) \<subseteq> ref_ids R \<union> ?new"
      by blast
    have "card (ref_ids (rm_apply m R)) \<le> card (ref_ids R \<union> ?new)"
      using a(4) fin by (intro card_mono) auto
    also have "\<dots> \<le> card (ref_ids R) + card ?new"
      by (rule card_Un_le)
    finally have room: "card (ref_ids (rm_apply m R)) + length (valid_adds ms) \<le> cap"
      using Cons.prems(6) True by (auto simp: valid_adds_def split: if_splits)
    have "msg_orderId ` set (valid_adds ms) \<inter> (ref_ids R \<union> ?new) = {}"
      using Cons.prems(4,5) True by (auto simp: valid_adds_def split: if_splits)
    then have fresh: "msg_orderId ` set (valid_adds ms) \<inter> ref_ids (rm_apply m R) = {}"
      using a(4) by blast
    have "\<exists>gs. spec_replay cap ms B' = (gs, \<lambda>s. ref_queue s (rm_book R')) \<and>
        rm_fills R' = rm_fills (rm_apply m R) @ gs"
      using Cons.prems(2,4,7) True
      by (intro Cons.IH [OF a(2) _ _ _ fresh room]) (auto simp: valid_adds_def split: if_splits)
    then show ?thesis
      using a(1,3) by auto
  qed
qed

section \<open>The engine agrees with the reference matcher\<close>

lemma rm_run_spec:
  assumes "sorted (map msg_sequence (filter isValidFeedMessage ms))"
    and "distinct (map msg_orderId (valid_adds ms))" and "length (valid_adds ms) \<le> cap"
  shows "spec_replay cap ms (\<lambda>_. []) = (fst (rm_run ms R), \<lambda>s. ref_queue s (rm_book (snd (rm_run ms R))))"
proof -
  let ?R0 = "R\<lparr>rm_book := [], rm_fills := []\<rparr>"
  have "ref_rel 0 ?R0 (\<lambda>_. [])"
    by (simp add: ref_rel_def ref_inv_def ref_queue_def ranked_def)
  from rm_feed_spec [OF this assms(1) _ assms(2) _ _ refl] show ?thesis
    using assms(3) by (auto simp: ref_ids_def rm_run_def Let_def)
qed

text \<open>
  (C2) The pointer-level engine and the reference matcher produce the same fills in the same
  order, and leave the same book: on a feed whose valid messages carry nondecreasing sequence numbers
  and whose valid ADDs carry distinct ids, with a pool large enough for them, a replay on a new engine
  yields exactly the fills of \<open>ReferenceMatcher::run\<close>, and its priority queues hold the reference
  matcher's resting orders.
\<close>

theorem engine_matches_reference:
  assumes "pool_inv p" and "unat (m_capacity p) \<le> 4294967295" and "live (mem p) = {}"
    and "sorted (map msg_sequence (filter isValidFeedMessage feed))"
    and "distinct (map msg_orderId (valid_adds feed))"
    and "length (valid_adds feed) \<le> unat (m_capacity p)"
  shows "\<exists>r' st'. run_max feed (ReplayEngine_new MatchingEngine_new p) st = Some (r', st') \<and>
           replay_fills feed (ReplayEngine_new MatchingEngine_new p) st = Some (fst (rm_run feed R)) \<and>
           replay_book r' = (\<lambda>s. ref_queue s (rm_book (snd (rm_run feed R))))"
proof -
  let ?r = "ReplayEngine_new MatchingEngine_new p"
  have ok: "replay_ok ?r" "replay_book ?r = (\<lambda>_. [])"
    using replay_ok_new [OF assms(1-3)] by simp_all
  have cap: "replay_cap ?r = unat (m_capacity p)"
    by (simp add: replay_cap_def ReplayEngine_new_def)
  obtain r' st' fs where "run_max feed ?r st = Some (r', st')" "replay_fills feed ?r st = Some fs"
      "run_post feed fs ?r st r' st'"
    using run_max_rep [OF ok(1)] by blast
  then show ?thesis
    using rm_run_spec [OF assms(4,5), of "unat (m_capacity p)" R] assms(6) by (simp add: run_post_def ok(2) cap)
qed

definition reference_feed :: "FeedMessage list" where
  "reference_feed = sample_feed @ [makeModify 4 13 102 6, makeAdd 5 15 BUY LIMIT 103 8 7, makeCancel 6 11]"

theorem engine_matches_reference_witness:
  "\<exists>r' st' fs. run_max reference_feed (ReplayEngine_new MatchingEngine_new sample_pool) empty_ReplayStats = Some (r', st') \<and>
     replay_fills reference_feed (ReplayEngine_new MatchingEngine_new sample_pool) empty_ReplayStats = Some fs \<and>
     map fill_sellOrderId fs = [13, 12] \<and> map fill_qty fs = [6, 2]"
proof -
  let ?R = "\<lparr>rm_book = [], rm_fills = []\<rparr>"
  have "sorted (map msg_sequence (filter isValidFeedMessage reference_feed))"
      "distinct (map msg_orderId (valid_adds reference_feed))" "length (valid_adds reference_feed) \<le> unat (4 :: size_t)"
    by code_simp+
  moreover have "map fill_sellOrderId (fst (rm_run reference_feed ?R)) = [13, 12]"
      "map fill_qty (fst (rm_run reference_feed ?R)) = [6, 2]"
    by code_simp+
  ultimately show ?thesis
    using engine_matches_reference [OF sample_pool_ok(1) _ sample_pool_ok(2), of reference_feed empty_ReplayStats ?R]
      sample_pool_ok(3) by auto
qed

end
