(* ===== verification/SPSC_Ring.thy ===== *)
theory SPSC_Ring
  imports CB_Prelude
begin

text \<open>
  \<open>include/infra/SPSCRingBuffer.h\<close>: the bounded single-producer single-consumer ring.  The first part
  has the operations as the source writes them and the rounding of the capacity to a power of two.
  The interface \<open>bounded_queue\<close> is what the shards and the durability pipeline rely on.
\<close>

unbundle bit_operations_syntax

section \<open>State and operations\<close>

record 'a SPSCRingBuffer =
  rb_capacity :: size_t
  rb_mask :: size_t
  rb_slots :: "'a list"
  rb_head :: size_t
  rb_tail :: size_t

definition smear :: "nat list \<Rightarrow> size_t \<Rightarrow> size_t" where
  "smear shifts n = fold (\<lambda>shift n. n OR drop_bit shift n) shifts n"

definition nextPowerOfTwo :: "size_t \<Rightarrow> size_t" where
  "nextPowerOfTwo n = (if n \<le> 2 then 2 else smear [1, 2, 4, 8, 16, 32] (n - 1) + 1)"

text \<open>\<open>d\<close> is the value-initialised element of the slot vector.\<close>

definition SPSCRingBuffer_new :: "'a \<Rightarrow> size_t \<Rightarrow> 'a SPSCRingBuffer" where
  "SPSCRingBuffer_new d capacity =
     (let c = nextPowerOfTwo (capacity + 1)
      in \<lparr>rb_capacity = c, rb_mask = c - 1, rb_slots = replicate (unat c) d, rb_head = 0, rb_tail = 0\<rparr>)"

definition ring_increment :: "'a SPSCRingBuffer \<Rightarrow> size_t \<Rightarrow> size_t" where
  "ring_increment r i = (i + 1) AND rb_mask r"

text \<open>\<open>None\<close> is an access outside the slot vector.\<close>

definition tryPush :: "'a \<Rightarrow> 'a SPSCRingBuffer \<Rightarrow> (bool \<times> 'a SPSCRingBuffer) option" where
  "tryPush value r =
     (let head = rb_head r; nxt = ring_increment r head
      in if nxt = rb_tail r then Some (False, r)
         else if unat head < length (rb_slots r)
         then Some (True, r\<lparr>rb_slots := (rb_slots r)[unat head := value], rb_head := nxt\<rparr>)
         else None)"

definition tryPop :: "'a SPSCRingBuffer \<Rightarrow> ('a option \<times> 'a SPSCRingBuffer) option" where
  "tryPop r =
     (let tail = rb_tail r
      in if tail = rb_head r then Some (None, r)
         else if unat tail < length (rb_slots r)
         then Some (Some (rb_slots r ! unat tail), r\<lparr>rb_tail := ring_increment r tail\<rparr>)
         else None)"

definition ring_empty :: "'a SPSCRingBuffer \<Rightarrow> bool" where
  "ring_empty r \<longleftrightarrow> rb_tail r = rb_head r"

definition ring_capacity :: "'a SPSCRingBuffer \<Rightarrow> size_t" where
  "ring_capacity r = rb_capacity r - 1"

section \<open>Rounding up to a power of two\<close>

lemma smear_bits:
  "bit (smear (map (\<lambda>j. 2 ^ j) [0..<k]) n) i \<longleftrightarrow> (\<exists>j<2 ^ k. bit n (i + j))"
proof (induction k arbitrary: i)
  case 0
  then show ?case by (simp add: smear_def)
next
  case (Suc k)
  let ?m = "smear (map (\<lambda>j. 2 ^ j) [0..<k]) n"
  have "bit (smear (map (\<lambda>j. 2 ^ j) [0..<Suc k]) n) i \<longleftrightarrow> bit ?m i \<or> bit ?m (2 ^ k + i)"
    by (simp add: smear_def bit_or_iff bit_drop_bit_eq)
  also have "\<dots> \<longleftrightarrow> (\<exists>j<2 ^ k. bit n (i + j)) \<or> (\<exists>j<2 ^ k. bit n (2 ^ k + i + j))"
    using Suc.IH by simp
  also have "\<dots> \<longleftrightarrow> (\<exists>j<2 ^ Suc k. bit n (i + j))"
  proof -
    have "(\<exists>j<2 ^ k. bit n (2 ^ k + i + j)) \<longleftrightarrow> (\<exists>j. 2 ^ k \<le> j \<and> j < 2 ^ Suc k \<and> bit n (i + j))"
    proof
      assume "\<exists>j<2 ^ k. bit n (2 ^ k + i + j)"
      then obtain j where "j < 2 ^ k" "bit n (2 ^ k + i + j)" by blast
      then show "\<exists>j. 2 ^ k \<le> j \<and> j < 2 ^ Suc k \<and> bit n (i + j)"
        by (intro exI [of _ "2 ^ k + j"]) (simp add: ac_simps)
    next
      assume "\<exists>j. 2 ^ k \<le> j \<and> j < 2 ^ Suc k \<and> bit n (i + j)"
      then obtain j where "2 ^ k \<le> j" "j < 2 ^ Suc k" "bit n (i + j)" by blast
      then show "\<exists>j<2 ^ k. bit n (2 ^ k + i + j)"
        by (intro exI [of _ "j - 2 ^ k"]) (auto simp: ac_simps)
    qed
    moreover have "(\<exists>j<2 ^ Suc k. bit n (i + j)) \<longleftrightarrow>
        (\<exists>j<2 ^ k. bit n (i + j)) \<or> (\<exists>j. 2 ^ k \<le> j \<and> j < 2 ^ Suc k \<and> bit n (i + j))"
    proof -
      have "j < 2 ^ Suc k \<longleftrightarrow> j < 2 ^ k \<or> (2 ^ k \<le> j \<and> j < 2 ^ Suc k)" for j :: nat
        by auto
      then show ?thesis by blast
    qed
    ultimately show ?thesis by simp
  qed
  finally show ?case .
qed

lemma bit_unat: "bit (n :: size_t) i \<longleftrightarrow> odd (unat n div 2 ^ i)"
proof -
  have "bit n i \<longleftrightarrow> bit (unat n) i"
    by (simp add: bit_unsigned_iff)
  then show ?thesis by (simp add: bit_iff_odd)
qed

lemma smear_mask:
  assumes "2 ^ m \<le> unat n" and "unat n < 2 ^ Suc m"
  shows "smear [1, 2, 4, 8, 16, 32] n = mask (Suc m)"
proof (rule bit_word_eqI)
  fix i
  assume i: "i < LENGTH(64)"
  have m64: "m < 64"
  proof (rule ccontr)
    assume "\<not> m < 64"
    then have "(2 :: nat) ^ 64 \<le> 2 ^ m" by (intro power_increasing) auto
    then show False using assms(1) unat_u64_less [of n] by simp
  qed
  have shifts: "[1, 2, 4, 8, 16, 32] = map (\<lambda>j. (2 :: nat) ^ j) [0..<6]"
    by (simp add: upt_rec)
  have top: "bit n m"
  proof -
    have "unat n div 2 ^ m = 1"
      using assms by (intro div_nat_eqI) simp_all
    then show ?thesis by (simp add: bit_unat)
  qed
  have above: "\<not> bit n j" if "m < j" for j
  proof -
    have "(2 :: nat) ^ Suc m \<le> 2 ^ j"
      using that by (intro power_increasing) auto
    then have "unat n div 2 ^ j = 0"
      using assms(2) by simp
    then show ?thesis by (simp add: bit_unat)
  qed
  have "(\<exists>j<2 ^ 6. bit n (i + j)) \<longleftrightarrow> i \<le> m"
  proof
    assume "\<exists>j<2 ^ 6. bit n (i + j)"
    then obtain j where "bit n (i + j)" by blast
    then have "\<not> m < i + j" using above by blast
    then show "i \<le> m" by simp
  next
    assume "i \<le> m"
    then show "\<exists>j<2 ^ 6. bit n (i + j)"
      using top m64 by (intro exI [of _ "m - i"]) simp
  qed
  then show "bit (smear [1, 2, 4, 8, 16, 32] n) i \<longleftrightarrow> bit (mask (Suc m) :: size_t) i"
    unfolding shifts smear_bits using i by (simp add: bit_mask_iff less_Suc_eq_le)
qed

lemma nextPowerOfTwo_pow:
  assumes "2 < unat n"
  obtains m where "nextPowerOfTwo n = 2 ^ Suc m" and "2 ^ m < unat n" and "unat n \<le> 2 ^ Suc m"
proof -
  have n1: "unat (n - 1) = unat n - 1"
    using assms unat_sub_le [of 1 n] by simp
  obtain m where m: "2 ^ m \<le> unat n - 1" "unat n - 1 < 2 ^ Suc m"
  proof -
    have "\<exists>m. 2 ^ m \<le> unat n - 1 \<and> unat n - 1 < 2 ^ (m + 1)"
      using assms by (intro ex_power_ivl1) simp_all
    then show ?thesis
      using that by auto
  qed
  have "smear [1, 2, 4, 8, 16, 32] (n - 1) = mask (Suc m)"
    using m by (intro smear_mask) (simp_all add: n1)
  then have "nextPowerOfTwo n = 2 ^ Suc m"
    using assms by (auto simp: nextPowerOfTwo_def word_le_nat_alt mask_eq_exp_minus_1)
  then show ?thesis
    using m assms by (intro that [of m]) auto
qed

lemma nextPowerOfTwo_range:
  assumes "unat n \<le> 2 ^ 63"
  obtains k where "1 \<le> k" "k \<le> 63" "nextPowerOfTwo n = 2 ^ k" "unat n \<le> 2 ^ k" "1 < k \<Longrightarrow> 2 ^ (k - 1) < unat n"
proof (cases "2 < unat n")
  case True
  then obtain m where m: "nextPowerOfTwo n = 2 ^ Suc m" "2 ^ m < unat n" "unat n \<le> 2 ^ Suc m"
    by (rule nextPowerOfTwo_pow)
  have "(2 :: nat) ^ m < 2 ^ 63"
    using m(2) assms by linarith
  then have "m < 63"
    by (simp only: power_strict_increasing_iff [of "2 :: nat"])
  then show ?thesis
    using m by (intro that [of "Suc m"]) auto
next
  case False
  then show ?thesis
    by (intro that [of 1]) (auto simp: nextPowerOfTwo_def word_le_nat_alt)
qed

section \<open>The queue in the ring\<close>

definition ring_shape :: "'a SPSCRingBuffer \<Rightarrow> nat \<Rightarrow> bool" where
  "ring_shape r k \<longleftrightarrow> 1 \<le> k \<and> k \<le> 63 \<and> rb_capacity r = 2 ^ k \<and> rb_mask r = 2 ^ k - 1 \<and>
     length (rb_slots r) = 2 ^ k"

text \<open>The \<open>i\<close>-th queued element is \<open>i\<close> slots after the tail, around the ring.\<close>

definition ring_rep :: "'a SPSCRingBuffer \<Rightarrow> 'a list \<Rightarrow> bool" where
  "ring_rep r xs \<longleftrightarrow> (\<exists>k. ring_shape r k \<and> unat (rb_tail r) < 2 ^ k \<and> length xs < 2 ^ k \<and>
     unat (rb_head r) = (unat (rb_tail r) + length xs) mod 2 ^ k \<and>
     (\<forall>i<length xs. rb_slots r ! ((unat (rb_tail r) + i) mod 2 ^ k) = xs ! i))"

definition ring_ok :: "'a SPSCRingBuffer \<Rightarrow> bool" where
  "ring_ok r \<longleftrightarrow> (\<exists>xs. ring_rep r xs)"

definition ring_items :: "'a SPSCRingBuffer \<Rightarrow> 'a list" where
  "ring_items r =
     (let c = length (rb_slots r); n = (unat (rb_head r) + c - unat (rb_tail r)) mod c
      in map (\<lambda>i. rb_slots r ! ((unat (rb_tail r) + i) mod c)) [0..<n])"

definition ring_room :: "'a SPSCRingBuffer \<Rightarrow> nat" where
  "ring_room r = unat (ring_capacity r)"

lemma unat_pow: "k \<le> 63 \<Longrightarrow> unat (2 ^ k :: size_t) = 2 ^ k"
proof -
  assume "k \<le> 63"
  then have "(2 :: nat) ^ k \<le> 2 ^ 63"
    by (intro power_increasing) auto
  then have "unat (of_nat (2 ^ k) :: size_t) = 2 ^ k"
    unfolding unat_of_nat by simp
  then show ?thesis by simp
qed

lemma ring_shape_room: "ring_shape r k \<Longrightarrow> ring_room r = 2 ^ k - 1"
  by (simp add: ring_shape_def ring_room_def ring_capacity_def unat_sub_le unat_pow)

lemma ring_increment_nat:
  assumes "ring_shape r k" and "unat i < 2 ^ k"
  shows "unat (ring_increment r i) = (unat i + 1) mod 2 ^ k"
proof -
  have k: "k \<le> 63" "rb_mask r = mask k"
    using assms(1) by (auto simp: ring_shape_def mask_eq_exp_minus_1)
  have "(2 :: nat) ^ k \<le> 2 ^ 63"
    using k(1) by (intro power_increasing) auto
  then have "unat (i + 1) = unat i + 1"
    using assms(2) by (subst unat_add_u64) simp_all
  moreover have "unat (ring_increment r i) = take_bit k (unat (i + 1))"
    using k(2) by (simp add: ring_increment_def take_bit_eq_mask [symmetric] unsigned_take_bit_eq)
  ultimately show ?thesis
    by (simp add: take_bit_eq_mod)
qed

lemma mod_shift_inj:
  fixes t :: nat
  assumes "i < c" "j < c" "(t + i) mod c = (t + j) mod c"
  shows "i = j"
proof -
  have "i = j" if "i \<le> j" "j < c" "(t + i) mod c = (t + j) mod c" for i j
  proof -
    have "c dvd j - i"
      using that mod_eq_dvd_iff_nat [of "t + i" "t + j" c] by simp
    then show ?thesis
      using that by (auto dest: dvd_imp_le)
  qed
  then show ?thesis
    using assms by (metis nle_le)
qed

lemma ring_items_rep:
  assumes "ring_rep r xs"
  shows "ring_items r = xs"
proof -
  obtain k where k: "ring_shape r k" "unat (rb_tail r) < 2 ^ k" "length xs < 2 ^ k"
      "unat (rb_head r) = (unat (rb_tail r) + length xs) mod 2 ^ k"
      "\<forall>i<length xs. rb_slots r ! ((unat (rb_tail r) + i) mod 2 ^ k) = xs ! i"
    using assms by (auto simp: ring_rep_def)
  let ?c = "2 ^ k :: nat" and ?t = "unat (rb_tail r)"
  have "((?t + length xs) mod ?c + ?c - ?t) mod ?c = length xs"
  proof (cases "?t + length xs < ?c")
    case True
    then show ?thesis using k(3) by simp
  next
    case False
    then have "(?t + length xs) mod ?c = ?t + length xs - ?c"
      using k(2,3) by (simp add: mod_if)
    then show ?thesis using False k(3) by simp
  qed
  moreover have "length (rb_slots r) = ?c"
    using k(1) by (simp add: ring_shape_def)
  ultimately have "ring_items r = map (\<lambda>i. rb_slots r ! ((?t + i) mod ?c)) [0..<length xs]"
    unfolding ring_items_def Let_def k(4) by (simp only:)
  then show ?thesis
    using k(5) by (intro nth_equalityI) simp_all
qed

lemma ring_room_rep: "ring_rep r xs \<Longrightarrow> length xs \<le> ring_room r"
  by (auto simp: ring_rep_def ring_shape_room)

lemma ring_rep_bounds:
  assumes "ring_rep r xs"
  shows "unat (rb_head r) < length (rb_slots r)" and "unat (rb_tail r) < length (rb_slots r)"
  using assms by (auto simp: ring_rep_def ring_shape_def)

lemma ring_next_tail:
  assumes "ring_rep r xs"
  shows "ring_increment r (rb_head r) = rb_tail r \<longleftrightarrow> length xs = ring_room r"
proof -
  obtain k where k: "ring_shape r k" "unat (rb_tail r) < 2 ^ k" "length xs < 2 ^ k"
      "unat (rb_head r) = (unat (rb_tail r) + length xs) mod 2 ^ k"
    using assms by (auto simp: ring_rep_def)
  let ?c = "2 ^ k :: nat" and ?t = "unat (rb_tail r)"
  have "unat (ring_increment r (rb_head r)) = (?t + length xs + 1) mod ?c"
    using ring_increment_nat [OF k(1), of "rb_head r"] k(4) by (simp add: mod_Suc_eq)
  moreover have "?t = (?t + ?c) mod ?c"
    using k(2) by simp
  moreover have "(?t + length xs + 1) mod ?c = (?t + ?c) mod ?c \<longleftrightarrow> length xs + 1 = ?c"
  proof
    assume "(?t + length xs + 1) mod ?c = (?t + ?c) mod ?c"
    then have "(?t + (length xs + 1) mod ?c) mod ?c = (?t + 0) mod ?c"
      by (simp add: mod_simps)
    then have "(length xs + 1) mod ?c = 0"
      by (rule mod_shift_inj [rotated 2]) simp_all
    then show "length xs + 1 = ?c"
      using k(3) by (simp add: mod_Suc split: if_splits)
  next
    assume "length xs + 1 = ?c"
    then show "(?t + length xs + 1) mod ?c = (?t + ?c) mod ?c"
      by (simp only: add.assoc)
  qed
  ultimately show ?thesis
    using k(3) ring_shape_room [OF k(1)] by (auto simp flip: word_unat_eq_iff)
qed

lemma ring_write:
  assumes "ring_rep r xs"
  shows "ring_rep (r\<lparr>rb_slots := (rb_slots r)[unat (rb_head r) := v]\<rparr>) xs"
proof -
  obtain k where k: "ring_shape r k" "unat (rb_tail r) < 2 ^ k" "length xs < 2 ^ k"
      "unat (rb_head r) = (unat (rb_tail r) + length xs) mod 2 ^ k"
      "\<forall>i<length xs. rb_slots r ! ((unat (rb_tail r) + i) mod 2 ^ k) = xs ! i"
    using assms by (auto simp: ring_rep_def)
  have ne: "unat (rb_head r) \<noteq> (unat (rb_tail r) + i) mod 2 ^ k" if "i < length xs" for i
    using mod_shift_inj [of i "2 ^ k" "length xs" "unat (rb_tail r)"] that k(3,4) by auto
  have "(rb_slots r)[unat (rb_head r) := v] ! ((unat (rb_tail r) + i) mod 2 ^ k) = xs ! i" if "i < length xs" for i
    using ne [OF that] k(5) that by simp
  then show ?thesis
    unfolding ring_rep_def using k(1-4) by (intro exI [of _ k]) (simp add: ring_shape_def)
qed

lemma ring_publish:
  assumes "ring_rep r xs" and "length xs < ring_room r" and "rb_slots r ! unat (rb_head r) = v"
  shows "ring_rep (r\<lparr>rb_head := ring_increment r (rb_head r)\<rparr>) (xs @ [v])"
proof -
  obtain k where k: "ring_shape r k" "unat (rb_tail r) < 2 ^ k" "length xs < 2 ^ k"
      "unat (rb_head r) = (unat (rb_tail r) + length xs) mod 2 ^ k"
      "\<forall>i<length xs. rb_slots r ! ((unat (rb_tail r) + i) mod 2 ^ k) = xs ! i"
    using assms by (auto simp: ring_rep_def)
  have "unat (ring_increment r (rb_head r)) = (unat (rb_tail r) + length (xs @ [v])) mod 2 ^ k"
    using ring_increment_nat [OF k(1), of "rb_head r"] k(4) by (simp add: mod_Suc_eq)
  moreover have "rb_slots r ! ((unat (rb_tail r) + i) mod 2 ^ k) = (xs @ [v]) ! i" if "i < length (xs @ [v])" for i
    using that k(4,5) assms(3) by (auto simp: nth_append less_Suc_eq)
  ultimately show ?thesis
    using k(1,2) assms(2) ring_shape_room [OF k(1)]
    by (auto simp: ring_rep_def ring_shape_def intro!: exI [of _ k])
qed

lemma ring_front:
  assumes "ring_rep r (x # xs)"
  shows "rb_slots r ! unat (rb_tail r) = x"
  using assms by (auto simp: ring_rep_def)

lemma ring_release:
  assumes "ring_rep r (x # xs)"
  shows "ring_rep (r\<lparr>rb_tail := ring_increment r (rb_tail r)\<rparr>) xs"
proof -
  obtain k where k: "ring_shape r k" "unat (rb_tail r) < 2 ^ k" "length (x # xs) < 2 ^ k"
      "unat (rb_head r) = (unat (rb_tail r) + length (x # xs)) mod 2 ^ k"
      "\<forall>i<length (x # xs). rb_slots r ! ((unat (rb_tail r) + i) mod 2 ^ k) = (x # xs) ! i"
    using assms by (auto simp: ring_rep_def)
  have t: "unat (ring_increment r (rb_tail r)) = (unat (rb_tail r) + 1) mod 2 ^ k"
    using ring_increment_nat [OF k(1,2)] .
  have "rb_slots r ! (((unat (rb_tail r) + 1) mod 2 ^ k + i) mod 2 ^ k) = xs ! i" if "i < length xs" for i
    using k(5) that by (auto simp: mod_simps dest: spec [of _ "Suc i"])
  moreover have "unat (rb_head r) = ((unat (rb_tail r) + 1) mod 2 ^ k + length xs) mod 2 ^ k"
    using k(4) by (simp add: mod_simps)
  ultimately show ?thesis
    using k(1,3) t by (auto simp: ring_rep_def ring_shape_def intro!: exI [of _ k])
qed

lemma ring_head_tail:
  assumes "ring_rep r xs"
  shows "rb_tail r = rb_head r \<longleftrightarrow> xs = []"
proof -
  obtain k where k: "unat (rb_tail r) < 2 ^ k" "length xs < 2 ^ k"
      "unat (rb_head r) = (unat (rb_tail r) + length xs) mod 2 ^ k"
    using assms by (auto simp: ring_rep_def)
  have "rb_tail r = rb_head r \<longleftrightarrow> (unat (rb_tail r) + 0) mod 2 ^ k = (unat (rb_tail r) + length xs) mod 2 ^ k"
    using k by (simp add: word_unat_eq_iff)
  also have "\<dots> \<longleftrightarrow> xs = []"
    using mod_shift_inj [of 0 "2 ^ k" "length xs" "unat (rb_tail r)"] k(2) by auto
  finally show ?thesis .
qed

section \<open>The interface\<close>

text \<open>
  The loop of a producer that offers a batch and stops at the first refusal, counting what was
  accepted; a consumer that handles a list of elements in order.
\<close>

fun push_while :: "('a \<Rightarrow> 's \<Rightarrow> (bool \<times> 's) option) \<Rightarrow> 'a list \<Rightarrow> 's \<Rightarrow> (nat \<times> 's) option" where
  "push_while push [] s = Some (0, s)"
| "push_while push (x # xs) s = do {
     (ok, s1) \<leftarrow> push x s;
     if \<not> ok then Some (0, s1)
     else do { (n, s2) \<leftarrow> push_while push xs s1; Some (Suc n, s2) }
   }"

fun handle_all :: "('a \<Rightarrow> 's \<Rightarrow> 's option) \<Rightarrow> 'a list \<Rightarrow> 's \<Rightarrow> 's option" where
  "handle_all handle [] s = Some s"
| "handle_all handle (x # xs) s = do { s1 \<leftarrow> handle x s; handle_all handle xs s1 }"

locale bounded_queue =
  fixes inv :: "'q \<Rightarrow> bool"
    and items :: "'q \<Rightarrow> 'a list"
    and room :: "'q \<Rightarrow> nat"
    and push :: "'a \<Rightarrow> 'q \<Rightarrow> (bool \<times> 'q) option"
    and pop :: "'q \<Rightarrow> ('a option \<times> 'q) option"
    and is_empty :: "'q \<Rightarrow> bool"
  assumes fits: "inv q \<Longrightarrow> length (items q) \<le> room q"
    and push_room: "inv q \<Longrightarrow> length (items q) < room q \<Longrightarrow>
      \<exists>q'. push x q = Some (True, q') \<and> inv q' \<and> items q' = items q @ [x] \<and> room q' = room q"
    and push_full: "inv q \<Longrightarrow> length (items q) = room q \<Longrightarrow> push x q = Some (False, q)"
    and pop_some: "inv q \<Longrightarrow> items q = x # xs \<Longrightarrow>
      \<exists>q'. pop q = Some (Some x, q') \<and> inv q' \<and> items q' = xs \<and> room q' = room q"
    and pop_none: "inv q \<Longrightarrow> items q = [] \<Longrightarrow> pop q = Some (None, q)"
    and empty_items: "inv q \<Longrightarrow> is_empty q \<longleftrightarrow> items q = []"
begin

lemma push_while_accepts:
  assumes "inv q"
  shows "\<exists>q'. push_while push xs q = Some (min (length xs) (room q - length (items q)), q') \<and> inv q' \<and>
           items q' = items q @ take (room q - length (items q)) xs \<and> room q' = room q"
  using assms
proof (induction xs arbitrary: q)
  case Nil
  then show ?case by simp
next
  case (Cons x xs)
  show ?case
  proof (cases "length (items q) < room q")
    case True
    then obtain q1 where q1: "push x q = Some (True, q1)" "inv q1" "items q1 = items q @ [x]" "room q1 = room q"
      using push_room Cons.prems by blast
    have "room q - length (items q) = Suc (room q1 - length (items q1))"
      using True q1(3,4) by simp
    then show ?thesis
      using Cons.IH [OF q1(2)] q1 by fastforce
  next
    case False
    then have "length (items q) = room q"
      using fits [OF Cons.prems] by simp
    then show ?thesis
      using push_full Cons.prems by simp
  qed
qed

end

section \<open>The ring implements it\<close>

lemma ring_rep_items: "ring_ok r \<Longrightarrow> ring_rep r (ring_items r)"
  using ring_items_rep by (auto simp: ring_ok_def)

lemma ring_okI: "ring_rep r xs \<Longrightarrow> ring_ok r \<and> ring_items r = xs"
  using ring_items_rep by (auto simp: ring_ok_def)

lemma ring_room_upd [simp]:
  "ring_room (r\<lparr>rb_slots := a\<rparr>) = ring_room r" "ring_room (r\<lparr>rb_head := h\<rparr>) = ring_room r"
  "ring_room (r\<lparr>rb_tail := t\<rparr>) = ring_room r"
  by (simp_all add: ring_room_def ring_capacity_def)

lemma tryPush_room:
  assumes "ring_rep r xs" and "length xs < ring_room r"
  shows "\<exists>r'. tryPush v r = Some (True, r') \<and> ring_rep r' (xs @ [v]) \<and> ring_room r' = ring_room r"
proof -
  let ?w = "r\<lparr>rb_slots := (rb_slots r)[unat (rb_head r) := v]\<rparr>"
  have b: "unat (rb_head r) < length (rb_slots r)"
    using ring_rep_bounds [OF assms(1)] by simp
  have "ring_increment r (rb_head r) \<noteq> rb_tail r"
    using ring_next_tail [OF assms(1)] assms(2) by simp
  then have "tryPush v r = Some (True, ?w\<lparr>rb_head := ring_increment ?w (rb_head ?w)\<rparr>)"
    using b by (simp add: tryPush_def ring_increment_def Let_def)
  moreover have "ring_rep (?w\<lparr>rb_head := ring_increment ?w (rb_head ?w)\<rparr>) (xs @ [v])"
    using assms(2) b by (intro ring_publish ring_write [OF assms(1)]) simp_all
  ultimately show ?thesis by simp
qed

lemma tryPop_some:
  assumes "ring_rep r (x # xs)"
  shows "\<exists>r'. tryPop r = Some (Some x, r') \<and> ring_rep r' xs \<and> ring_room r' = ring_room r"
  using ring_release [OF assms] ring_head_tail [OF assms] ring_rep_bounds [OF assms] ring_front [OF assms]
  by (simp add: tryPop_def Let_def)

interpretation ring: bounded_queue ring_ok ring_items ring_room tryPush tryPop ring_empty
proof unfold_locales
  fix q :: "'a SPSCRingBuffer" and x xs
  assume ok: "ring_ok q"
  note rep = ring_rep_items [OF ok]
  show "length (ring_items q) \<le> ring_room q"
    by (rule ring_room_rep [OF rep])
  show "\<exists>q'. tryPush x q = Some (True, q') \<and> ring_ok q' \<and> ring_items q' = ring_items q @ [x] \<and> ring_room q' = ring_room q"
    if "length (ring_items q) < ring_room q"
    using tryPush_room [OF rep that, of x] ring_okI by blast
  show "tryPush x q = Some (False, q)" if "length (ring_items q) = ring_room q"
    using ring_next_tail [OF rep] that by (simp add: tryPush_def Let_def)
  show "\<exists>q'. tryPop q = Some (Some x, q') \<and> ring_ok q' \<and> ring_items q' = xs \<and> ring_room q' = ring_room q"
    if "ring_items q = x # xs"
    using tryPop_some rep that ring_okI by metis
  show "tryPop q = Some (None, q)" if "ring_items q = []"
    using ring_head_tail [OF rep] that by (simp add: tryPop_def Let_def)
  show "ring_empty q \<longleftrightarrow> ring_items q = []"
    using ring_head_tail [OF rep] by (simp add: ring_empty_def)
qed

lemma ring_new:
  assumes "unat capacity < 2 ^ 63"
  shows "ring_ok (SPSCRingBuffer_new d capacity)" and "ring_items (SPSCRingBuffer_new d capacity) = []"
    and "unat capacity \<le> ring_room (SPSCRingBuffer_new d capacity)"
proof -
  have n: "unat (capacity + 1) = unat capacity + 1"
    using assms by (subst unat_add_u64) simp_all
  obtain k where k: "1 \<le> k" "k \<le> 63" "nextPowerOfTwo (capacity + 1) = 2 ^ k" "unat (capacity + 1) \<le> 2 ^ k"
    using nextPowerOfTwo_range [of "capacity + 1"] assms n by (metis Suc_eq_plus1 Suc_leI)
  have sh: "ring_shape (SPSCRingBuffer_new d capacity) k"
    using k unat_pow [OF k(2)] by (simp add: ring_shape_def SPSCRingBuffer_new_def Let_def)
  then have "ring_rep (SPSCRingBuffer_new d capacity) []"
    unfolding ring_rep_def by (intro exI [of _ k]) (simp add: SPSCRingBuffer_new_def Let_def)
  then show "ring_ok (SPSCRingBuffer_new d capacity)" "ring_items (SPSCRingBuffer_new d capacity) = []"
    using ring_okI by blast+
  show "unat capacity \<le> ring_room (SPSCRingBuffer_new d capacity)"
    using ring_shape_room [OF sh] k(4) n by simp
qed

section \<open>Properties\<close>

text \<open>
  \<open>nextPowerOfTwo\<close> computes the least power of two that is at least \<open>n\<close> and at least 2, for every
  \<open>n\<close> that has one below \<open>2 ^ 64\<close>; for larger \<open>n\<close> the final increment wraps to 0.
\<close>

lemma nextPowerOfTwo_least:
  "unat (nextPowerOfTwo n) =
     (if unat n \<le> 2 then 2 else if unat n \<le> 2 ^ 63 then 2 ^ (LEAST k. unat n \<le> 2 ^ k) else 0)"
proof (cases "unat n \<le> 2")
  case True
  then show ?thesis by (simp add: nextPowerOfTwo_def word_le_nat_alt)
next
  case False
  then have "2 < unat n"
    by simp
  then obtain m where m: "nextPowerOfTwo n = 2 ^ Suc m" "2 ^ m < unat n" "unat n \<le> 2 ^ Suc m"
    by (rule nextPowerOfTwo_pow)
  have least: "(LEAST k. unat n \<le> 2 ^ k) = Suc m"
  proof (rule Least_equality)
    show "Suc m \<le> k" if "unat n \<le> 2 ^ k" for k
    proof -
      have "(2 :: nat) ^ m < 2 ^ k"
        using m(2) that by linarith
      then show ?thesis by simp
    qed
  qed (rule m(3))
  have pow: "(2 :: nat) ^ m < 2 ^ 64"
    using order_less_trans [OF m(2) unat_u64_less] by simp
  then have "m < 64"
    by (simp only: power_strict_increasing_iff [of "2 :: nat"])
  then consider "Suc m \<le> 63" | "m = 63"
    by linarith
  then show ?thesis
  proof cases
    case 1
    then have "(2 :: nat) ^ Suc m \<le> 2 ^ 63"
      by (intro power_increasing) auto
    then show ?thesis
      using 1 False m least unat_pow [of "Suc m"] by simp
  next
    case 2
    have "(2 :: size_t) ^ 64 = 0"
      by simp
    then show ?thesis
      using 2 False m by simp
  qed
qed

end
