(* ===== verification/SPSC_Interleaving.thy ===== *)
theory SPSC_Interleaving
  imports SPSC_Ring
begin

text \<open>
  The loads and stores of \<open>tryPush\<close> and \<open>tryPop\<close> (\<open>include/infra/SPSCRingBuffer.h\<close>) as single steps.
  Every interleaving of one producer and one consumer behaves as an atomic bounded queue, and the two
  threads never touch the same slot.  Steps are sequentially consistent: each index is written by one
  thread with release order and read by the other with acquire order, and the plain slot accesses are
  shown not to race.
\<close>

section \<open>Interleavings of one producer and one consumer\<close>

text \<open>
  The two calls as sequences of single loads and stores.  A program counter holds the local variables
  the rest of the call needs; \<open>next\<close> is recomputed from \<open>head\<close> where the source reads it.
\<close>

datatype 'a producer =
    PIdle
  | PLoaded 'a size_t      \<comment> \<open>\<open>head\<close> loaded\<close>
  | PChecked 'a size_t     \<comment> \<open>\<open>tail\<close> loaded, the ring is not full\<close>
  | PWritten 'a size_t     \<comment> \<open>slot written\<close>

datatype 'a consumer =
    CIdle
  | CLoaded size_t         \<comment> \<open>\<open>tail\<close> loaded\<close>
  | CChecked size_t        \<comment> \<open>\<open>head\<close> loaded, the ring is not empty\<close>
  | CRead 'a size_t        \<comment> \<open>slot read\<close>

record 'a spsc =
  sp_ring :: "'a SPSCRingBuffer"
  sp_prod :: "'a producer"
  sp_cons :: "'a consumer"

text \<open>What a step does to the abstract queue: nothing, or an operation with its result.\<close>

datatype 'a queue_event = Tau | Pushed 'a | Refused 'a | Popped 'a | Starved

inductive spsc_step :: "'a spsc \<Rightarrow> 'a queue_event \<Rightarrow> 'a spsc \<Rightarrow> bool" where
  push_load: "sp_prod s = PIdle \<Longrightarrow>
    spsc_step s Tau (s\<lparr>sp_prod := PLoaded v (rb_head (sp_ring s))\<rparr>)"
| push_refuse: "sp_prod s = PLoaded v h \<Longrightarrow> ring_increment (sp_ring s) h = rb_tail (sp_ring s) \<Longrightarrow>
    spsc_step s (Refused v) (s\<lparr>sp_prod := PIdle\<rparr>)"
| push_check: "sp_prod s = PLoaded v h \<Longrightarrow> ring_increment (sp_ring s) h \<noteq> rb_tail (sp_ring s) \<Longrightarrow>
    spsc_step s Tau (s\<lparr>sp_prod := PChecked v h\<rparr>)"
| push_write: "sp_prod s = PChecked v h \<Longrightarrow>
    spsc_step s Tau (s\<lparr>sp_ring := (sp_ring s)\<lparr>rb_slots := (rb_slots (sp_ring s))[unat h := v]\<rparr>,
                       sp_prod := PWritten v h\<rparr>)"
| push_store: "sp_prod s = PWritten v h \<Longrightarrow>
    spsc_step s (Pushed v) (s\<lparr>sp_ring := (sp_ring s)\<lparr>rb_head := ring_increment (sp_ring s) h\<rparr>,
                              sp_prod := PIdle\<rparr>)"
| pop_load: "sp_cons s = CIdle \<Longrightarrow>
    spsc_step s Tau (s\<lparr>sp_cons := CLoaded (rb_tail (sp_ring s))\<rparr>)"
| pop_starve: "sp_cons s = CLoaded t \<Longrightarrow> t = rb_head (sp_ring s) \<Longrightarrow>
    spsc_step s Starved (s\<lparr>sp_cons := CIdle\<rparr>)"
| pop_check: "sp_cons s = CLoaded t \<Longrightarrow> t \<noteq> rb_head (sp_ring s) \<Longrightarrow>
    spsc_step s Tau (s\<lparr>sp_cons := CChecked t\<rparr>)"
| pop_read: "sp_cons s = CChecked t \<Longrightarrow>
    spsc_step s Tau (s\<lparr>sp_cons := CRead (rb_slots (sp_ring s) ! unat t) t\<rparr>)"
| pop_store: "sp_cons s = CRead v t \<Longrightarrow>
    spsc_step s (Popped v) (s\<lparr>sp_ring := (sp_ring s)\<lparr>rb_tail := ring_increment (sp_ring s) t\<rparr>,
                              sp_cons := CIdle\<rparr>)"

text \<open>The atomic bounded queue of capacity \<open>n\<close>.\<close>

fun queue_event_ok :: "nat \<Rightarrow> 'a queue_event \<Rightarrow> 'a list \<Rightarrow> 'a list \<Rightarrow> bool" where
  "queue_event_ok n Tau xs ys \<longleftrightarrow> ys = xs"
| "queue_event_ok n (Pushed v) xs ys \<longleftrightarrow> length xs < n \<and> ys = xs @ [v]"
| "queue_event_ok n (Refused v) xs ys \<longleftrightarrow> length xs = n \<and> ys = xs"
| "queue_event_ok n (Popped v) xs ys \<longleftrightarrow> xs = v # ys"
| "queue_event_ok n Starved xs ys \<longleftrightarrow> xs = [] \<and> ys = []"

fun producer_ok :: "'a SPSCRingBuffer \<Rightarrow> 'a list \<Rightarrow> 'a producer \<Rightarrow> bool" where
  "producer_ok r xs PIdle \<longleftrightarrow> True"
| "producer_ok r xs (PLoaded v h) \<longleftrightarrow> h = rb_head r"
| "producer_ok r xs (PChecked v h) \<longleftrightarrow> h = rb_head r \<and> length xs < ring_room r"
| "producer_ok r xs (PWritten v h) \<longleftrightarrow>
     h = rb_head r \<and> length xs < ring_room r \<and> rb_slots r ! unat h = v"

fun consumer_ok :: "'a SPSCRingBuffer \<Rightarrow> 'a list \<Rightarrow> 'a consumer \<Rightarrow> bool" where
  "consumer_ok r xs CIdle \<longleftrightarrow> True"
| "consumer_ok r xs (CLoaded t) \<longleftrightarrow> t = rb_tail r"
| "consumer_ok r xs (CChecked t) \<longleftrightarrow> t = rb_tail r \<and> xs \<noteq> []"
| "consumer_ok r xs (CRead v t) \<longleftrightarrow> t = rb_tail r \<and> (\<exists>ys. xs = v # ys)"

definition spsc_rep :: "'a spsc \<Rightarrow> 'a list \<Rightarrow> bool" where
  "spsc_rep s xs \<longleftrightarrow> ring_rep (sp_ring s) xs \<and> producer_ok (sp_ring s) xs (sp_prod s) \<and>
     consumer_ok (sp_ring s) xs (sp_cons s)"

lemma spsc_simulates:
  assumes "spsc_step s ev s'" and "spsc_rep s xs"
  shows "ring_room (sp_ring s') = ring_room (sp_ring s) \<and>
         (\<exists>ys. queue_event_ok (ring_room (sp_ring s)) ev xs ys \<and> spsc_rep s' ys)"
  using assms
proof (induction rule: spsc_step.induct)
  case (push_load s v)
  then show ?case by (auto simp: spsc_rep_def)
next
  case (push_refuse s v h)
  then show ?case using ring_next_tail [of "sp_ring s" xs] by (auto simp: spsc_rep_def)
next
  case (push_check s v h)
  then show ?case
    using ring_next_tail [of "sp_ring s" xs] ring_room_rep [of "sp_ring s" xs] by (auto simp: spsc_rep_def)
next
  case (push_write s v h)
  then have "consumer_ok (sp_ring s) xs (sp_cons s)" "ring_rep (sp_ring s) xs" "h = rb_head (sp_ring s)"
    by (auto simp: spsc_rep_def)
  then show ?case
    using push_write ring_write [of "sp_ring s" xs v] ring_rep_bounds [of "sp_ring s" xs]
    by (cases "sp_cons s") (auto simp: spsc_rep_def)
next
  case (push_store s v h)
  then have "consumer_ok (sp_ring s) xs (sp_cons s)"
    by (auto simp: spsc_rep_def)
  then show ?case
    using push_store ring_publish [of "sp_ring s" xs v] by (cases "sp_cons s") (auto simp: spsc_rep_def)
next
  case (pop_load s)
  then show ?case by (auto simp: spsc_rep_def)
next
  case (pop_starve s t)
  then show ?case using ring_head_tail [of "sp_ring s" xs] by (auto simp: spsc_rep_def)
next
  case (pop_check s t)
  then show ?case using ring_head_tail [of "sp_ring s" xs] by (auto simp: spsc_rep_def)
next
  case (pop_read s t)
  then obtain y ys where "xs = y # ys"
    by (cases xs) (auto simp: spsc_rep_def)
  then show ?case
    using pop_read ring_front [of "sp_ring s" y ys] by (auto simp: spsc_rep_def)
next
  case (pop_store s v t)
  then obtain ys where ys: "xs = v # ys" "t = rb_tail (sp_ring s)"
    by (auto simp: spsc_rep_def)
  have "producer_ok (sp_ring s) xs (sp_prod s)"
    using pop_store by (auto simp: spsc_rep_def)
  then show ?case
    using pop_store ring_release [of "sp_ring s" v ys] ys by (cases "sp_prod s") (auto simp: spsc_rep_def)
qed

inductive spsc_exec :: "'a spsc \<Rightarrow> 'a queue_event list \<Rightarrow> 'a spsc \<Rightarrow> bool" where
  exec_nil: "spsc_exec s [] s"
| exec_snoc: "spsc_exec s evs s' \<Longrightarrow> spsc_step s' ev s'' \<Longrightarrow> spsc_exec s (evs @ [ev]) s''"

inductive queue_exec :: "nat \<Rightarrow> 'a queue_event list \<Rightarrow> 'a list \<Rightarrow> bool" for n where
  queue_nil: "queue_exec n [] []"
| queue_snoc: "queue_exec n evs xs \<Longrightarrow> queue_event_ok n ev xs ys \<Longrightarrow> queue_exec n (evs @ [ev]) ys"

definition pushed :: "'a queue_event list \<Rightarrow> 'a list" where
  "pushed evs = concat (map (\<lambda>ev. case ev of Pushed v \<Rightarrow> [v] | _ \<Rightarrow> []) evs)"

definition popped :: "'a queue_event list \<Rightarrow> 'a list" where
  "popped evs = concat (map (\<lambda>ev. case ev of Popped v \<Rightarrow> [v] | _ \<Rightarrow> []) evs)"

lemma queue_exec_fifo: "queue_exec n evs xs \<Longrightarrow> pushed evs = popped evs @ xs"
proof (induction rule: queue_exec.induct)
  case queue_nil
  then show ?case by (simp add: pushed_def popped_def)
next
  case (queue_snoc evs xs ev ys)
  then show ?case
    by (cases ev) (simp_all add: pushed_def popped_def)
qed

definition spsc_new :: "'a \<Rightarrow> size_t \<Rightarrow> 'a spsc" where
  "spsc_new d capacity = \<lparr>sp_ring = SPSCRingBuffer_new d capacity, sp_prod = PIdle, sp_cons = CIdle\<rparr>"

lemma spsc_new_rep: "unat capacity < 2 ^ 63 \<Longrightarrow> spsc_rep (spsc_new d capacity) []"
  using ring_rep_items [OF ring_new(1), of capacity d] ring_new(2) [of capacity d]
  by (simp add: spsc_rep_def spsc_new_def)

lemma spsc_exec_rep:
  assumes "spsc_exec s0 evs s" and "spsc_rep s0 []"
  shows "\<exists>xs. queue_exec (ring_room (sp_ring s0)) evs xs \<and> spsc_rep s xs \<and> ring_room (sp_ring s) = ring_room (sp_ring s0)"
  using assms
proof (induction rule: spsc_exec.induct)
  case (exec_nil s)
  then show ?case
    using queue_nil by blast
next
  case (exec_snoc s evs s' ev s'')
  then obtain xs where "queue_exec (ring_room (sp_ring s)) evs xs" "spsc_rep s' xs"
      "ring_room (sp_ring s') = ring_room (sp_ring s)"
    by blast
  then show ?case
    using spsc_simulates [OF exec_snoc.hyps(2)] queue_snoc by metis
qed

lemma spsc_rep_items: "spsc_rep s xs \<Longrightarrow> ring_items (sp_ring s) = xs"
  using ring_items_rep by (auto simp: spsc_rep_def)

text \<open>A call that runs without interruption is the operation of the first section.\<close>

lemma tryPush_steps:
  assumes "tryPush v r = Some (b, r')"
  shows "\<exists>evs. spsc_exec \<lparr>sp_ring = r, sp_prod = PIdle, sp_cons = c\<rparr> evs \<lparr>sp_ring = r', sp_prod = PIdle, sp_cons = c\<rparr> \<and>
           filter (\<lambda>ev. ev \<noteq> Tau) evs = [if b then Pushed v else Refused v]"
proof -
  let ?s = "\<lparr>sp_ring = r, sp_prod = PIdle, sp_cons = c\<rparr>" and ?h = "rb_head r"
  have a: "spsc_exec ?s [Tau] (?s\<lparr>sp_prod := PLoaded v ?h\<rparr>)"
    using exec_snoc [OF exec_nil push_load, of ?s v] by simp
  show ?thesis
  proof (cases "ring_increment r ?h = rb_tail r")
    case True
    then show ?thesis
      using exec_snoc [OF a push_refuse, of v ?h] assms by (force simp: tryPush_def Let_def)
  next
    case False
    have b: "spsc_exec ?s [Tau, Tau] (?s\<lparr>sp_prod := PChecked v ?h\<rparr>)"
      using exec_snoc [OF a push_check, of v ?h] False by simp
    have "spsc_exec ?s [Tau, Tau, Tau] (?s\<lparr>sp_ring := r\<lparr>rb_slots := (rb_slots r)[unat ?h := v]\<rparr>, sp_prod := PWritten v ?h\<rparr>)"
      using exec_snoc [OF b push_write, of v ?h] by simp
    from exec_snoc [OF this push_store, of v ?h]
    have "spsc_exec ?s [Tau, Tau, Tau, Pushed v]
        (?s\<lparr>sp_ring := r\<lparr>rb_slots := (rb_slots r)[unat ?h := v], rb_head := ring_increment r ?h\<rparr>\<rparr>)"
      by (simp add: ring_increment_def)
    then show ?thesis
      using assms False by (auto simp: tryPush_def Let_def split: if_splits intro!: exI [of _ "[Tau, Tau, Tau, Pushed v]"])
  qed
qed

lemma tryPop_steps:
  assumes "tryPop r = Some (x, r')"
  shows "\<exists>evs. spsc_exec \<lparr>sp_ring = r, sp_prod = p, sp_cons = CIdle\<rparr> evs \<lparr>sp_ring = r', sp_prod = p, sp_cons = CIdle\<rparr> \<and>
           filter (\<lambda>ev. ev \<noteq> Tau) evs = [case x of None \<Rightarrow> Starved | Some v \<Rightarrow> Popped v]"
proof -
  let ?s = "\<lparr>sp_ring = r, sp_prod = p, sp_cons = CIdle\<rparr>" and ?t = "rb_tail r" and ?v = "rb_slots r ! unat (rb_tail r)"
  have a: "spsc_exec ?s [Tau] (?s\<lparr>sp_cons := CLoaded ?t\<rparr>)"
    using exec_snoc [OF exec_nil pop_load, of ?s] by simp
  show ?thesis
  proof (cases "?t = rb_head r")
    case True
    then show ?thesis
      using exec_snoc [OF a pop_starve, of ?t] assms by (force simp: tryPop_def Let_def)
  next
    case False
    have b: "spsc_exec ?s [Tau, Tau] (?s\<lparr>sp_cons := CChecked ?t\<rparr>)"
      using exec_snoc [OF a pop_check, of ?t] False by simp
    have "spsc_exec ?s [Tau, Tau, Tau] (?s\<lparr>sp_cons := CRead ?v ?t\<rparr>)"
      using exec_snoc [OF b pop_read, of ?t] by simp
    from exec_snoc [OF this pop_store, of ?v ?t]
    have "spsc_exec ?s [Tau, Tau, Tau, Popped ?v] (?s\<lparr>sp_ring := r\<lparr>rb_tail := ring_increment r ?t\<rparr>\<rparr>)"
      by simp
    then show ?thesis
      using assms False by (auto simp: tryPop_def Let_def split: if_splits intro!: exI [of _ "[Tau, Tau, Tau, Popped ?v]"])
  qed
qed

section \<open>Properties\<close>

text \<open>
  (C38) Every interleaving of the loads and stores of one producer and one consumer on a new ring is
  an execution of an atomic bounded queue: what was popped followed by what the ring holds is what was
  pushed, in order, without loss or duplication; a push is refused only on a full ring and a pop fails
  only on an empty one; and the ring holds at least the requested capacity.
\<close>

theorem spsc_linearizable:
  assumes "unat capacity < 2 ^ 63" and "spsc_exec (spsc_new d capacity) evs s"
  shows "\<exists>n. unat capacity \<le> n \<and> queue_exec n evs (ring_items (sp_ring s)) \<and>
           pushed evs = popped evs @ ring_items (sp_ring s) \<and> length (ring_items (sp_ring s)) \<le> n"
proof -
  let ?n = "ring_room (sp_ring (spsc_new d capacity))"
  obtain xs where xs: "queue_exec ?n evs xs" "spsc_rep s xs" "ring_room (sp_ring s) = ?n"
    using spsc_exec_rep [OF assms(2) spsc_new_rep [OF assms(1)]] by blast
  then have "ring_items (sp_ring s) = xs" "length xs \<le> ?n"
    using spsc_rep_items [OF xs(2)] ring_room_rep [of "sp_ring s" xs] xs(2,3) by (auto simp: spsc_rep_def)
  then show ?thesis
    using xs(1) queue_exec_fifo [OF xs(1)] ring_new(3) [OF assms(1), of d] by (auto simp: spsc_new_def)
qed

text \<open>
  (C39) In every reachable state of such an interleaving the slot the producer is about to write and the
  slot the consumer is about to read are inside the slot vector and distinct: the unsynchronised slot
  accesses of \<open>tryPush\<close> and \<open>tryPop\<close> never race.
\<close>

theorem spsc_race_free:
  assumes "unat capacity < 2 ^ 63" and "spsc_exec (spsc_new d capacity) evs s"
    and "sp_prod s = PChecked v h" and "sp_cons s = CChecked t"
  shows "h \<noteq> t \<and> unat h < length (rb_slots (sp_ring s)) \<and> unat t < length (rb_slots (sp_ring s))"
proof -
  obtain xs where "spsc_rep s xs"
    using spsc_exec_rep [OF assms(2) spsc_new_rep [OF assms(1)]] by blast
  then have "ring_rep (sp_ring s) xs" "h = rb_head (sp_ring s)" "t = rb_tail (sp_ring s)" "xs \<noteq> []"
    using assms(3,4) by (auto simp: spsc_rep_def)
  then show ?thesis
    using ring_head_tail [of "sp_ring s" xs] ring_rep_bounds [of "sp_ring s" xs] by auto
qed

definition sample_ring :: "nat SPSCRingBuffer" where
  "sample_ring = snd (the (tryPush 5 (SPSCRingBuffer_new 0 3)))"

lemma sample_ring_push: "tryPush 5 (SPSCRingBuffer_new 0 3) = Some (True, sample_ring)"
  by code_simp

lemma sample_spsc:
  obtains evs where "spsc_exec (spsc_new 0 3) evs \<lparr>sp_ring = sample_ring, sp_prod = PIdle, sp_cons = CIdle\<rparr>"
    "filter (\<lambda>ev. ev \<noteq> Tau) evs = [Pushed 5]"
  using tryPush_steps [OF sample_ring_push, of CIdle] by (auto simp: spsc_new_def)

theorem spsc_linearizable_witness:
  "\<exists>evs s n. spsc_exec (spsc_new (0 :: nat) 3) evs s \<and> ring_items (sp_ring s) = [5] \<and>
     3 \<le> n \<and> queue_exec n evs [5] \<and> pushed evs = popped evs @ [5]"
proof -
  obtain evs where e: "spsc_exec (spsc_new 0 3) evs \<lparr>sp_ring = sample_ring, sp_prod = PIdle, sp_cons = CIdle\<rparr>"
    by (rule sample_spsc)
  have "ring_items sample_ring = [5]"
    by code_simp
  then show ?thesis
    using spsc_linearizable [OF _ e] e by fastforce
qed

theorem spsc_race_free_witness:
  "\<exists>evs s v h t. spsc_exec (spsc_new (0 :: nat) 3) evs s \<and> sp_prod s = PChecked v h \<and> sp_cons s = CChecked t \<and> h \<noteq> t"
proof -
  let ?s = "\<lparr>sp_ring = sample_ring, sp_prod = PIdle, sp_cons = CIdle\<rparr>"
  obtain evs where e: "spsc_exec (spsc_new 0 3) evs ?s"
    by (rule sample_spsc)
  have r: "rb_head sample_ring = 1" "rb_tail sample_ring = 0" "ring_increment sample_ring 1 \<noteq> 0"
    by code_simp+
  have "spsc_exec (spsc_new 0 3) (evs @ [Tau]) (?s\<lparr>sp_prod := PLoaded 6 1\<rparr>)"
    using exec_snoc [OF e push_load, of 6] r by simp
  from exec_snoc [OF this push_check, of 6 1]
  have "spsc_exec (spsc_new 0 3) (evs @ [Tau, Tau]) (?s\<lparr>sp_prod := PChecked 6 1\<rparr>)"
    using r by simp
  from exec_snoc [OF this pop_load]
  have "spsc_exec (spsc_new 0 3) (evs @ [Tau, Tau, Tau]) (?s\<lparr>sp_prod := PChecked 6 1, sp_cons := CLoaded 0\<rparr>)"
    using r by simp
  from exec_snoc [OF this pop_check, of 0]
  have f: "spsc_exec (spsc_new 0 3) (evs @ [Tau, Tau, Tau, Tau]) (?s\<lparr>sp_prod := PChecked 6 1, sp_cons := CChecked 0\<rparr>)"
    using r by simp
  then show ?thesis
    using spsc_race_free [OF _ f, of 6 1 0] by force
qed

end
