(* ===== verification/Shard_Worker.thy ===== *)
theory Shard_Worker
  imports Replay_Engine SPSC_Ring
begin

text \<open>
  One shard of \<open>include/matching/ShardedEngine.h\<close>: an inbox ring, one order pool and one matching engine
  per symbol.  All engines of a shard allocate from the same pool; the frame rule of the engine contract
  keeps them apart.  The refinement shows that a shard is a family of specification books, one per
  symbol, that share nothing but the number of free slots.
\<close>

section \<open>State\<close>

text \<open>
  Where the worker thread of a shard is: not running, at the test of the main loop, in its body, in the
  final drain, returned.
\<close>

datatype worker_state = NoThread | Looping | Polling | Draining | Returned

record Shard =
  sh_inbox :: "FeedMessage SPSCRingBuffer"
  sh_pool :: OrderPool
  sh_engines :: "u64 \<rightharpoonup> MatchingEngine"
  sh_fills :: "Fill list"
  sh_fillScratch :: "Fill list"
  sh_processed :: u64
  sh_stopFlag :: bool
  sh_worker :: worker_state

definition Shard_new :: "os_mem \<Rightarrow> size_t \<Rightarrow> size_t \<Rightarrow> Shard result" where
  "Shard_new os poolCap ringCap =
     (case SlabPool_new sizeof_Order os poolCap False of
        Inl e \<Rightarrow> Inl e
      | Inr p \<Rightarrow> Inr \<lparr>sh_inbox = SPSCRingBuffer_new default_FeedMessage ringCap, sh_pool = p,
                       sh_engines = Map.empty, sh_fills = [], sh_fillScratch = [], sh_processed = 0,
                       sh_stopFlag = False, sh_worker = NoThread\<rparr>)"

section \<open>Applying a message\<close>

definition getEngine :: "u64 \<Rightarrow> Shard \<Rightarrow> MatchingEngine \<times> Shard" where
  "getEngine symbol sh =
     (case sh_engines sh symbol of
        Some e \<Rightarrow> (e, sh)
      | None \<Rightarrow> (MatchingEngine_new, sh\<lparr>sh_engines := (sh_engines sh)(symbol \<mapsto> MatchingEngine_new)\<rparr>))"

text \<open>The call on the engine; the flag is false when the pool had no slot for an ADD.\<close>

definition engine_message ::
  "FeedMessage \<Rightarrow> MatchingEngine \<Rightarrow> OrderPool \<Rightarrow> (bool \<times> MatchingEngine \<times> OrderPool) option" where
  "engine_message m e p =
     (if msg_msgType m = MSG_ADD then submit_order m e p
      else if msg_msgType m = MSG_CANCEL then do {
        (_, e1, p1) \<leftarrow> cancelOrder (msg_orderId m) e p;
        Some (True, e1, p1)
      }
      else do {
        (_, e1, p1) \<leftarrow> modifyOrder (msg_orderId m) (msg_price m) (msg_qty m) (msg_sequence m) e p;
        Some (True, e1, p1)
      })"

definition shard_applyMessage :: "FeedMessage \<Rightarrow> Shard \<Rightarrow> Shard option" where
  "shard_applyMessage m sh =
     (if \<not> isValidFeedMessage m then Some sh
      else do {
        let (e, sh1) = getEngine (msg_symbolPacked m) sh;
        (ok, e1, p1) \<leftarrow> engine_message m e (sh_pool sh1);
        if \<not> ok then Some (sh1\<lparr>sh_engines := (sh_engines sh1)(msg_symbolPacked m \<mapsto> e1), sh_pool := p1\<rparr>)
        else do {
          let (scratch, e2) = drainFillsInto (sh_fillScratch sh1) e1;
          Some (sh1\<lparr>sh_engines := (sh_engines sh1)(msg_symbolPacked m \<mapsto> e2), sh_pool := p1,
                    sh_fillScratch := scratch,
                    sh_fills := (if scratch \<noteq> [] then sh_fills sh1 @ scratch else sh_fills sh1)\<rparr>)
        }
      })"

text \<open>One round of either loop of \<open>workerLoop\<close> that finds a message.\<close>

definition worker_handle :: "FeedMessage \<Rightarrow> Shard \<Rightarrow> Shard option" where
  "worker_handle m sh = do {
     sh1 \<leftarrow> shard_applyMessage m sh;
     Some (sh1\<lparr>sh_processed := sh_processed sh1 + 1\<rparr>)
   }"

section \<open>Specification\<close>

text \<open>A family of books and the number of slots they occupy together.\<close>

type_synonym shard_books = "(u64 \<Rightarrow> spec_book) \<times> nat"

definition shard_spec :: "nat \<Rightarrow> FeedMessage \<Rightarrow> shard_books \<Rightarrow> Fill list \<times> shard_books" where
  "shard_spec cap m S =
     (let (BB, n) = S; B = BB (msg_symbolPacked m); others = n - book_size B;
          (fs, B') = spec_apply (cap - others) m B
      in (fs, (BB(msg_symbolPacked m := B'), others + book_size B')))"

fun shard_spec_run :: "nat \<Rightarrow> FeedMessage list \<Rightarrow> shard_books \<Rightarrow> Fill list \<times> shard_books" where
  "shard_spec_run cap [] S = ([], S)"
| "shard_spec_run cap (m # ms) S =
     (let (fs, S1) = shard_spec cap m S; (gs, S2) = shard_spec_run cap ms S1 in (fs @ gs, S2))"

definition shard_book :: "Shard \<Rightarrow> u64 \<Rightarrow> spec_book" where
  "shard_book sh symbol =
     (case sh_engines sh symbol of None \<Rightarrow> (\<lambda>_. []) | Some e \<Rightarrow> book_of e (sh_pool sh))"

definition shard_state :: "Shard \<Rightarrow> shard_books" where
  "shard_state sh = (shard_book sh, card (live (mem (sh_pool sh))))"

definition shard_cap :: "Shard \<Rightarrow> nat" where
  "shard_cap sh = unat (m_capacity (sh_pool sh))"

text \<open>
  The engines are well-formed on the shared pool, own disjoint sets of objects and together own every
  live object of it; their fill buffers are drained.
\<close>

definition shard_ok :: "Shard \<Rightarrow> bool" where
  "shard_ok sh \<longleftrightarrow> pool_inv (sh_pool sh) \<and> shard_cap sh \<le> 4294967295 \<and>
     (\<forall>x e. sh_engines sh x = Some e \<longrightarrow> engine_ok e (sh_pool sh) \<and> m_fills e = []) \<and>
     (\<forall>x y e f. sh_engines sh x = Some e \<longrightarrow> sh_engines sh y = Some f \<longrightarrow> x \<noteq> y \<longrightarrow> resting e \<inter> resting f = {}) \<and>
     live (mem (sh_pool sh)) = (\<Union>e\<in>ran (sh_engines sh). resting e)"

section \<open>Refinement\<close>

lemma engine_message_law:
  assumes ok: "engine_ok e p" and drained: "m_fills e = []" and v: "isValidFeedMessage m"
  shows "\<exists>b A e' p' fs. engine_message m e p = Some (b, e', p') \<and> engine_ok e' p' \<and> m_capacity p' = m_capacity p \<and>
           A \<inter> live (mem p) = {} \<and> heap_frame A {} (mem p) (resting e) (mem p') (resting e') \<and>
           m_fills e' = fs \<and> (\<not> b \<longrightarrow> fs = []) \<and>
           (b \<longleftrightarrow> (msg_msgType m = MSG_ADD \<longrightarrow> card (live (mem p)) < unat (m_capacity p))) \<and>
           spec_apply (unat (m_capacity p) - card (live (mem p) - resting e)) m (book_of e p) = (fs, book_of e' p')"
proof -
  have le: "card (live (mem p)) \<le> unat (m_capacity p)"
    using slab.live_le [OF engine.ok_pool [OF ok]] .
  have own: "resting e \<subseteq> live (mem p)"
    using engine.ok_owned [OF ok] .
  have fin: "finite (live (mem p))"
    using slab.finite_live [OF engine.ok_pool [OF ok]] .
  have "card (live (mem p)) = card (live (mem p) - resting e) + book_size (book_of e p)"
    using card_Diff_subset [OF finite_subset [OF own fin] own] card_mono [OF fin own] resting_card [OF ok] by simp
  then have room: "book_size (book_of e p) < unat (m_capacity p) - card (live (mem p) - resting e) \<longleftrightarrow>
      card (live (mem p)) < unat (m_capacity p)"
    using le by linarith
  consider (add) "msg_msgType m = MSG_ADD" | (cancel) "msg_msgType m = MSG_CANCEL"
    | (modify) "msg_msgType m = MSG_MODIFY" "msg_price m \<noteq> 0"
    using valid_cases [OF v] by blast
  then show ?thesis
  proof cases
    case add
    show ?thesis
    proof (cases "card (live (mem p)) < unat (m_capacity p)")
      case False
      then have "submit_order m e p = Some (False, e, p)"
        using le by (intro submit_order_full [OF ok]) simp
      moreover have "heap_frame {} {} (mem p) (resting e) (mem p) (resting e)"
        by (simp add: heap_frame_def)
      ultimately show ?thesis
        using False add v ok drained room by (auto simp: engine_message_def spec_apply_def)
    next
      case True
      then show ?thesis
        using submit_order_room [OF ok True v add] add v drained room
        by (fastforce simp: engine_message_def spec_apply_def word_unat_eq_iff)
    qed
  next
    case cancel
    then show ?thesis
      using engine.cancel_law [OF ok, where k = "msg_orderId m"] v drained
      by (fastforce simp: engine_message_def spec_apply_def word_unat_eq_iff)
  next
    case modify
    then show ?thesis
      using engine.amend_law [OF ok modify(2), where k = "msg_orderId m" and q = "msg_qty m" and ts = "msg_sequence m"] v drained
      by (fastforce simp: engine_message_def spec_apply_def word_unat_eq_iff)
  qed
qed

text \<open>Replacing the engine of one symbol, with its pool, by what a call left behind.\<close>

lemma shard_ok_engine:
  assumes "shard_ok sh" and "sh_engines sh x = Some e"
  shows "engine_ok e (sh_pool sh)" and "m_fills e = []" and "resting e \<subseteq> live (mem (sh_pool sh))"
  using assms by (auto simp: shard_ok_def ran_def)

lemma shard_ok_disjoint:
  "shard_ok sh \<Longrightarrow> sh_engines sh x = Some e \<Longrightarrow> sh_engines sh y = Some f \<Longrightarrow> x \<noteq> y \<Longrightarrow> resting e \<inter> resting f = {}"
  unfolding shard_ok_def by metis

lemma shard_ok_live: "shard_ok sh \<Longrightarrow> live (mem (sh_pool sh)) = (\<Union>e\<in>ran (sh_engines sh). resting e)"
  by (simp add: shard_ok_def)

lemma shard_replace:
  assumes ok: "shard_ok sh" and e: "sh_engines sh x = Some e" and e': "engine_ok e' p'"
    and cap: "m_capacity p' = m_capacity (sh_pool sh)" and A: "A \<inter> live (mem (sh_pool sh)) = {}"
    and fr: "heap_frame A {} (mem (sh_pool sh)) (resting e) (mem p') (resting e')" and f: "m_fills e' = []"
    and sh': "sh_engines sh' = (sh_engines sh)(x \<mapsto> e')" "sh_pool sh' = p'"
  shows "shard_ok sh' \<and> shard_book sh' = (shard_book sh)(x := book_of e' p') \<and>
     card (live (mem p')) = card (live (mem (sh_pool sh)) - resting e) + book_size (book_of e' p')"
proof -
  let ?p = "sh_pool sh"
  have nb: "engine_ok n p' \<and> book_of n p' = book_of n ?p \<and> resting n \<inter> resting e' = {}"
    if "sh_engines sh y = Some n" "y \<noteq> x" for y n
    using engine.neighbour_kept [OF e' _ shard_ok_engine(1) [OF ok that(1)] _ _ fr]
      shard_ok_disjoint [OF ok that(1) e that(2)] shard_ok_engine(3) [OF ok that(1)] A cap by auto
  have own': "resting e' \<subseteq> live (mem p')"
    using engine.ok_owned [OF e'] .
  have rest: "live (mem p') - resting e' = live (mem ?p) - resting e"
    using fr by (simp add: heap_frame_def)
  have others: "live (mem ?p) - resting e = (\<Union>n\<in>{n. \<exists>y. y \<noteq> x \<and> sh_engines sh y = Some n}. resting n)"
  proof (intro equalityI subsetI)
    fix a
    assume a: "a \<in> live (mem ?p) - resting e"
    then obtain n y where "sh_engines sh y = Some n" "a \<in> resting n"
      using shard_ok_live [OF ok] by (auto simp: ran_def)
    then show "a \<in> (\<Union>n\<in>{n. \<exists>y. y \<noteq> x \<and> sh_engines sh y = Some n}. resting n)"
      using a e by (cases "y = x") auto
  next
    fix a
    assume "a \<in> (\<Union>n\<in>{n. \<exists>y. y \<noteq> x \<and> sh_engines sh y = Some n}. resting n)"
    then obtain n y where y: "y \<noteq> x" "sh_engines sh y = Some n" "a \<in> resting n"
      by blast
    then show "a \<in> live (mem ?p) - resting e"
      using shard_ok_engine(3) [OF ok y(2)] shard_ok_disjoint [OF ok y(2) e y(1)] by blast
  qed
  have ran': "ran (sh_engines sh') = insert e' {n. \<exists>y. y \<noteq> x \<and> sh_engines sh y = Some n}"
    by (auto simp: sh'(1) ran_def)
  have "live (mem p') = resting e' \<union> (live (mem p') - resting e')"
    using own' by blast
  then have live': "live (mem p') = (\<Union>n\<in>ran (sh_engines sh'). resting n)"
    unfolding rest others ran' by simp
  have eng: "engine_ok n p' \<and> m_fills n = []" if "sh_engines sh' y = Some n" for y n
    using that sh'(1) nb shard_ok_engine(2) [OF ok] e' f by (cases "y = x") auto
  have dis: "resting n \<inter> resting k = {}" if "sh_engines sh' y = Some n" "sh_engines sh' z = Some k" "y \<noteq> z" for y z n k
    using that sh'(1) nb shard_ok_disjoint [OF ok] by (cases "y = x"; cases "z = x") auto
  have inv: "shard_ok sh'"
    unfolding shard_ok_def using engine.ok_pool [OF e'] live' eng dis ok cap sh'(2)
    by (simp add: shard_ok_def shard_cap_def)
  moreover have "shard_book sh' = (shard_book sh)(x := book_of e' p')"
    using nb sh' by (auto simp: shard_book_def fun_eq_iff split: option.splits)
  moreover have "card (live (mem p')) = card (live (mem p') - resting e') + card (resting e')"
    using own' slab.finite_live [OF engine.ok_pool [OF e']]
    by (metis card_Diff_subset card_mono diff_add finite_subset)
  ultimately show ?thesis
    using rest resting_card [OF e'] by simp
qed

lemma getEngine_ok:
  assumes "shard_ok sh" and "getEngine x sh = (e, sh1)"
  shows "shard_ok sh1" and "sh_engines sh1 x = Some e" and "shard_book sh1 = shard_book sh"
    and "\<exists>E. sh1 = sh\<lparr>sh_engines := E\<rparr>"
proof -
  have "shard_ok sh1 \<and> sh_engines sh1 x = Some e \<and> shard_book sh1 = shard_book sh \<and> (\<exists>E. sh1 = sh\<lparr>sh_engines := E\<rparr>)"
  proof (cases "sh_engines sh x")
    case (Some f)
    then show ?thesis
      using assms by (auto simp: getEngine_def intro!: exI [of _ "sh_engines sh"])
  next
    case None
    then have sh1: "e = MatchingEngine_new" "sh1 = sh\<lparr>sh_engines := (sh_engines sh)(x \<mapsto> MatchingEngine_new)\<rparr>"
      using assms(2) by (simp_all add: getEngine_def)
    note new = engine_ok_new [of "sh_pool sh"]
    have p: "pool_inv (sh_pool sh)" "unat (m_capacity (sh_pool sh)) \<le> 4294967295"
      using assms(1) by (simp_all add: shard_ok_def shard_cap_def)
    have "m_fills MatchingEngine_new = []"
      by (simp add: MatchingEngine_new_def)
    then have "shard_ok sh1"
      using assms(1) new [OF p] None unfolding sh1 shard_ok_def
      by (auto simp: shard_cap_def ran_map_upd split: if_splits)
    moreover have "shard_book sh1 = shard_book sh"
      using new(2) [OF p] None by (auto simp: sh1 shard_book_def fun_eq_iff split: option.split)
    ultimately show ?thesis
      using sh1 by auto
  qed
  then show "shard_ok sh1" "sh_engines sh1 x = Some e" "shard_book sh1 = shard_book sh" "\<exists>E. sh1 = sh\<lparr>sh_engines := E\<rparr>"
    by blast+
qed

definition shard_kept :: "Shard \<Rightarrow> Shard \<Rightarrow> bool" where
  "shard_kept sh sh' \<longleftrightarrow> sh_inbox sh' = sh_inbox sh \<and> sh_stopFlag sh' = sh_stopFlag sh \<and>
     sh_worker sh' = sh_worker sh \<and> shard_cap sh' = shard_cap sh"

lemma shard_apply_rep:
  assumes ok: "shard_ok sh"
  shows "\<exists>sh' fs. shard_applyMessage m sh = Some sh' \<and> shard_ok sh' \<and> shard_kept sh sh' \<and>
           sh_processed sh' = sh_processed sh \<and> sh_fills sh' = sh_fills sh @ fs \<and>
           shard_spec (shard_cap sh) m (shard_state sh) = (fs, shard_state sh')"
proof (cases "isValidFeedMessage m")
  case False
  let ?x = "msg_symbolPacked m"
  have "book_size (shard_book sh ?x) \<le> card (live (mem (sh_pool sh)))"
  proof (cases "sh_engines sh ?x")
    case (Some e)
    then show ?thesis
      using resting_card [OF shard_ok_engine(1) [OF ok Some], symmetric] shard_ok_engine(3) [OF ok Some]
        slab.finite_live [OF engine.ok_pool [OF shard_ok_engine(1) [OF ok Some]]]
      by (simp add: shard_book_def card_mono)
  qed (simp add: shard_book_def book_size_def)
  then show ?thesis
    using False ok by (simp add: shard_applyMessage_def shard_spec_def spec_apply_def shard_state_def shard_kept_def)
next
  case True
  let ?x = "msg_symbolPacked m"
  obtain e sh1 where g: "getEngine ?x sh = (e, sh1)"
    by (cases "getEngine ?x sh")
  note ok1 = getEngine_ok [OF ok g]
  obtain E where E: "sh1 = sh\<lparr>sh_engines := E\<rparr>"
    using ok1(4) by blast
  let ?p = "sh_pool sh"
  have p1: "sh_pool sh1 = ?p"
    by (simp add: E)
  note e = shard_ok_engine [OF ok1(1,2), unfolded p1]
  obtain b A e' p' fs where c: "engine_message m e ?p = Some (b, e', p')" "engine_ok e' p'" "m_capacity p' = m_capacity ?p"
      "A \<inter> live (mem ?p) = {}" "heap_frame A {} (mem ?p) (resting e) (mem p') (resting e')" "m_fills e' = fs" "\<not> b \<longrightarrow> fs = []"
      "spec_apply (unat (m_capacity ?p) - card (live (mem ?p) - resting e)) m (book_of e ?p) = (fs, book_of e' p')"
    using engine_message_law [OF e(1,2) True] by blast
  define sh' where "sh' = (if b then sh1\<lparr>sh_engines := (sh_engines sh1)(?x \<mapsto> e'\<lparr>m_fills := []\<rparr>), sh_pool := p',
        sh_fillScratch := fs, sh_fills := sh_fills sh1 @ fs\<rparr>
     else sh1\<lparr>sh_engines := (sh_engines sh1)(?x \<mapsto> e'\<lparr>m_fills := []\<rparr>), sh_pool := p'\<rparr>)"
  have same: "e'\<lparr>m_fills := []\<rparr> = e'" if "\<not> b"
    using that c(6,7) by (cases e') simp
  have run: "shard_applyMessage m sh = Some sh'"
  proof (cases b)
    case True
    then show ?thesis
      using \<open>isValidFeedMessage m\<close> c(1,6) g by (auto simp: shard_applyMessage_def p1 drainFillsInto_def sh'_def)
  next
    case False
    then show ?thesis
      unfolding sh'_def same [OF False]
      using \<open>isValidFeedMessage m\<close> c(1) g by (simp add: shard_applyMessage_def p1)
  qed
  have fields: "sh_engines sh' = (sh_engines sh1)(?x \<mapsto> e'\<lparr>m_fills := []\<rparr>)" "sh_pool sh' = p'"
      "sh_fills sh' = sh_fills sh @ fs" "sh_inbox sh' = sh_inbox sh" "sh_stopFlag sh' = sh_stopFlag sh"
      "sh_worker sh' = sh_worker sh" "sh_processed sh' = sh_processed sh"
    using c(7) by (auto simp: sh'_def E)
  have rep: "shard_ok sh' \<and> shard_book sh' = (shard_book sh1)(?x := book_of e' p') \<and>
      card (live (mem p')) = card (live (mem ?p) - resting e) + book_size (book_of e' p')"
    using shard_replace [OF ok1(1,2), of "e'\<lparr>m_fills := []\<rparr>" p' A sh'] c(2-5) fields(1,2) by (simp add: p1)
  have bk: "shard_book sh ?x = book_of e ?p"
    using ok1(2,3) by (auto simp: shard_book_def p1 dest!: fun_cong [of _ _ ?x])
  have "card (live (mem ?p)) - book_size (book_of e ?p) = card (live (mem ?p) - resting e)"
    using card_Diff_subset [OF finite_subset [OF e(3) slab.finite_live [OF engine.ok_pool [OF e(1)]]] e(3)]
      resting_card [OF e(1)] by simp
  then have "shard_spec (shard_cap sh) m (shard_state sh) = (fs, shard_state sh')"
    using c(8) rep ok1(3) bk fields(2) by (simp add: shard_spec_def shard_state_def shard_cap_def)
  then show ?thesis
    using run rep fields c(3) by (auto simp: shard_kept_def shard_cap_def)
qed

lemma shard_same:
  assumes "sh_engines sh' = sh_engines sh" and "sh_pool sh' = sh_pool sh"
  shows "shard_ok sh' = shard_ok sh" and "shard_state sh' = shard_state sh" and "shard_cap sh' = shard_cap sh"
proof -
  have "shard_book sh' = shard_book sh"
    by (rule ext) (simp add: shard_book_def assms cong: option.case_cong)
  then show "shard_state sh' = shard_state sh"
    using assms by (simp add: shard_state_def)
qed (use assms in \<open>simp_all add: shard_ok_def shard_cap_def\<close>)

lemma worker_handle_rep:
  assumes "shard_ok sh"
  shows "\<exists>sh' fs. worker_handle m sh = Some sh' \<and> shard_ok sh' \<and> shard_kept sh sh' \<and>
           sh_processed sh' = sh_processed sh + 1 \<and> sh_fills sh' = sh_fills sh @ fs \<and>
           shard_spec (shard_cap sh) m (shard_state sh) = (fs, shard_state sh')"
proof -
  obtain sh' fs where a: "shard_applyMessage m sh = Some sh'" "shard_ok sh'" "shard_kept sh sh'"
      "sh_processed sh' = sh_processed sh" "sh_fills sh' = sh_fills sh @ fs"
      "shard_spec (shard_cap sh) m (shard_state sh) = (fs, shard_state sh')"
    using shard_apply_rep [OF assms] by blast
  let ?s = "sh'\<lparr>sh_processed := sh_processed sh' + 1\<rparr>"
  have "shard_ok ?s" "shard_kept sh ?s" "shard_state ?s = shard_state sh'"
    using a(2,3) by (simp_all add: shard_same [of ?s sh'] shard_kept_def)
  then show ?thesis
    using a by (simp add: worker_handle_def)
qed

lemma handle_all_rep:
  assumes "shard_ok sh"
  shows "\<exists>sh' fs. handle_all worker_handle ms sh = Some sh' \<and> shard_ok sh' \<and> shard_kept sh sh' \<and>
           sh_processed sh' = sh_processed sh + of_nat (length ms) \<and> sh_fills sh' = sh_fills sh @ fs \<and>
           shard_spec_run (shard_cap sh) ms (shard_state sh) = (fs, shard_state sh')"
  using assms
proof (induction ms arbitrary: sh)
  case Nil
  then show ?case by (simp add: shard_kept_def)
next
  case (Cons m ms)
  obtain sh1 fs where a: "worker_handle m sh = Some sh1" "shard_ok sh1" "shard_kept sh sh1"
      "sh_processed sh1 = sh_processed sh + 1" "sh_fills sh1 = sh_fills sh @ fs"
      "shard_spec (shard_cap sh) m (shard_state sh) = (fs, shard_state sh1)"
    using worker_handle_rep [OF Cons.prems] by blast
  have "shard_cap sh1 = shard_cap sh"
    using a(3) by (simp add: shard_kept_def)
  then show ?case
    using Cons.IH [OF a(2)] a by (auto simp: shard_kept_def)
qed

lemma Shard_new_ok:
  assumes "storage_granted os False" and "unat poolCap \<le> 4294967295" and "unat ringCap < 2 ^ 63"
  shows "\<exists>sh. Shard_new os poolCap ringCap = Inr sh \<and> shard_ok sh \<and> shard_cap sh = unat poolCap \<and>
     sh_fills sh = [] \<and> sh_processed sh = 0 \<and> shard_state sh = (\<lambda>_ _. [], 0) \<and> ring_ok (sh_inbox sh) \<and>
     ring_items (sh_inbox sh) = [] \<and> unat ringCap \<le> ring_room (sh_inbox sh) \<and> \<not> sh_stopFlag sh \<and> sh_worker sh = NoThread"
proof -
  have "unat poolCap * 64 < 18446744073709551616"
    using assms(2) by simp
  then obtain p :: OrderPool and fl where "SlabPool_new sizeof_Order os poolCap False = Inr p" "pool_rep p fl" "live (mem p) = {}"
      "m_capacity p = poolCap"
    using SlabPool_new_rep [OF assms(1), of sizeof_Order poolCap] by (auto simp: sizeof_Order_def)
  then show ?thesis
    using assms(2) ring_new [OF assms(3), of default_FeedMessage]
    by (auto simp: Shard_new_def shard_ok_def shard_state_def shard_book_def fun_eq_iff pool_inv_def shard_cap_def)
qed

end
