(* ===== verification/Symbol_Isolation.thy ===== *)
theory Symbol_Isolation
  imports Shard_Worker
begin

text \<open>
  What the shards promise about symbols (\<open>include/matching/ShardedEngine.h\<close>, lines 9 to 11): orders never
  match across symbols, and while the shared pool has room the books of a shard evolve as if each symbol
  had an engine and a pool of its own.
\<close>

section \<open>Fills carry the symbol of the book\<close>

definition book_symbol :: "u64 \<Rightarrow> spec_book \<Rightarrow> bool" where
  "book_symbol y B \<longleftrightarrow> (\<forall>s. \<forall>x\<in>set (B s). ord_symbolPacked x = y)"

lemma spec_match_symbols:
  assumes "spec_match ts rp i q = (i', fs, q')" and "ord_symbolPacked i = y" and "\<forall>x\<in>set q. ord_symbolPacked x = y"
  shows "ord_symbolPacked i' = y \<and> (\<forall>f\<in>set fs. fill_symbolPacked f = y) \<and> (\<forall>x\<in>set q'. ord_symbolPacked x = y)"
  using assms
proof (induction q arbitrary: i i' fs q')
  case Nil
  then show ?case by simp
next
  case (Cons r q)
  let ?m = "min (remainingQty i) (remainingQty r)"
  have i1: "ord_symbolPacked (fill_by ?m i) = y" "ord_symbolPacked (fill_by ?m r) = y"
    using Cons.prems(2,3) by (simp_all add: fill_by_def)
  obtain i2 gs q2 where rec: "spec_match ts rp (fill_by ?m i) q = (i2, gs, q2)"
    by (cases "spec_match ts rp (fill_by ?m i) q") auto
  have IH: "ord_symbolPacked i2 = y \<and> (\<forall>f\<in>set gs. fill_symbolPacked f = y) \<and> (\<forall>x\<in>set q2. ord_symbolPacked x = y)"
    using Cons.IH [OF rec i1(1)] Cons.prems(3) by simp
  show ?case
    using Cons.prems IH i1 rec
    by (auto simp: Let_def mk_fill_def split: if_splits)
qed

lemma spec_process_symbols:
  assumes "spec_process ts x B = (fs, B')" and "ord_symbolPacked x = y" and "book_symbol y B"
  shows "book_symbol y B' \<and> (\<forall>f\<in>set fs. fill_symbolPacked f = y)"
proof (cases "spec_contains (ord_orderId x) B")
  case True
  then show ?thesis
    using assms by (simp add: spec_process_def)
next
  case False
  obtain x1 gs q where m: "spec_match ts (ord_type x \<noteq> MARKET) x (B (opposite (ord_side x))) = (x1, gs, q)"
    by (cases "spec_match ts (ord_type x \<noteq> MARKET) x (B (opposite (ord_side x)))") auto
  have sy: "ord_symbolPacked x1 = y \<and> (\<forall>f\<in>set gs. fill_symbolPacked f = y) \<and> (\<forall>x\<in>set q. ord_symbolPacked x = y)"
    using spec_match_symbols [OF m assms(2)] assms(3) by (simp add: book_symbol_def)
  have "fs = gs" "B' = (\<lambda>s. if s = opposite (ord_side x) then q
           else if ord_type x = LIMIT \<and> \<not> isFilled x1 then spec_enqueue s x1 (B s) else B s)"
    using spec_process_split [OF False m] assms(1) by simp_all
  then show ?thesis
    using sy assms(3) by (auto simp: book_symbol_def spec_enqueue_set)
qed

lemma spec_cancel_symbols: "book_symbol y B \<Longrightarrow> book_symbol y (snd (spec_cancel i B))"
  by (auto simp: book_symbol_def spec_cancel_def)

lemma spec_modify_symbols:
  assumes "snd (spec_modify i pr q ts B) = (fs, B')" and "book_symbol y B"
  shows "book_symbol y B' \<and> (\<forall>f\<in>set fs. fill_symbolPacked f = y)"
proof (cases "spec_find i B")
  case None
  then show ?thesis
    using assms by (simp add: spec_modify_def)
next
  case (Some x)
  then have x: "x \<in> set (B BUY @ B SELL)"
    by (auto simp: spec_find_def find_Some_iff simp del: set_append)
  then have "ord_symbolPacked x = y"
    using assms(2) by (auto simp: book_symbol_def)
  moreover have "spec_process ts (x\<lparr>ord_price := pr, ord_qty := q, ord_filledQty := 0, ord_type := LIMIT\<rparr>)
      (snd (spec_cancel i B)) = (fs, B')"
    using assms(1) Some by (auto simp: spec_modify_def split: prod.splits)
  ultimately show ?thesis
    using spec_process_symbols spec_cancel_symbols [OF assms(2)] by fastforce
qed

lemma spec_apply_symbols:
  assumes "spec_apply cap m B = (fs, B')" and "book_symbol (msg_symbolPacked m) B"
  shows "book_symbol (msg_symbolPacked m) B' \<and> (\<forall>f\<in>set fs. fill_symbolPacked f = msg_symbolPacked m)"
  using assms spec_process_symbols [of "msg_sequence m" "order_of m" B fs B' "msg_symbolPacked m"]
    spec_modify_symbols [of "msg_orderId m" "msg_price m" "msg_qty m" "msg_sequence m" B fs B'] spec_cancel_symbols
  by (auto simp: spec_apply_def order_of_def set_order_def split: if_splits)

section \<open>How much a message can add to a book\<close>

lemma length_spec_match: "spec_match ts rp i q = (i', fs, q') \<Longrightarrow> length q' \<le> length q"
proof (induction q arbitrary: i i' fs q')
  case Nil
  then show ?case by simp
next
  case (Cons r q)
  let ?m = "min (remainingQty i) (remainingQty r)"
  obtain i2 gs q2 where "spec_match ts rp (fill_by ?m i) q = (i2, gs, q2)"
    by (cases "spec_match ts rp (fill_by ?m i) q") auto
  then show ?case
    using Cons.prems Cons.IH [of "fill_by ?m i" i2 gs q2] by (auto simp: Let_def split: if_splits)
qed

lemma length_spec_enqueue: "length (spec_enqueue s x q) = Suc (length q)"
  using arg_cong [OF takeWhile_dropWhile_id, of length "\<lambda>r. \<not> price_before s (ord_price x) (ord_price r)" q]
  by (simp add: spec_enqueue_def del: takeWhile_dropWhile_id)

lemma book_size_side: "book_size B = length (B s) + length (B (opposite s))"
  by (cases s) (simp_all add: book_size_def)

lemma spec_process_size:
  assumes "spec_process ts x B = (fs, B')"
  shows "book_size B' \<le> Suc (book_size B)"
proof (cases "spec_contains (ord_orderId x) B")
  case True
  then show ?thesis
    using assms by (simp add: spec_process_def)
next
  case False
  let ?s = "ord_side x"
  obtain x1 gs q where m: "spec_match ts (ord_type x \<noteq> MARKET) x (B (opposite ?s)) = (x1, gs, q)"
    by (cases "spec_match ts (ord_type x \<noteq> MARKET) x (B (opposite ?s))") auto
  have "B' = (\<lambda>s. if s = opposite ?s then q
           else if ord_type x = LIMIT \<and> \<not> isFilled x1 then spec_enqueue s x1 (B s) else B s)"
    using spec_process_split [OF False m] assms by simp
  then show ?thesis
    using length_spec_match [OF m] by (simp add: book_size_side [of _ ?s] length_spec_enqueue)
qed

lemma spec_apply_size:
  assumes "spec_apply cap m B = (fs, B')"
  shows "book_size B' \<le> book_size B + length (valid_adds [m])"
proof -
  have cancel: "book_size (snd (spec_cancel i B)) \<le> book_size B" for i
    by (rule book_size_cancel)
  have found: "book_size (snd (spec_cancel i B)) < book_size B" if "spec_find i B = Some x" for i x
  proof -
    have "x \<in> set (B BUY @ B SELL)" "ord_orderId x = i"
      using that by (auto simp: spec_find_def find_Some_iff simp del: set_append)
    then have "length (filter (\<lambda>y. ord_orderId y \<noteq> i) (B BUY @ B SELL)) < length (B BUY @ B SELL)"
      by (intro length_filter_less) auto
    then show ?thesis
      by (simp add: book_size_def spec_cancel_def)
  qed
  have modify: "book_size B'' \<le> book_size B" if "spec_modify i pr q ts B = (ok, gs, B'')" for i pr q ts ok gs B''
    using that found [of i] spec_process_size
    by (fastforce simp: spec_modify_def split: option.splits prod.splits)
  show ?thesis
    using assms spec_process_size cancel
      modify [of "msg_orderId m" "msg_price m" "msg_qty m" "msg_sequence m"]
    by (cases "spec_modify (msg_orderId m) (msg_price m) (msg_qty m) (msg_sequence m) B")
      (fastforce simp: spec_apply_def valid_adds_def split: if_splits)
qed

section \<open>Each symbol on its own\<close>

definition books_inv :: "shard_books \<Rightarrow> bool" where
  "books_inv S \<longleftrightarrow> (\<forall>y. book_symbol y (fst S y)) \<and>
     (\<exists>F. finite F \<and> (\<forall>y. y \<notin> F \<longrightarrow> fst S y = (\<lambda>_. [])) \<and> snd S = (\<Sum>y\<in>F. book_size (fst S y)))"

lemma books_inv_empty: "books_inv (\<lambda>_ _. [], 0)"
  by (auto simp: books_inv_def book_symbol_def intro!: exI [of _ "{}"])

lemma books_inv_upd:
  assumes "books_inv S" and "book_symbol y B"
  shows "book_size (fst S y) \<le> snd S" and "books_inv ((fst S)(y := B), snd S - book_size (fst S y) + book_size B)"
proof -
  obtain F where F: "finite F" "\<forall>z. z \<notin> F \<longrightarrow> fst S z = (\<lambda>_. [])" "snd S = (\<Sum>z\<in>F. book_size (fst S z))"
    using assms(1) by (auto simp: books_inv_def)
  have n: "snd S = book_size (fst S y) + (\<Sum>z\<in>F - {y}. book_size (fst S z))"
  proof (cases "y \<in> F")
    case True
    then show ?thesis
      using F(1,3) by (simp add: sum.remove)
  next
    case False
    then show ?thesis
      using F(2,3) by (simp add: book_size_def)
  qed
  then show "book_size (fst S y) \<le> snd S" by simp
  have "(\<Sum>z\<in>insert y F. book_size (((fst S)(y := B)) z)) = book_size B + (\<Sum>z\<in>F - {y}. book_size (fst S z))"
    using F(1) by (subst sum.insert_remove) (auto intro!: sum.cong)
  then show "books_inv ((fst S)(y := B), snd S - book_size (fst S y) + book_size B)"
    using assms F(1,2) n by (auto simp: books_inv_def intro!: exI [of _ "insert y F"])
qed

lemma spec_apply_cap:
  assumes "valid_adds [m] = [] \<or> book_size B < cap \<and> book_size B < cap'"
  shows "spec_apply cap m B = spec_apply cap' m B"
  using assms by (auto simp: spec_apply_def valid_adds_def split: if_splits)

lemma shard_spec_isolated:
  assumes inv: "books_inv S" and room: "snd S + length (valid_adds [m]) \<le> cap"
    and step: "shard_spec cap m S = (fs, S')"
  shows "books_inv S'" and "snd S' \<le> snd S + length (valid_adds [m])"
    and "spec_apply cap m (fst S (msg_symbolPacked m)) = (fs, fst S' (msg_symbolPacked m))"
    and "y \<noteq> msg_symbolPacked m \<Longrightarrow> fst S' y = fst S y"
    and "\<forall>f\<in>set fs. fill_symbolPacked f = msg_symbolPacked m"
proof -
  let ?x = "msg_symbolPacked m"
  let ?B = "fst S ?x" and ?o = "snd S - book_size (fst S (msg_symbolPacked m))"
  have le: "book_size ?B \<le> snd S"
    using books_inv_upd(1) [OF inv, of ?x ?B] inv by (simp add: books_inv_def)
  obtain gs B' where a: "spec_apply (cap - ?o) m ?B = (gs, B')"
    by (cases "spec_apply (cap - ?o) m ?B") auto
  have S': "fs = gs" "S' = ((fst S)(?x := B'), ?o + book_size B')"
    using step a by (simp_all add: shard_spec_def split_beta Let_def)
  have sy: "book_symbol ?x B' \<and> (\<forall>f\<in>set gs. fill_symbolPacked f = ?x)"
    using spec_apply_symbols [OF a] inv by (simp add: books_inv_def)
  show "books_inv S'"
    using books_inv_upd(2) [OF inv, of ?x B'] sy S'(2) by simp
  show "snd S' \<le> snd S + length (valid_adds [m])"
    using spec_apply_size [OF a] le S'(2) by simp
  have "valid_adds [m] = [] \<or> book_size ?B < cap \<and> book_size ?B < cap - ?o"
  proof (cases "valid_adds [m] = []")
    case False
    then have "snd S < cap"
      using room by (cases "valid_adds [m]") auto
    then show ?thesis
      using le by linarith
  qed simp
  then show "spec_apply cap m ?B = (fs, fst S' ?x)"
    using a S' spec_apply_cap [of m ?B cap "cap - ?o"] by simp
  show "y \<noteq> ?x \<Longrightarrow> fst S' y = fst S y" "\<forall>f\<in>set fs. fill_symbolPacked f = ?x"
    using S' sy by simp_all
qed

lemma shard_run_isolated:
  assumes "books_inv S" and "snd S + length (valid_adds ms) \<le> cap" and "shard_spec_run cap ms S = (fs, S')"
  shows "spec_replay cap (filter (\<lambda>m. msg_symbolPacked m = y) ms) (fst S y) =
           (filter (\<lambda>f. fill_symbolPacked f = y) fs, fst S' y)"
  using assms
proof (induction ms arbitrary: S fs)
  case Nil
  then show ?case by simp
next
  case (Cons m ms)
  obtain gs S1 hs where s: "shard_spec cap m S = (gs, S1)" "shard_spec_run cap ms S1 = (hs, S')" "fs = gs @ hs"
    using Cons.prems(3) by (auto simp: split_beta Let_def prod_eq_iff)
  have len: "length (valid_adds (m # ms)) = length (valid_adds [m]) + length (valid_adds ms)"
    by (simp add: valid_adds_def)
  then have room: "snd S + length (valid_adds [m]) \<le> cap"
    using Cons.prems(2) by simp
  note st = shard_spec_isolated [OF Cons.prems(1) room s(1)]
  have IH: "spec_replay cap (filter (\<lambda>m. msg_symbolPacked m = y) ms) (fst S1 y) =
           (filter (\<lambda>f. fill_symbolPacked f = y) hs, fst S' y)"
    using st(1,2) len Cons.prems(2) s(2) by (intro Cons.IH) simp_all
  show ?case
  proof (cases "msg_symbolPacked m = y")
    case True
    then have "filter (\<lambda>f. fill_symbolPacked f = y) gs = gs"
      using st(5) by (simp add: filter_id_conv)
    then show ?thesis
      using True st(3) IH s(3) by simp
  next
    case False
    then have "filter (\<lambda>f. fill_symbolPacked f = y) gs = []"
      using st(5) by (auto simp: filter_empty_conv)
    then show ?thesis
      using False st(4) [of y] IH s(3) by simp
  qed
qed

end
