(* ===== verification/Sharded_Engine.thy ===== *)
theory Sharded_Engine
  imports Symbol_Isolation
begin

text \<open>
  \<open>include/matching/ShardedEngine.h\<close>: the caller routes messages by symbol into the inbox rings of the
  shards, one worker thread per shard applies them, and \<open>stop\<close> joins the workers.  The threads are an
  interleaving of steps; a ring operation is one step, as \<open>SPSC_Interleaving\<close> justifies for the one
  producer and the one consumer each ring has.  Pinning a thread to a core has no effect on the state
  and is left out.
\<close>

unbundle bit_operations_syntax

section \<open>State and construction\<close>

record ShardedEngine =
  se_numShards :: size_t
  se_shards :: "Shard list"
  se_running :: bool

fun make_shards :: "(nat \<Rightarrow> os_mem) \<Rightarrow> size_t \<Rightarrow> size_t \<Rightarrow> nat list \<Rightarrow> Shard list result" where
  "make_shards os poolCap ringCap [] = Inr []"
| "make_shards os poolCap ringCap (i # is) =
     result_bind (Shard_new (os i) poolCap ringCap) (\<lambda>sh.
       result_bind (make_shards os poolCap ringCap is) (\<lambda>shs. Inr (sh # shs)))"

text \<open>\<open>os i\<close> is what the system answers to the allocation of the \<open>i\<close>-th pool.\<close>

definition ShardedEngine_new ::
  "(nat \<Rightarrow> os_mem) \<Rightarrow> size_t \<Rightarrow> size_t \<Rightarrow> size_t \<Rightarrow> ShardedEngine result" where
  "ShardedEngine_new os numShards poolCapPerShard ringCapacity =
     (let n = (if numShards > 0 then numShards else 1)
      in result_bind (make_shards os poolCapPerShard ringCapacity [0..<unat n])
           (\<lambda>shs. Inr \<lparr>se_numShards = n, se_shards = shs, se_running = False\<rparr>))"

section \<open>The calling thread\<close>

definition shardIndex :: "size_t \<Rightarrow> u64 \<Rightarrow> size_t" where
  "shardIndex numShards symbolPacked =
     (let h = symbolPacked;
          h = h XOR drop_bit 33 h;
          h = h * 0xff51afd7ed558ccd;
          h = h XOR drop_bit 33 h
      in h mod numShards)"

definition route :: "FeedMessage \<Rightarrow> ShardedEngine \<Rightarrow> (bool \<times> ShardedEngine) option" where
  "route m E =
     (let idx = unat (shardIndex (se_numShards E) (msg_symbolPacked m))
      in if idx < length (se_shards E)
         then do {
           (ok, q) \<leftarrow> tryPush m (sh_inbox (se_shards E ! idx));
           Some (ok, E\<lparr>se_shards := (se_shards E)[idx := (se_shards E ! idx)\<lparr>sh_inbox := q\<rparr>]\<rparr>)
         }
         else None)"

definition routeBatch :: "FeedMessage list \<Rightarrow> ShardedEngine \<Rightarrow> (nat \<times> ShardedEngine) option" where
  "routeBatch msgs E = push_while route msgs E"

definition ShardedEngine_start :: "ShardedEngine \<Rightarrow> ShardedEngine" where
  "ShardedEngine_start E =
     (if se_running E then E
      else E\<lparr>se_running := True,
             se_shards := map (\<lambda>sh. sh\<lparr>sh_stopFlag := False, sh_worker := Looping\<rparr>) (se_shards E)\<rparr>)"

definition collectAllFills :: "ShardedEngine \<Rightarrow> Fill list" where
  "collectAllFills E = sort_key fill_timestamp (concat (map sh_fills (se_shards E)))"

definition totalProcessed :: "ShardedEngine \<Rightarrow> u64" where
  "totalProcessed E = fold (\<lambda>sh total. total + sh_processed sh) (se_shards E) 0"

definition shardProcessed :: "nat \<Rightarrow> ShardedEngine \<Rightarrow> u64 option" where
  "shardProcessed i E = (if i < length (se_shards E) then Some (sh_processed (se_shards E ! i)) else None)"

section \<open>The worker threads\<close>

text \<open>The steps of \<open>workerLoop\<close>: the loop test, a poll of the inbox, and the final drain.\<close>

inductive worker_step :: "Shard \<Rightarrow> FeedMessage option \<Rightarrow> Shard \<Rightarrow> bool" where
  loop_enter: "sh_worker sh = Looping \<Longrightarrow> \<not> sh_stopFlag sh \<or> \<not> ring_empty (sh_inbox sh) \<Longrightarrow>
    worker_step sh None (sh\<lparr>sh_worker := Polling\<rparr>)"
| loop_leave: "sh_worker sh = Looping \<Longrightarrow> sh_stopFlag sh \<Longrightarrow> ring_empty (sh_inbox sh) \<Longrightarrow>
    worker_step sh None (sh\<lparr>sh_worker := Draining\<rparr>)"
| poll_some: "sh_worker sh = Polling \<Longrightarrow> tryPop (sh_inbox sh) = Some (Some m, q) \<Longrightarrow>
    worker_handle m (sh\<lparr>sh_inbox := q, sh_worker := Looping\<rparr>) = Some sh' \<Longrightarrow> worker_step sh (Some m) sh'"
| poll_none: "sh_worker sh = Polling \<Longrightarrow> tryPop (sh_inbox sh) = Some (None, q) \<Longrightarrow>
    worker_step sh None (sh\<lparr>sh_inbox := q, sh_worker := Looping\<rparr>)"
| drain_some: "sh_worker sh = Draining \<Longrightarrow> tryPop (sh_inbox sh) = Some (Some m, q) \<Longrightarrow>
    worker_handle m (sh\<lparr>sh_inbox := q\<rparr>) = Some sh' \<Longrightarrow> worker_step sh (Some m) sh'"
| drain_none: "sh_worker sh = Draining \<Longrightarrow> tryPop (sh_inbox sh) = Some (None, q) \<Longrightarrow>
    worker_step sh None (sh\<lparr>sh_inbox := q, sh_worker := Returned\<rparr>)"

section \<open>The system\<close>

text \<open>\<open>stop\<close> in progress: setting the stop flags, then joining the workers, in shard order.\<close>

datatype caller_state = Ready | Signalling nat | Joining nat

record shard_system =
  ss_engine :: ShardedEngine
  ss_caller :: caller_state

abbreviation ss_shards :: "shard_system \<Rightarrow> Shard list" where
  "ss_shards S \<equiv> se_shards (ss_engine S)"

definition set_shard :: "nat \<Rightarrow> Shard \<Rightarrow> shard_system \<Rightarrow> shard_system" where
  "set_shard i sh S = S\<lparr>ss_engine := (ss_engine S)\<lparr>se_shards := (ss_shards S)[i := sh]\<rparr>\<rparr>"

datatype shard_event = Silent | Routed FeedMessage bool | Handled nat FeedMessage

inductive system_step :: "shard_system \<Rightarrow> shard_event \<Rightarrow> shard_system \<Rightarrow> bool" where
  call_start: "ss_caller S = Ready \<Longrightarrow>
    system_step S Silent (S\<lparr>ss_engine := ShardedEngine_start (ss_engine S)\<rparr>)"
| call_route: "ss_caller S = Ready \<Longrightarrow> route m (ss_engine S) = Some (ok, E) \<Longrightarrow>
    system_step S (Routed m ok) (S\<lparr>ss_engine := E\<rparr>)"
| call_stop: "ss_caller S = Ready \<Longrightarrow> se_running (ss_engine S) \<Longrightarrow>
    system_step S Silent (S\<lparr>ss_caller := Signalling 0\<rparr>)"
| stop_signal: "ss_caller S = Signalling i \<Longrightarrow> i < length (ss_shards S) \<Longrightarrow>
    system_step S Silent (set_shard i ((ss_shards S ! i)\<lparr>sh_stopFlag := True\<rparr>) (S\<lparr>ss_caller := Signalling (Suc i)\<rparr>))"
| stop_signalled: "ss_caller S = Signalling i \<Longrightarrow> i = length (ss_shards S) \<Longrightarrow>
    system_step S Silent (S\<lparr>ss_caller := Joining 0\<rparr>)"
| stop_join: "ss_caller S = Joining i \<Longrightarrow> i < length (ss_shards S) \<Longrightarrow>
    sh_worker (ss_shards S ! i) = Returned \<Longrightarrow>
    system_step S Silent (set_shard i ((ss_shards S ! i)\<lparr>sh_worker := NoThread\<rparr>) (S\<lparr>ss_caller := Joining (Suc i)\<rparr>))"
| stop_joined: "ss_caller S = Joining i \<Longrightarrow> i = length (ss_shards S) \<Longrightarrow>
    system_step S Silent (S\<lparr>ss_engine := (ss_engine S)\<lparr>se_running := False\<rparr>, ss_caller := Ready\<rparr>)"
| work: "i < length (ss_shards S) \<Longrightarrow> worker_step (ss_shards S ! i) x sh' \<Longrightarrow>
    system_step S (case x of None \<Rightarrow> Silent | Some m \<Rightarrow> Handled i m) (set_shard i sh' S)"

inductive system_exec :: "shard_system \<Rightarrow> shard_event list \<Rightarrow> shard_system \<Rightarrow> bool" for S0 where
  sys_nil: "system_exec S0 [] S0"
| sys_snoc: "system_exec S0 evs S \<Longrightarrow> system_step S ev S' \<Longrightarrow> system_exec S0 (evs @ [ev]) S'"

inductive_cases worker_stepE: "worker_step sh x sh'"

text \<open>The messages a shard accepted and those its worker applied, from the trace.\<close>

definition accepted :: "size_t \<Rightarrow> nat \<Rightarrow> shard_event list \<Rightarrow> FeedMessage list" where
  "accepted n i evs = concat (map (\<lambda>ev. case ev of
     Routed m ok \<Rightarrow> if ok \<and> unat (shardIndex n (msg_symbolPacked m)) = i then [m] else [] | _ \<Rightarrow> []) evs)"

definition handled :: "nat \<Rightarrow> shard_event list \<Rightarrow> FeedMessage list" where
  "handled i evs = concat (map (\<lambda>ev. case ev of Handled j m \<Rightarrow> if j = i then [m] else [] | _ \<Rightarrow> []) evs)"

section \<open>One shard along a trace\<close>

lemma shard_spec_run_snoc:
  "shard_spec_run cap ms S = (fs, S1) \<Longrightarrow> shard_spec cap m S1 = (gs, S2) \<Longrightarrow>
   shard_spec_run cap (ms @ [m]) S = (fs @ gs, S2)"
proof (induction ms arbitrary: S fs)
  case Nil
  then show ?case by simp
next
  case (Cons k ms)
  then show ?case
    by (auto simp: split_beta Let_def prod_eq_iff)
qed

definition shard_rep :: "nat \<Rightarrow> FeedMessage list \<Rightarrow> FeedMessage list \<Rightarrow> Shard \<Rightarrow> bool" where
  "shard_rep cap acc fin sh \<longleftrightarrow> shard_ok sh \<and> ring_ok (sh_inbox sh) \<and> shard_cap sh = cap \<and>
     acc = fin @ ring_items (sh_inbox sh) \<and>
     shard_spec_run cap fin (\<lambda>_ _. [], 0) = (sh_fills sh, shard_state sh) \<and> sh_processed sh = of_nat (length fin)"

lemma shard_rep_same:
  assumes "shard_rep cap acc fin sh" and "sh_inbox sh' = sh_inbox sh" and "sh_engines sh' = sh_engines sh"
    and "sh_pool sh' = sh_pool sh" and "sh_fills sh' = sh_fills sh" and "sh_processed sh' = sh_processed sh"
  shows "shard_rep cap acc fin sh'"
  using assms shard_same [OF assms(3,4)] by (simp add: shard_rep_def)

lemma handle_rep:
  assumes rep: "shard_rep cap acc fin sh" and pop: "tryPop (sh_inbox sh) = Some (Some m, q)"
    and same: "sh_engines sh1 = sh_engines sh" "sh_pool sh1 = sh_pool sh" "sh_fills sh1 = sh_fills sh"
      "sh_processed sh1 = sh_processed sh" "sh_inbox sh1 = q"
  obtains sh' where "worker_handle m sh1 = Some sh'" and "shard_rep cap acc (fin @ [m]) sh'" and "shard_kept sh1 sh'"
    and "ring_items (sh_inbox sh) = m # ring_items (sh_inbox sh')"
proof -
  have ok1: "shard_ok sh1" "shard_state sh1 = shard_state sh" "shard_cap sh1 = cap"
    using shard_same [OF same(1,2)] rep by (simp_all add: shard_rep_def)
  have "ring_ok (sh_inbox sh)"
    using rep by (simp add: shard_rep_def)
  then have q: "ring_ok q \<and> ring_items (sh_inbox sh) = m # ring_items q"
    using pop ring.pop_some [of "sh_inbox sh"] ring.pop_none [of "sh_inbox sh"]
    by (cases "ring_items (sh_inbox sh)") fastforce+
  obtain sh' fs where h: "worker_handle m sh1 = Some sh'" "shard_ok sh'" "shard_kept sh1 sh'"
      "sh_processed sh' = sh_processed sh1 + 1" "sh_fills sh' = sh_fills sh1 @ fs"
      "shard_spec (shard_cap sh1) m (shard_state sh1) = (fs, shard_state sh')"
    using worker_handle_rep [OF ok1(1)] by blast
  have "shard_rep cap acc (fin @ [m]) sh'"
    using rep q h shard_spec_run_snoc [of cap fin "(\<lambda>_ _. [], 0)" "sh_fills sh" "shard_state sh" m fs "shard_state sh'"] ok1 same
    by (simp add: shard_rep_def shard_kept_def)
  then show ?thesis
    using that h q same(5) by (simp add: shard_kept_def)
qed

lemma worker_step_rep:
  assumes "worker_step sh x sh'" and "shard_rep cap acc fin sh"
  shows "shard_rep cap acc (fin @ (case x of None \<Rightarrow> [] | Some m \<Rightarrow> [m])) sh'"
  using assms
proof cases
  case (poll_some m q)
  then show ?thesis
    using handle_rep [OF assms(2) poll_some(3), of "sh\<lparr>sh_inbox := q, sh_worker := Looping\<rparr>"] by fastforce
next
  case (drain_some m q)
  then show ?thesis
    using handle_rep [OF assms(2) drain_some(3), of "sh\<lparr>sh_inbox := q\<rparr>"] by fastforce
next
  case (poll_none q)
  have "q = sh_inbox sh"
    using poll_none(4) by (auto simp: tryPop_def Let_def split: if_splits)
  then show ?thesis
    using poll_none(1,2) shard_rep_same [OF assms(2), of sh'] by simp
next
  case (drain_none q)
  have "q = sh_inbox sh"
    using drain_none(4) by (auto simp: tryPop_def Let_def split: if_splits)
  then show ?thesis
    using drain_none(1,2) shard_rep_same [OF assms(2), of sh'] by simp
qed (use shard_rep_same [OF assms(2), of sh'] in simp_all)

section \<open>The whole system\<close>

text \<open>Where the flags and the threads can be while the caller is at a given place.\<close>

fun control_ok :: "caller_state \<Rightarrow> bool \<Rightarrow> nat \<Rightarrow> Shard \<Rightarrow> bool" where
  "control_ok Ready run i sh \<longleftrightarrow>
     (if run then \<not> sh_stopFlag sh \<and> sh_worker sh \<in> {Looping, Polling} else sh_worker sh = NoThread)"
| "control_ok (Signalling k) run i sh \<longleftrightarrow>
     run \<and> (sh_stopFlag sh \<longleftrightarrow> i < k) \<and> sh_worker sh \<noteq> NoThread \<and>
     (sh_worker sh \<in> {Draining, Returned} \<longrightarrow> sh_stopFlag sh \<and> ring_items (sh_inbox sh) = [])"
| "control_ok (Joining k) run i sh \<longleftrightarrow>
     run \<and> sh_stopFlag sh \<and> (sh_worker sh = NoThread \<longleftrightarrow> i < k) \<and>
     (sh_worker sh \<in> {Draining, Returned, NoThread} \<longrightarrow> ring_items (sh_inbox sh) = [])"

declare control_ok.simps [simp del]

fun caller_bound :: "caller_state \<Rightarrow> nat \<Rightarrow> bool" where
  "caller_bound Ready n \<longleftrightarrow> True"
| "caller_bound (Signalling k) n \<longleftrightarrow> k \<le> n"
| "caller_bound (Joining k) n \<longleftrightarrow> k \<le> n"

definition system_inv :: "size_t \<Rightarrow> nat \<Rightarrow> shard_event list \<Rightarrow> shard_system \<Rightarrow> bool" where
  "system_inv n cap evs S \<longleftrightarrow>
     n \<noteq> 0 \<and> se_numShards (ss_engine S) = n \<and> length (ss_shards S) = unat n \<and> caller_bound (ss_caller S) (unat n) \<and>
     (\<forall>i<unat n. shard_rep cap (accepted n i evs) (handled i evs) (ss_shards S ! i) \<and>
        control_ok (ss_caller S) (se_running (ss_engine S)) i (ss_shards S ! i))"

lemma worker_step_control:
  assumes step: "worker_step sh x sh'" and c: "control_ok c run i sh" and rep: "shard_rep cap acc fin sh"
  shows "control_ok c run i sh'"
  using step
proof cases
  case loop_leave
  then have "ring_items (sh_inbox sh) = []"
    using ring.empty_items rep by (auto simp: shard_rep_def)
  then show ?thesis
    using loop_leave c by (cases c) (auto simp: control_ok.simps split: if_splits)
next
  case (poll_some m q)
  let ?sh1 = "sh\<lparr>sh_inbox := q, sh_worker := Looping\<rparr>"
  have "shard_kept ?sh1 sh'"
    using handle_rep [OF rep poll_some(3), of ?sh1] poll_some(4) by auto
  then show ?thesis
    using poll_some c by (cases c) (auto simp: shard_kept_def control_ok.simps split: if_splits)
next
  case (drain_some m q)
  then have "ring_items (sh_inbox sh) \<noteq> []"
    using ring.pop_none [of "sh_inbox sh"] rep by (auto simp: shard_rep_def)
  then show ?thesis
    using drain_some c by (cases c) (auto simp: control_ok.simps split: if_splits)
next
  case (poll_none q)
  then show ?thesis
    using c by (cases c) (auto simp: control_ok.simps split: if_splits)
next
  case (drain_none q)
  then have "q = sh_inbox sh"
    by (auto simp: tryPop_def Let_def split: if_splits)
  then show ?thesis
    using drain_none c by (cases c) (auto simp: control_ok.simps split: if_splits)
next
  case loop_enter
  then show ?thesis
    using c by (cases c) (auto simp: control_ok.simps split: if_splits)
qed

lemma shardIndex_less: "n \<noteq> 0 \<Longrightarrow> unat (shardIndex n y) < unat n"
  by (simp add: shardIndex_def Let_def unat_mod word_neq_0_conv unat_gt_0)

lemma trace_snoc [simp]:
  "accepted n i (evs @ [Silent]) = accepted n i evs"
  "accepted n i (evs @ [Handled j m]) = accepted n i evs"
  "accepted n i (evs @ [Routed m ok]) =
     accepted n i evs @ (if ok \<and> unat (shardIndex n (msg_symbolPacked m)) = i then [m] else [])"
  "handled i (evs @ [Silent]) = handled i evs"
  "handled i (evs @ [Handled j m]) = handled i evs @ (if j = i then [m] else [])"
  "handled i (evs @ [Routed m ok]) = handled i evs"
  by (simp_all add: accepted_def handled_def)

lemma system_inv_work:
  assumes inv: "system_inv n cap evs S" and i: "i < length (ss_shards S)" and w: "worker_step (ss_shards S ! i) x sh'"
  shows "system_inv n cap (evs @ [case x of None \<Rightarrow> Silent | Some m \<Rightarrow> Handled i m]) (set_shard i sh' S)"
proof -
  let ?ev = "case x of None \<Rightarrow> Silent | Some m \<Rightarrow> Handled i m"
  have len: "length (ss_shards S) = unat n"
    using inv by (simp add: system_inv_def)
  have site: "shard_rep cap (accepted n j evs) (handled j evs) (ss_shards S ! j)"
      "control_ok (ss_caller S) (se_running (ss_engine S)) j (ss_shards S ! j)" if "j < unat n" for j
    using inv that by (simp_all add: system_inv_def)
  have ev: "accepted n j (evs @ [?ev]) = accepted n j evs"
      "handled j (evs @ [?ev]) = handled j evs @ (if j = i then case x of None \<Rightarrow> [] | Some m \<Rightarrow> [m] else [])" for j
    by (auto split: option.split)
  have "shard_rep cap (accepted n j (evs @ [?ev])) (handled j (evs @ [?ev])) (ss_shards (set_shard i sh' S) ! j) \<and>
      control_ok (ss_caller S) (se_running (ss_engine S)) j (ss_shards (set_shard i sh' S) ! j)" if "j < unat n" for j
  proof (cases "j = i")
    case True
    then show ?thesis
      unfolding ev using site [OF that] worker_step_rep [OF w] worker_step_control [OF w] i by (auto simp: set_shard_def)
  next
    case False
    then show ?thesis
      unfolding ev using site [OF that] by (simp add: set_shard_def)
  qed
  then show ?thesis
    using inv by (simp add: system_inv_def set_shard_def)
qed

lemma system_inv_route:
  assumes inv: "system_inv n cap evs S" and c: "ss_caller S = Ready" and r: "route m (ss_engine S) = Some (ok, E)"
  shows "system_inv n cap (evs @ [Routed m ok]) (S\<lparr>ss_engine := E\<rparr>)"
proof -
  let ?i = "unat (shardIndex n (msg_symbolPacked m))"
  have len: "length (ss_shards S) = unat n" "se_numShards (ss_engine S) = n" "?i < unat n"
    using inv shardIndex_less by (simp_all add: system_inv_def)
  let ?sh = "ss_shards S ! ?i"
  have site: "shard_rep cap (accepted n j evs) (handled j evs) (ss_shards S ! j)"
      "control_ok Ready (se_running (ss_engine S)) j (ss_shards S ! j)" if "j < unat n" for j
    using inv that c by (simp_all add: system_inv_def)
  obtain q where q: "tryPush m (sh_inbox ?sh) = Some (ok, q)"
      "E = (ss_engine S)\<lparr>se_shards := (ss_shards S)[?i := ?sh\<lparr>sh_inbox := q\<rparr>]\<rparr>"
    using r len by (auto simp: route_def Let_def split: bind_splits)
  have ring: "ring_ok (sh_inbox ?sh)"
    using site(1) [OF len(3)] by (simp add: shard_rep_def)
  have items: "ring_ok q \<and> ring_items q = ring_items (sh_inbox ?sh) @ (if ok then [m] else [])"
  proof (cases "length (ring_items (sh_inbox ?sh)) < ring_room (sh_inbox ?sh)")
    case True
    then show ?thesis
      using ring.push_room [OF ring True, of m] q(1) by auto
  next
    case False
    then show ?thesis
      using ring.push_full [OF ring, of m] ring.fits [OF ring] q(1) ring by auto
  qed
  let ?sh' = "?sh\<lparr>sh_inbox := q\<rparr>"
  have "shard_ok ?sh' = shard_ok ?sh" "shard_state ?sh' = shard_state ?sh" "shard_cap ?sh' = shard_cap ?sh"
    by (rule shard_same; simp)+
  then have new: "shard_rep cap (accepted n ?i evs @ (if ok then [m] else [])) (handled ?i evs) ?sh'"
    using site(1) [OF len(3)] items by (simp add: shard_rep_def)
  have "shard_rep cap (accepted n j (evs @ [Routed m ok])) (handled j (evs @ [Routed m ok])) (se_shards E ! j) \<and>
      control_ok Ready (se_running E) j (se_shards E ! j)" if "j < unat n" for j
    using site [OF that] new that len(1) by (cases "j = ?i") (auto simp: q(2) control_ok.simps)
  then show ?thesis
    using inv c by (simp add: system_inv_def q(2))
qed

text \<open>The steps of the caller that move flags and threads only.\<close>

lemma system_inv_control:
  assumes inv: "system_inv n cap evs S" and eq: "se_numShards (ss_engine S') = n" "length (ss_shards S') = unat n"
    and b: "caller_bound (ss_caller S') (unat n)"
    and site: "\<And>i. i < unat n \<Longrightarrow> control_ok (ss_caller S) (se_running (ss_engine S)) i (ss_shards S ! i) \<Longrightarrow>
        control_ok (ss_caller S') (se_running (ss_engine S')) i (ss_shards S' ! i)"
    and data: "\<And>i. i < unat n \<Longrightarrow> \<exists>f w. ss_shards S' ! i = (ss_shards S ! i)\<lparr>sh_stopFlag := f, sh_worker := w\<rparr>"
  shows "system_inv n cap (evs @ [Silent]) S'"
proof -
  have "shard_rep cap (accepted n i evs) (handled i evs) (ss_shards S' ! i)" if "i < unat n" for i
  proof -
    have "shard_rep cap (accepted n i evs) (handled i evs) (ss_shards S ! i)"
      using inv that by (simp add: system_inv_def)
    then show ?thesis
      using data [OF that] shard_rep_same [of cap _ _ "ss_shards S ! i" "ss_shards S' ! i"] by auto
  qed
  then show ?thesis
    using inv eq b site by (simp add: system_inv_def)
qed

lemma shard_self: "\<exists>f w. sh = sh\<lparr>sh_stopFlag := f, sh_worker := w\<rparr>"
  by (rule exI [of _ "sh_stopFlag sh"], rule exI [of _ "sh_worker sh"]) simp

lemma system_inv_step:
  assumes "system_step S ev S'" and inv: "system_inv n cap evs S"
  shows "system_inv n cap (evs @ [ev]) S'"
proof -
  have len: "length (ss_shards S) = unat n" "se_numShards (ss_engine S) = n" "caller_bound (ss_caller S) (unat n)"
    using inv by (simp_all add: system_inv_def)
  show ?thesis
    using assms(1)
  proof cases
    case call_start
    have "\<exists>f w. ss_shards S' ! i = (ss_shards S ! i)\<lparr>sh_stopFlag := f, sh_worker := w\<rparr>" if "i < unat n" for i
      using that len shard_self [of "ss_shards S ! i"] by (auto simp: call_start(2) ShardedEngine_start_def)
    then show ?thesis
      unfolding call_start(1) using call_start len
      by (intro system_inv_control [OF inv]) (auto simp: ShardedEngine_start_def control_ok.simps split: if_splits)
  next
    case (call_route m ok E)
    then show ?thesis
      using system_inv_route [OF inv] by simp
  next
    case call_stop
    moreover have "control_ok (ss_caller S') (se_running (ss_engine S')) j (ss_shards S' ! j)"
      if "j < unat n" "control_ok (ss_caller S) (se_running (ss_engine S)) j (ss_shards S ! j)" for j
      using that call_stop len by (auto simp: control_ok.simps)
    ultimately show ?thesis
      unfolding call_stop(1) using len by (intro system_inv_control [OF inv]) (simp_all add: shard_self)
  next
    case (stop_signal i)
    have "\<exists>f w. ss_shards S' ! j = (ss_shards S ! j)\<lparr>sh_stopFlag := f, sh_worker := w\<rparr>" if "j < unat n" for j
    proof (cases "j = i")
      case True
      then show ?thesis
        using stop_signal by (intro exI [of _ True] exI [of _ "sh_worker (ss_shards S ! i)"]) (simp add: set_shard_def)
    next
      case False
      then show ?thesis
        using stop_signal(2) shard_self by (simp add: set_shard_def)
    qed
    moreover have "control_ok (ss_caller S') (se_running (ss_engine S')) j (ss_shards S' ! j)"
      if "j < unat n" "control_ok (ss_caller S) (se_running (ss_engine S)) j (ss_shards S ! j)" for j
      using that stop_signal len by (cases "j = i") (simp_all add: set_shard_def control_ok.simps less_Suc_eq, blast+)
    ultimately show ?thesis
      unfolding stop_signal(1) using stop_signal(2) stop_signal(4) len
      by (intro system_inv_control [OF inv]) (simp_all add: set_shard_def)
  next
    case (stop_signalled i)
    moreover have "control_ok (ss_caller S') (se_running (ss_engine S')) j (ss_shards S' ! j)"
      if "j < unat n" "control_ok (ss_caller S) (se_running (ss_engine S)) j (ss_shards S ! j)" for j
      using that stop_signalled len by (auto simp: control_ok.simps)
    ultimately show ?thesis
      unfolding stop_signalled(1) using len by (intro system_inv_control [OF inv]) (simp_all add: shard_self)
  next
    case (stop_join i)
    have "\<exists>f w. ss_shards S' ! j = (ss_shards S ! j)\<lparr>sh_stopFlag := f, sh_worker := w\<rparr>" if "j < unat n" for j
    proof (cases "j = i")
      case True
      then show ?thesis
        using stop_join by (intro exI [of _ "sh_stopFlag (ss_shards S ! i)"] exI [of _ NoThread]) (simp add: set_shard_def)
    next
      case False
      then show ?thesis
        using stop_join(2) shard_self by (simp add: set_shard_def)
    qed
    moreover have "control_ok (ss_caller S') (se_running (ss_engine S')) j (ss_shards S' ! j)"
      if "j < unat n" "control_ok (ss_caller S) (se_running (ss_engine S)) j (ss_shards S ! j)" for j
      using that stop_join len by (cases "j = i") (simp_all add: set_shard_def control_ok.simps less_Suc_eq)
    ultimately show ?thesis
      unfolding stop_join(1) using stop_join(2) stop_join(4) len
      by (intro system_inv_control [OF inv]) (simp_all add: set_shard_def)
  next
    case (stop_joined i)
    moreover have "control_ok (ss_caller S') (se_running (ss_engine S')) j (ss_shards S' ! j)"
      if "j < unat n" "control_ok (ss_caller S) (se_running (ss_engine S)) j (ss_shards S ! j)" for j
      using that stop_joined len by (auto simp: control_ok.simps)
    ultimately show ?thesis
      unfolding stop_joined(1) using len by (intro system_inv_control [OF inv]) (simp_all add: shard_self)
  next
    case (work i x sh')
    then show ?thesis
      using system_inv_work [OF inv] by simp
  qed
qed

lemma system_inv_exec:
  assumes "system_exec S0 evs S" and "system_inv n cap [] S0"
  shows "system_inv n cap evs S"
  using assms(1)
proof induction
  case sys_nil
  then show ?case by (rule assms(2))
next
  case (sys_snoc evs S ev S')
  then show ?case
    using system_inv_step by blast
qed

lemma make_shards_ok:
  assumes "\<And>i. storage_granted (os i) False" and "unat poolCap \<le> 4294967295" and "unat ringCap < 2 ^ 63"
  shows "\<exists>shs. make_shards os poolCap ringCap is = Inr shs \<and> length shs = length is \<and>
     (\<forall>sh\<in>set shs. shard_rep (unat poolCap) [] [] sh \<and> sh_worker sh = NoThread)"
proof (induction "is")
  case Nil
  then show ?case by simp
next
  case (Cons i "is")
  then show ?case
    using Shard_new_ok [OF assms(1,2,3), of i] by (fastforce simp: shard_rep_def)
qed

definition new_system :: "ShardedEngine \<Rightarrow> shard_system" where
  "new_system E = \<lparr>ss_engine = E, ss_caller = Ready\<rparr>"

lemma ShardedEngine_new_inv:
  assumes "\<And>i. storage_granted (os i) False" and "unat poolCap \<le> 4294967295" and "unat ringCap < 2 ^ 63"
    and n: "n = (if numShards > 0 then numShards else 1)"
  shows "\<exists>E. ShardedEngine_new os numShards poolCap ringCap = Inr E \<and> system_inv n (unat poolCap) [] (new_system E)"
proof -
  obtain shs where "make_shards os poolCap ringCap [0..<unat n] = Inr shs" "length shs = unat n"
      "\<forall>sh\<in>set shs. shard_rep (unat poolCap) [] [] sh \<and> sh_worker sh = NoThread"
    using make_shards_ok [where os = os, OF assms(1-3), of "[0..<unat n]"] by auto
  moreover have "n \<noteq> 0"
    using n by auto
  ultimately show ?thesis
    using n by (simp add: ShardedEngine_new_def Let_def system_inv_def new_system_def accepted_def handled_def control_ok.simps)
qed

end
