(* ===== verification/Shard_Properties.thy ===== *)
theory Shard_Properties
  imports Sharded_Engine Sample_States
begin

text \<open>
  Properties of the sharded engine (\<open>include/matching/ShardedEngine.h\<close>) under every interleaving of the
  calling thread and the workers.
\<close>

section \<open>Ending a run\<close>

text \<open>What is left to do before \<open>stop\<close> returns.\<close>

fun shard_work :: "worker_state \<Rightarrow> nat \<Rightarrow> nat" where
  "shard_work NoThread n = 0"
| "shard_work Looping n = 3 * n + 2"
| "shard_work Polling n = (if n = 0 then 3 else 3 * n + 1)"
| "shard_work Draining n = n + 1"
| "shard_work Returned n = 0"

fun caller_work :: "caller_state \<Rightarrow> nat \<Rightarrow> nat" where
  "caller_work Ready n = 0"
| "caller_work (Signalling k) n = n + 3 + (n - k)"
| "caller_work (Joining k) n = Suc (n - k)"

definition stop_measure :: "shard_system \<Rightarrow> nat" where
  "stop_measure S = caller_work (ss_caller S) (length (ss_shards S)) +
     (\<Sum>sh\<leftarrow>ss_shards S. shard_work (sh_worker sh) (length (ring_items (sh_inbox sh))))"

lemma sum_list_nth_less:
  fixes f :: "'a \<Rightarrow> nat"
  assumes "i < length xs" and "f y < f (xs ! i)"
  shows "(\<Sum>x\<leftarrow>xs[i := y]. f x) < (\<Sum>x\<leftarrow>xs. f x)"
  using assms
proof (induction xs arbitrary: i)
  case Nil
  then show ?case by simp
next
  case (Cons a xs)
  then show ?case by (cases i) auto
qed

lemma sum_list_nth_same:
  fixes f :: "'a \<Rightarrow> nat"
  assumes "i < length xs" and "f y = f (xs ! i)"
  shows "(\<Sum>x\<leftarrow>xs[i := y]. f x) = (\<Sum>x\<leftarrow>xs. f x)"
  using assms
proof (induction xs arbitrary: i)
  case Nil
  then show ?case by simp
next
  case (Cons a xs)
  then show ?case by (cases i) auto
qed

lemma tryPop_items:
  assumes "ring_ok r" and "tryPop r = Some (x, q)"
  shows "case x of None \<Rightarrow> q = r \<and> ring_items r = [] | Some m \<Rightarrow> ring_items r = m # ring_items q"
  using assms ring.pop_some [OF assms(1)] ring.pop_none [OF assms(1)]
  by (cases "ring_items r") (fastforce split: option.split)+

lemma worker_step_work:
  assumes w: "worker_step sh x sh'" and rep: "shard_rep cap acc fin sh" and stop: "sh_stopFlag sh"
  shows "shard_work (sh_worker sh') (length (ring_items (sh_inbox sh'))) < shard_work (sh_worker sh) (length (ring_items (sh_inbox sh)))"
proof -
  have ring: "ring_ok (sh_inbox sh)"
    using rep by (simp add: shard_rep_def)
  show ?thesis
    using w
  proof cases
    case loop_enter
    then show ?thesis
      using ring.empty_items [OF ring] stop by simp
  next
    case loop_leave
    then show ?thesis
      using ring.empty_items [OF ring] by simp
  next
    case (poll_some m q)
    obtain sh2 where "worker_handle m (sh\<lparr>sh_inbox := q, sh_worker := Looping\<rparr>) = Some sh2"
        "shard_kept (sh\<lparr>sh_inbox := q, sh_worker := Looping\<rparr>) sh2"
        "ring_items (sh_inbox sh) = m # ring_items (sh_inbox sh2)"
      using handle_rep [OF rep poll_some(3), of "sh\<lparr>sh_inbox := q, sh_worker := Looping\<rparr>"] by auto
    then show ?thesis
      using poll_some by (simp add: shard_kept_def)
  next
    case (poll_none q)
    then show ?thesis
      using tryPop_items [OF ring poll_none(4)] by simp
  next
    case (drain_some m q)
    obtain sh2 where "worker_handle m (sh\<lparr>sh_inbox := q\<rparr>) = Some sh2"
        "shard_kept (sh\<lparr>sh_inbox := q\<rparr>) sh2" "ring_items (sh_inbox sh) = m # ring_items (sh_inbox sh2)"
      using handle_rep [OF rep drain_some(3), of "sh\<lparr>sh_inbox := q\<rparr>"] by auto
    then show ?thesis
      using drain_some by (simp add: shard_kept_def)
  next
    case (drain_none q)
    then show ?thesis
      using tryPop_items [OF ring drain_none(4)] by simp
  qed
qed

lemma worker_can_step:
  assumes rep: "shard_rep cap acc fin sh" and w: "sh_worker sh \<notin> {NoThread, Returned}"
  shows "\<exists>x sh'. worker_step sh x sh'"
proof -
  have ring: "ring_ok (sh_inbox sh)"
    using rep by (simp add: shard_rep_def)
  obtain x q where pop: "tryPop (sh_inbox sh) = Some (x, q)"
    using ring.pop_some [OF ring] ring.pop_none [OF ring] by (cases "ring_items (sh_inbox sh)") blast+
  have handle: "\<exists>sh'. worker_handle m sh1 = Some sh'"
    if "x = Some m" "sh1 = sh\<lparr>sh_inbox := q\<rparr> \<or> sh1 = sh\<lparr>sh_inbox := q, sh_worker := Looping\<rparr>" for m sh1
    using handle_rep [OF rep, of m q sh1] pop that by fastforce
  consider "sh_worker sh = Looping" | "sh_worker sh = Polling" | "sh_worker sh = Draining"
    using w by (cases "sh_worker sh") auto
  then show ?thesis
  proof cases
    case 1
    then show ?thesis
      using loop_enter [of sh] loop_leave [of sh] by blast
  next
    case 2
    then show ?thesis
      using poll_some [of sh _ q] poll_none [of sh q] pop handle by (cases x) blast+
  next
    case 3
    then show ?thesis
      using drain_some [of sh _ q] drain_none [of sh q] pop handle by (cases x) blast+
  qed
qed

lemma joining_step_less:
  assumes inv: "system_inv n cap evs S" and j: "ss_caller S = Joining k" and step: "system_step S ev S'"
  shows "stop_measure S' < stop_measure S"
proof -
  let ?f = "\<lambda>sh. shard_work (sh_worker sh) (length (ring_items (sh_inbox sh)))"
  have site: "shard_rep cap (accepted n i evs) (handled i evs) (ss_shards S ! i)"
      "control_ok (Joining k) (se_running (ss_engine S)) i (ss_shards S ! i)" if "i < length (ss_shards S)" for i
    using inv that j by (simp_all add: system_inv_def)
  show ?thesis
    using step
  proof cases
    case (stop_join i)
    then have "(\<Sum>x\<leftarrow>(ss_shards S)[i := (ss_shards S ! i)\<lparr>sh_worker := NoThread\<rparr>]. ?f x) = (\<Sum>x\<leftarrow>ss_shards S. ?f x)"
      by (intro sum_list_nth_same) simp_all
    then show ?thesis
      using stop_join j by (simp add: stop_measure_def set_shard_def)
  next
    case (work i x sh')
    have "(\<Sum>x\<leftarrow>(ss_shards S)[i := sh']. ?f x) < (\<Sum>x\<leftarrow>ss_shards S. ?f x)"
      using work(3) site [OF work(3)] worker_step_work [OF work(4)]
      by (intro sum_list_nth_less) (auto simp: control_ok.simps)
    then show ?thesis
      using work(2) by (simp add: stop_measure_def set_shard_def)
  qed (use j in \<open>simp_all add: stop_measure_def\<close>)
qed

lemma joining_can_step:
  assumes inv: "system_inv n cap evs S" and j: "ss_caller S = Joining k"
  shows "\<exists>ev S'. system_step S ev S'"
proof (cases "k < length (ss_shards S)")
  case False
  then have "k = length (ss_shards S)"
    using inv j by (simp add: system_inv_def)
  then show ?thesis
    using stop_joined [OF j] by blast
next
  case True
  have "shard_rep cap (accepted n k evs) (handled k evs) (ss_shards S ! k)"
      "control_ok (Joining k) (se_running (ss_engine S)) k (ss_shards S ! k)"
    using inv True j by (simp_all add: system_inv_def)
  then show ?thesis
    using worker_can_step [of cap "accepted n k evs" "handled k evs" "ss_shards S ! k"] stop_join [OF j True] work [OF True]
    by (cases "sh_worker (ss_shards S ! k) = Returned") (force simp: control_ok.simps)+
qed

lemma stop_completes:
  assumes "system_exec S0 evs S" and "system_inv n cap evs S" and "ss_caller S = Joining k"
  shows "\<exists>evs' S'. system_exec S0 (evs @ evs') S' \<and> ss_caller S' = Joining (length (ss_shards S')) \<and>
           (\<forall>i. accepted n i (evs @ evs') = accepted n i evs)"
  using assms
proof (induction "stop_measure S" arbitrary: evs S k rule: less_induct)
  case less
  show ?case
  proof (cases "k = length (ss_shards S)")
    case True
    then show ?thesis
      using less.prems(1,3) by (intro exI [of _ "[]"] exI [of _ S]) simp
  next
    case False
    obtain ev S1 where step: "system_step S ev S1"
      using joining_can_step [OF less.prems(2,3)] by blast
    have c: "(\<exists>k'. ss_caller S1 = Joining k') \<and> (\<forall>i. accepted n i (evs @ [ev]) = accepted n i evs)"
      using step less.prems(3) False by cases (auto simp: set_shard_def split: option.split)
    then obtain k' where k': "ss_caller S1 = Joining k'"
      by blast
    have "\<exists>evs' S'. system_exec S0 ((evs @ [ev]) @ evs') S' \<and> ss_caller S' = Joining (length (ss_shards S')) \<and>
           (\<forall>i. accepted n i ((evs @ [ev]) @ evs') = accepted n i (evs @ [ev]))"
      using less.hyps [OF joining_step_less [OF less.prems(2,3) step] sys_snoc [OF less.prems(1) step]
          system_inv_step [OF step less.prems(2)] k'] .
    then show ?thesis
      using c by (metis append.assoc)
  qed
qed

section \<open>Properties\<close>

lemma sharded_inv:
  assumes "\<forall>i. storage_granted (os i) False" and "unat poolCap \<le> 4294967295" and "unat ringCap < 2 ^ 63"
    and "ShardedEngine_new os numShards poolCap ringCap = Inr E" and "system_exec (new_system E) evs S"
  shows "system_inv (se_numShards E) (unat poolCap) evs S"
proof -
  obtain E' where "ShardedEngine_new os numShards poolCap ringCap = Inr E'"
      "system_inv (if numShards > 0 then numShards else 1) (unat poolCap) [] (new_system E')"
    using ShardedEngine_new_inv [where os = os, OF spec [OF assms(1)] assms(2,3) refl, where numShards = numShards] by blast
  then have "system_inv (if numShards > 0 then numShards else 1) (unat poolCap) [] (new_system E)"
    using assms(4) by simp
  moreover from this have "se_numShards E = (if numShards > 0 then numShards else 1)"
    by (simp add: system_inv_def new_system_def)
  ultimately show ?thesis
    using system_inv_exec [OF assms(5)] by metis
qed

text \<open>
  (C34) At every moment of every interleaving of the caller and the workers, each worker has applied
  a prefix of the messages its shard accepted, in routing order, and the shard's fills are exactly those
  of the specification on that prefix: the result of a shard depends on what was routed to it and not
  on the schedule.
\<close>

theorem shard_schedule_independent:
  assumes "\<forall>i. storage_granted (os i) False" and "unat poolCap \<le> 4294967295" and "unat ringCap < 2 ^ 63"
    and "ShardedEngine_new os numShards poolCap ringCap = Inr E" and "system_exec (new_system E) evs S"
    and "i < unat (se_numShards E)"
  shows "accepted (se_numShards E) i evs = handled i evs @ ring_items (sh_inbox (ss_shards S ! i)) \<and>
         sh_fills (ss_shards S ! i) = fst (shard_spec_run (unat poolCap) (handled i evs) (\<lambda>_ _. [], 0)) \<and>
         sh_processed (ss_shards S ! i) = of_nat (length (handled i evs))"
  using sharded_inv [OF assms(1-5)] assms(6) by (simp add: system_inv_def shard_rep_def)

text \<open>
  (C35) When \<open>stop\<close> has joined the workers, every accepted message has been applied: \<open>collectAllFills\<close>
  is the stable sort by timestamp of the shards' specification fills on everything they accepted.
\<close>

theorem stop_applies_everything:
  assumes "\<forall>i. storage_granted (os i) False" and "unat poolCap \<le> 4294967295" and "unat ringCap < 2 ^ 63"
    and "ShardedEngine_new os numShards poolCap ringCap = Inr E" and "system_exec (new_system E) evs S"
    and "ss_caller S = Joining (length (ss_shards S))"
  shows "collectAllFills (ss_engine S) =
           sort_key fill_timestamp (concat (map (\<lambda>i.
             fst (shard_spec_run (unat poolCap) (accepted (se_numShards E) i evs) (\<lambda>_ _. [], 0)))
               [0..<unat (se_numShards E)]))"
proof -
  let ?n = "se_numShards E"
  have inv: "system_inv ?n (unat poolCap) evs S"
    using sharded_inv [OF assms(1-5)] .
  have "sh_fills (ss_shards S ! i) =
      fst (shard_spec_run (unat poolCap) (accepted ?n i evs) (\<lambda>_ _. [], 0))" if "i < unat ?n" for i
  proof -
    have "shard_rep (unat poolCap) (accepted ?n i evs) (handled i evs) (ss_shards S ! i)"
        "control_ok (Joining (length (ss_shards S))) (se_running (ss_engine S)) i (ss_shards S ! i)"
        "length (ss_shards S) = unat ?n"
      using inv that assms(6) by (auto simp: system_inv_def)
    then show ?thesis
      using that by (simp add: shard_rep_def control_ok.simps)
  qed
  then have "map sh_fills (ss_shards S) = map (\<lambda>i. fst (shard_spec_run (unat poolCap) (accepted ?n i evs) (\<lambda>_ _. [], 0)))
      [0..<unat ?n]"
    using inv by (intro nth_equalityI) (simp_all add: system_inv_def)
  then show ?thesis
    by (simp add: collectAllFills_def)
qed

text \<open>
  (C36) \<open>stop\<close> returns: while it joins the workers some thread can always move, and every step of
  any thread decreases the work left, so under every schedule it returns after finitely many steps.
\<close>

theorem stop_terminates:
  assumes "\<forall>i. storage_granted (os i) False" and "unat poolCap \<le> 4294967295" and "unat ringCap < 2 ^ 63"
    and "ShardedEngine_new os numShards poolCap ringCap = Inr E" and "system_exec (new_system E) evs S"
    and "ss_caller S = Joining k"
  shows "(\<exists>ev S'. system_step S ev S') \<and> (\<forall>ev S'. system_step S ev S' \<longrightarrow> stop_measure S' < stop_measure S)"
  using joining_can_step [OF sharded_inv [OF assms(1-5)] assms(6)]
    joining_step_less [OF sharded_inv [OF assms(1-5)] assms(6)] by blast

text \<open>
  (C37) Symbols do not interact: as long as the valid ADDs a shard accepted fit into its pool, the
  fills the shard has produced for a symbol, and the book of that symbol, are those of an engine that
  replays that symbol's messages alone.
\<close>

theorem symbols_isolated:
  assumes "\<forall>i. storage_granted (os i) False" and "unat poolCap \<le> 4294967295" and "unat ringCap < 2 ^ 63"
    and "ShardedEngine_new os numShards poolCap ringCap = Inr E" and "system_exec (new_system E) evs S"
    and "i < unat (se_numShards E)" and "length (valid_adds (handled i evs)) \<le> unat poolCap"
  shows "spec_replay (unat poolCap) (filter (\<lambda>m. msg_symbolPacked m = y) (handled i evs)) (\<lambda>_. []) =
           (filter (\<lambda>f. fill_symbolPacked f = y) (sh_fills (ss_shards S ! i)), shard_book (ss_shards S ! i) y)"
proof -
  let ?sh = "ss_shards S ! i"
  have "shard_spec_run (unat poolCap) (handled i evs) (\<lambda>_ _. [], 0) = (sh_fills ?sh, shard_state ?sh)"
    using sharded_inv [OF assms(1-5)] assms(6) by (simp add: system_inv_def shard_rep_def)
  then show ?thesis
    using shard_run_isolated [OF books_inv_empty, of "handled i evs" "unat poolCap" "sh_fills ?sh" "shard_state ?sh" y] assms(7)
    by (simp add: shard_state_def)
qed

lemma shard_spec_other: "shard_spec cap m S = (fs, S') \<Longrightarrow> y \<noteq> msg_symbolPacked m \<Longrightarrow> fst S' y = fst S y"
  by (auto simp: shard_spec_def split_beta Let_def)

lemma shard_spec_cancel: "shard_spec cap m S = (fs, S') \<Longrightarrow> msg_msgType m = MSG_CANCEL \<Longrightarrow> fs = []"
  by (auto simp: shard_spec_def spec_apply_def split_beta Let_def split: if_splits)

text \<open>
  (C40) A CANCEL built by \<open>makeCancel\<close> carries symbol 0, so a shard applies it to the engine of symbol
  0: whatever the order id, the books of all other symbols stay as they are and nothing is filled.
\<close>

theorem cancel_reaches_symbol_zero_only:
  assumes "shard_ok sh" and "y \<noteq> 0"
  shows "\<exists>sh'. shard_applyMessage (makeCancel seq i) sh = Some sh' \<and> shard_book sh' y = shard_book sh y \<and>
           sh_fills sh' = sh_fills sh"
proof -
  let ?m = "makeCancel seq i"
  have m: "msg_symbolPacked ?m = 0" "msg_msgType ?m = MSG_CANCEL"
    by (simp_all add: makeCancel_def default_FeedMessage_def)
  obtain sh' fs where r: "shard_applyMessage ?m sh = Some sh'" "sh_fills sh' = sh_fills sh @ fs"
      "shard_spec (shard_cap sh) ?m (shard_state sh) = (fs, shard_state sh')"
    using shard_apply_rep [OF assms(1)] by blast
  have "fs = []"
    by (rule shard_spec_cancel [OF r(3) m(2)])
  moreover have "shard_book sh' y = shard_book sh y"
    using shard_spec_other [OF r(3), of y] m(1) assms(2) by (simp add: shard_state_def)
  ultimately show ?thesis
    using r(1,2) by simp
qed

section \<open>A run of one shard\<close>

definition sample_sharded :: ShardedEngine where
  "sample_sharded = projr (ShardedEngine_new (\<lambda>_. sample_os) 1 4 3)"

definition sample_add :: FeedMessage where
  "sample_add = makeAdd 1 11 BUY LIMIT 100 5 7"

lemma sample_granted: "\<forall>i. storage_granted ((\<lambda>_. sample_os) i) False"
  by (simp add: storage_granted_def sample_os_def)

lemma sample_sharded_new:
  "ShardedEngine_new (\<lambda>_. sample_os) 1 4 3 = Inr sample_sharded" "se_numShards sample_sharded = 1"
  "system_inv 1 4 [] (new_system sample_sharded)"
proof -
  obtain E where E: "ShardedEngine_new (\<lambda>_. sample_os) 1 4 3 = Inr E" "system_inv 1 (unat (4 :: size_t)) [] (new_system E)"
    using ShardedEngine_new_inv [where os = "\<lambda>_. sample_os" and poolCap = 4 and ringCap = 3 and numShards = 1 and n = 1]
      sample_granted by auto
  then show new: "ShardedEngine_new (\<lambda>_. sample_os) 1 4 3 = Inr sample_sharded"
    by (simp add: sample_sharded_def)
  show inv: "system_inv 1 4 [] (new_system sample_sharded)"
    using E new by simp
  show "se_numShards sample_sharded = 1"
    using inv by (simp add: system_inv_def new_system_def)
qed

lemma sample_sharded_inbox:
  "\<exists>sh. se_shards sample_sharded = [sh] \<and> sh_inbox sh = SPSCRingBuffer_new default_FeedMessage 3"
proof -
  obtain sh where sh: "Shard_new sample_os 4 3 = Inr sh"
    using Shard_new_ok [of sample_os 4 3] sample_granted by auto
  then have "sh_inbox sh = SPSCRingBuffer_new default_FeedMessage 3"
    by (auto simp: Shard_new_def split: sum.splits)
  moreover have "se_shards sample_sharded = [sh]"
    using sh by (simp add: sample_sharded_def ShardedEngine_new_def)
  ultimately show ?thesis by blast
qed

lemma sample_routed:
  obtains E' where "system_exec (new_system sample_sharded) [Silent, Routed sample_add True] \<lparr>ss_engine = E', ss_caller = Ready\<rparr>"
    and "se_running E'" and "length (se_shards E') = 1"
proof -
  let ?S = "new_system sample_sharded" and ?E1 = "ShardedEngine_start sample_sharded"
  obtain sh where sh: "se_shards sample_sharded = [sh]" "sh_inbox sh = SPSCRingBuffer_new default_FeedMessage 3"
    using sample_sharded_inbox by blast
  have a: "system_exec ?S [Silent] \<lparr>ss_engine = ?E1, ss_caller = Ready\<rparr>"
    using sys_snoc [OF sys_nil call_start, of ?S] by (simp add: new_system_def)
  have ring: "ring_ok (sh_inbox sh)" "ring_items (sh_inbox sh) = []" "3 \<le> ring_room (sh_inbox sh)"
    using ring_new [of 3 default_FeedMessage] sh(2) by simp_all
  then obtain q where q: "tryPush sample_add (sh_inbox sh) = Some (True, q)"
    using ring.push_room [OF ring(1), of sample_add] by auto
  have E1: "\<exists>sh1. se_shards ?E1 = [sh1] \<and> sh_inbox sh1 = sh_inbox sh" "se_numShards ?E1 = 1" "se_running ?E1"
    using sh sample_sharded_new(2) by (auto simp: ShardedEngine_start_def)
  then obtain sh1 where sh1: "se_shards ?E1 = [sh1]" "sh_inbox sh1 = sh_inbox sh"
    by blast
  have "unat (shardIndex 1 (msg_symbolPacked sample_add)) = 0"
    using shardIndex_less [of 1] by simp
  then have "route sample_add ?E1 = Some (True, ?E1\<lparr>se_shards := [sh1\<lparr>sh_inbox := q\<rparr>]\<rparr>)"
    using sh1 E1(2) q by (simp add: route_def Let_def)
  from sys_snoc [OF a call_route] this show ?thesis
    using that [of "?E1\<lparr>se_shards := [sh1\<lparr>sh_inbox := q\<rparr>]\<rparr>"] E1(3) by simp
qed

lemma sample_stopping:
  obtains evs S where "system_exec (new_system sample_sharded) evs S" and "ss_caller S = Joining 0"
    and "accepted 1 0 evs = [sample_add]"
proof -
  obtain E' where e: "system_exec (new_system sample_sharded) [Silent, Routed sample_add True] \<lparr>ss_engine = E', ss_caller = Ready\<rparr>"
      "se_running E'" "length (se_shards E') = 1"
    by (rule sample_routed)
  let ?S2 = "\<lparr>ss_engine = E', ss_caller = Signalling 0\<rparr>"
  let ?S3 = "set_shard 0 ((ss_shards ?S2 ! 0)\<lparr>sh_stopFlag := True\<rparr>) (?S2\<lparr>ss_caller := Signalling (Suc 0)\<rparr>)"
  have b: "system_exec (new_system sample_sharded) [Silent, Routed sample_add True, Silent] ?S2"
    using sys_snoc [OF e(1) call_stop] e(2) by simp
  have c: "system_exec (new_system sample_sharded) [Silent, Routed sample_add True, Silent, Silent] ?S3"
    using sys_snoc [OF b stop_signal, of 0] e(3) by simp
  have "system_step ?S3 Silent (?S3\<lparr>ss_caller := Joining 0\<rparr>)"
    using e(3) by (intro stop_signalled [of _ "Suc 0"]) (simp_all add: set_shard_def)
  from sys_snoc [OF c this]
  have d: "system_exec (new_system sample_sharded) [Silent, Routed sample_add True, Silent, Silent, Silent] (?S3\<lparr>ss_caller := Joining 0\<rparr>)"
    by simp
  have "unat (shardIndex 1 (msg_symbolPacked sample_add)) = 0"
    using shardIndex_less [of 1] by simp
  then show ?thesis
    using that [OF d] by (simp add: accepted_def)
qed

lemma sample_stopped:
  obtains evs S where "system_exec (new_system sample_sharded) evs S" and "ss_caller S = Joining (length (ss_shards S))"
    and "accepted 1 0 evs = [sample_add]" and "handled 0 evs = [sample_add]"
proof -
  obtain evs S where a: "system_exec (new_system sample_sharded) evs S" "ss_caller S = Joining 0" "accepted 1 0 evs = [sample_add]"
    by (rule sample_stopping)
  obtain evs' S' where b: "system_exec (new_system sample_sharded) (evs @ evs') S'"
      "ss_caller S' = Joining (length (ss_shards S'))" "\<forall>i. accepted 1 i (evs @ evs') = accepted 1 i evs"
    using stop_completes [OF a(1) system_inv_exec [OF a(1) sample_sharded_new(3)] a(2)] by blast
  have inv: "system_inv 1 4 (evs @ evs') S'"
    using system_inv_exec [OF b(1) sample_sharded_new(3)] .
  then have "shard_rep 4 (accepted 1 0 (evs @ evs')) (handled 0 (evs @ evs')) (ss_shards S' ! 0)"
      "control_ok (Joining 1) (se_running (ss_engine S')) 0 (ss_shards S' ! 0)"
    using b(2) by (auto simp: system_inv_def)
  then have "handled 0 (evs @ evs') = [sample_add]"
    using a(3) b(3) by (simp add: shard_rep_def control_ok.simps)
  then show ?thesis
    using that [OF b(1,2)] a(3) b(3) by simp
qed

theorem shard_schedule_independent_witness:
  "\<exists>evs S. system_exec (new_system sample_sharded) evs S \<and> accepted 1 0 evs = [sample_add] \<and>
     accepted 1 0 evs = handled 0 evs @ ring_items (sh_inbox (ss_shards S ! 0)) \<and>
     sh_processed (ss_shards S ! 0) = of_nat (length (handled 0 evs))"
proof -
  obtain evs S where a: "system_exec (new_system sample_sharded) evs S" "ss_caller S = Joining 0" "accepted 1 0 evs = [sample_add]"
    by (rule sample_stopping)
  then show ?thesis
    using shard_schedule_independent [OF sample_granted _ _ sample_sharded_new(1) a(1), of 0] sample_sharded_new(2)
    by (intro exI [of _ evs] exI [of _ S]) simp
qed

theorem stop_applies_everything_witness:
  "\<exists>evs S. system_exec (new_system sample_sharded) evs S \<and> handled 0 evs = [sample_add] \<and>
     collectAllFills (ss_engine S) = []"
proof -
  obtain evs S where a: "system_exec (new_system sample_sharded) evs S" "ss_caller S = Joining (length (ss_shards S))"
      "accepted 1 0 evs = [sample_add]" "handled 0 evs = [sample_add]"
    by (rule sample_stopped)
  have "fst (shard_spec_run 4 [sample_add] (\<lambda>_ _. [], 0)) = []"
    by code_simp
  then show ?thesis
    using stop_applies_everything [OF sample_granted _ _ sample_sharded_new(1) a(1,2)] a sample_sharded_new(2)
    by (intro exI [of _ evs] exI [of _ S]) simp
qed

theorem stop_terminates_witness:
  "\<exists>evs S ev S'. system_exec (new_system sample_sharded) evs S \<and> ss_caller S = Joining 0 \<and>
     system_step S ev S' \<and> stop_measure S' < stop_measure S"
proof -
  obtain evs S where a: "system_exec (new_system sample_sharded) evs S" "ss_caller S = Joining 0"
    by (rule sample_stopping)
  then show ?thesis
    using stop_terminates [OF sample_granted _ _ sample_sharded_new(1) a(1,2)] by fastforce
qed

theorem symbols_isolated_witness:
  "\<exists>evs S. system_exec (new_system sample_sharded) evs S \<and> handled 0 evs = [sample_add] \<and>
     shard_book (ss_shards S ! 0) 7 = snd (spec_replay 4 [sample_add] (\<lambda>_. [])) \<and>
     shard_book (ss_shards S ! 0) 8 = (\<lambda>_. [])"
proof -
  obtain evs S where a: "system_exec (new_system sample_sharded) evs S" "ss_caller S = Joining (length (ss_shards S))"
      "accepted 1 0 evs = [sample_add]" "handled 0 evs = [sample_add]"
    by (rule sample_stopped)
  have m: "filter (\<lambda>m. msg_symbolPacked m = 7) [sample_add] = [sample_add]" "filter (\<lambda>m. msg_symbolPacked m = 8) [sample_add] = []"
      "length (valid_adds [sample_add]) \<le> unat (4 :: size_t)"
    by code_simp+
  note iso = symbols_isolated [OF sample_granted _ _ sample_sharded_new(1) a(1), of 0]
  have "spec_replay 4 [sample_add] (\<lambda>_. []) =
      (filter (\<lambda>f. fill_symbolPacked f = 7) (sh_fills (ss_shards S ! 0)), shard_book (ss_shards S ! 0) 7)"
    using iso [of 7] m sample_sharded_new(2) unfolding a(4) by simp
  moreover have "shard_book (ss_shards S ! 0) 8 = (\<lambda>_. [])"
    using iso [of 8] m sample_sharded_new(2) unfolding a(4) by simp
  ultimately show ?thesis
    using a(1,4) by (intro exI [of _ evs] exI [of _ S]) simp
qed

theorem cancel_reaches_symbol_zero_only_witness:
  "\<exists>sh sh'. Shard_new sample_os 4 3 = Inr sh \<and> shard_applyMessage (makeCancel 2 11) sh = Some sh' \<and>
     shard_book sh' 7 = shard_book sh 7"
proof -
  obtain sh where sh: "Shard_new sample_os 4 3 = Inr sh" "shard_ok sh"
    using Shard_new_ok [of sample_os 4 3] sample_granted by auto
  have "(7 :: u64) \<noteq> 0"
    by simp
  then show ?thesis
    using cancel_reaches_symbol_zero_only [OF sh(2), of 7 2 11] sh(1) by blast
qed

end
