(* ===== verification/Fill_Journal.thy ===== *)
theory Fill_Journal
  imports Feed_Protocol Matching_Engine
begin

text \<open>
  \<open>include/journal/FillJournal.h\<close> and \<open>JournalReplay.h\<close> (POSIX branch): a memory-mapped append-only file
  with a header of three words and fixed-size records.  The mapping is shared, so the mapped bytes are
  the bytes of the file; what the system calls answer is a parameter.  An operation that can throw
  returns its outcome together with the files, because what was written before the exception stays
  written.  Accesses outside the file are \<open>UndefinedBehaviour\<close>.
\<close>

section \<open>Records and header\<close>

record FillRecord =
  rec_buyOrderId :: u64
  rec_sellOrderId :: u64
  rec_price :: u32
  rec_qty :: u32
  rec_timestamp :: u64
  rec_symbolPacked :: u64

definition record_of_fill :: "Fill \<Rightarrow> FillRecord" where
  "record_of_fill f = \<lparr>rec_buyOrderId = fill_buyOrderId f, rec_sellOrderId = fill_sellOrderId f,
     rec_price = fill_price f, rec_qty = fill_qty f, rec_timestamp = fill_timestamp f,
     rec_symbolPacked = fill_symbolPacked f\<rparr>"

definition fill_of_record :: "FillRecord \<Rightarrow> Fill" where
  "fill_of_record r = \<lparr>fill_buyOrderId = rec_buyOrderId r, fill_sellOrderId = rec_sellOrderId r,
     fill_price = rec_price r, fill_qty = rec_qty r, fill_timestamp = rec_timestamp r,
     fill_symbolPacked = rec_symbolPacked r\<rparr>"

record Header =
  hdr_magic :: u64
  hdr_records :: u64
  hdr_capacity :: u64

definition kMagic :: u64 where
  "kMagic = 0x324a46424f4e4843"

definition sizeof_FillRecord :: size_t where
  "sizeof_FillRecord = 40"

definition sizeof_Header :: size_t where
  "sizeof_Header = 24"

text \<open>The images of the two structs in memory and in the file.\<close>

definition encodeRecord :: "FillRecord \<Rightarrow> u8 list" where
  "encodeRecord r = bytes_u64 (rec_buyOrderId r) @ bytes_u64 (rec_sellOrderId r) @ bytes_u32 (rec_price r) @
     bytes_u32 (rec_qty r) @ bytes_u64 (rec_timestamp r) @ bytes_u64 (rec_symbolPacked r)"

definition decodeRecord :: "u8 list \<Rightarrow> FillRecord" where
  "decodeRecord bs = \<lparr>rec_buyOrderId = u64_bytes (take 8 bs), rec_sellOrderId = u64_bytes (take 8 (drop 8 bs)),
     rec_price = u32_bytes (take 4 (drop 16 bs)), rec_qty = u32_bytes (take 4 (drop 20 bs)),
     rec_timestamp = u64_bytes (take 8 (drop 24 bs)), rec_symbolPacked = u64_bytes (take 8 (drop 32 bs))\<rparr>"

definition encodeHeader :: "Header \<Rightarrow> u8 list" where
  "encodeHeader h = bytes_u64 (hdr_magic h) @ bytes_u64 (hdr_records h) @ bytes_u64 (hdr_capacity h)"

definition decodeHeader :: "u8 list \<Rightarrow> Header" where
  "decodeHeader bs = \<lparr>hdr_magic = u64_bytes (take 8 bs), hdr_records = u64_bytes (take 8 (drop 8 bs)),
     hdr_capacity = u64_bytes (take 8 (drop 16 bs))\<rparr>"

lemma encodeRecord_decode:
  assumes "length bs = 40"
  shows "encodeRecord (decodeRecord bs) = bs"
proof -
  have "bs = take 8 bs @ take 8 (drop 8 bs) @ take 4 (drop 16 bs) @ take 4 (drop 20 bs) @ take 8 (drop 24 bs) @ drop 32 bs"
    using take_drop_field [of 8 24 bs] take_drop_field [of 4 20 bs] take_drop_field [of 4 16 bs]
      take_drop_field [of 8 8 bs] take_drop_field [of 8 0 bs] by simp
  then show ?thesis
    using assms by (simp add: encodeRecord_def decodeRecord_def)
qed

lemma length_encodeRecord [simp]: "length (encodeRecord r) = 40"
  by (simp add: encodeRecord_def)

lemma length_encodeHeader [simp]: "length (encodeHeader h) = 24"
  by (simp add: encodeHeader_def)

lemma decodeHeader_prefix [simp]: "decodeHeader (encodeHeader h @ rest) = h"
  by (cases h) (simp add: encodeHeader_def decodeHeader_def)

interpretation record_codec: fixed_codec encodeRecord decodeRecord 40
proof unfold_locales
  fix r
  show "decodeRecord (encodeRecord r) = r"
    by (cases r) (simp add: encodeRecord_def decodeRecord_def)
qed (simp_all add: encodeRecord_decode)

lemma record_fill [simp]: "fill_of_record (record_of_fill f) = f" "record_of_fill (fill_of_record r) = r"
  by (simp_all add: fill_of_record_def record_of_fill_def)

section \<open>The journal\<close>

text \<open>Answers of the system: \<open>open\<close>, \<open>fstat\<close>, \<open>ftruncate\<close>, \<open>mmap\<close> and \<open>msync\<close> succeed.\<close>

record journal_os =
  jo_open :: bool
  jo_fstat :: bool
  jo_ftruncate :: bool
  jo_mmap :: bool
  jo_msync :: bool

record FillJournal =
  fj_path :: string
  fj_capacity :: size_t
  fj_fileBytes :: size_t
  fj_newFile :: bool
  fj_mapped :: bool

definition openMapping :: "journal_os \<Rightarrow> FillJournal \<Rightarrow> files \<Rightarrow> FillJournal result \<times> files" where
  "openMapping os j fs =
     (let path = fj_path j; fileBytes = sizeof_Header + fj_capacity j * sizeof_FillRecord;
          old = (case fs path of None \<Rightarrow> [] | Some bs \<Rightarrow> bs);
          short = int (length old) < sint fileBytes;
          grown = (if short then old @ replicate (unat fileBytes - length old) 0 else old)
      in if \<not> jo_open os then (Inl (Throws (runtime_error (''failed to open fill journal: '' @ path))), fs)
         else if \<not> jo_fstat os
         then (Inl (Throws (runtime_error (''failed to stat fill journal: '' @ path))), fs(path \<mapsto> old))
         else if short \<and> \<not> jo_ftruncate os
         then (Inl (Throws (runtime_error (''failed to size fill journal: '' @ path))), fs(path \<mapsto> old))
         else if \<not> jo_mmap os
         then (Inl (Throws (runtime_error (''failed to mmap fill journal: '' @ path))), fs(path \<mapsto> grown))
         else (Inr (j\<lparr>fj_fileBytes := fileBytes, fj_newFile := (length old = 0), fj_mapped := True\<rparr>),
               fs(path \<mapsto> grown)))"

text \<open>The mapped bytes, and a store of \<open>bs\<close> at an offset of the mapping.\<close>

definition mapped_bytes :: "FillJournal \<Rightarrow> files \<Rightarrow> u8 list" where
  "mapped_bytes j fs = (case fs (fj_path j) of None \<Rightarrow> [] | Some bs \<Rightarrow> bs)"

definition store_at :: "nat \<Rightarrow> u8 list \<Rightarrow> FillJournal \<Rightarrow> files \<Rightarrow> files option" where
  "store_at off bs j fs =
     (if fj_mapped j \<and> off + length bs \<le> length (mapped_bytes j fs)
      then Some (fs(fj_path j \<mapsto> memcpy_at off bs (mapped_bytes j fs))) else None)"

definition mapped_header :: "FillJournal \<Rightarrow> files \<Rightarrow> Header option" where
  "mapped_header j fs =
     (if fj_mapped j \<and> 24 \<le> length (mapped_bytes j fs) then Some (decodeHeader (mapped_bytes j fs)) else None)"

definition initializeOrValidateHeader :: "FillJournal \<Rightarrow> files \<Rightarrow> unit result \<times> files" where
  "initializeOrValidateHeader j fs =
     (if fj_newFile j then
        (case store_at 0 (replicate (unat (fj_fileBytes j)) 0) j fs of
           None \<Rightarrow> (Inl UndefinedBehaviour, fs)
         | Some fs1 \<Rightarrow>
             (case store_at 0 (encodeHeader \<lparr>hdr_magic = kMagic, hdr_records = 0, hdr_capacity = fj_capacity j\<rparr>) j fs1 of
                None \<Rightarrow> (Inl UndefinedBehaviour, fs1)
              | Some fs2 \<Rightarrow> (Inr (), fs2)))
      else
        (case mapped_header j fs of
           None \<Rightarrow> (Inl UndefinedBehaviour, fs)
         | Some h \<Rightarrow>
             if hdr_magic h \<noteq> kMagic
             then (Inl (Throws (runtime_error (''invalid fill journal magic: '' @ fj_path j))), fs)
             else if hdr_capacity h \<noteq> fj_capacity j
             then (Inl (Throws (runtime_error (''fill journal capacity mismatch: '' @ fj_path j))), fs)
             else if hdr_records h > hdr_capacity h
             then (Inl (Throws (runtime_error (''invalid fill journal record count: '' @ fj_path j))), fs)
             else (Inr (), fs)))"

definition closeMapping :: "FillJournal \<Rightarrow> FillJournal" where
  "closeMapping j = j\<lparr>fj_mapped := False\<rparr>"

definition FillJournal_new :: "journal_os \<Rightarrow> string \<Rightarrow> size_t \<Rightarrow> files \<Rightarrow> FillJournal result \<times> files" where
  "FillJournal_new os path capacityRecords fs =
     (if capacityRecords = 0 then (Inl (Throws (runtime_error ''fill journal capacity is zero'')), fs)
      else
        (case openMapping os \<lparr>fj_path = path, fj_capacity = capacityRecords, fj_fileBytes = 0,
                              fj_newFile = False, fj_mapped = False\<rparr> fs of
           (Inl e, fs1) \<Rightarrow> (Inl e, fs1)
         | (Inr j, fs1) \<Rightarrow>
             (case initializeOrValidateHeader j fs1 of
                (Inl e, fs2) \<Rightarrow> (Inl e, fs2)
              | (Inr _, fs2) \<Rightarrow> (Inr j, fs2))))"

text \<open>\<open>append\<close> is two stores: the record, then the record count at offset 8 of the header.\<close>

definition write_record :: "u64 \<Rightarrow> Fill \<Rightarrow> FillJournal \<Rightarrow> files \<Rightarrow> files option" where
  "write_record idx fill j fs = store_at (24 + unat idx * 40) (encodeRecord (record_of_fill fill)) j fs"

definition write_count :: "u64 \<Rightarrow> FillJournal \<Rightarrow> files \<Rightarrow> files option" where
  "write_count n j fs = store_at 8 (bytes_u64 n) j fs"

definition append_fill :: "Fill \<Rightarrow> FillJournal \<Rightarrow> files \<Rightarrow> unit result \<times> files" where
  "append_fill fill j fs =
     (case mapped_header j fs of
        None \<Rightarrow> (Inl UndefinedBehaviour, fs)
      | Some h \<Rightarrow>
          if hdr_records h \<ge> hdr_capacity h
          then (Inl (Throws (runtime_error (''fill journal full: '' @ fj_path j))), fs)
          else (case write_record (hdr_records h) fill j fs of
                  None \<Rightarrow> (Inl UndefinedBehaviour, fs)
                | Some fs1 \<Rightarrow> (case write_count (hdr_records h + 1) j fs1 of
                    None \<Rightarrow> (Inl UndefinedBehaviour, fs1)
                  | Some fs2 \<Rightarrow> (Inr (), fs2))))"

definition journal_flush :: "journal_os \<Rightarrow> FillJournal \<Rightarrow> unit result" where
  "journal_flush os j =
     (if \<not> jo_msync os then Inl (Throws (runtime_error ''failed to flush fill journal mapping'')) else Inr ())"

fun append_all :: "Fill list \<Rightarrow> FillJournal \<Rightarrow> files \<Rightarrow> unit result \<times> files" where
  "append_all [] j fs = (Inr (), fs)"
| "append_all (fill # fills) j fs =
     (case append_fill fill j fs of
        (Inl e, fs1) \<Rightarrow> (Inl e, fs1)
      | (Inr _, fs1) \<Rightarrow> append_all fills j fs1)"

definition appendBatch :: "journal_os \<Rightarrow> Fill list \<Rightarrow> FillJournal \<Rightarrow> files \<Rightarrow> unit result \<times> files" where
  "appendBatch os fills j fs =
     (case append_all fills j fs of
        (Inl e, fs1) \<Rightarrow> (Inl e, fs1)
      | (Inr _, fs1) \<Rightarrow> (journal_flush os j, fs1))"

definition recordsWritten :: "FillJournal \<Rightarrow> files \<Rightarrow> u64" where
  "recordsWritten j fs = (case mapped_header j fs of None \<Rightarrow> 0 | Some h \<Rightarrow> hdr_records h)"

text \<open>
  \<open>can_alloc n\<close> tells whether a vector of \<open>n\<close> records can be allocated and \<open>rd\<close> whether the stream delivers
  the bytes the file has.
\<close>

definition journal_replay :: "(nat \<Rightarrow> bool) \<Rightarrow> bool \<Rightarrow> string \<Rightarrow> files \<Rightarrow> FillRecord list result" where
  "journal_replay can_alloc rd path fs =
     (case fs path of
        None \<Rightarrow> Inl (Throws (runtime_error (''failed to open fill journal for replay: '' @ path)))
      | Some bs \<Rightarrow>
          if \<not> (rd \<and> 24 \<le> length bs)
          then Inl (Throws (runtime_error (''truncated fill journal header: '' @ path)))
          else
            let h = decodeHeader bs; n = unat (hdr_records h)
            in if hdr_magic h \<noteq> kMagic
               then Inl (Throws (runtime_error (''invalid fill journal magic: '' @ path)))
               else if hdr_records h > hdr_capacity h
               then Inl (Throws (runtime_error (''invalid fill journal record count: '' @ path)))
               else if \<not> can_alloc n then Inl (Throws bad_alloc)
               else if n > 0 \<and> length bs < 24 + n * 40
               then Inl (Throws (runtime_error ''truncated fill journal record''))
               else Inr (map decodeRecord (chunks 40 n (drop 24 bs))))"

definition JournalReplay_load :: "(nat \<Rightarrow> bool) \<Rightarrow> bool \<Rightarrow> string \<Rightarrow> files \<Rightarrow> FillRecord list result" where
  "JournalReplay_load can_alloc rd path fs = journal_replay can_alloc rd path fs"

section \<open>What a journal file holds\<close>

definition journal_image :: "size_t \<Rightarrow> FillRecord list \<Rightarrow> u8 list \<Rightarrow> u8 list" where
  "journal_image cap recs rest =
     encodeHeader \<lparr>hdr_magic = kMagic, hdr_records = of_nat (length recs), hdr_capacity = cap\<rparr> @
     concat (map encodeRecord recs) @ rest"

text \<open>A file that holds the records \<open>recs\<close> with room for \<open>cap\<close> of them.\<close>

definition journal_file :: "size_t \<Rightarrow> FillRecord list \<Rightarrow> string \<Rightarrow> files \<Rightarrow> bool" where
  "journal_file cap recs path fs \<longleftrightarrow> length recs \<le> unat cap \<and> 24 + unat cap * 40 < 2 ^ 63 \<and>
     (\<exists>rest. fs path = Some (journal_image cap recs rest) \<and> unat cap * 40 \<le> length recs * 40 + length rest)"

definition journal_rep :: "FillJournal \<Rightarrow> FillRecord list \<Rightarrow> files \<Rightarrow> bool" where
  "journal_rep j recs fs \<longleftrightarrow> fj_mapped j \<and> journal_file (fj_capacity j) recs (fj_path j) fs"

lemma length_journal_image [simp]:
  "length (journal_image cap recs rest) = 24 + length recs * 40 + length rest"
  by (simp add: journal_image_def record_codec.length_concat_enc)

lemma decode_image [simp]:
  "decodeHeader (journal_image cap recs rest) =
     \<lparr>hdr_magic = kMagic, hdr_records = of_nat (length recs), hdr_capacity = cap\<rparr>"
  by (simp add: journal_image_def)

lemma memcpy_record:
  assumes "length recs * 40 + 40 \<le> length recs * 40 + length rest"
  shows "memcpy_at (24 + length recs * 40) (encodeRecord r) (journal_image cap recs rest) =
     encodeHeader \<lparr>hdr_magic = kMagic, hdr_records = of_nat (length recs), hdr_capacity = cap\<rparr> @
     concat (map encodeRecord (recs @ [r])) @ drop 40 rest"
  using assms by (simp add: memcpy_at_def journal_image_def record_codec.length_concat_enc)

lemma memcpy_count:
  "memcpy_at 8 (bytes_u64 n) (encodeHeader h @ bs) = encodeHeader (h\<lparr>hdr_records := n\<rparr>) @ bs"
  by (simp add: memcpy_at_def encodeHeader_def)

lemma length_of_recs:
  assumes "length recs \<le> unat (cap :: size_t)"
  shows "unat (of_nat (length recs) :: u64) = length recs"
proof -
  have "length recs < 18446744073709551616"
    using assms unat_u64_less [of cap] by linarith
  then show ?thesis
    by (simp add: unat_of_nat take_bit_eq_mod)
qed

text \<open>The two stores of an append, with the image between them.\<close>

lemma append_stores:
  assumes rep: "journal_rep j recs fs" and room: "length recs < unat (fj_capacity j)"
  shows "\<exists>fs1 fs2. write_record (of_nat (length recs)) fill j fs = Some fs1 \<and>
     write_count (of_nat (length recs) + 1) j fs1 = Some fs2 \<and>
     journal_rep j recs fs1 \<and> journal_rep j (recs @ [record_of_fill fill]) fs2"
proof -
  let ?cap = "fj_capacity j" and ?r = "record_of_fill fill" and ?p = "fj_path j"
  obtain rest where r: "fs ?p = Some (journal_image ?cap recs rest)" "unat ?cap * 40 \<le> length recs * 40 + length rest"
      and m: "fj_mapped j" "24 + unat ?cap * 40 < 2 ^ 63"
    using rep by (auto simp: journal_rep_def journal_file_def)
  have "length recs * 40 + 40 \<le> unat ?cap * 40"
    using room by simp
  then have fit: "length recs * 40 + 40 \<le> length recs * 40 + length rest"
    using r(2) by linarith
  have n: "unat (of_nat (length recs) :: u64) = length recs"
    using length_of_recs [of recs ?cap] room by simp
  let ?rest = "encodeRecord ?r @ drop 40 rest"
  let ?i1 = "journal_image ?cap recs ?rest" and ?i2 = "journal_image ?cap (recs @ [?r]) (drop 40 rest)"
  have w1: "write_record (of_nat (length recs)) fill j fs = Some (fs(?p \<mapsto> ?i1))"
    using m fit r(1) memcpy_record [OF fit, of ?r ?cap] n
    by (simp add: write_record_def store_at_def mapped_bytes_def) (simp add: journal_image_def)
  have "memcpy_at 8 (bytes_u64 (of_nat (length recs) + 1)) ?i1 = ?i2"
    unfolding journal_image_def memcpy_count by (simp add: add.commute)
  then have w2: "write_count (of_nat (length recs) + 1) j (fs(?p \<mapsto> ?i1)) = Some (fs(?p \<mapsto> ?i2))"
    using m by (simp add: write_count_def store_at_def mapped_bytes_def)
  have "journal_rep j recs (fs(?p \<mapsto> ?i1))"
    unfolding journal_rep_def journal_file_def using m r(2) room fit by (auto intro!: exI [of _ ?rest])
  moreover have "journal_rep j (recs @ [?r]) (fs(?p \<mapsto> ?i2))"
    unfolding journal_rep_def journal_file_def using m r(2) room fit by (auto intro!: exI [of _ "drop 40 rest"])
  ultimately show ?thesis
    using w1 w2 by blast
qed

lemma rep_header:
  assumes "journal_rep j recs fs"
  shows "mapped_header j fs = Some \<lparr>hdr_magic = kMagic, hdr_records = of_nat (length recs), hdr_capacity = fj_capacity j\<rparr>"
  using assms by (auto simp: journal_rep_def journal_file_def mapped_header_def mapped_bytes_def)

lemma append_room:
  assumes rep: "journal_rep j recs fs" and room: "length recs < unat (fj_capacity j)"
  shows "\<exists>fs'. append_fill fill j fs = (Inr (), fs') \<and> journal_rep j (recs @ [record_of_fill fill]) fs'"
proof -
  have "of_nat (length recs) < fj_capacity j"
    using room length_of_recs [of recs "fj_capacity j"] by (simp add: word_less_nat_alt)
  moreover obtain fs1 fs2 where "write_record (of_nat (length recs)) fill j fs = Some fs1"
      "write_count (of_nat (length recs) + 1) j fs1 = Some fs2" "journal_rep j (recs @ [record_of_fill fill]) fs2"
    using append_stores [OF assms] by blast
  ultimately show ?thesis
    using rep_header [OF rep] by (simp add: append_fill_def not_le)
qed

lemma append_full:
  assumes rep: "journal_rep j recs fs" and full: "length recs = unat (fj_capacity j)"
  shows "append_fill fill j fs = (Inl (Throws (runtime_error (''fill journal full: '' @ fj_path j))), fs)"
  using rep_header [OF rep] full by (simp add: append_fill_def)

lemma append_all_rep:
  assumes "journal_rep j recs fs"
  shows "\<exists>fs'. append_all fills j fs =
       (if length recs + length fills \<le> unat (fj_capacity j) then Inr ()
        else Inl (Throws (runtime_error (''fill journal full: '' @ fj_path j))), fs') \<and>
     journal_rep j (recs @ take (unat (fj_capacity j) - length recs) (map record_of_fill fills)) fs'"
  using assms
proof (induction fills arbitrary: recs fs)
  case Nil
  then show ?case
    by (simp add: journal_rep_def journal_file_def)
next
  case (Cons f fills)
  have le: "length recs \<le> unat (fj_capacity j)"
    using Cons.prems by (simp add: journal_rep_def journal_file_def)
  show ?case
  proof (cases "length recs < unat (fj_capacity j)")
    case True
    obtain fs1 where a: "append_fill f j fs = (Inr (), fs1)" "journal_rep j (recs @ [record_of_fill f]) fs1"
      using append_room [OF Cons.prems True] by blast
    have "unat (fj_capacity j) - length recs = Suc (unat (fj_capacity j) - length (recs @ [record_of_fill f]))"
      using True by simp
    then show ?thesis
      using Cons.IH [OF a(2)] a(1) by simp
  next
    case False
    then show ?thesis
      using append_full [OF Cons.prems] le Cons.prems by simp
  qed
qed

lemma replay_file:
  assumes img: "journal_file cap recs path fs" and alloc: "can_alloc (length recs)"
  shows "journal_replay can_alloc True path fs = Inr recs"
proof -
  obtain rest where r: "fs path = Some (journal_image cap recs rest)" and le: "length recs \<le> unat cap"
    using img by (auto simp: journal_file_def)
  have n: "unat (of_nat (length recs) :: u64) = length recs"
    using length_of_recs [OF le] .
  then have "\<not> (of_nat (length recs) :: u64) > cap"
    using le by (simp add: word_less_nat_alt)
  moreover have "drop 24 (journal_image cap recs rest) = concat (map encodeRecord recs) @ rest"
    by (simp add: journal_image_def)
  then have "map decodeRecord (chunks 40 (length recs) (drop 24 (journal_image cap recs rest))) = recs"
    using record_codec.decode_encode_all by simp
  ultimately show ?thesis
    using r n alloc by (simp add: journal_replay_def Let_def)
qed

lemma replay_rep:
  "journal_rep j recs fs \<Longrightarrow> can_alloc (length recs) \<Longrightarrow> journal_replay can_alloc True (fj_path j) fs = Inr recs"
  unfolding journal_rep_def by (blast intro: replay_file)

section \<open>Opening\<close>

definition journal_os_good :: "journal_os \<Rightarrow> bool" where
  "journal_os_good os \<longleftrightarrow> jo_open os \<and> jo_fstat os \<and> jo_ftruncate os \<and> jo_mmap os"

lemma fileBytes_nat:
  assumes "24 + unat (cap :: size_t) * 40 < 2 ^ 63"
  shows "unat (sizeof_Header + cap * sizeof_FillRecord) = 24 + unat cap * 40"
    and "sint (sizeof_Header + cap * sizeof_FillRecord) = int (24 + unat cap * 40)"
proof -
  have m: "unat (cap * 40) = unat cap * 40"
    using assms by (simp add: unat_word_ariths)
  then show u: "unat (sizeof_Header + cap * sizeof_FillRecord) = 24 + unat cap * 40"
    using assms by (simp add: sizeof_Header_def sizeof_FillRecord_def unat_word_ariths)
  then have "uint (sizeof_Header + cap * sizeof_FillRecord) = int (24 + unat cap * 40)"
    by (metis uint_nat)
  moreover have "signed_take_bit 63 (int (24 + unat cap * 40)) = int (24 + unat cap * 40)"
  proof -
    have "signed_take_bit 63 (int n) = int n" if "n < 2 ^ 63" for n
      using that by (intro signed_take_bit_int_eq_self) auto
    then show ?thesis
      using assms by blast
  qed
  ultimately show "sint (sizeof_Header + cap * sizeof_FillRecord) = int (24 + unat cap * 40)"
    unfolding sint_uint by (simp only: len_num1 len_bit0) simp
qed

lemma open_new:
  assumes os: "journal_os_good os" and cap: "0 < cap" "24 + unat cap * 40 < 2 ^ 63"
    and img: "fs path = None \<or> fs path = Some []"
  shows "\<exists>j fs'. FillJournal_new os path cap fs = (Inr j, fs') \<and> journal_rep j [] fs' \<and> fj_path j = path \<and>
     fj_capacity j = cap \<and> (\<forall>q. q \<noteq> path \<longrightarrow> fs' q = fs q)"
proof -
  let ?n = "24 + unat cap * 40" and ?b = "sizeof_Header + cap * sizeof_FillRecord"
  let ?j = "\<lparr>fj_path = path, fj_capacity = cap, fj_fileBytes = ?b, fj_newFile = True, fj_mapped = True\<rparr>"
  let ?h = "encodeHeader \<lparr>hdr_magic = kMagic, hdr_records = 0, hdr_capacity = cap\<rparr>"
  have old: "(case fs path of None \<Rightarrow> [] | Some bs \<Rightarrow> bs) = []"
    using img by auto
  have "openMapping os \<lparr>fj_path = path, fj_capacity = cap, fj_fileBytes = 0, fj_newFile = False, fj_mapped = False\<rparr> fs =
      (Inr ?j, fs(path \<mapsto> replicate ?n 0))"
  proof -
    have "0 < 24 + uint cap * 40"
      by (simp add: add_pos_nonneg)
    then show ?thesis
      using os cap(2) by (simp add: openMapping_def Let_def old fileBytes_nat journal_os_good_def)
  qed
  moreover have "memcpy_at 0 (replicate ?n 0) (replicate ?n 0) = replicate ?n (0 :: u8)"
    by (simp add: memcpy_at_def)
  then have "store_at 0 (replicate (unat ?b) 0) ?j (fs(path \<mapsto> replicate ?n 0)) = Some (fs(path \<mapsto> replicate ?n 0))"
    using cap(2) by (simp add: store_at_def mapped_bytes_def fileBytes_nat)
  moreover have "memcpy_at 0 ?h (replicate ?n 0) = journal_image cap [] (replicate (unat cap * 40) 0)"
    by (simp add: memcpy_at_def journal_image_def)
  then have "store_at 0 ?h ?j (fs(path \<mapsto> replicate ?n 0)) = Some (fs(path \<mapsto> journal_image cap [] (replicate (unat cap * 40) 0)))"
    by (simp add: store_at_def mapped_bytes_def)
  ultimately have "FillJournal_new os path cap fs = (Inr ?j, fs(path \<mapsto> journal_image cap [] (replicate (unat cap * 40) 0)))"
    using cap(1) by (simp add: FillJournal_new_def initializeOrValidateHeader_def)
  then show ?thesis
    using cap(2) by (auto simp: journal_rep_def journal_file_def intro!: exI [of _ "replicate (unat cap * 40) 0"])
qed

lemma open_existing:
  assumes os: "journal_os_good os" and cap: "0 < cap" and img: "journal_file cap recs path fs"
  shows "\<exists>j. FillJournal_new os path cap fs = (Inr j, fs) \<and> journal_rep j recs fs \<and> fj_path j = path \<and> fj_capacity j = cap"
proof -
  let ?b = "sizeof_Header + cap * sizeof_FillRecord"
  let ?j = "\<lparr>fj_path = path, fj_capacity = cap, fj_fileBytes = ?b, fj_newFile = False, fj_mapped = True\<rparr>"
  obtain rest where r: "fs path = Some (journal_image cap recs rest)" "unat cap * 40 \<le> length recs * 40 + length rest"
      "length recs \<le> unat cap" "24 + unat cap * 40 < 2 ^ 63"
    using img by (auto simp: journal_file_def)
  have "openMapping os \<lparr>fj_path = path, fj_capacity = cap, fj_fileBytes = 0, fj_newFile = False, fj_mapped = False\<rparr> fs =
      (Inr ?j, fs)"
  proof -
    have "\<not> int (length (journal_image cap recs rest)) < sint ?b"
      unfolding fileBytes_nat(2) [OF r(4)] length_journal_image using r(2) by linarith
    moreover have "journal_image cap recs rest \<noteq> []"
      by (simp flip: length_greater_0_conv)
    ultimately show ?thesis
      using os r(1) by (simp add: openMapping_def Let_def journal_os_good_def fun_upd_idem)
  qed
  moreover have rep: "journal_rep ?j recs fs"
    using img by (simp add: journal_rep_def)
  moreover have "\<not> (of_nat (length recs) :: u64) > cap"
    using r(3) length_of_recs [OF r(3)] by (simp add: word_less_nat_alt)
  ultimately show ?thesis
    using cap rep_header [OF rep] by (simp add: FillJournal_new_def initializeOrValidateHeader_def)
qed

section \<open>Properties\<close>

text \<open>
  (C9) An append that is interrupted between its two stores loses nothing and invents nothing: a replay
  of the file as it is after the record store yields the records from before the append, and a replay
  after the count store yields them followed by the new one.
\<close>

theorem append_crash_consistent:
  assumes "journal_rep j recs fs" and "length recs < unat (fj_capacity j)"
    and "\<forall>n\<le>unat (fj_capacity j). can_alloc n"
  shows "\<exists>fs1 fs2. write_record (recordsWritten j fs) fill j fs = Some fs1 \<and>
           write_count (recordsWritten j fs + 1) j fs1 = Some fs2 \<and> append_fill fill j fs = (Inr (), fs2) \<and>
           journal_replay can_alloc True (fj_path j) fs1 = Inr recs \<and>
           journal_replay can_alloc True (fj_path j) fs2 = Inr (recs @ [record_of_fill fill])"
proof -
  have n: "recordsWritten j fs = of_nat (length recs)"
    using rep_header [OF assms(1)] by (simp add: recordsWritten_def)
  obtain fs1 fs2 where w: "write_record (of_nat (length recs)) fill j fs = Some fs1"
      "write_count (of_nat (length recs) + 1) j fs1 = Some fs2" "journal_rep j recs fs1"
      "journal_rep j (recs @ [record_of_fill fill]) fs2"
    using append_stores [OF assms(1,2)] by blast
  have "append_fill fill j fs = (Inr (), fs2)"
    using append_room [OF assms(1,2), of fill] w(1,2) rep_header [OF assms(1)] by (auto simp: append_fill_def split: if_splits)
  moreover have "journal_replay can_alloc True (fj_path j) fs1 = Inr recs"
    using w(3) assms(2,3) by (intro replay_rep) simp_all
  moreover have "journal_replay can_alloc True (fj_path j) fs2 = Inr (recs @ [record_of_fill fill])"
    using w(4) assms(2,3) by (intro replay_rep) simp_all
  ultimately show ?thesis
    using w(1,2) n by auto
qed

text \<open>
  (C10) A new journal that is given a batch that fits, flushed, closed and read back yields exactly the
  fills of the batch, and opening it again with the same capacity succeeds without changing the file.
\<close>

theorem journal_roundtrip:
  assumes "journal_os_good os" and "jo_msync os" and "0 < cap" and "24 + unat cap * 40 < 2 ^ 63"
    and "fs path = None" and "length fills \<le> unat cap" and "can_alloc (length fills)"
  shows "\<exists>j fs1 fs2 j2. FillJournal_new os path cap fs = (Inr j, fs1) \<and> appendBatch os fills j fs1 = (Inr (), fs2) \<and>
           JournalReplay_load can_alloc True path fs2 = Inr (map record_of_fill fills) \<and>
           FillJournal_new os path cap fs2 = (Inr j2, fs2) \<and> recordsWritten j2 fs2 = of_nat (length fills)"
proof -
  obtain j fs1 where j: "FillJournal_new os path cap fs = (Inr j, fs1)" "journal_rep j [] fs1" "fj_path j = path"
      "fj_capacity j = cap"
    using open_new [OF assms(1,3,4)] assms(5) by blast
  obtain fs2 where a: "append_all fills j fs1 = (Inr (), fs2)" "journal_rep j (map record_of_fill fills) fs2"
    using append_all_rep [OF j(2), of fills] assms(6) j(4) by auto
  have img: "journal_file cap (map record_of_fill fills) path fs2"
    using a(2) j(3,4) by (simp add: journal_rep_def)
  obtain j2 where j2: "FillJournal_new os path cap fs2 = (Inr j2, fs2)" "journal_rep j2 (map record_of_fill fills) fs2"
    using open_existing [OF assms(1,3) img] by blast
  have "appendBatch os fills j fs1 = (Inr (), fs2)"
    using a(1) assms(2) by (simp add: appendBatch_def journal_flush_def)
  moreover have "JournalReplay_load can_alloc True path fs2 = Inr (map record_of_fill fills)"
    using replay_file [OF img] assms(7) by (simp add: JournalReplay_load_def)
  ultimately show ?thesis
    using j(1) j2 rep_header [OF j2(2)] by (simp add: recordsWritten_def)
qed

text \<open>
  A batch that does not fit raises the \<open>fill journal full\<close> error after exactly the fills that did
  fit have been written.
\<close>

lemma journal_overflow:
  assumes "journal_rep j recs fs" and "unat (fj_capacity j) < length recs + length fills"
    and "can_alloc (unat (fj_capacity j))"
  shows "\<exists>fs'. appendBatch os fills j fs = (Inl (Throws (runtime_error (''fill journal full: '' @ fj_path j))), fs') \<and>
           journal_replay can_alloc True (fj_path j) fs' =
             Inr (recs @ take (unat (fj_capacity j) - length recs) (map record_of_fill fills))"
proof -
  let ?new = "recs @ take (unat (fj_capacity j) - length recs) (map record_of_fill fills)"
  have le: "length recs \<le> unat (fj_capacity j)"
    using assms(1) by (simp add: journal_rep_def journal_file_def)
  obtain fs' where a: "append_all fills j fs = (Inl (Throws (runtime_error (''fill journal full: '' @ fj_path j))), fs')"
      "journal_rep j ?new fs'"
    using append_all_rep [OF assms(1), of fills] assms(2) by auto
  have "length ?new = unat (fj_capacity j)"
    using assms(2) le by simp
  then show ?thesis
    using a(1) replay_rep [OF a(2), of can_alloc] assms(3) by (simp add: appendBatch_def del: length_append)
qed

lemma openMapping_keeps:
  assumes "openMapping os j fs = (r, fs')"
  shows "q \<noteq> fj_path j \<Longrightarrow> fs' q = fs q" and "fs (fj_path j) = Some bs \<Longrightarrow> \<exists>z. fs' (fj_path j) = Some (bs @ z)"
    and "r \<noteq> Inl UndefinedBehaviour"
  using assms by (auto simp: openMapping_def Let_def split: if_splits)

lemma openMapping_length:
  assumes "openMapping os j fs = (Inr j1, fs1)" and "24 + unat (fj_capacity j) * 40 < 2 ^ 63"
  shows "fj_path j1 = fj_path j" and "fj_mapped j1" and "fj_capacity j1 = fj_capacity j"
    and "fj_fileBytes j1 = sizeof_Header + fj_capacity j * sizeof_FillRecord"
    and "24 + unat (fj_capacity j) * 40 \<le> length (mapped_bytes j1 fs1)"
    and "fj_newFile j1 \<longleftrightarrow> fs (fj_path j) = None \<or> fs (fj_path j) = Some []"
proof -
  show j1: "fj_path j1 = fj_path j" "fj_mapped j1" "fj_capacity j1 = fj_capacity j"
      "fj_fileBytes j1 = sizeof_Header + fj_capacity j * sizeof_FillRecord"
      "fj_newFile j1 \<longleftrightarrow> fs (fj_path j) = None \<or> fs (fj_path j) = Some []"
    using assms(1) by (auto simp: openMapping_def Let_def split: if_splits option.splits)
  let ?old = "case fs (fj_path j) of None \<Rightarrow> [] | Some bs \<Rightarrow> bs"
  have "fs1 (fj_path j) = Some (if int (length ?old) < int (24 + unat (fj_capacity j) * 40)
      then ?old @ replicate (24 + unat (fj_capacity j) * 40 - length ?old) 0 else ?old)"
    using assms(1) unfolding openMapping_def Let_def fileBytes_nat [OF assms(2)] by (auto split: if_splits)
  then show "24 + unat (fj_capacity j) * 40 \<le> length (mapped_bytes j1 fs1)"
    using j1(1) by (auto simp: mapped_bytes_def simp del: of_nat_add of_nat_mult split: if_splits)
qed

text \<open>
  Opening a journal, whatever the system calls answer and whatever the file holds, never touches
  another file and keeps every byte an existing non-empty file has; it fails only with an exception.
\<close>

lemma journal_open_safe:
  assumes "24 + unat cap * 40 < 2 ^ 63" and "FillJournal_new os path cap fs = (r, fs')"
  shows "r \<noteq> Inl UndefinedBehaviour \<and> (\<forall>q. q \<noteq> path \<longrightarrow> fs' q = fs q) \<and>
         (\<forall>bs. fs path = Some bs \<and> bs \<noteq> [] \<longrightarrow> (\<exists>z. fs' path = Some (bs @ z)))"
proof (cases "cap = 0")
  case True
  then show ?thesis
    using assms(2) by (auto simp: FillJournal_new_def)
next
  case False
  let ?j0 = "\<lparr>fj_path = path, fj_capacity = cap, fj_fileBytes = 0, fj_newFile = False, fj_mapped = False\<rparr>"
  obtain r1 fs1 where opn: "openMapping os ?j0 fs = (r1, fs1)"
    by (cases "openMapping os ?j0 fs")
  note keeps = openMapping_keeps [OF opn, simplified]
  show ?thesis
  proof (cases r1)
    case (Inl e)
    then show ?thesis
      using assms(2) False opn keeps by (auto simp: FillJournal_new_def)
  next
    case (Inr j)
    have c: "24 + unat (fj_capacity ?j0) * 40 < 2 ^ 63"
      using assms(1) by simp
    note len = openMapping_length [OF opn [unfolded Inr] c, unfolded FillJournal.select_convs]
    show ?thesis
    proof (cases "fj_newFile j")
      case True
      have "unat (fj_fileBytes j) = 24 + unat cap * 40"
        using len(4) fileBytes_nat(1) [OF assms(1)] by simp
      then have "initializeOrValidateHeader j fs1 = (Inr (), fs') \<and> r = Inr j \<and> (\<forall>q. q \<noteq> path \<longrightarrow> fs' q = fs1 q)"
        using assms(2) False opn Inr True len(1,2,5)
        by (auto simp: FillJournal_new_def initializeOrValidateHeader_def store_at_def mapped_bytes_def memcpy_at_def)
      then show ?thesis
        using keeps(1) True len(6) by auto
    next
      case old: False
      have "24 \<le> length (mapped_bytes j fs1)"
        using len(5) by linarith
      then have "fs' = fs1 \<and> r \<noteq> Inl UndefinedBehaviour"
        using assms(2) False opn Inr old len(2)
        by (auto simp: FillJournal_new_def initializeOrValidateHeader_def mapped_header_def split: if_splits)
      then show ?thesis
        using keeps by auto
    qed
  qed
qed

section \<open>A small journal\<close>

definition sample_jos :: journal_os where
  "sample_jos = \<lparr>jo_open = True, jo_fstat = True, jo_ftruncate = True, jo_mmap = True, jo_msync = True\<rparr>"

definition sample_fill :: Fill where
  "sample_fill = \<lparr>fill_buyOrderId = 1, fill_sellOrderId = 2, fill_price = 100, fill_qty = 5, fill_timestamp = 9,
     fill_symbolPacked = 7\<rparr>"

lemma sample_jos_good: "journal_os_good sample_jos" "jo_msync sample_jos"
  by (simp_all add: journal_os_good_def sample_jos_def)

lemma sample_journal:
  obtains j fs where "FillJournal_new sample_jos ''j'' 2 Map.empty = (Inr j, fs)" "journal_rep j [] fs"
    "fj_capacity j = 2" "fj_path j = ''j''"
  using open_new [OF sample_jos_good(1), of 2 Map.empty "''j''"] by auto

theorem append_crash_consistent_witness:
  "\<exists>j fs fs1 fs2. FillJournal_new sample_jos ''j'' 2 Map.empty = (Inr j, fs) \<and>
     append_fill sample_fill j fs = (Inr (), fs2) \<and> write_record 0 sample_fill j fs = Some fs1 \<and>
     journal_replay (\<lambda>_. True) True ''j'' fs1 = Inr [] \<and>
     journal_replay (\<lambda>_. True) True ''j'' fs2 = Inr [record_of_fill sample_fill]"
proof -
  obtain j fs where j: "FillJournal_new sample_jos ''j'' 2 Map.empty = (Inr j, fs)" "journal_rep j [] fs"
      "fj_capacity j = 2" "fj_path j = ''j''"
    by (rule sample_journal)
  have "recordsWritten j fs = 0"
    using rep_header [OF j(2)] by (simp add: recordsWritten_def)
  then show ?thesis
    using append_crash_consistent [OF j(2), of "\<lambda>_. True" sample_fill] j by auto
qed

theorem journal_roundtrip_witness:
  "\<exists>j fs1 fs2. FillJournal_new sample_jos ''j'' 2 Map.empty = (Inr j, fs1) \<and>
     appendBatch sample_jos [sample_fill, sample_fill] j fs1 = (Inr (), fs2) \<and>
     JournalReplay_load (\<lambda>_. True) True ''j'' fs2 = Inr [record_of_fill sample_fill, record_of_fill sample_fill]"
  using journal_roundtrip [OF sample_jos_good, of 2 Map.empty "''j''" "[sample_fill, sample_fill]" "\<lambda>_. True"]
  by auto

end
