(* ===== verification/Trade_Store.thy ===== *)
theory Trade_Store
  imports Fill_Journal Complex_Main
begin

text \<open>
  \<open>include/store/TradeStore.h\<close>, the portable backend (lines 100 to 221): all trades in memory with an index
  per symbol, written to one file as a count and an array of fills.  What the output stream does is the
  parameter \<open>out_stream\<close> of \<open>Feed_Protocol\<close>; \<open>can_alloc\<close> and \<open>rd\<close> are as for the journal.  Floating point
  is computed through two rounding functions, one for \<open>long double\<close> and one for \<open>double\<close>.
\<close>

section \<open>State and operations\<close>

record TradeStore =
  ts_path :: string
  ts_trades :: "Fill list"
  ts_bySymbol :: "u64 \<rightharpoonup> nat list"

definition encodeFill :: "Fill \<Rightarrow> u8 list" where
  "encodeFill f = bytes_u64 (fill_buyOrderId f) @ bytes_u64 (fill_sellOrderId f) @ bytes_u32 (fill_price f) @
     bytes_u32 (fill_qty f) @ bytes_u64 (fill_timestamp f) @ bytes_u64 (fill_symbolPacked f)"

definition decodeFill :: "u8 list \<Rightarrow> Fill" where
  "decodeFill bs = \<lparr>fill_buyOrderId = u64_bytes (take 8 bs), fill_sellOrderId = u64_bytes (take 8 (drop 8 bs)),
     fill_price = u32_bytes (take 4 (drop 16 bs)), fill_qty = u32_bytes (take 4 (drop 20 bs)),
     fill_timestamp = u64_bytes (take 8 (drop 24 bs)), fill_symbolPacked = u64_bytes (take 8 (drop 32 bs))\<rparr>"

definition index_push :: "u64 \<Rightarrow> nat \<Rightarrow> (u64 \<rightharpoonup> nat list) \<Rightarrow> (u64 \<rightharpoonup> nat list)" where
  "index_push y i ix = ix(y \<mapsto> (case ix y of None \<Rightarrow> [] | Some is \<Rightarrow> is) @ [i])"

definition indexRange :: "Fill list \<Rightarrow> (u64 \<rightharpoonup> nat list) \<Rightarrow> nat \<Rightarrow> nat \<Rightarrow> (u64 \<rightharpoonup> nat list)" where
  "indexRange trades bySymbol b e = fold (\<lambda>i. index_push (fill_symbolPacked (trades ! i)) i) [b..<e] bySymbol"

definition rebuildIndex :: "TradeStore \<Rightarrow> TradeStore" where
  "rebuildIndex s = s\<lparr>ts_bySymbol := indexRange (ts_trades s) Map.empty 0 (length (ts_trades s))\<rparr>"

definition store_image :: "Fill list \<Rightarrow> u8 list" where
  "store_image fills = bytes_u64 (of_nat (length fills)) @ concat (map encodeFill fills)"

definition writeAll :: "out_stream \<Rightarrow> string \<Rightarrow> Fill list \<Rightarrow> files \<Rightarrow> unit result \<times> files" where
  "writeAll os path fills fs =
     (if \<not> os_opens os then (Inl (Throws (SQLiteError (''open trade store failed: '' @ path))), fs)
      else let data = store_image fills; fs1 = fs(path \<mapsto> os_stored os data)
           in if \<not> os_good os data then (Inl (Throws (SQLiteError (''write trade store failed: '' @ path))), fs1)
              else (Inr (), fs1))"

definition load_store :: "(nat \<Rightarrow> bool) \<Rightarrow> bool \<Rightarrow> TradeStore \<Rightarrow> files \<Rightarrow> TradeStore result" where
  "load_store can_alloc rd s fs =
     (case fs (ts_path s) of
        None \<Rightarrow> Inr s
      | Some bs \<Rightarrow>
          if \<not> (rd \<and> 8 \<le> length bs) then Inr s
          else
            let n = unat (u64_bytes (take 8 bs))
            in if \<not> can_alloc n then Inl (Throws bad_alloc)
               else if length bs < 8 + n * 40
               then Inl (Throws (SQLiteError (''truncated trade store: '' @ ts_path s)))
               else Inr (rebuildIndex (s\<lparr>ts_trades := map decodeFill (chunks 40 n (drop 8 bs))\<rparr>)))"

definition TradeStore_new :: "(nat \<Rightarrow> bool) \<Rightarrow> bool \<Rightarrow> string \<Rightarrow> files \<Rightarrow> TradeStore result" where
  "TradeStore_new can_alloc rd path fs =
     load_store can_alloc rd \<lparr>ts_path = path, ts_trades = [], ts_bySymbol = Map.empty\<rparr> fs"

definition insertBatch ::
  "out_stream \<Rightarrow> Fill list \<Rightarrow> bool \<Rightarrow> TradeStore \<Rightarrow> files \<Rightarrow> unit result \<times> TradeStore \<times> files" where
  "insertBatch os fills failBeforeCommit s fs =
     (let staged = ts_trades s @ fills;
          stagedBySymbol = indexRange staged (ts_bySymbol s) (length (ts_trades s)) (length staged)
      in if failBeforeCommit then (Inl (Throws (SQLiteError ''injected failure before commit'')), s, fs)
         else (case writeAll os (ts_path s) staged fs of
                 (Inl e, fs1) \<Rightarrow> (Inl e, s, fs1)
               | (Inr _, fs1) \<Rightarrow> (Inr (), s\<lparr>ts_trades := staged, ts_bySymbol := stagedBySymbol\<rparr>, fs1)))"

definition replaceAll :: "out_stream \<Rightarrow> Fill list \<Rightarrow> TradeStore \<Rightarrow> files \<Rightarrow> unit result \<times> TradeStore \<times> files" where
  "replaceAll os fills s fs =
     (case writeAll os (ts_path s) fills fs of
        (Inl e, fs1) \<Rightarrow> (Inl e, s, fs1)
      | (Inr _, fs1) \<Rightarrow> (Inr (), rebuildIndex (s\<lparr>ts_trades := fills\<rparr>), fs1))"

definition tradeCount :: "TradeStore \<Rightarrow> u64" where
  "tradeCount s = of_nat (length (ts_trades s))"

definition tradeCount_symbol :: "u64 \<Rightarrow> TradeStore \<Rightarrow> u64" where
  "tradeCount_symbol y s = (case ts_bySymbol s y of None \<Rightarrow> 0 | Some is \<Rightarrow> of_nat (length is))"

definition explainPlan :: string where
  "explainPlan = ''SEARCH trades USING INDEX idx_trades_ts (portable fallback)'' @ [CHR 0x0A]"

text \<open>The body of both VWAP loops on the running notional and quantity.\<close>

definition vwap_step :: "(real \<Rightarrow> real) \<Rightarrow> u64 \<Rightarrow> u64 \<Rightarrow> Fill \<Rightarrow> real \<times> u64 \<Rightarrow> real \<times> u64" where
  "vwap_step rl beginTs endTs f acc =
     (case acc of (notional, qty) \<Rightarrow>
        if fill_timestamp f < beginTs \<or> fill_timestamp f > endTs then (notional, qty)
        else (rl (notional + rl (rl (real (unat (fill_price f))) * rl (real (unat (fill_qty f))))),
              qty + ucast (fill_qty f)))"

definition vwap_result :: "(real \<Rightarrow> real) \<Rightarrow> (real \<Rightarrow> real) \<Rightarrow> real \<times> u64 \<Rightarrow> real" where
  "vwap_result rl rd acc =
     (case acc of (notional, qty) \<Rightarrow> if qty = 0 then 0 else rd (rl (notional / rl (real (unat qty)))))"

definition store_vwap :: "(real \<Rightarrow> real) \<Rightarrow> (real \<Rightarrow> real) \<Rightarrow> u64 \<Rightarrow> u64 \<Rightarrow> TradeStore \<Rightarrow> real" where
  "store_vwap rl rd beginTs endTs s = vwap_result rl rd (fold (vwap_step rl beginTs endTs) (ts_trades s) (0, 0))"

definition store_vwap_symbol ::
  "(real \<Rightarrow> real) \<Rightarrow> (real \<Rightarrow> real) \<Rightarrow> u64 \<Rightarrow> u64 \<Rightarrow> u64 \<Rightarrow> TradeStore \<Rightarrow> real" where
  "store_vwap_symbol rl rd y beginTs endTs s =
     (case ts_bySymbol s y of
        None \<Rightarrow> 0
      | Some is \<Rightarrow> vwap_result rl rd (fold (\<lambda>idx. vwap_step rl beginTs endTs (ts_trades s ! idx)) is (0, 0)))"

definition timeline :: "u64 \<Rightarrow> u64 \<Rightarrow> u64 \<Rightarrow> TradeStore \<Rightarrow> Fill list" where
  "timeline y beginTs endTs s =
     (case ts_bySymbol s y of
        None \<Rightarrow> []
      | Some is \<Rightarrow>
          fold (\<lambda>idx out. let f = ts_trades s ! idx
                          in if fill_timestamp f < beginTs \<or> fill_timestamp f > endTs then out else out @ [f]) is [])"

section \<open>The index\<close>

text \<open>A symbol has an entry exactly when it has trades, and the entry lists their positions in order.\<close>

definition entry :: "'a list \<Rightarrow> 'a list option" where
  "entry is = (if is = [] then None else Some is)"

definition index_ok :: "Fill list \<Rightarrow> (u64 \<rightharpoonup> nat list) \<Rightarrow> bool" where
  "index_ok trades ix \<longleftrightarrow>
     (\<forall>y. ix y = entry (filter (\<lambda>i. fill_symbolPacked (trades ! i) = y) [0..<length trades]))"

definition store_ok :: "TradeStore \<Rightarrow> bool" where
  "store_ok s \<longleftrightarrow> index_ok (ts_trades s) (ts_bySymbol s)"

lemma entry_case [simp]: "(case entry is of None \<Rightarrow> [] | Some js \<Rightarrow> js) = is"
  by (simp add: entry_def)

lemma index_push_entry:
  "ix y = entry is \<Longrightarrow> index_push z i ix y = entry (is @ (if z = y then [i] else []))"
  by (auto simp: index_push_def entry_def)

lemma indexRange_rep:
  assumes "b \<le> e" and "ix y = entry is"
  shows "indexRange trades ix b e y = entry (is @ filter (\<lambda>i. fill_symbolPacked (trades ! i) = y) [b..<e])"
  using assms(1)
proof (induction e rule: nat_induct_at_least)
  case base
  then show ?case by (simp add: indexRange_def assms(2))
next
  case (Suc e)
  have "indexRange trades ix b (Suc e) = index_push (fill_symbolPacked (trades ! e)) e (indexRange trades ix b e)"
    using Suc.hyps by (simp add: indexRange_def)
  then show ?case
    using index_push_entry [where ix = "indexRange trades ix b e" and y = y, OF Suc.IH] Suc.hyps by simp
qed

lemma index_ok_empty: "index_ok [] Map.empty"
  by (simp add: index_ok_def entry_def)

lemma index_ok_append:
  assumes "index_ok trades ix"
  shows "index_ok (trades @ fills) (indexRange (trades @ fills) ix (length trades) (length (trades @ fills)))"
  unfolding index_ok_def
proof
  fix y
  have "filter (\<lambda>i. fill_symbolPacked ((trades @ fills) ! i) = y) [0..<length (trades @ fills)] =
      filter (\<lambda>i. fill_symbolPacked ((trades @ fills) ! i) = y) [0..<length trades] @
      filter (\<lambda>i. fill_symbolPacked ((trades @ fills) ! i) = y) [length trades..<length (trades @ fills)]"
    using upt_add_eq_append [of 0 "length trades" "length fills"] by simp
  also have "filter (\<lambda>i. fill_symbolPacked ((trades @ fills) ! i) = y) [0..<length trades] =
      filter (\<lambda>i. fill_symbolPacked (trades ! i) = y) [0..<length trades]"
    by (rule filter_cong) (auto simp: nth_append)
  finally show "indexRange (trades @ fills) ix (length trades) (length (trades @ fills)) y =
      entry (filter (\<lambda>i. fill_symbolPacked ((trades @ fills) ! i) = y) [0..<length (trades @ fills)])"
    using assms indexRange_rep [of "length trades" "length (trades @ fills)" ix y _ "trades @ fills"]
    by (simp add: index_ok_def)
qed

lemma index_ok_unique: "index_ok trades ix \<Longrightarrow> index_ok trades ix' \<Longrightarrow> ix = ix'"
  by (simp add: index_ok_def fun_eq_iff)

lemma store_ok_rebuild [simp]: "store_ok (rebuildIndex s)"
  using index_ok_append [OF index_ok_empty, of "ts_trades s"] by (simp add: store_ok_def rebuildIndex_def)

lemma filter_nth_map: "map ((!) xs) (filter (\<lambda>i. P (xs ! i)) [0..<length xs]) = filter P xs"
proof -
  have "map ((!) xs) (filter (P \<circ> (!) xs) [0..<length xs]) = filter P (map ((!) xs) [0..<length xs])"
    by (simp add: filter_map)
  then show ?thesis
    by (simp add: map_nth comp_def)
qed

lemma symbol_entry:
  assumes "store_ok s"
  shows "ts_bySymbol s y = entry (filter (\<lambda>i. fill_symbolPacked (ts_trades s ! i) = y) [0..<length (ts_trades s)])"
  using assms by (simp add: store_ok_def index_ok_def)

section \<open>Files\<close>

lemma length_encodeFill [simp]: "length (encodeFill f) = 40"
  by (simp add: encodeFill_def)

lemma encodeFill_record: "encodeFill f = encodeRecord (record_of_fill f)" "decodeFill bs = fill_of_record (decodeRecord bs)"
  by (simp_all add: encodeFill_def encodeRecord_def record_of_fill_def decodeFill_def decodeRecord_def fill_of_record_def)

interpretation fill_codec: fixed_codec encodeFill decodeFill 40
  by unfold_locales (simp_all add: encodeFill_record record_codec.dec_enc record_codec.enc_dec)

lemma load_image:
  assumes "fs path = Some (store_image fills)" and "length fills < 2 ^ 64" and "can_alloc (length fills)"
  shows "TradeStore_new can_alloc True path fs =
    Inr (rebuildIndex \<lparr>ts_path = path, ts_trades = fills, ts_bySymbol = Map.empty\<rparr>)"
proof -
  have n: "unat (of_nat (length fills) :: u64) = length fills"
    using assms(2) by (simp add: unat_of_nat take_bit_eq_mod)
  have d: "drop 8 (store_image fills) = concat (map encodeFill fills) @ []" "take 8 (store_image fills) = bytes_u64 (of_nat (length fills))"
    by (simp_all add: store_image_def)
  have "length (store_image fills) = 8 + length fills * 40"
    by (simp add: store_image_def fill_codec.length_concat_enc)
  moreover have "map decodeFill (chunks 40 (length fills) (drop 8 (store_image fills))) = fills"
    unfolding d(1) by (rule fill_codec.decode_encode_all)
  ultimately show ?thesis
    using assms(1,3) n d(2) by (simp add: TradeStore_new_def load_store_def Let_def)
qed

lemma store_rebuild_eq: "store_ok s \<Longrightarrow> rebuildIndex \<lparr>ts_path = ts_path s, ts_trades = ts_trades s, ts_bySymbol = ix\<rparr> = s"
  using store_ok_rebuild [of "\<lparr>ts_path = ts_path s, ts_trades = ts_trades s, ts_bySymbol = ix\<rparr>"] index_ok_unique
  by (fastforce simp: store_ok_def rebuildIndex_def)

section \<open>Operations keep the index\<close>

lemma rebuildIndex_simps [simp]:
  "ts_path (rebuildIndex s) = ts_path s" "ts_trades (rebuildIndex s) = ts_trades s"
  by (simp_all add: rebuildIndex_def)

lemma store_ok_empty [simp]: "store_ok \<lparr>ts_path = path, ts_trades = [], ts_bySymbol = Map.empty\<rparr>"
  by (simp add: store_ok_def index_ok_empty)

lemma load_store_ok:
  "TradeStore_new can_alloc rd path fs = Inr s \<Longrightarrow> store_ok s \<and> ts_path s = path"
  by (auto simp: TradeStore_new_def load_store_def Let_def split: option.splits if_splits)

lemma insertBatch_ok:
  assumes "store_ok s" and "insertBatch os fills b s fs = (r, s', fs')"
  shows "store_ok s' \<and> ts_path s' = ts_path s \<and> ts_trades s' = ts_trades s @ (if r = Inr () then fills else [])"
  using assms index_ok_append [of "ts_trades s" "ts_bySymbol s" fills]
  by (auto simp: insertBatch_def Let_def store_ok_def split: if_splits prod.splits sum.splits)

lemma replaceAll_ok:
  assumes "store_ok s" and "replaceAll os fills s fs = (r, s', fs')"
  shows "store_ok s' \<and> ts_path s' = ts_path s \<and> ts_trades s' = (if r = Inr () then fills else ts_trades s)"
  using assms by (auto simp: replaceAll_def split: prod.splits sum.splits)

section \<open>Properties\<close>

definition in_window :: "u64 \<Rightarrow> u64 \<Rightarrow> Fill \<Rightarrow> bool" where
  "in_window beginTs endTs f \<longleftrightarrow> beginTs \<le> fill_timestamp f \<and> fill_timestamp f \<le> endTs"

lemma fold_skip: "fold (\<lambda>x acc. if P x then acc @ [x] else acc) xs out = out @ filter P xs"
  by (induction xs arbitrary: out) simp_all

lemma fold_map_nth: "fold (\<lambda>i. g (xs ! i)) is acc = fold g (map ((!) xs) is) acc"
  by (simp add: fold_map comp_def)

lemma vwap_window: "fold (vwap_step rl b e) xs acc = fold (vwap_step rl b e) (filter (in_window b e) xs) acc"
  by (induction xs arbitrary: acc) (auto simp: vwap_step_def in_window_def split: prod.split)

lemma symbol_positions:
  fixes y :: u64
  assumes "store_ok s"
  defines "ps \<equiv> filter (\<lambda>i. fill_symbolPacked (ts_trades s ! i) = y) [0..<length (ts_trades s)]"
  shows "ts_bySymbol s y = entry ps" and "map ((!) (ts_trades s)) ps = filter (\<lambda>f. fill_symbolPacked f = y) (ts_trades s)"
    and "length ps = length (filter (\<lambda>f. fill_symbolPacked f = y) (ts_trades s))"
proof -
  show "ts_bySymbol s y = entry ps"
    unfolding ps_def by (rule symbol_entry [OF assms(1)])
  show m: "map ((!) (ts_trades s)) ps = filter (\<lambda>f. fill_symbolPacked f = y) (ts_trades s)"
    unfolding ps_def by (rule filter_nth_map)
  show "length ps = length (filter (\<lambda>f. fill_symbolPacked f = y) (ts_trades s))"
    using arg_cong [OF m, of length] by simp
qed

lemma count_scan:
  assumes "store_ok s"
  shows "tradeCount_symbol y s = of_nat (length (filter (\<lambda>f. fill_symbolPacked f = y) (ts_trades s)))"
  unfolding tradeCount_symbol_def symbol_positions(1) [OF assms] symbol_positions(3) [OF assms, symmetric]
  by (simp add: entry_def)

lemma timeline_scan:
  assumes "store_ok s"
  shows "timeline y b e s = filter (\<lambda>f. fill_symbolPacked f = y \<and> in_window b e f) (ts_trades s)"
proof -
  let ?is = "filter (\<lambda>i. fill_symbolPacked (ts_trades s ! i) = y) [0..<length (ts_trades s)]"
  have "timeline y b e s = fold (\<lambda>i. (\<lambda>f out. if in_window b e f then out @ [f] else out) (ts_trades s ! i)) ?is []"
    unfolding timeline_def symbol_positions(1) [OF assms]
    by (auto simp: entry_def Let_def in_window_def fun_eq_iff not_less intro!: fold_cong)
  also have "\<dots> = filter (in_window b e) (map ((!) (ts_trades s)) ?is)"
    using fold_map_nth [of "\<lambda>f out. if in_window b e f then out @ [f] else out" "ts_trades s" ?is "[]"]
    by (simp add: fold_skip)
  finally show ?thesis
    unfolding symbol_positions(2) [OF assms] by (simp add: conj_commute)
qed

lemma vwap_scan:
  assumes "store_ok s"
  shows "store_vwap_symbol rl rd y b e s =
    vwap_result rl rd (fold (vwap_step rl b e) (filter (\<lambda>f. fill_symbolPacked f = y) (ts_trades s)) (0, 0))"
proof -
  let ?is = "filter (\<lambda>i. fill_symbolPacked (ts_trades s ! i) = y) [0..<length (ts_trades s)]"
  have "store_vwap_symbol rl rd y b e s = vwap_result rl rd (fold (vwap_step rl b e) (map ((!) (ts_trades s)) ?is) (0, 0))"
    unfolding store_vwap_symbol_def symbol_positions(1) [OF assms]
    using fold_map_nth [of "vwap_step rl b e" "ts_trades s" ?is "(0, 0)"] by (auto simp: entry_def vwap_result_def)
  then show ?thesis
    unfolding symbol_positions(2) [OF assms] .
qed

text \<open>
  (C21) The indexed queries are the plain scans over all trades: the count, the timeline and the VWAP of a
  symbol are those of the trades of that symbol, in insertion order, restricted to the time window.
\<close>

theorem store_queries:
  assumes "store_ok s"
  shows "tradeCount_symbol y s = of_nat (length (filter (\<lambda>f. fill_symbolPacked f = y) (ts_trades s))) \<and>
         timeline y b e s = filter (\<lambda>f. fill_symbolPacked f = y \<and> in_window b e f) (ts_trades s) \<and>
         store_vwap_symbol rl rd y b e s =
           store_vwap rl rd b e (s\<lparr>ts_trades := filter (\<lambda>f. fill_symbolPacked f = y) (ts_trades s)\<rparr>)"
  using count_scan [OF assms] timeline_scan [OF assms] vwap_scan [OF assms] by (simp add: store_vwap_def)

definition stream_faithful :: "out_stream \<Rightarrow> bool" where
  "stream_faithful os \<longleftrightarrow> os_opens os \<and> (\<forall>bs. os_good os bs \<and> os_stored os bs = bs)"

text \<open>
  (C18) A batch inserted through a stream that stores what it is given is durable: the store holds the
  old trades followed by the batch, its index stays consistent, and opening the file anew yields the
  very same store.
\<close>

theorem insertBatch_durable:
  assumes "store_ok s" and "stream_faithful os" and "length (ts_trades s) + length fills < 2 ^ 64"
    and "can_alloc (length (ts_trades s) + length fills)"
  shows "\<exists>s' fs'. insertBatch os fills False s fs = (Inr (), s', fs') \<and> store_ok s' \<and>
           ts_trades s' = ts_trades s @ fills \<and> TradeStore_new can_alloc True (ts_path s) fs' = Inr s'"
proof -
  let ?staged = "ts_trades s @ fills"
  obtain s' where i: "insertBatch os fills False s fs = (Inr (), s', fs(ts_path s \<mapsto> store_image ?staged))"
    using assms(2) by (simp add: insertBatch_def writeAll_def stream_faithful_def Let_def)
  have s': "store_ok s'" "ts_path s' = ts_path s" "ts_trades s' = ?staged"
    using insertBatch_ok [OF assms(1) i] by simp_all
  have "TradeStore_new can_alloc True (ts_path s) (fs(ts_path s \<mapsto> store_image ?staged)) =
      Inr (rebuildIndex \<lparr>ts_path = ts_path s', ts_trades = ts_trades s', ts_bySymbol = Map.empty\<rparr>)"
    using assms(3,4) s'(2,3) by (subst load_image [where fills = ?staged]) simp_all
  then show ?thesis
    using i s' store_rebuild_eq [OF s'(1)] by simp
qed

text \<open>
  A batch that throws leaves the store in memory as it was.  When it throws before writing, by
  the injected failure or because the file does not open, the file is untouched as well.
\<close>

lemma insertBatch_failure:
  assumes "insertBatch os fills b s fs = (Inl ex, s', fs')"
  shows "s' = s \<and> (b \<or> \<not> os_opens os \<longrightarrow> fs' = fs) \<and> (\<forall>q. q \<noteq> ts_path s \<longrightarrow> fs' q = fs q)"
  using assms by (auto simp: insertBatch_def writeAll_def Let_def split: if_splits)

lemma length_store_image [simp]: "length (store_image fills) = 8 + 40 * length fills"
  by (simp add: store_image_def fill_codec.length_concat_enc)



section \<open>VWAP\<close>

definition notional :: "Fill list \<Rightarrow> nat" where
  "notional fs = (\<Sum>f\<leftarrow>fs. unat (fill_price f) * unat (fill_qty f))"

definition volume_of :: "Fill list \<Rightarrow> nat" where
  "volume_of fs = (\<Sum>f\<leftarrow>fs. unat (fill_qty f))"

lemma vwap_fold:
  assumes "unat q + volume_of (filter (in_window b e) fs) < 2 ^ 64"
  shows "fold (vwap_step (\<lambda>v. v) b e) fs (x, q) =
     (x + real (notional (filter (in_window b e) fs)), q + of_nat (volume_of (filter (in_window b e) fs)))"
  using assms
proof (induction fs arbitrary: x q)
  case Nil
  then show ?case by (simp add: notional_def volume_of_def)
next
  case (Cons f fs)
  show ?case
  proof (cases "in_window b e f")
    case True
    have u: "unat (q + ucast (fill_qty f)) = unat q + unat (fill_qty f)"
      using Cons.prems True by (subst unat_add_u64) (simp_all add: volume_of_def)
    have w: "ucast (fill_qty f) = (of_nat (unat (fill_qty f)) :: u64)"
      by (simp add: word_unat_eq_iff unat_of_nat take_bit_eq_mod order_less_trans [OF unat_u32_less])
    have step: "vwap_step (\<lambda>v. v) b e f (x, q) =
        (x + real (unat (fill_price f)) * real (unat (fill_qty f)), q + ucast (fill_qty f))"
    proof -
      have "\<not> (fill_timestamp f < b \<or> fill_timestamp f > e)"
        using True by (auto simp: in_window_def not_less)
      then show ?thesis by (simp add: vwap_step_def)
    qed
    let ?F = "filter (in_window b e) fs"
    have sums: "volume_of (filter (in_window b e) (f # fs)) = unat (fill_qty f) + volume_of ?F"
        "notional (filter (in_window b e) (f # fs)) = unat (fill_price f) * unat (fill_qty f) + notional ?F"
      using True by (simp_all add: volume_of_def notional_def)
    have "fold (vwap_step (\<lambda>v. v) b e) (f # fs) (x, q) = fold (vwap_step (\<lambda>v. v) b e) fs
        (x + real (unat (fill_price f)) * real (unat (fill_qty f)), q + ucast (fill_qty f))"
      using step by simp
    also have "\<dots> = (x + real (unat (fill_price f)) * real (unat (fill_qty f)) + real (notional ?F),
        q + ucast (fill_qty f) + of_nat (volume_of ?F))"
      using Cons.prems u unfolding sums by (intro Cons.IH) simp
    finally show ?thesis
      unfolding sums by (simp only: w of_nat_add of_nat_mult add.assoc)
  next
    case False
    then have "vwap_step (\<lambda>v. v) b e f (x, q) = (x, q)"
      by (auto simp: vwap_step_def in_window_def not_le)
    then show ?thesis
      using Cons False by simp
  qed
qed

lemma vwap_exact:
  assumes "volume_of (filter (in_window b e) (ts_trades s)) < 2 ^ 64"
  shows "store_vwap (\<lambda>v. v) (\<lambda>v. v) b e s =
    (let fs = filter (in_window b e) (ts_trades s) in real (notional fs) / real (volume_of fs))"
proof -
  let ?v = "volume_of (filter (in_window b e) (ts_trades s))"
  have "unat (of_nat ?v :: u64) = ?v"
    using assms by (simp add: unat_of_nat take_bit_eq_mod)
  moreover from this have "(of_nat ?v :: u64) = 0 \<longleftrightarrow> ?v = 0"
    by (metis unat_eq_zero)
  ultimately show ?thesis
    using vwap_fold [of 0 b e "ts_trades s" 0] assms by (simp add: store_vwap_def vwap_result_def Let_def)
qed

lemma notional_bounds:
  assumes "\<forall>f\<in>set fs. lo \<le> unat (fill_price f) \<and> unat (fill_price f) \<le> hi"
  shows "lo * volume_of fs \<le> notional fs \<and> notional fs \<le> hi * volume_of fs"
  using assms by (induction fs) (auto simp: notional_def volume_of_def add_mult_distrib2 intro!: add_mono mult_le_mono1)

text \<open>
  In exact arithmetic the VWAP of a window is total notional over total quantity, provided the
  quantities fit the 64-bit sum, and lies between the lowest and the highest price traded in the window.
\<close>

lemma vwap_within_prices:
  assumes "volume_of (filter (in_window b e) (ts_trades s)) < 2 ^ 64"
    and "0 < volume_of (filter (in_window b e) (ts_trades s))"
    and "\<forall>f\<in>set (filter (in_window b e) (ts_trades s)). lo \<le> unat (fill_price f) \<and> unat (fill_price f) \<le> hi"
  shows "store_vwap (\<lambda>v. v) (\<lambda>v. v) b e s =
           real (notional (filter (in_window b e) (ts_trades s))) / real (volume_of (filter (in_window b e) (ts_trades s))) \<and>
         real lo \<le> store_vwap (\<lambda>v. v) (\<lambda>v. v) b e s \<and> store_vwap (\<lambda>v. v) (\<lambda>v. v) b e s \<le> real hi"
proof -
  let ?fs = "filter (in_window b e) (ts_trades s)"
  have eq: "store_vwap (\<lambda>v. v) (\<lambda>v. v) b e s = real (notional ?fs) / real (volume_of ?fs)"
    using vwap_exact [OF assms(1)] by (simp add: Let_def)
  have "real (lo * volume_of ?fs) \<le> real (notional ?fs)" "real (notional ?fs) \<le> real (hi * volume_of ?fs)"
    using notional_bounds [OF assms(3)] by (simp_all only: of_nat_le_iff)
  then have "real lo \<le> real (notional ?fs) / real (volume_of ?fs)" "real (notional ?fs) / real (volume_of ?fs) \<le> real hi"
    using assms(2) by (simp_all add: pos_le_divide_eq pos_divide_le_eq)
  then show ?thesis
    using eq by simp
qed

section \<open>A small store\<close>

definition sample_stream :: out_stream where
  "sample_stream = \<lparr>os_opens = True, os_good = (\<lambda>_. True), os_stored = (\<lambda>bs. bs)\<rparr>"

definition sample_store :: TradeStore where
  "sample_store = rebuildIndex \<lparr>ts_path = ''s'', ts_trades = [sample_fill, sample_fill\<lparr>fill_symbolPacked := 8\<rparr>],
     ts_bySymbol = Map.empty\<rparr>"

lemma sample_store_ok: "store_ok sample_store" "ts_path sample_store = ''s''"
  "ts_trades sample_store = [sample_fill, sample_fill\<lparr>fill_symbolPacked := 8\<rparr>]"
  by (simp_all add: sample_store_def)

theorem store_queries_witness:
  "tradeCount_symbol 8 sample_store = 1 \<and> timeline 7 0 9 sample_store = [sample_fill] \<and>
   store_vwap_symbol (\<lambda>v. v) (\<lambda>v. v) 7 0 9 sample_store =
     store_vwap (\<lambda>v. v) (\<lambda>v. v) 0 9 (sample_store\<lparr>ts_trades := [sample_fill]\<rparr>)"
  using store_queries [OF sample_store_ok(1), of 8 0 9] store_queries [OF sample_store_ok(1), of 7 0 9]
  by (simp add: sample_store_ok sample_fill_def in_window_def)

theorem insertBatch_durable_witness:
  "\<exists>s' fs'. insertBatch sample_stream [sample_fill] False sample_store Map.empty = (Inr (), s', fs') \<and>
     length (ts_trades s') = 3 \<and> TradeStore_new (\<lambda>_. True) True ''s'' fs' = Inr s'"
  using insertBatch_durable [OF sample_store_ok(1), of sample_stream "[sample_fill]" "\<lambda>_. True" Map.empty]
  by (auto simp: sample_store_ok stream_faithful_def sample_stream_def)


end
