(* ===== verification/Recovery.thy ===== *)
theory Recovery
  imports Symbol_Isolation Trade_Store Sample_States
begin

text \<open>
  \<open>include/replay/RecoveryReconciler.h\<close>: replaying a feed from scratch, comparing the result with the journal
  and the store, and rebuilding the store from the journal.  A call that the model of the engine does not
  return from would be \<open>UndefinedBehaviour\<close>.
\<close>

section \<open>Replaying a feed\<close>

fun recover_fills :: "FeedMessage list \<Rightarrow> MatchingEngine \<Rightarrow> OrderPool \<Rightarrow> Fill list result" where
  "recover_fills [] e p = Inr []"
| "recover_fills (m # ms) e p =
     (if \<not> isValidFeedMessage m
      then Inl (Throws (runtime_error ''invalid feed message during recovery replay''))
      else
        (case engine_message m e p of
           None \<Rightarrow> Inl UndefinedBehaviour
         | Some (ok, e1, p1) \<Rightarrow>
             if \<not> ok then Inl (Throws (runtime_error ''recovery replay pool exhausted''))
             else let (batch, e2) = drainFills e1
                  in result_bind (recover_fills ms e2 p1) (\<lambda>fills. Inr (batch @ fills))))"

definition recovery_capacity :: "size_t \<Rightarrow> nat \<Rightarrow> size_t" where
  "recovery_capacity poolCapacity feed_size =
     (if poolCapacity = 0 then max 1024 (of_nat feed_size + 1024) else poolCapacity)"

definition recovery_replayFills :: "os_mem \<Rightarrow> FeedMessage list \<Rightarrow> size_t \<Rightarrow> Fill list result" where
  "recovery_replayFills os feed poolCapacity =
     result_bind (SlabPool_new sizeof_Order os (recovery_capacity poolCapacity (length feed)) False)
       (\<lambda>pool. recover_fills feed MatchingEngine_new pool)"

section \<open>Reconciliation\<close>

record RecoveryReport =
  rr_replayFills :: size_t
  rr_journalFills :: size_t
  rr_storeTrades :: u64
  rr_journalMatches :: bool
  rr_storeCountMatches :: bool
  rr_storeVwapMatches :: bool
  rr_replayVwap :: real
  rr_storeVwap :: real

definition report_ok :: "RecoveryReport \<Rightarrow> bool" where
  "report_ok r \<longleftrightarrow> rr_journalMatches r \<and> rr_storeCountMatches r \<and> rr_storeVwapMatches r"

definition same_fill :: "Fill \<Rightarrow> FillRecord \<Rightarrow> bool" where
  "same_fill f r \<longleftrightarrow> fill_buyOrderId f = rec_buyOrderId r \<and> fill_sellOrderId f = rec_sellOrderId r \<and>
     fill_price f = rec_price r \<and> fill_qty f = rec_qty r \<and> fill_timestamp f = rec_timestamp r \<and>
     fill_symbolPacked f = rec_symbolPacked r"

definition sameFills :: "Fill list \<Rightarrow> FillRecord list \<Rightarrow> bool" where
  "sameFills fills records \<longleftrightarrow> length fills = length records \<and>
     (\<forall>i<length fills. same_fill (fills ! i) (records ! i))"

text \<open>The loop of \<open>vwap\<close> on the earliest and latest timestamp, the notional and the quantity.\<close>

definition span_step :: "(real \<Rightarrow> real) \<Rightarrow> Fill \<Rightarrow> u64 \<times> u64 \<times> real \<times> u64 \<Rightarrow> u64 \<times> u64 \<times> real \<times> u64" where
  "span_step rl f acc =
     (case acc of (beginTs, endTs, n, qty) \<Rightarrow>
        (min beginTs (fill_timestamp f), max endTs (fill_timestamp f),
         rl (n + rl (rl (real (unat (fill_price f))) * rl (real (unat (fill_qty f))))),
         qty + ucast (fill_qty f)))"

text \<open>The result with the two output parameters, which an empty list leaves at their initial 0.\<close>

definition recovery_vwap :: "(real \<Rightarrow> real) \<Rightarrow> (real \<Rightarrow> real) \<Rightarrow> Fill list \<Rightarrow> real \<times> u64 \<times> u64" where
  "recovery_vwap rl rdb fills =
     (if fills = [] then (0, 0, 0)
      else case fold (span_step rl) fills (- 1, 0, 0, 0) of
        (beginTs, endTs, n, qty) \<Rightarrow> (vwap_result rl rdb (n, qty), beginTs, endTs))"

text \<open>
  \<open>rl\<close> and \<open>rdb\<close> round \<open>long double\<close> and \<open>double\<close>; \<open>can_alloc\<close> and \<open>rd\<close> are the environment of the two files.
\<close>

definition reconcile ::
  "(real \<Rightarrow> real) \<Rightarrow> (real \<Rightarrow> real) \<Rightarrow> (nat \<Rightarrow> bool) \<Rightarrow> bool \<Rightarrow> os_mem \<Rightarrow> FeedMessage list \<Rightarrow> string \<Rightarrow> string \<Rightarrow>
   size_t \<Rightarrow> files \<Rightarrow> RecoveryReport result" where
  "reconcile rl rdb can_alloc rd os feed journalPath storePath poolCapacity fs =
     result_bind (recovery_replayFills os feed poolCapacity) (\<lambda>replayed.
     result_bind (journal_replay can_alloc rd journalPath fs) (\<lambda>journal.
     result_bind (TradeStore_new can_alloc rd storePath fs) (\<lambda>store.
       let (replayVwap, beginTs, endTs) = recovery_vwap rl rdb replayed;
           storeVwap = store_vwap rl rdb beginTs endTs store
       in Inr \<lparr>rr_replayFills = of_nat (length replayed), rr_journalFills = of_nat (length journal),
               rr_storeTrades = tradeCount store, rr_journalMatches = sameFills replayed journal,
               rr_storeCountMatches = (tradeCount store = of_nat (length replayed)),
               rr_storeVwapMatches = (\<bar>rdb (replayVwap - storeVwap)\<bar> < 1 / 10 ^ 9),
               rr_replayVwap = replayVwap, rr_storeVwap = storeVwap\<rparr>)))"

definition rebuildStoreFromJournal ::
  "(nat \<Rightarrow> bool) \<Rightarrow> bool \<Rightarrow> out_stream \<Rightarrow> string \<Rightarrow> string \<Rightarrow> files \<Rightarrow> size_t result \<times> files" where
  "rebuildStoreFromJournal can_alloc rd os journalPath storePath fs =
     (case journal_replay can_alloc rd journalPath fs of
        Inl e \<Rightarrow> (Inl e, fs)
      | Inr records \<Rightarrow>
          let fills = map fill_of_record records
          in (case TradeStore_new can_alloc rd storePath fs of
                Inl e \<Rightarrow> (Inl e, fs)
              | Inr store \<Rightarrow>
                  (case replaceAll os fills store fs of
                     (Inl e, _, fs1) \<Rightarrow> (Inl e, fs1)
                   | (Inr _, _, fs1) \<Rightarrow> (Inr (of_nat (length fills)), fs1))))"

section \<open>The replay computes the specification\<close>

definition replay_verdict :: "FeedMessage list \<Rightarrow> Fill list \<Rightarrow> Fill list result" where
  "replay_verdict feed fills =
     (if list_all isValidFeedMessage feed then Inr fills
      else Inl (Throws (runtime_error ''invalid feed message during recovery replay'')))"

lemma recover_fills_rep:
  assumes "engine_ok e p" and "live (mem p) = resting e" and "m_fills e = []"
    and "book_size (book_of e p) + length (valid_adds ms) \<le> unat (m_capacity p)"
  shows "recover_fills ms e p = replay_verdict ms (fst (spec_replay (unat (m_capacity p)) ms (book_of e p)))"
  using assms
proof (induction ms arbitrary: e p)
  case Nil
  then show ?case by (simp add: replay_verdict_def)
next
  case (Cons m ms)
  show ?case
  proof (cases "isValidFeedMessage m")
    case False
    then show ?thesis by (simp add: replay_verdict_def)
  next
    case v: True
    have c: "card (live (mem p)) = book_size (book_of e p)"
      using resting_card [OF Cons.prems(1)] Cons.prems(2) by simp
    have len: "length (valid_adds (m # ms)) = length (valid_adds [m]) + length (valid_adds ms)"
      by (simp add: valid_adds_def)
    obtain b A e' p' fs where r: "engine_message m e p = Some (b, e', p')" "engine_ok e' p'" "m_capacity p' = m_capacity p"
        "heap_frame A {} (mem p) (resting e) (mem p') (resting e')" "m_fills e' = fs"
        "b \<longleftrightarrow> (msg_msgType m = MSG_ADD \<longrightarrow> card (live (mem p)) < unat (m_capacity p))"
        "spec_apply (unat (m_capacity p) - card (live (mem p) - resting e)) m (book_of e p) = (fs, book_of e' p')"
      using engine_message_law [OF Cons.prems(1,3) v] by blast
    have b: b
      using r(6) Cons.prems(4) len c v by (auto simp: valid_adds_def split: if_splits)
    have sp: "spec_apply (unat (m_capacity p)) m (book_of e p) = (fs, book_of e' p')"
      using r(7) Cons.prems(2) by simp
    let ?e2 = "e'\<lparr>m_fills := []\<rparr>"
    have "recover_fills ms ?e2 p' = replay_verdict ms (fst (spec_replay (unat (m_capacity p')) ms (book_of ?e2 p')))"
      using r(2,3) live_kept [OF r(4) Cons.prems(2) r(2)] Cons.prems(4) spec_apply_size [OF sp] len
      by (intro Cons.IH) simp_all
    then show ?thesis
      using v r(1,3,5) b sp by (simp add: drainFills_def split_beta replay_verdict_def)
  qed
qed

lemma recovery_capacity_default:
  "n + 1024 < 2 ^ 64 \<Longrightarrow> unat (recovery_capacity 0 n) = n + 1024"
proof -
  assume "n + 1024 < 2 ^ 64"
  then have "unat (of_nat n + 1024 :: size_t) = n + 1024"
    by (simp add: unat_word_ariths unat_of_nat take_bit_eq_mod)
  then show ?thesis
    by (simp add: recovery_capacity_def max_def word_le_nat_alt)
qed

lemma recovery_pool:
  assumes "storage_granted os False" and "unat cap \<le> 4294967295"
  shows "\<exists>p :: OrderPool. SlabPool_new sizeof_Order os cap False = Inr p \<and> pool_inv p \<and> live (mem p) = {} \<and> m_capacity p = cap"
proof -
  have "unat cap * 64 < 18446744073709551616"
    using assms(2) by simp
  then obtain p :: OrderPool and fl where "SlabPool_new sizeof_Order os cap False = Inr p" "pool_rep p fl"
      "live (mem p) = {}" "m_capacity p = cap"
    using SlabPool_new_rep [OF assms(1), of sizeof_Order cap] by (auto simp: sizeof_Order_def)
  then show ?thesis
    using assms(2) by (auto simp: pool_inv_def)
qed

lemma recovery_replay_spec:
  assumes "storage_granted os False" and "length feed + 1024 \<le> 4294967295"
  shows "recovery_replayFills os feed 0 =
     (if list_all isValidFeedMessage feed
      then Inr (fst (spec_replay (length feed + 1024) feed (\<lambda>_. [])))
      else Inl (Throws (runtime_error ''invalid feed message during recovery replay'')))"
proof -
  have cap: "unat (recovery_capacity 0 (length feed)) = length feed + 1024"
    using assms(2) by (intro recovery_capacity_default) simp
  then obtain p :: OrderPool where p: "SlabPool_new sizeof_Order os (recovery_capacity 0 (length feed)) False = Inr p"
      "pool_inv p" "live (mem p) = {}" "m_capacity p = recovery_capacity 0 (length feed)"
    using recovery_pool [OF assms(1)] assms(2) by metis
  have "length (valid_adds feed) \<le> length feed"
    by (simp add: valid_adds_def)
  moreover have ok: "engine_ok MatchingEngine_new p" "book_of MatchingEngine_new p = (\<lambda>_. [])" "resting MatchingEngine_new = {}"
    using engine_ok_new [OF p(2)] p(4) cap assms(2) by simp_all
  moreover have new: "m_fills MatchingEngine_new = []"
    by (simp add: MatchingEngine_new_def)
  ultimately have "recover_fills feed MatchingEngine_new p = replay_verdict feed (fst (spec_replay (length feed + 1024) feed (\<lambda>_. [])))"
    using recover_fills_rep [of MatchingEngine_new p feed] p(3,4) cap assms(2) ok new
    by (simp add: book_size_def)
  then show ?thesis
    using p(1) by (simp add: recovery_replayFills_def replay_verdict_def)
qed

text \<open>
  Replaying a feed of valid messages on a fresh engine with the default pool returns exactly the
  fills of the price-time specification: the default capacity never runs out, whatever the feed holds.
  One invalid message anywhere makes the replay throw instead of returning a partial list.
\<close>

lemma recovery_replay_exact:
  assumes "storage_granted os False" and "length feed + 1024 \<le> 4294967295"
  shows "recovery_replayFills os feed 0 =
     (if list_all isValidFeedMessage feed
      then Inr (fst (spec_replay (length feed + 1024) feed (\<lambda>_. [])))
      else Inl (Throws (runtime_error ''invalid feed message during recovery replay'')))"
  using recovery_replay_spec [OF assms] .

section \<open>Reconciliation\<close>

lemma same_fill_iff: "same_fill f r \<longleftrightarrow> r = record_of_fill f"
  by (cases r) (auto simp: same_fill_def record_of_fill_def)

lemma sameFills_iff: "sameFills fills recs \<longleftrightarrow> recs = map record_of_fill fills"
  by (auto simp: sameFills_def same_fill_iff list_eq_iff_nth_eq)

lemma span_step_fold:
  assumes "\<forall>f\<in>set fs. in_window b e f"
  shows "\<exists>b' e'. fold (span_step rl) fs (b0, e0, n, q) = (b', e', fold (vwap_step rl b e) fs (n, q)) \<and>
           b' \<le> b0 \<and> e0 \<le> e' \<and> (\<forall>f\<in>set fs. in_window b' e' f)"
  using assms
proof (induction fs arbitrary: b0 e0 n q)
  case Nil
  then show ?case by simp
next
  case (Cons f fs)
  let ?n = "rl (n + rl (rl (real (unat (fill_price f))) * rl (real (unat (fill_qty f)))))" and ?q = "q + ucast (fill_qty f)"
  have v: "vwap_step rl b e f (n, q) = (?n, ?q)"
    using Cons.prems by (auto simp: vwap_step_def in_window_def)
  obtain b' e' where r: "fold (span_step rl) fs (min b0 (fill_timestamp f), max e0 (fill_timestamp f), ?n, ?q) =
        (b', e', fold (vwap_step rl b e) fs (?n, ?q))"
      "b' \<le> min b0 (fill_timestamp f)" "max e0 (fill_timestamp f) \<le> e'" "\<forall>f\<in>set fs. in_window b' e' f"
    using Cons.IH Cons.prems by (metis list.set_intros(2))
  have "span_step rl f (b0, e0, n, q) = (min b0 (fill_timestamp f), max e0 (fill_timestamp f), ?n, ?q)"
    by (simp add: span_step_def)
  then show ?case
    using r v by (auto simp: in_window_def)
qed

lemma recovery_vwap_store:
  assumes "recovery_vwap rl rdb fills = (v, b, e)" and "ts_trades s = fills"
  shows "store_vwap rl rdb b e s = v"
proof (cases "fills = []")
  case True
  then show ?thesis
    using assms by (simp add: recovery_vwap_def store_vwap_def vwap_result_def)
next
  case False
  obtain b' e' where f: "fold (span_step rl) fills (- 1, 0, 0, 0) = (b', e', fold (vwap_step rl 0 (- 1)) fills (0, 0))"
      "\<forall>f\<in>set fills. in_window b' e' f"
    using span_step_fold [of fills 0 "- 1" rl "- 1" 0 0 0] by (auto simp: in_window_def)
  have w: "fold (vwap_step rl 0 (- 1)) fills acc = fold (vwap_step rl b' e') fills acc" for acc
    using f(2) by (induction fills arbitrary: acc) (auto simp: vwap_step_def in_window_def split: prod.split)
  have "b = b'" "e = e'" "v = vwap_result rl rdb (fold (vwap_step rl 0 (- 1)) fills (0, 0))"
    using assms(1) False f(1) by (auto simp: recovery_vwap_def split: prod.splits)
  then show ?thesis
    using w assms(2) by (simp add: store_vwap_def)
qed

lemma reconcile_run:
  assumes fills: "recovery_replayFills os feed pc = Inr fills" "length fills < 2 ^ 64"
    and journal: "journal_file cap recs jp fs" "can_alloc (length recs)"
    and store: "fs sp = Some (store_image trades)" "length trades < 2 ^ 64" "can_alloc (length trades)"
    and zero: "rdb 0 = 0"
  shows "\<exists>r. reconcile rl rdb can_alloc True os feed jp sp pc fs = Inr r \<and>
     (recs = map record_of_fill fills \<and> trades = fills \<longrightarrow> report_ok r) \<and>
     (report_ok r \<longrightarrow> recs = map record_of_fill fills \<and> length trades = length fills)"
proof -
  let ?s = "rebuildIndex \<lparr>ts_path = sp, ts_trades = trades, ts_bySymbol = Map.empty\<rparr>"
  obtain v b e where v: "recovery_vwap rl rdb fills = (v, b, e)"
    using prod_cases3 by blast
  have "journal_replay can_alloc True jp fs = Inr recs" "TradeStore_new can_alloc True sp fs = Inr ?s"
    using replay_file [OF journal(1), of can_alloc] journal(2) load_image [of fs sp trades can_alloc] store by simp_all
  moreover have "(of_nat (length trades) :: u64) = of_nat (length fills) \<longleftrightarrow> length trades = length fills"
    using fills(2) store(2) by (simp add: word_unat_eq_iff unat_of_nat take_bit_eq_mod)
  moreover have "trades = fills \<Longrightarrow> store_vwap rl rdb b e ?s = v"
    using recovery_vwap_store [OF v, of ?s] by simp
  ultimately show ?thesis
    using fills(1) v zero by (auto simp: reconcile_def report_ok_def sameFills_iff tradeCount_def Let_def)
qed

text \<open>
  (C14) What a reconciliation reports, for every rounding of the floating-point operations that keeps
  zero: it accepts a journal and a store that hold the replayed fills, and whatever it accepts has a journal
  that is the replay, record for record, and a store with as many trades.
\<close>

theorem reconcile_verdict:
  assumes fills: "recovery_replayFills os feed pc = Inr fills" "length fills < 2 ^ 64"
    and journal: "journal_file cap recs jp fs" "can_alloc (length recs)"
    and store: "fs sp = Some (store_image trades)" "length trades < 2 ^ 64" "can_alloc (length trades)"
    and zero: "rdb 0 = 0"
  shows "\<exists>r. reconcile rl rdb can_alloc True os feed jp sp pc fs = Inr r \<and>
     (recs = map record_of_fill fills \<and> trades = fills \<longrightarrow> report_ok r) \<and>
     (report_ok r \<longrightarrow> recs = map record_of_fill fills \<and> length trades = length fills)"
  by (rule reconcile_run) fact+

text \<open>
  (C12) Recovery restores a lost store: after the store is rebuilt from a journal that holds the
  replayed fills, whatever readable image the store file had before, a reconciliation accepts.
\<close>

theorem rebuild_then_reconcile:
  assumes fills: "recovery_replayFills os feed pc = Inr fills" "length fills < 2 ^ 64"
    and journal: "journal_file cap (map record_of_fill fills) jp fs"
    and store: "TradeStore_new can_alloc True sp fs = Inr s" and alloc: "can_alloc (length fills)"
    and stream: "stream_faithful out" and distinct_paths: "jp \<noteq> sp" and zero: "rdb 0 = 0"
  shows "\<exists>fs' r. rebuildStoreFromJournal can_alloc True out jp sp fs = (Inr (of_nat (length fills)), fs') \<and>
     TradeStore_new can_alloc True sp fs' = Inr (rebuildIndex \<lparr>ts_path = sp, ts_trades = fills, ts_bySymbol = Map.empty\<rparr>) \<and>
     reconcile rl rdb can_alloc True os feed jp sp pc fs' = Inr r \<and> report_ok r"
proof -
  let ?fs = "fs(sp \<mapsto> store_image fills)"
  have m: "map fill_of_record (map record_of_fill fills) = fills"
    by (simp add: comp_def)
  have p: "ts_path s = sp"
    using load_store_ok [OF store] by simp
  have "journal_replay can_alloc True jp fs = Inr (map record_of_fill fills)"
    using replay_file [OF journal, of can_alloc] alloc by simp
  moreover obtain s' where "replaceAll out fills s fs = (Inr (), s', ?fs)"
    using stream p by (simp add: replaceAll_def writeAll_def stream_faithful_def)
  ultimately have "rebuildStoreFromJournal can_alloc True out jp sp fs = (Inr (of_nat (length fills)), ?fs)"
    using store by (simp add: rebuildStoreFromJournal_def comp_def)
  moreover have "journal_file cap (map record_of_fill fills) jp ?fs"
    using journal distinct_paths by (simp add: journal_file_def)
  then obtain r where "reconcile rl rdb can_alloc True os feed jp sp pc ?fs = Inr r" "report_ok r"
    using reconcile_run [of os feed pc fills cap "map record_of_fill fills" jp ?fs can_alloc sp fills rdb rl] alloc fills zero by auto
  moreover have "TradeStore_new can_alloc True sp ?fs = Inr (rebuildIndex \<lparr>ts_path = sp, ts_trades = fills, ts_bySymbol = Map.empty\<rparr>)"
    using fills(2) alloc by (intro load_image) simp_all
  ultimately show ?thesis
    by blast
qed

section \<open>A small recovery\<close>

definition recovery_feed :: "FeedMessage list" where
  "recovery_feed = sample_feed @ [makeAdd 4 14 BUY LIMIT 103 7 7]"

definition recovery_fills :: "Fill list" where
  "recovery_fills = fst (spec_replay 1028 recovery_feed (\<lambda>_. []))"

definition recovery_files :: files where
  "recovery_files = [''j'' \<mapsto> journal_image 2 (map record_of_fill recovery_fills) []]"

lemma recovery_fills_eval:
  "map fill_sellOrderId recovery_fills = [12, 13]" "map fill_qty recovery_fills = [4, 3]" "length recovery_fills = 2"
  by code_simp+

lemma recovery_replayed: "recovery_replayFills sample_os recovery_feed 0 = Inr recovery_fills"
proof -
  have "storage_granted sample_os False" "list_all isValidFeedMessage recovery_feed" "length recovery_feed = 4"
    by code_simp+
  then show ?thesis
    using recovery_replay_spec [of sample_os recovery_feed] by (simp add: recovery_fills_def)
qed

lemma recovery_journal: "journal_file 2 (map record_of_fill recovery_fills) ''j'' recovery_files"
  using recovery_fills_eval(3) by (auto simp: journal_file_def recovery_files_def intro!: exI [of _ "[]"])

theorem reconcile_verdict_witness:
  "\<exists>r. reconcile (\<lambda>v. v) (\<lambda>v. v) (\<lambda>_. True) True sample_os recovery_feed ''j'' ''s'' 0
         (recovery_files(''s'' \<mapsto> store_image [sample_fill])) = Inr r \<and> \<not> report_ok r"
  using reconcile_verdict [of sample_os recovery_feed 0 recovery_fills 2 "map record_of_fill recovery_fills" "''j''"
      "recovery_files(''s'' \<mapsto> store_image [sample_fill])" "\<lambda>_. True" "''s''" "[sample_fill]" "\<lambda>v. v" "\<lambda>v. v"]
    recovery_replayed recovery_journal recovery_fills_eval(3)
  by (auto simp: journal_file_def)

theorem rebuild_then_reconcile_witness:
  "\<exists>fs' r. rebuildStoreFromJournal (\<lambda>_. True) True sample_stream ''j'' ''s'' recovery_files = (Inr 2, fs') \<and>
     reconcile (\<lambda>v. v) (\<lambda>v. v) (\<lambda>_. True) True sample_os recovery_feed ''j'' ''s'' 0 fs' = Inr r \<and> report_ok r"
proof -
  have "TradeStore_new (\<lambda>_. True) True ''s'' recovery_files =
      Inr \<lparr>ts_path = ''s'', ts_trades = [], ts_bySymbol = Map.empty\<rparr>"
    by (simp add: TradeStore_new_def load_store_def recovery_files_def)
  moreover have "stream_faithful sample_stream"
    by (simp add: stream_faithful_def sample_stream_def)
  ultimately show ?thesis
    using rebuild_then_reconcile [OF recovery_replayed _ recovery_journal, of "\<lambda>_. True" "''s''" _ sample_stream "\<lambda>v. v" "\<lambda>v. v"]
      recovery_fills_eval(3)
    by auto
qed

end
