(* ===== verification/Fill_Sinks.thy ===== *)
theory Fill_Sinks
  imports Trade_Store
begin

text \<open>
  What the durability pipeline relies on: two files that are changed one store at a time, the mapped journal and
  the file of the flat-file store.
\<close>

section \<open>Exceptions and environments\<close>

fun what :: "cxx_exception \<Rightarrow> string" where
  "what bad_alloc = ''std::bad_alloc''"
| "what (runtime_error s) = s"
| "what (SQLiteError s) = s"
| "what (invalid_argument s) = s"

definition throws :: "'a result \<Rightarrow> bool" where
  "throws r \<longleftrightarrow> (\<exists>ex. r = Inl (Throws ex) \<and> what ex \<noteq> [])"

text \<open>
  What the system answers: to the calls of the journal, to the writes of a stream, to an allocation, to a read;
  and how many bytes of a stream have reached the file when its state is tested.
\<close>

record environment =
  env_journal :: journal_os
  env_stream :: out_stream
  env_alloc :: "nat \<Rightarrow> bool"
  env_read :: bool
  env_early :: nat

section \<open>The interface\<close>

text \<open>A client changes its own file only, and what it holds depends on its own file only.\<close>

locale fill_sink =
  fixes change :: "environment \<Rightarrow> 's \<Rightarrow> files \<Rightarrow> files \<Rightarrow> bool"
    and holds :: "'s \<Rightarrow> 'h \<Rightarrow> files \<Rightarrow> bool"
    and path_of :: "'s \<Rightarrow> string"
  assumes change_frame: "change env s fs fs' \<Longrightarrow> q \<noteq> path_of s \<Longrightarrow> fs' q = fs q"
    and holds_local: "holds s h fs \<Longrightarrow> fs' (path_of s) = fs (path_of s) \<Longrightarrow> holds s h fs'"

text \<open>Two clients of different files: what one does keeps what the other holds.\<close>

locale sink_pair = fst_sink: fill_sink change1 holds1 path1 + snd_sink: fill_sink change2 holds2 path2
  for change1 :: "environment \<Rightarrow> 's \<Rightarrow> files \<Rightarrow> files \<Rightarrow> bool" and holds1 :: "'s \<Rightarrow> 'h \<Rightarrow> files \<Rightarrow> bool" and path1
    and change2 :: "environment \<Rightarrow> 't \<Rightarrow> files \<Rightarrow> files \<Rightarrow> bool" and holds2 :: "'t \<Rightarrow> 'i \<Rightarrow> files \<Rightarrow> bool" and path2
begin

lemma first_keeps_second:
  "change1 env s fs fs' \<Longrightarrow> holds2 t h fs \<Longrightarrow> path1 s \<noteq> path2 t \<Longrightarrow> holds2 t h fs'"
  using fst_sink.change_frame snd_sink.holds_local by metis

lemma second_keeps_first:
  "change2 env t fs fs' \<Longrightarrow> holds1 s h fs \<Longrightarrow> path1 s \<noteq> path2 t \<Longrightarrow> holds1 s h fs'"
  using snd_sink.change_frame fst_sink.holds_local by metis

end

section \<open>The journal\<close>

text \<open>\<open>append\<close> up to its first store; the second is \<^const>\<open>write_count\<close>.\<close>

definition append_record :: "Fill \<Rightarrow> FillJournal \<Rightarrow> files \<Rightarrow> u64 result \<times> files" where
  "append_record fill j fs =
     (case mapped_header j fs of
        None \<Rightarrow> (Inl UndefinedBehaviour, fs)
      | Some h \<Rightarrow>
          if hdr_records h \<ge> hdr_capacity h
          then (Inl (Throws (runtime_error (''fill journal full: '' @ fj_path j))), fs)
          else (case write_record (hdr_records h) fill j fs of
                  None \<Rightarrow> (Inl UndefinedBehaviour, fs)
                | Some fs1 \<Rightarrow> (Inr (hdr_records h), fs1)))"

lemma append_fill_steps:
  "append_fill fill j fs =
     (case append_record fill j fs of
        (Inl e, fs1) \<Rightarrow> (Inl e, fs1)
      | (Inr idx, fs1) \<Rightarrow> (case write_count (idx + 1) j fs1 of None \<Rightarrow> (Inl UndefinedBehaviour, fs1) | Some fs2 \<Rightarrow> (Inr (), fs2)))"
  by (simp add: append_fill_def append_record_def split: option.split)

definition journal_change :: "environment \<Rightarrow> FillJournal \<Rightarrow> files \<Rightarrow> files \<Rightarrow> bool" where
  "journal_change env j fs fs' \<longleftrightarrow>
     (\<exists>fill r. append_record fill j fs = (r, fs')) \<or> (\<exists>n. write_count n j fs = Some fs')"

definition journal_holds :: "FillJournal \<Rightarrow> Fill list \<Rightarrow> files \<Rightarrow> bool" where
  "journal_holds j xs fs \<longleftrightarrow> journal_rep j (map record_of_fill xs) fs"

interpretation journal_sink: fill_sink journal_change journal_holds fj_path
proof unfold_locales
  fix env s fs fs' q xs
  show "fs' q = fs q" if "journal_change env s fs fs'" "q \<noteq> fj_path s"
    using that by (auto simp: journal_change_def append_record_def write_record_def write_count_def store_at_def
        split: option.splits if_splits)
  show "journal_holds s xs fs'" if "journal_holds s xs fs" "fs' (fj_path s) = fs (fj_path s)"
    using that by (simp add: journal_holds_def journal_rep_def journal_file_def)
qed

text \<open>
  The record store keeps what the journal holds, and the count store then adds the record; or the journal is full
  and nothing is stored.
\<close>

lemma append_record_holds:
  assumes "journal_holds j xs fs" and "append_record fill j fs = (r, fs1)"
  shows "journal_holds j xs fs1"
    and "(r = Inr (of_nat (length xs)) \<and> (\<exists>fs2. write_count (of_nat (length xs) + 1) j fs1 = Some fs2 \<and> journal_holds j (xs @ [fill]) fs2)) \<or>
      (throws r \<and> fs1 = fs)"
proof -
  let ?recs = "map record_of_fill xs"
  have rep: "journal_rep j ?recs fs"
    using assms(1) by (simp add: journal_holds_def)
  have "journal_holds j xs fs1 \<and> ((r = Inr (of_nat (length xs)) \<and>
      (\<exists>fs2. write_count (of_nat (length xs) + 1) j fs1 = Some fs2 \<and> journal_holds j (xs @ [fill]) fs2)) \<or> (throws r \<and> fs1 = fs))"
  proof (cases "length ?recs < unat (fj_capacity j)")
    case True
    obtain f1 f2 where w: "write_record (of_nat (length ?recs)) fill j fs = Some f1"
        "write_count (of_nat (length ?recs) + 1) j f1 = Some f2" "journal_rep j ?recs f1" "journal_rep j (?recs @ [record_of_fill fill]) f2"
      using append_stores [OF rep True] by blast
    have "append_record fill j fs = (Inr (of_nat (length ?recs)), f1)"
      using append_room [OF rep True, of fill] w(1,2) rep_header [OF rep]
      by (auto simp: append_fill_def append_record_def split: if_splits)
    then show ?thesis
      using w assms(2) by (auto simp: journal_holds_def)
  next
    case False
    then have "append_fill fill j fs = (Inl (Throws (runtime_error (''fill journal full: '' @ fj_path j))), fs)"
      using append_full [OF rep] rep by (simp add: journal_rep_def journal_file_def)
    then have "r = Inl (Throws (runtime_error (''fill journal full: '' @ fj_path j)))" "fs1 = fs"
      using assms(2) rep_header [OF rep] by (auto simp: append_fill_def append_record_def split: if_splits option.splits)
    then show ?thesis
      using assms(1) by (simp add: throws_def)
  qed
  then show "journal_holds j xs fs1"
    and "(r = Inr (of_nat (length xs)) \<and> (\<exists>fs2. write_count (of_nat (length xs) + 1) j fs1 = Some fs2 \<and> journal_holds j (xs @ [fill]) fs2)) \<or>
      (throws r \<and> fs1 = fs)"
    by blast+
qed

lemma flush_throws: "journal_flush os j = Inl e \<Longrightarrow> throws (Inl e :: unit result)"
  by (auto simp: journal_flush_def throws_def split: if_splits)

text \<open>
  A journal file before it is opened: no file or only zero bytes, which is what an interrupted first start
  leaves, or an image with records.
\<close>

definition zero_file :: "string \<Rightarrow> files \<Rightarrow> bool" where
  "zero_file path fs \<longleftrightarrow> (\<forall>bs. fs path = Some bs \<longrightarrow> bs = replicate (length bs) 0)"

definition journal_at :: "size_t \<Rightarrow> Fill list \<Rightarrow> string \<Rightarrow> files \<Rightarrow> bool" where
  "journal_at cap xs path fs \<longleftrightarrow> xs = [] \<and> zero_file path fs \<or> journal_file cap (map record_of_fill xs) path fs"

lemma journal_at_length: "journal_at cap xs path fs \<Longrightarrow> length xs \<le> unat cap"
  by (auto simp: journal_at_def journal_file_def)

lemma journal_at_local: "journal_at cap xs path fs \<Longrightarrow> fs' path = fs path \<Longrightarrow> journal_at cap xs path fs'"
  by (simp add: journal_at_def journal_file_def zero_file_def)

lemma zero_header: "24 \<le> n \<Longrightarrow> hdr_magic (decodeHeader (replicate n 0)) \<noteq> kMagic"
proof -
  assume "24 \<le> n"
  moreover have "u64_bytes (replicate 8 0) \<noteq> kMagic"
    by code_simp
  ultimately show ?thesis
    by (simp add: decodeHeader_def)
qed

lemma ftruncate_unused:
  assumes "FillJournal_new os path cap fs = (Inr j, fs')"
  shows "FillJournal_new (os\<lparr>jo_ftruncate := True\<rparr>) path cap fs = (Inr j, fs')"
    and "journal_os_good (os\<lparr>jo_ftruncate := True\<rparr>)" and "0 < cap"
proof -
  show "journal_os_good (os\<lparr>jo_ftruncate := True\<rparr>)" and "0 < cap"
    using assms by (auto simp: FillJournal_new_def openMapping_def Let_def journal_os_good_def word_neq_0_conv
        split: if_splits prod.splits sum.splits)
  show "FillJournal_new (os\<lparr>jo_ftruncate := True\<rparr>) path cap fs = (Inr j, fs')"
    using assms unfolding FillJournal_new_def openMapping_def Let_def
    by (auto split: if_splits prod.splits sum.splits)
qed

lemma openMapping_zero:
  assumes "openMapping os j fs = (r, fs1)" and "zero_file (fj_path j) fs"
  shows "zero_file (fj_path j) fs1"
proof -
  obtain n where old: "(case fs (fj_path j) of None \<Rightarrow> [] | Some bs \<Rightarrow> bs) = replicate n 0"
    using assms(2) by (cases "fs (fj_path j)") (auto simp: zero_file_def intro: exI [of _ 0])
  show ?thesis
    using assms unfolding openMapping_def Let_def old
    by (auto simp: zero_file_def replicate_add [symmetric] split: if_splits)
qed

lemma openMapping_image:
  assumes "openMapping os j fs = (r, fs1)" and "journal_file (fj_capacity j) recs (fj_path j) fs"
  shows "fs1 = fs"
proof -
  obtain rest where r: "fs (fj_path j) = Some (journal_image (fj_capacity j) recs rest)"
      "unat (fj_capacity j) * 40 \<le> length recs * 40 + length rest" "24 + unat (fj_capacity j) * 40 < 2 ^ 63"
    using assms(2) by (auto simp: journal_file_def)
  have "\<not> int (length (journal_image (fj_capacity j) recs rest)) < sint (sizeof_Header + fj_capacity j * sizeof_FillRecord)"
    unfolding fileBytes_nat(2) [OF r(3)] length_journal_image using r(2) by linarith
  then show ?thesis
    using assms(1) r(1) by (auto simp: openMapping_def Let_def fun_upd_idem split: if_splits)
qed

lemma openMapping_throws: "openMapping os j fs = (Inl e, fs1) \<Longrightarrow> throws (Inl e :: unit result)"
  by (auto simp: openMapping_def Let_def throws_def split: if_splits)

lemma open_zero_fails:
  assumes "zero_file path fs" and "fs path = Some bs" and "bs \<noteq> []" and "24 + unat cap * 40 < 2 ^ 63"
  shows "\<exists>e fs'. FillJournal_new os path cap fs = (Inl e, fs')"
proof (cases "cap = 0")
  case True
  then show ?thesis by (simp add: FillJournal_new_def)
next
  case False
  let ?j = "\<lparr>fj_path = path, fj_capacity = cap, fj_fileBytes = 0, fj_newFile = False, fj_mapped = False\<rparr>"
  obtain r fs1 where o1: "openMapping os ?j fs = (r, fs1)"
    by fastforce
  show ?thesis
  proof (cases r)
    case (Inl e)
    then show ?thesis
      using o1 False by (simp add: FillJournal_new_def)
  next
    case (Inr j1)
    have len: "24 + unat (fj_capacity ?j) * 40 < 2 ^ 63"
      using assms(4) by simp
    note j1 = openMapping_length [OF o1 [unfolded Inr] len]
    have "zero_file path fs1"
      using openMapping_zero [OF o1] assms(1) by simp
    then have "mapped_bytes j1 fs1 = replicate (length (mapped_bytes j1 fs1)) 0"
      using j1(1) by (auto simp: mapped_bytes_def zero_file_def split: option.split)
    then have "hdr_magic (decodeHeader (mapped_bytes j1 fs1)) \<noteq> kMagic"
      using zero_header [of "length (mapped_bytes j1 fs1)"] j1(5) by simp
    then have "\<exists>e fs2. initializeOrValidateHeader j1 fs1 = (Inl e, fs2)"
      using j1(2,5,6) assms(2,3) by (simp add: initializeOrValidateHeader_def mapped_header_def)
    then show ?thesis
      using o1 Inr False by (auto simp: FillJournal_new_def)
  qed
qed

lemma open_holds:
  assumes "journal_at cap xs path fs" and "24 + unat cap * 40 < 2 ^ 63" and "FillJournal_new os path cap fs = (Inr j, fs')"
  shows "journal_holds j xs fs' \<and> fj_path j = path \<and> fj_capacity j = cap \<and> (\<forall>q. q \<noteq> path \<longrightarrow> fs' q = fs q)"
proof -
  note os = ftruncate_unused [OF assms(3)]
  show ?thesis
  proof (cases "journal_file cap (map record_of_fill xs) path fs")
    case True
    then show ?thesis
      using open_existing [OF os(2,3) True] os(1) by (auto simp: journal_holds_def)
  next
    case False
    then have z: "zero_file path fs" "xs = []"
      using assms(1) by (auto simp: journal_at_def)
    then have "fs path = None \<or> fs path = Some []"
      using open_zero_fails [OF z(1) _ _ assms(2), of _ os] assms(3) by (cases "fs path") auto
    then show ?thesis
      using open_new [OF os(2,3) assms(2), of fs path] os(1) z(2) by (auto simp: journal_holds_def)
  qed
qed

lemma open_throws:
  assumes "journal_at cap xs path fs" and "24 + unat cap * 40 < 2 ^ 63" and "FillJournal_new os path cap fs = (Inl e, fs')"
  shows "journal_at cap xs path fs' \<and> throws (Inl e :: unit result) \<and> (\<forall>q. q \<noteq> path \<longrightarrow> fs' q = fs q)"
proof (cases "cap = 0")
  case True
  then show ?thesis
    using assms by (auto simp: FillJournal_new_def throws_def)
next
  case False
  let ?j = "\<lparr>fj_path = path, fj_capacity = cap, fj_fileBytes = 0, fj_newFile = False, fj_mapped = False\<rparr>"
  obtain r fs1 where o1: "openMapping os ?j fs = (r, fs1)"
    by fastforce
  have at: "journal_at cap xs path fs1"
    using assms(1) openMapping_zero [OF o1] openMapping_image [OF o1] by (auto simp: journal_at_def)
  show ?thesis
  proof (cases r)
    case (Inl e')
    then show ?thesis
      using at o1 False assms(3) openMapping_throws openMapping_keeps(1) [OF o1] by (fastforce simp: FillJournal_new_def)
  next
    case (Inr j1)
    have len: "24 + unat (fj_capacity ?j) * 40 < 2 ^ 63"
      using assms(2) by simp
    note j1 = openMapping_length [OF o1 [unfolded Inr] len]
    have h: "initializeOrValidateHeader j1 fs1 = (Inl e, fs')"
      using o1 Inr False assms(3) by (auto simp: FillJournal_new_def split: prod.splits sum.splits)
    have "\<exists>fs2. initializeOrValidateHeader j1 fs1 = (Inr (), fs2)" if "fj_newFile j1"
      using that j1 assms(2) fileBytes_nat(1) [OF assms(2)]
      by (auto simp: initializeOrValidateHeader_def store_at_def mapped_bytes_def memcpy_at_def)
    then have "fs' = fs1 \<and> throws (Inl e :: unit result)"
      using h j1(2,5) by (auto simp: initializeOrValidateHeader_def mapped_header_def throws_def split: if_splits)
    then show ?thesis
      using at openMapping_keeps(1) [OF o1] by auto
  qed
qed

section \<open>The store\<close>

text \<open>The bytes that load as the trades \<open>xs\<close>.\<close>

definition store_bytes :: "Fill list \<Rightarrow> u8 list option \<Rightarrow> bool" where
  "store_bytes xs content \<longleftrightarrow>
     (xs = [] \<and> (\<forall>bs. content = Some bs \<longrightarrow> length bs < 8)) \<or>
     (length xs < 2 ^ 64 \<and> (\<exists>rest. content = Some (store_image xs @ rest)))"

definition store_file :: "Fill list \<Rightarrow> string \<Rightarrow> files \<Rightarrow> bool" where
  "store_file xs path fs \<longleftrightarrow> store_bytes xs (fs path)"

definition store_of :: "string \<Rightarrow> Fill list \<Rightarrow> TradeStore" where
  "store_of path xs = rebuildIndex \<lparr>ts_path = path, ts_trades = xs, ts_bySymbol = Map.empty\<rparr>"

text \<open>
  \<open>writeAll\<close> step by step: the stream opens and truncates the file; the count and the trades are written and the
  state of the stream is tested, when a part of the bytes has reached the file; the destructor hands over the rest,
  and nobody asks whether that succeeded.
\<close>

definition write_open :: "out_stream \<Rightarrow> string \<Rightarrow> files \<Rightarrow> unit result \<times> files" where
  "write_open os path fs =
     (if \<not> os_opens os then (Inl (Throws (SQLiteError (''open trade store failed: '' @ path))), fs)
      else (Inr (), fs(path \<mapsto> [])))"

definition write_close :: "out_stream \<Rightarrow> string \<Rightarrow> u8 list \<Rightarrow> files \<Rightarrow> files" where
  "write_close os path data fs = fs(path \<mapsto> os_stored os data)"

definition write_test :: "out_stream \<Rightarrow> nat \<Rightarrow> string \<Rightarrow> u8 list \<Rightarrow> files \<Rightarrow> unit result \<times> files" where
  "write_test os n path data fs =
     (if \<not> os_good os data
      then (Inl (Throws (SQLiteError (''write trade store failed: '' @ path))), write_close os path data fs)
      else (Inr (), fs(path \<mapsto> take n data)))"

text \<open>What \<open>insertBatch\<close> swaps in once the file is written.\<close>

definition staged :: "Fill list \<Rightarrow> TradeStore \<Rightarrow> TradeStore" where
  "staged fills s =
     (let trades = ts_trades s @ fills
      in s\<lparr>ts_trades := trades, ts_bySymbol := indexRange trades (ts_bySymbol s) (length (ts_trades s)) (length trades)\<rparr>)"

lemma insertBatch_steps:
  "insertBatch os fills False s fs =
     (let data = store_image (ts_trades s @ fills)
      in case write_open os (ts_path s) fs of
           (Inl e, fs1) \<Rightarrow> (Inl e, s, fs1)
         | (Inr _, fs1) \<Rightarrow>
             (case write_test os n (ts_path s) data fs1 of
                (Inl e, fs2) \<Rightarrow> (Inl e, s, fs2)
              | (Inr _, fs2) \<Rightarrow> (Inr (), staged fills s, write_close os (ts_path s) data fs2)))"
  by (simp add: insertBatch_def writeAll_def write_open_def write_test_def write_close_def staged_def Let_def)

lemma write_throws:
  "write_open os path fs = (Inl e, fs1) \<Longrightarrow> throws (Inl e :: unit result)"
  "write_test os n path data fs = (Inl e, fs1) \<Longrightarrow> throws (Inl e :: unit result)"
  by (auto simp: write_open_def write_test_def throws_def split: if_splits)

lemma staged_ok:
  assumes "store_ok s"
  shows "store_ok (staged fills s)" and "ts_trades (staged fills s) = ts_trades s @ fills" and "ts_path (staged fills s) = ts_path s"
  using index_ok_append [of "ts_trades s" "ts_bySymbol s" fills] assms by (simp_all add: staged_def Let_def store_ok_def)

definition store_change :: "environment \<Rightarrow> TradeStore \<Rightarrow> files \<Rightarrow> files \<Rightarrow> bool" where
  "store_change env s fs fs' \<longleftrightarrow>
     (\<exists>os r. write_open os (ts_path s) fs = (r, fs')) \<or> (\<exists>os n data r. write_test os n (ts_path s) data fs = (r, fs')) \<or>
     (\<exists>os data. fs' = write_close os (ts_path s) data fs)"

definition store_holds :: "TradeStore \<Rightarrow> u8 list option \<Rightarrow> files \<Rightarrow> bool" where
  "store_holds s bs fs \<longleftrightarrow> fs (ts_path s) = bs"

interpretation store_sink: fill_sink store_change store_holds ts_path
  by unfold_locales (auto simp: store_change_def write_open_def write_test_def write_close_def store_holds_def split: if_splits)

interpretation durable: sink_pair journal_change journal_holds fj_path store_change store_holds ts_path
  by unfold_locales

lemma store_of_empty: "store_of path [] = \<lparr>ts_path = path, ts_trades = [], ts_bySymbol = Map.empty\<rparr>"
  using store_rebuild_eq [OF store_ok_empty] by (simp add: store_of_def)

lemma load_file:
  assumes "store_file xs path fs" and "can_alloc (length xs)"
  shows "TradeStore_new can_alloc True path fs = Inr (store_of path xs)"
proof (cases "\<forall>bs. fs path = Some bs \<longrightarrow> length bs < 8")
  case True
  then have "xs = []"
    using assms(1) by (auto simp: store_file_def store_bytes_def store_image_def)
  then show ?thesis
    using True by (auto simp: TradeStore_new_def load_store_def store_of_empty split: option.splits)
next
  case False
  then obtain rest where r: "fs path = Some (store_image xs @ rest)" "length xs < 2 ^ 64"
    using assms(1) by (auto simp: store_file_def store_bytes_def)
  have n: "unat (of_nat (length xs) :: u64) = length xs"
    using r(2) by (simp add: unat_of_nat take_bit_eq_mod)
  have d: "drop 8 (store_image xs @ rest) = concat (map encodeFill xs) @ rest"
      "take 8 (store_image xs @ rest) = bytes_u64 (of_nat (length xs))"
    by (simp_all add: store_image_def)
  have "length (store_image xs) = 8 + length xs * 40"
    by (simp add: store_image_def fill_codec.length_concat_enc)
  moreover have "map decodeFill (chunks 40 (length xs) (drop 8 (store_image xs @ rest))) = xs"
    unfolding d(1) by (rule fill_codec.decode_encode_all)
  ultimately show ?thesis
    using assms(2) r(1) n d(2) by (simp add: TradeStore_new_def load_store_def store_of_def Let_def)
qed

lemma load_throws: "TradeStore_new can_alloc rd path fs = Inl e \<Longrightarrow> throws (Inl e :: unit result)"
  by (auto simp: TradeStore_new_def load_store_def throws_def Let_def split: option.splits if_splits)

lemma load_any:
  assumes "TradeStore_new can_alloc rd path fs = Inr s" and "store_file xs path fs"
  shows "store_ok s" and "ts_path s = path" and "ts_trades s = xs \<or> \<not> rd \<and> ts_trades s = []"
proof -
  show "store_ok s" "ts_path s = path"
    using load_store_ok [OF assms(1)] by simp_all
  show "ts_trades s = xs \<or> \<not> rd \<and> ts_trades s = []"
  proof (cases rd)
    case True
    then have "TradeStore_new (\<lambda>_. True) True path fs = Inr s"
      using assms(1) by (auto simp: TradeStore_new_def load_store_def Let_def split: option.splits if_splits)
    then show ?thesis
      using load_file [OF assms(2), of "\<lambda>_. True"] by (auto simp: store_of_def)
  next
    case False
    then show ?thesis
      using assms(1) by (auto simp: TradeStore_new_def load_store_def split: option.splits)
  qed
qed

end
