(* ===== verification/Durability_Pipeline.thy ===== *)
theory Durability_Pipeline
  imports Fill_Sinks SPSC_Ring
begin

text \<open>
  \<open>include/journal/DurabilityPipeline.h\<close>: a worker thread moves fills from the ring into the journal and the
  store.  One thread calls \<open>start\<close>, \<open>tryPublish\<close> and \<open>stop\<close>; it and the worker are interleaved at their
  accesses to the shared ring and flags.  What the system answers is chosen afresh at each step.
\<close>

section \<open>State and operations\<close>

text \<open>
  Where the worker is in \<open>run\<close>: constructing journal and store; at the loop condition before and after it has
  seen \<open>m_stop\<close> set; at \<open>tryPop\<close>; in \<open>flushBatch\<close> with the flag telling that this is the flush after the loop; at
  the final \<open>journal.flush\<close>; in the handler before \<open>setError\<close> and before it sets \<open>m_stop\<close>.  Inside
  \<open>flushBatch\<close> it is before the append of fill \<open>k\<close> of the batch, or before \<open>journal.flush\<close> when there is none
  left; between the two stores of the append; before the stream of \<open>writeAll\<close> opens; before the stream, now open
  and the file truncated, is written and tested; and before the destructor closes it.
\<close>

datatype pipe_worker =
    NoWorker
  | Opening
  | Looping FillJournal TradeStore "Fill list"
  | Draining FillJournal TradeStore "Fill list"
  | Popping FillJournal TradeStore "Fill list"
  | Journaling FillJournal TradeStore "Fill list" nat bool
  | Counting FillJournal TradeStore "Fill list" nat u64 bool
  | Storing FillJournal TradeStore "Fill list" bool
  | Writing FillJournal TradeStore "Fill list" bool out_stream
  | Flushing FillJournal TradeStore "Fill list" bool out_stream
  | Closing FillJournal
  | Failing string
  | Failed
  | Finished
  | Undefined

datatype pipe_caller = Idle | Publishing Fill | Stopping

record DurabilityPipeline =
  dp_ring :: "Fill SPSCRingBuffer"
  dp_journalPath :: string
  dp_storePath :: string
  dp_journalCapacity :: size_t
  dp_batchSize :: size_t
  dp_worker :: pipe_worker
  dp_running :: bool
  dp_stop :: bool
  dp_persisted :: u64
  dp_error :: string

definition default_Fill :: Fill where
  "default_Fill = \<lparr>fill_buyOrderId = 0, fill_sellOrderId = 0, fill_price = 0, fill_qty = 0, fill_timestamp = 0,
     fill_symbolPacked = 0\<rparr>"

definition DurabilityPipeline_new :: "string \<Rightarrow> string \<Rightarrow> size_t \<Rightarrow> size_t \<Rightarrow> size_t \<Rightarrow> DurabilityPipeline" where
  "DurabilityPipeline_new journalPath storePath ringCapacity journalCapacity batchSize =
     \<lparr>dp_ring = SPSCRingBuffer_new default_Fill ringCapacity, dp_journalPath = journalPath, dp_storePath = storePath,
      dp_journalCapacity = journalCapacity, dp_batchSize = (if batchSize \<noteq> 0 then batchSize else 1),
      dp_worker = NoWorker, dp_running = False, dp_stop = False, dp_persisted = 0, dp_error = []\<rparr>"

definition pipeline_start :: "DurabilityPipeline \<Rightarrow> DurabilityPipeline" where
  "pipeline_start P = (if dp_running P then P else P\<lparr>dp_running := True, dp_worker := Opening\<rparr>)"

text \<open>\<open>tryPublish\<close> and \<open>publishBatch\<close> with no step of the worker in between.\<close>

definition tryPublish :: "Fill \<Rightarrow> DurabilityPipeline \<Rightarrow> (bool \<times> DurabilityPipeline) option" where
  "tryPublish fill P =
     (if dp_stop P then Some (False, P)
      else map_option (\<lambda>(ok, r). (ok, P\<lparr>dp_ring := r\<rparr>)) (tryPush fill (dp_ring P)))"

definition publishBatch :: "Fill list \<Rightarrow> DurabilityPipeline \<Rightarrow> (nat \<times> DurabilityPipeline) option" where
  "publishBatch fills P = push_while tryPublish fills P"

definition setError :: "string \<Rightarrow> DurabilityPipeline \<Rightarrow> DurabilityPipeline" where
  "setError e P = P\<lparr>dp_error := e\<rparr>"

text \<open>The constructions at the start of \<open>run\<close>.\<close>

definition open_files :: "environment \<Rightarrow> DurabilityPipeline \<Rightarrow> files \<Rightarrow> (FillJournal \<times> TradeStore) result \<times> files" where
  "open_files env P fs =
     (case FillJournal_new (env_journal env) (dp_journalPath P) (dp_journalCapacity P) fs of
        (Inl e, fs1) \<Rightarrow> (Inl e, fs1)
      | (Inr journal, fs1) \<Rightarrow>
          (case TradeStore_new (env_alloc env) (env_read env) (dp_storePath P) fs1 of
             Inl e \<Rightarrow> (Inl e, fs1)
           | Inr store \<Rightarrow>
               if env_alloc env (unat (dp_batchSize P)) then (Inr (journal, store), fs1)
               else (Inl (Throws bad_alloc), fs1)))"

text \<open>Where an exception leaves the worker.\<close>

fun handler :: "fault \<Rightarrow> pipe_worker" where
  "handler UndefinedBehaviour = Undefined"
| "handler (Throws ex) = Failing (what ex)"

text \<open>One step of \<open>run\<close>.\<close>

definition run_step :: "environment \<Rightarrow> DurabilityPipeline \<Rightarrow> files \<Rightarrow> (DurabilityPipeline \<times> files) option" where
  "run_step env P fs =
     (case dp_worker P of
        Opening \<Rightarrow>
          (case open_files env P fs of
             (Inl e, fs1) \<Rightarrow> Some (P\<lparr>dp_worker := handler e\<rparr>, fs1)
           | (Inr (j, s), fs1) \<Rightarrow> Some (P\<lparr>dp_worker := Looping j s []\<rparr>, fs1))
      | Looping j s batch \<Rightarrow> Some (P\<lparr>dp_worker := (if dp_stop P then Draining j s batch else Popping j s batch)\<rparr>, fs)
      | Draining j s batch \<Rightarrow>
          Some (P\<lparr>dp_worker :=
                  (if \<not> ring_empty (dp_ring P) then Popping j s batch
                   else if batch \<noteq> [] then Journaling j s batch 0 True else Closing j)\<rparr>, fs)
      | Popping j s batch \<Rightarrow>
          (case tryPop (dp_ring P) of
             None \<Rightarrow> Some (P\<lparr>dp_worker := Undefined\<rparr>, fs)
           | Some (Some fill, r) \<Rightarrow>
               Some (P\<lparr>dp_ring := r, dp_worker :=
                  (if length (batch @ [fill]) \<ge> unat (dp_batchSize P) then Journaling j s (batch @ [fill]) 0 False
                   else Looping j s (batch @ [fill]))\<rparr>, fs)
           | Some (None, r) \<Rightarrow>
               Some (P\<lparr>dp_ring := r, dp_worker :=
                  (if batch \<noteq> [] then Journaling j s batch 0 False else Looping j s batch)\<rparr>, fs))
      | Journaling j s batch k final \<Rightarrow>
          if k < length batch
          then (case append_record (batch ! k) j fs of
                  (Inl e, fs1) \<Rightarrow> Some (P\<lparr>dp_worker := handler e\<rparr>, fs1)
                | (Inr idx, fs1) \<Rightarrow> Some (P\<lparr>dp_worker := Counting j s batch k idx final\<rparr>, fs1))
          else (case journal_flush (env_journal env) j of
                  Inl e \<Rightarrow> Some (P\<lparr>dp_worker := handler e\<rparr>, fs)
                | Inr _ \<Rightarrow> Some (P\<lparr>dp_worker := Storing j s batch final\<rparr>, fs))
      | Counting j s batch k idx final \<Rightarrow>
          (case write_count (idx + 1) j fs of
             None \<Rightarrow> Some (P\<lparr>dp_worker := Undefined\<rparr>, fs)
           | Some fs1 \<Rightarrow> Some (P\<lparr>dp_worker := Journaling j s batch (Suc k) final\<rparr>, fs1))
      | Storing j s batch final \<Rightarrow>
          (case write_open (env_stream env) (ts_path s) fs of
             (Inl e, fs1) \<Rightarrow> Some (P\<lparr>dp_worker := handler e\<rparr>, fs1)
           | (Inr _, fs1) \<Rightarrow> Some (P\<lparr>dp_worker := Writing j s batch final (env_stream env)\<rparr>, fs1))
      | Writing j s batch final os \<Rightarrow>
          (case write_test os (env_early env) (ts_path s) (store_image (ts_trades s @ batch)) fs of
             (Inl e, fs1) \<Rightarrow> Some (P\<lparr>dp_worker := handler e\<rparr>, fs1)
           | (Inr _, fs1) \<Rightarrow> Some (P\<lparr>dp_worker := Flushing j s batch final os\<rparr>, fs1))
      | Flushing j s batch final os \<Rightarrow>
          Some (P\<lparr>dp_persisted := dp_persisted P + of_nat (length batch),
                  dp_worker := (if final then Closing j else Looping j (staged batch s) [])\<rparr>,
                write_close os (ts_path s) (store_image (ts_trades s @ batch)) fs)
      | Closing j \<Rightarrow>
          (case journal_flush (env_journal env) j of
             Inl e \<Rightarrow> Some (P\<lparr>dp_worker := handler e\<rparr>, fs)
           | Inr _ \<Rightarrow> Some (P\<lparr>dp_worker := Finished\<rparr>, fs))
      | Failing e \<Rightarrow> Some (setError e P\<lparr>dp_worker := Failed\<rparr>, fs)
      | Failed \<Rightarrow> Some (P\<lparr>dp_stop := True, dp_worker := Finished\<rparr>, fs)
      | _ \<Rightarrow> None)"

section \<open>Publishing\<close>

text \<open>Until \<open>m_stop\<close> is set, the pipeline is a bounded queue for its producer.\<close>

definition pipe_pop :: "DurabilityPipeline \<Rightarrow> (Fill option \<times> DurabilityPipeline) option" where
  "pipe_pop P = map_option (\<lambda>(x, r). (x, P\<lparr>dp_ring := r\<rparr>)) (tryPop (dp_ring P))"

interpretation pipe_queue: bounded_queue "\<lambda>P. ring_ok (dp_ring P) \<and> \<not> dp_stop P" "\<lambda>P. ring_items (dp_ring P)"
    "\<lambda>P. ring_room (dp_ring P)" tryPublish pipe_pop "\<lambda>P. ring_empty (dp_ring P)"
proof unfold_locales
  fix q :: DurabilityPipeline and x xs
  assume ok: "ring_ok (dp_ring q) \<and> \<not> dp_stop q"
  show "length (ring_items (dp_ring q)) \<le> ring_room (dp_ring q)"
    using ok ring.fits by blast
  show "\<exists>q'. tryPublish x q = Some (True, q') \<and> (ring_ok (dp_ring q') \<and> \<not> dp_stop q') \<and>
      ring_items (dp_ring q') = ring_items (dp_ring q) @ [x] \<and> ring_room (dp_ring q') = ring_room (dp_ring q)"
    if "length (ring_items (dp_ring q)) < ring_room (dp_ring q)"
    using ring.push_room [of "dp_ring q" x] ok that by (auto simp: tryPublish_def)
  show "tryPublish x q = Some (False, q)" if "length (ring_items (dp_ring q)) = ring_room (dp_ring q)"
    using ring.push_full [of "dp_ring q" x] ok that by (simp add: tryPublish_def)
  show "\<exists>q'. pipe_pop q = Some (Some x, q') \<and> (ring_ok (dp_ring q') \<and> \<not> dp_stop q') \<and>
      ring_items (dp_ring q') = xs \<and> ring_room (dp_ring q') = ring_room (dp_ring q)"
    if "ring_items (dp_ring q) = x # xs"
    using ring.pop_some [of "dp_ring q" x xs] ok that by (auto simp: pipe_pop_def)
  show "pipe_pop q = Some (None, q)" if "ring_items (dp_ring q) = []"
    using ring.pop_none [of "dp_ring q"] ok that by (simp add: pipe_pop_def)
  show "ring_empty (dp_ring q) = (ring_items (dp_ring q) = [])"
    using ok ring.empty_items by blast
qed

lemma publishBatch_accepts:
  assumes "ring_ok (dp_ring P)" and "\<not> dp_stop P"
  shows "\<exists>P'. publishBatch fills P = Some (min (length fills) (ring_room (dp_ring P) - length (ring_items (dp_ring P))), P') \<and>
     ring_items (dp_ring P') = ring_items (dp_ring P) @ take (ring_room (dp_ring P) - length (ring_items (dp_ring P))) fills"
  using pipe_queue.push_while_accepts [of P fills] assms by (auto simp: publishBatch_def)

section \<open>Interleaving\<close>

record pipe_system =
  ps_pipe :: DurabilityPipeline
  ps_caller :: pipe_caller
  ps_files :: files

datatype pipe_event = Internal | Started | Published Fill bool | StopReturned

inductive pipe_step :: "(environment \<Rightarrow> bool) \<Rightarrow> pipe_system \<Rightarrow> pipe_event \<Rightarrow> pipe_system \<Rightarrow> bool" for world where
  pipe_start: "ps_caller S = Idle \<Longrightarrow>
    pipe_step world S Started (S\<lparr>ps_pipe := pipeline_start (ps_pipe S)\<rparr>)"
| publish_refuse: "ps_caller S = Idle \<Longrightarrow> dp_stop (ps_pipe S) \<Longrightarrow>
    pipe_step world S (Published f False) S"
| publish_load: "ps_caller S = Idle \<Longrightarrow> \<not> dp_stop (ps_pipe S) \<Longrightarrow>
    pipe_step world S Internal (S\<lparr>ps_caller := Publishing f\<rparr>)"
| publish_push: "ps_caller S = Publishing f \<Longrightarrow> tryPush f (dp_ring (ps_pipe S)) = Some (ok, r) \<Longrightarrow>
    pipe_step world S (Published f ok) (S\<lparr>ps_pipe := (ps_pipe S)\<lparr>dp_ring := r\<rparr>, ps_caller := Idle\<rparr>)"
| stop_set: "ps_caller S = Idle \<Longrightarrow>
    pipe_step world S Internal (S\<lparr>ps_pipe := (ps_pipe S)\<lparr>dp_stop := True\<rparr>, ps_caller := Stopping\<rparr>)"
| stop_join: "ps_caller S = Stopping \<Longrightarrow> dp_worker (ps_pipe S) = NoWorker \<or> dp_worker (ps_pipe S) = Finished \<Longrightarrow>
    pipe_step world S StopReturned
      (S\<lparr>ps_pipe := (ps_pipe S)\<lparr>dp_worker := NoWorker, dp_running := False\<rparr>, ps_caller := Idle\<rparr>)"
| pipe_work: "world env \<Longrightarrow> run_step env (ps_pipe S) (ps_files S) = Some (P, fs) \<Longrightarrow>
    pipe_step world S Internal (S\<lparr>ps_pipe := P, ps_files := fs\<rparr>)"

inductive pipe_exec :: "(environment \<Rightarrow> bool) \<Rightarrow> pipe_system \<Rightarrow> pipe_event list \<Rightarrow> pipe_system \<Rightarrow> bool" for world S0 where
  pipe_nil: "pipe_exec world S0 [] S0"
| pipe_snoc: "pipe_exec world S0 evs S \<Longrightarrow> pipe_step world S ev S' \<Longrightarrow> pipe_exec world S0 (evs @ [ev]) S'"

definition pipe_new :: "DurabilityPipeline \<Rightarrow> files \<Rightarrow> pipe_system" where
  "pipe_new P fs = \<lparr>ps_pipe = P, ps_caller = Idle, ps_files = fs\<rparr>"

text \<open>The fills that \<open>tryPublish\<close> accepted.\<close>

definition published :: "pipe_event list \<Rightarrow> Fill list" where
  "published evs = concat (map (\<lambda>ev. case ev of Published f ok \<Rightarrow> if ok then [f] else [] | _ \<Rightarrow> []) evs)"

end
