(* ===== verification/Pipeline_Steps.thy ===== *)
theory Pipeline_Steps
  imports Durability_Pipeline "HOL-Library.Sublist"
begin

text \<open>
  What the worker of the durability pipeline has done at each point of \<open>run\<close>: which fills are in the journal, which
  are in the store, and what the file of the store may look like.  Every step of the worker keeps this, one lemma
  for each group of steps.
\<close>

section \<open>What the worker has done\<close>

text \<open>The fills in hand that are not in the journal yet, and those that are not in the store yet.\<close>

fun carried :: "pipe_worker \<Rightarrow> Fill list" where
  "carried (Looping j s batch) = batch"
| "carried (Draining j s batch) = batch"
| "carried (Popping j s batch) = batch"
| "carried (Journaling j s batch k final) = drop k batch"
| "carried (Counting j s batch k idx final) = drop k batch"
| "carried _ = []"

fun unstored :: "pipe_worker \<Rightarrow> Fill list" where
  "unstored (Journaling j s batch k final) = take k batch"
| "unstored (Counting j s batch k idx final) = take k batch"
| "unstored (Storing j s batch final) = batch"
| "unstored (Writing j s batch final os) = batch"
| "unstored (Flushing j s batch final os) = batch"
| "unstored _ = []"

fun the_journal :: "pipe_worker \<Rightarrow> FillJournal option" where
  "the_journal (Looping j s batch) = Some j"
| "the_journal (Draining j s batch) = Some j"
| "the_journal (Popping j s batch) = Some j"
| "the_journal (Journaling j s batch k final) = Some j"
| "the_journal (Counting j s batch k idx final) = Some j"
| "the_journal (Storing j s batch final) = Some j"
| "the_journal (Writing j s batch final os) = Some j"
| "the_journal (Flushing j s batch final os) = Some j"
| "the_journal (Closing j) = Some j"
| "the_journal _ = None"

fun the_store :: "pipe_worker \<Rightarrow> TradeStore option" where
  "the_store (Looping j s batch) = Some s"
| "the_store (Draining j s batch) = Some s"
| "the_store (Popping j s batch) = Some s"
| "the_store (Journaling j s batch k final) = Some s"
| "the_store (Counting j s batch k idx final) = Some s"
| "the_store (Storing j s batch final) = Some s"
| "the_store (Writing j s batch final os) = Some s"
| "the_store (Flushing j s batch final os) = Some s"
| "the_store _ = None"

fun failing :: "pipe_worker \<Rightarrow> bool" where
  "failing (Failing e) = True"
| "failing Failed = True"
| "failing _ = False"

text \<open>The worker has left the loop; it is in \<open>flushBatch\<close>; the file of the store is being rewritten.\<close>

fun left_loop :: "pipe_worker \<Rightarrow> bool" where
  "left_loop (Journaling j s batch k final) = final"
| "left_loop (Counting j s batch k idx final) = final"
| "left_loop (Storing j s batch final) = final"
| "left_loop (Writing j s batch final os) = final"
| "left_loop (Flushing j s batch final os) = final"
| "left_loop (Closing j) = True"
| "left_loop Finished = True"
| "left_loop _ = False"

fun in_flush :: "pipe_worker \<Rightarrow> bool" where
  "in_flush (Journaling j s batch k final) = True"
| "in_flush (Counting j s batch k idx final) = True"
| "in_flush (Storing j s batch final) = True"
| "in_flush (Writing j s batch final os) = True"
| "in_flush (Flushing j s batch final os) = True"
| "in_flush _ = False"

fun rewriting :: "pipe_worker \<Rightarrow> bool" where
  "rewriting (Writing j s batch final os) = True"
| "rewriting (Flushing j s batch final os) = True"
| "rewriting _ = False"

definition clean :: "DurabilityPipeline \<Rightarrow> bool" where
  "clean P \<longleftrightarrow> dp_error P = [] \<and> \<not> failing (dp_worker P)"

definition journal_state :: "DurabilityPipeline \<Rightarrow> Fill list \<Rightarrow> files \<Rightarrow> bool" where
  "journal_state P xs fs \<longleftrightarrow>
     (case the_journal (dp_worker P) of
        None \<Rightarrow> journal_at (dp_journalCapacity P) xs (dp_journalPath P) fs
      | Some j \<Rightarrow> journal_holds j xs fs \<and> fj_path j = dp_journalPath P \<and> fj_capacity j = dp_journalCapacity P)"

text \<open>Between the two stores of an append the record is in its slot, so that the count store adds it.\<close>

fun count_ready :: "Fill list \<Rightarrow> pipe_worker \<Rightarrow> files \<Rightarrow> bool" where
  "count_ready xs (Counting j s batch k idx final) fs \<longleftrightarrow>
     k < length batch \<and> (\<exists>fs2. write_count (idx + 1) j fs = Some fs2 \<and> journal_holds j (xs @ [batch ! k]) fs2)"
| "count_ready xs w fs \<longleftrightarrow> True"

text \<open>
  What the store found when it was opened: the trades of the file, or nothing when the file could not be read,
  which \<open>load\<close> takes for an empty store.
\<close>

definition base_ok :: "(environment \<Rightarrow> bool) \<Rightarrow> Fill list \<Rightarrow> Fill list \<Rightarrow> bool" where
  "base_ok world T0 base \<longleftrightarrow> base = T0 \<or> base = [] \<and> (\<exists>env. world env \<and> \<not> env_read env)"

definition stream_of :: "(environment \<Rightarrow> bool) \<Rightarrow> out_stream \<Rightarrow> bool" where
  "stream_of world os \<longleftrightarrow> (\<exists>env. world env \<and> env_stream env = os)"

text \<open>
  The file of the store when the fills \<open>sr\<close> have been stored: while it is being rewritten, some prefix of the new
  image; otherwise the old file \<open>old\<close> if nothing has been stored, and else what a stream that tested good has left
  of the image.
\<close>

definition store_disk ::
  "(environment \<Rightarrow> bool) \<Rightarrow> Fill list \<Rightarrow> u8 list option \<Rightarrow> pipe_worker \<Rightarrow> Fill list \<Rightarrow> u8 list option \<Rightarrow> bool" where
  "store_disk world T0 old w sr bs \<longleftrightarrow>
     (if rewriting w then \<exists>base n. base_ok world T0 base \<and> bs = Some (take n (store_image (base @ sr @ unstored w)))
      else if sr = [] then bs = old
      else \<exists>base os. base_ok world T0 base \<and> stream_of world os \<and> os_good os (store_image (base @ sr)) \<and>
             bs = Some (os_stored os (store_image (base @ sr))))"

text \<open>The stream in use is one of the world, and has tested good once its destructor is all that is left.\<close>

fun stream_ready :: "(environment \<Rightarrow> bool) \<Rightarrow> pipe_worker \<Rightarrow> bool" where
  "stream_ready world (Writing j s batch final os) \<longleftrightarrow> stream_of world os"
| "stream_ready world (Flushing j s batch final os) \<longleftrightarrow> stream_of world os \<and> os_good os (store_image (ts_trades s @ batch))"
| "stream_ready world w \<longleftrightarrow> True"

text \<open>A worker that was started again after \<open>stop\<close> has nothing left to do.\<close>

definition quiet :: "DurabilityPipeline \<Rightarrow> bool" where
  "quiet P \<longleftrightarrow> dp_stop P \<and> ring_items (dp_ring P) = [] \<and> carried (dp_worker P) = [] \<and> \<not> in_flush (dp_worker P)"

definition store_mem :: "(environment \<Rightarrow> bool) \<Rightarrow> Fill list \<Rightarrow> Fill list \<Rightarrow> DurabilityPipeline \<Rightarrow> bool" where
  "store_mem world T0 sr P \<longleftrightarrow> quiet P \<or>
     (case the_store (dp_worker P) of
        Some s \<Rightarrow> store_ok s \<and> (\<exists>base. base_ok world T0 base \<and> ts_trades s = base @ sr)
      | None \<Rightarrow> (dp_worker P = NoWorker \<or> dp_worker P = Opening \<longrightarrow> sr = []))"

text \<open>\<open>popped\<close> is what the worker has taken from the ring, \<open>jr\<close> and \<open>sr\<close> what it has journaled and stored.\<close>

definition pipe_rep ::
  "(environment \<Rightarrow> bool) \<Rightarrow> Fill list \<Rightarrow> Fill list \<Rightarrow> u8 list option \<Rightarrow> Fill list \<Rightarrow> Fill list \<Rightarrow> Fill list \<Rightarrow>
   DurabilityPipeline \<Rightarrow> files \<Rightarrow> bool" where
  "pipe_rep world J0 T0 old popped jr sr P fs \<longleftrightarrow>
     dp_worker P \<noteq> Undefined \<and> ring_ok (dp_ring P) \<and>
     (\<forall>s. the_store (dp_worker P) = Some s \<longrightarrow> ts_path s = dp_storePath P) \<and>
     (\<forall>e. dp_worker P = Failing e \<longrightarrow> e \<noteq> []) \<and> (dp_worker P = Failed \<longrightarrow> dp_error P \<noteq> []) \<and>
     (in_flush (dp_worker P) \<longrightarrow> unstored (dp_worker P) @ carried (dp_worker P) \<noteq> []) \<and>
     journal_state P (J0 @ jr) fs \<and> count_ready (J0 @ jr) (dp_worker P) fs \<and> subseq (jr @ carried (dp_worker P)) popped \<and>
     (clean P \<longrightarrow> store_disk world T0 old (dp_worker P) sr (fs (dp_storePath P)) \<and> stream_ready world (dp_worker P) \<and>
        store_mem world T0 sr P \<and> popped = jr @ carried (dp_worker P) \<and>
        jr = sr @ unstored (dp_worker P) \<and> dp_persisted P = of_nat (length sr))"

text \<open>The file of the store before the pipeline starts.\<close>

definition pipe_conf :: "Fill list \<Rightarrow> u8 list option \<Rightarrow> DurabilityPipeline \<Rightarrow> bool" where
  "pipe_conf T0 old P \<longleftrightarrow> dp_journalPath P \<noteq> dp_storePath P \<and> 24 + unat (dp_journalCapacity P) * 40 < 2 ^ 63 \<and>
     store_bytes T0 old"

lemmas pipe_rep_defs = pipe_rep_def journal_state_def clean_def store_mem_def quiet_def store_disk_def

lemma throws_handler: "throws (Inl e :: unit result) \<Longrightarrow> \<exists>s. handler e = Failing s \<and> s \<noteq> []"
  by (auto simp: throws_def)

lemma journal_holds_at: "journal_holds j xs fs \<Longrightarrow> journal_at (fj_capacity j) xs (fj_path j) fs"
  by (simp add: journal_holds_def journal_rep_def journal_at_def)

lemma open_step:
  assumes rep: "pipe_rep world J0 T0 old popped jr sr P fs" and conf: "pipe_conf T0 old P" and env: "world env"
    and w: "dp_worker P = Opening" and step: "run_step env P fs = Some (P', fs')"
  shows "pipe_rep world J0 T0 old popped jr sr P' fs' \<and> dp_ring P' = dp_ring P"
proof -
  let ?cap = "dp_journalCapacity P" and ?jp = "dp_journalPath P" and ?sp = "dp_storePath P"
  have at: "journal_at ?cap (J0 @ jr) ?jp fs"
    using rep w by (simp add: pipe_rep_defs)
  have cap: "24 + unat ?cap * 40 < 2 ^ 63" and paths: "?jp \<noteq> ?sp"
    using conf by (simp_all add: pipe_conf_def)
  have failed: ?thesis
    if h: "P' = P\<lparr>dp_worker := handler e\<rparr>" "throws (Inl e :: unit result)" "journal_at ?cap (J0 @ jr) ?jp fs'" for e
  proof -
    obtain m where "handler e = Failing m" "m \<noteq> []"
      using throws_handler [OF h(2)] by blast
    then show ?thesis
      using rep w h(1,3) by (simp add: pipe_rep_defs)
  qed
  obtain r fs1 where j: "FillJournal_new (env_journal env) ?jp ?cap fs = (r, fs1)"
    by fastforce
  show ?thesis
  proof (cases r)
    case (Inl e)
    then show ?thesis
      using open_throws [OF at cap] j step w by (intro failed [of e]) (simp_all add: run_step_def open_files_def)
  next
    case (Inr j1)
    have o1: "journal_holds j1 (J0 @ jr) fs1" "fj_path j1 = ?jp" "fj_capacity j1 = ?cap" "\<forall>q. q \<noteq> ?jp \<longrightarrow> fs1 q = fs q"
      using open_holds [OF at cap] j Inr by auto
    have at1: "journal_at ?cap (J0 @ jr) ?jp fs1"
      using journal_holds_at [OF o1(1)] o1(2,3) by simp
    obtain r2 where o2: "open_files env P fs = (r2, fs1)"
      using j Inr
      by (cases "TradeStore_new (env_alloc env) (env_read env) ?sp fs1"; cases "env_alloc env (unat (dp_batchSize P))")
        (simp_all add: open_files_def)
    show ?thesis
    proof (cases r2)
      case l: (Inl e)
      have "throws (Inl e :: unit result)"
        using o2 j Inr l load_throws [of "env_alloc env" "env_read env" ?sp fs1 e]
        by (auto simp: open_files_def throws_def split: sum.splits if_splits)
      then show ?thesis
        using step w o2 l at1 by (intro failed [of e]) (simp_all add: run_step_def)
    next
      case r: (Inr js)
      then obtain s1 where s1: "js = (j1, s1)" "TradeStore_new (env_alloc env) (env_read env) ?sp fs1 = Inr s1"
        using o2 j Inr by (auto simp: open_files_def split: sum.splits if_splits)
      have P': "P' = P\<lparr>dp_worker := Looping j1 s1 []\<rparr>" "fs' = fs1"
        using step w o2 r s1(1) by (simp_all add: run_step_def)
      have same: "fs1 ?sp = fs ?sp"
        using o1(4) paths by simp
      have mem: "store_mem world T0 sr P'" if c: "clean P"
      proof (cases "quiet P")
        case True
        then show ?thesis
          using P'(1) by (simp add: store_mem_def quiet_def)
      next
        case False
        then have sr: "sr = []" and disk: "fs ?sp = old"
          using rep w c by (auto simp: pipe_rep_def store_mem_def store_disk_def)
        have "store_file T0 ?sp fs1"
          using same disk conf by (simp add: pipe_conf_def store_file_def)
        from load_any [OF s1(2) this] show ?thesis
          using env sr P'(1) by (auto simp: store_mem_def base_ok_def)
      qed
      have "ts_path s1 = ?sp"
        using load_store_ok [OF s1(2)] by simp
      then show ?thesis
        using rep w o1(1-3) same mem P' by (auto simp: pipe_rep_def journal_state_def clean_def store_disk_def)
    qed
  qed
qed

text \<open>A step of \<open>flushBatch\<close> that throws leaves the journal as it is.\<close>

lemma failed_rep:
  assumes rep: "pipe_rep world J0 T0 old popped jr sr P fs" and w: "the_journal (dp_worker P) = Some j"
    and "throws (Inl e :: unit result)" and "journal_holds j (J0 @ jr) fs'"
  shows "pipe_rep world J0 T0 old popped jr sr (P\<lparr>dp_worker := handler e\<rparr>) fs'"
proof -
  obtain m where m: "handler e = Failing m" "m \<noteq> []"
    using throws_handler [OF assms(3)] by blast
  have "journal_at (dp_journalCapacity P) (J0 @ jr) (dp_journalPath P) fs'"
    using journal_holds_at [OF assms(4)] rep w by (simp add: pipe_rep_def journal_state_def)
  moreover have "subseq jr popped"
    using rep subseq_order.trans [of jr "jr @ carried (dp_worker P)" popped] by (simp add: pipe_rep_def prefix_imp_subseq)
  ultimately show ?thesis
    using rep m by (simp add: pipe_rep_def journal_state_def clean_def)
qed

lemma journal_step:
  assumes rep: "pipe_rep world J0 T0 old popped jr sr P fs" and conf: "pipe_conf T0 old P"
    and w: "dp_worker P = Journaling j s batch k final" and step: "run_step env P fs = Some (P', fs')"
  shows "pipe_rep world J0 T0 old popped jr sr P' fs' \<and> dp_ring P' = dp_ring P"
proof -
  have j: "journal_holds j (J0 @ jr) fs" "fj_path j = dp_journalPath P" "fj_capacity j = dp_journalCapacity P"
      "ts_path s = dp_storePath P"
    using rep w by (simp_all add: pipe_rep_defs)
  have paths: "fj_path j \<noteq> ts_path s"
    using conf j by (simp add: pipe_conf_def)
  have w': "the_journal (dp_worker P) = Some j"
    using w by simp
  show ?thesis
  proof (cases "k < length batch")
    case True
    obtain r fs1 where a: "append_record (batch ! k) j fs = (r, fs1)"
      by fastforce
    have hold: "journal_holds j (J0 @ jr) fs1"
      by (rule append_record_holds(1) [OF j(1) a])
    have same: "fs1 (dp_storePath P) = fs (dp_storePath P)"
      using durable.first_keeps_second [of env j fs fs1 s "fs (ts_path s)"] a paths j(4)
      by (auto simp: journal_change_def store_holds_def)
    from append_record_holds(2) [OF j(1) a]
    show ?thesis
    proof (elim disjE conjE exE)
      fix fs2
      assume "r = Inr (of_nat (length (J0 @ jr)))" "write_count (of_nat (length (J0 @ jr)) + 1) j fs1 = Some fs2"
        "journal_holds j ((J0 @ jr) @ [batch ! k]) fs2"
      moreover from this have "P' = P\<lparr>dp_worker := Counting j s batch k (of_nat (length (J0 @ jr))) final\<rparr>" "fs' = fs1"
        using step w a True by (simp_all add: run_step_def)
      ultimately show ?thesis
        using rep w j hold same True
        by (auto simp: pipe_rep_def journal_state_def clean_def store_disk_def store_mem_def quiet_def)
    next
      assume t: "throws r" "fs1 = fs"
      then obtain e where e: "r = Inl e" "throws (Inl e :: unit result)"
        by (auto simp: throws_def)
      then have "P' = P\<lparr>dp_worker := handler e\<rparr>" "fs' = fs1"
        using step w a True by (simp_all add: run_step_def)
      then show ?thesis
        using failed_rep [OF rep w' e(2) hold] by simp
    qed
  next
    case False
    show ?thesis
    proof (cases "journal_flush (env_journal env) j")
      case (Inl e)
      then have "P' = P\<lparr>dp_worker := handler e\<rparr>" "fs' = fs"
        using step w False by (simp_all add: run_step_def)
      then show ?thesis
        using failed_rep [OF rep w' flush_throws [OF Inl] j(1)] by simp
    next
      case (Inr u)
      then have "P' = P\<lparr>dp_worker := Storing j s batch final\<rparr>" "fs' = fs"
        using step w False by (simp_all add: run_step_def)
      then show ?thesis
        using rep w j False by (auto simp: pipe_rep_def journal_state_def clean_def store_disk_def store_mem_def quiet_def)
    qed
  qed
qed

lemma count_step:
  assumes rep: "pipe_rep world J0 T0 old popped jr sr P fs" and conf: "pipe_conf T0 old P"
    and w: "dp_worker P = Counting j s batch k idx final" and step: "run_step env P fs = Some (P', fs')"
  shows "pipe_rep world J0 T0 old popped (jr @ [batch ! k]) sr P' fs' \<and> dp_ring P' = dp_ring P"
proof -
  have j: "fj_path j = dp_journalPath P" "fj_capacity j = dp_journalCapacity P" "ts_path s = dp_storePath P" and k: "k < length batch"
    using rep w by (simp_all add: pipe_rep_defs)
  obtain fs2 where c: "write_count (idx + 1) j fs = Some fs2" "journal_holds j (J0 @ jr @ [batch ! k]) fs2"
    using rep w by (auto simp: pipe_rep_def)
  have same: "fs2 (dp_storePath P) = fs (dp_storePath P)"
    using durable.first_keeps_second [of env j fs fs2 s "fs (ts_path s)"] c(1) j conf
    by (auto simp: journal_change_def store_holds_def pipe_conf_def)
  have P': "P' = P\<lparr>dp_worker := Journaling j s batch (Suc k) final\<rparr>" "fs' = fs2"
    using step w c(1) by (simp_all add: run_step_def)
  have "drop k batch = batch ! k # drop (Suc k) batch" "take (Suc k) batch = take k batch @ [batch ! k]"
    using k by (simp_all add: Cons_nth_drop_Suc take_Suc_conv_app_nth)
  then show ?thesis
    using rep w j c(2) same P' by (auto simp: pipe_rep_def journal_state_def clean_def store_disk_def store_mem_def quiet_def)
qed

lemma store_step:
  assumes rep: "pipe_rep world J0 T0 old popped jr sr P fs" and conf: "pipe_conf T0 old P" and env: "world env"
    and w: "dp_worker P = Storing j s batch final" and step: "run_step env P fs = Some (P', fs')"
  shows "pipe_rep world J0 T0 old popped jr sr P' fs' \<and> dp_ring P' = dp_ring P"
proof -
  have j: "journal_holds j (J0 @ jr) fs" "fj_path j = dp_journalPath P" "fj_capacity j = dp_journalCapacity P"
      "ts_path s = dp_storePath P"
    using rep w by (simp_all add: pipe_rep_defs)
  obtain r fs1 where a: "write_open (env_stream env) (ts_path s) fs = (r, fs1)"
    by fastforce
  then have "store_change env s fs fs1"
    by (auto simp: store_change_def)
  then have j1: "journal_holds j (J0 @ jr) fs1"
    using durable.second_keeps_first j(1,2,4) conf by (metis pipe_conf_def)
  show ?thesis
  proof (cases r)
    case (Inl e)
    then have "P' = P\<lparr>dp_worker := handler e\<rparr>" "fs' = fs1"
      using step w a by (simp_all add: run_step_def)
    then show ?thesis
      using failed_rep [OF rep _ write_throws(1) j1] w a Inl by fastforce
  next
    case (Inr u)
    then have P': "P' = P\<lparr>dp_worker := Writing j s batch final (env_stream env)\<rparr>" "fs' = fs1" "fs1 (ts_path s) = Some []"
      using step w a by (auto simp: run_step_def write_open_def split: if_splits)
    have "stream_of world (env_stream env)"
      using env by (auto simp: stream_of_def)
    moreover have "store_disk world T0 old (dp_worker P') sr (fs1 (dp_storePath P))" if "clean P"
      using P' j(4) rep w that by (auto simp: pipe_rep_def store_mem_def quiet_def store_disk_def intro: exI [of _ 0])
    ultimately show ?thesis
      using rep w j j1 P'(1,2) by (simp add: pipe_rep_def journal_state_def clean_def store_mem_def quiet_def)
  qed
qed

lemma write_step:
  assumes rep: "pipe_rep world J0 T0 old popped jr sr P fs" and conf: "pipe_conf T0 old P"
    and w: "dp_worker P = Writing j s batch final os" and step: "run_step env P fs = Some (P', fs')"
  shows "pipe_rep world J0 T0 old popped jr sr P' fs' \<and> dp_ring P' = dp_ring P"
proof -
  have j: "journal_holds j (J0 @ jr) fs" "fj_path j = dp_journalPath P" "fj_capacity j = dp_journalCapacity P"
      "ts_path s = dp_storePath P"
    using rep w by (simp_all add: pipe_rep_defs)
  let ?data = "store_image (ts_trades s @ batch)"
  obtain r fs1 where a: "write_test os (env_early env) (ts_path s) ?data fs = (r, fs1)"
    by fastforce
  then have "store_change env s fs fs1"
    by (auto simp: store_change_def)
  then have j1: "journal_holds j (J0 @ jr) fs1"
    using durable.second_keeps_first j(1,2,4) conf by (metis pipe_conf_def)
  show ?thesis
  proof (cases r)
    case (Inl e)
    then have "P' = P\<lparr>dp_worker := handler e\<rparr>" "fs' = fs1"
      using step w a by (simp_all add: run_step_def)
    then show ?thesis
      using failed_rep [OF rep _ write_throws(2) j1] w a Inl by fastforce
  next
    case (Inr u)
    then have P': "P' = P\<lparr>dp_worker := Flushing j s batch final os\<rparr>" "fs' = fs1" and o1: "os_good os ?data"
        "fs1 (ts_path s) = Some (take (env_early env) ?data)"
      using step w a by (auto simp: run_step_def write_test_def split: if_splits)
    have "store_disk world T0 old (dp_worker P') sr (fs1 (dp_storePath P))" if c: "clean P"
    proof -
      obtain base where "base_ok world T0 base" "ts_trades s = base @ sr"
        using rep w c by (auto simp: pipe_rep_def store_mem_def quiet_def)
      then show ?thesis
        using P'(1) o1(2) j(4) by (auto simp: store_disk_def intro!: exI [of _ base])
    qed
    then show ?thesis
      using rep w j j1 P'(1,2) o1(1) by (simp add: pipe_rep_def journal_state_def clean_def store_mem_def quiet_def)
  qed
qed

lemma close_step:
  assumes rep: "pipe_rep world J0 T0 old popped jr sr P fs" and conf: "pipe_conf T0 old P"
    and w: "dp_worker P = Flushing j s batch final os" and step: "run_step env P fs = Some (P', fs')"
  shows "pipe_rep world J0 T0 old popped jr (sr @ batch) P' fs' \<and> dp_ring P' = dp_ring P"
proof -
  have j: "journal_holds j (J0 @ jr) fs" "fj_path j = dp_journalPath P" "fj_capacity j = dp_journalCapacity P"
      "ts_path s = dp_storePath P"
    using rep w by (simp_all add: pipe_rep_defs)
  let ?data = "store_image (ts_trades s @ batch)"
  have P': "P' = P\<lparr>dp_persisted := dp_persisted P + of_nat (length batch),
      dp_worker := (if final then Closing j else Looping j (staged batch s) [])\<rparr>" "fs' = write_close os (ts_path s) ?data fs"
    using step w by (simp_all add: run_step_def)
  then have "store_change env s fs fs'"
    by (auto simp: store_change_def)
  then have j1: "journal_holds j (J0 @ jr) fs'"
    using durable.second_keeps_first j(1,2,4) conf by (metis pipe_conf_def)
  have path: "ts_path (staged batch s) = ts_path s"
    by (simp add: staged_def Let_def)
  have "store_disk world T0 old (dp_worker P') (sr @ batch) (fs' (dp_storePath P)) \<and> store_mem world T0 (sr @ batch) P'" if c: "clean P"
  proof -
    obtain base where s: "store_ok s" "base_ok world T0 base" "ts_trades s = base @ sr" and os: "stream_of world os" "os_good os ?data"
      using rep w c by (auto simp: pipe_rep_def store_mem_def quiet_def)
    moreover have "batch \<noteq> []"
      using rep w by (simp add: pipe_rep_def)
    ultimately show ?thesis
      using P' j(4) staged_ok [OF s(1), of batch]
      by (auto simp: store_disk_def store_mem_def write_close_def)
  qed
  then show ?thesis
    using rep w j j1 P' path by (auto simp: pipe_rep_def journal_state_def clean_def)
qed

lemma pop_step:
  assumes rep: "pipe_rep world J0 T0 old popped jr sr P fs"
    and w: "dp_worker P = Popping j s batch" and step: "run_step env P fs = Some (P', fs')"
  shows "\<exists>popped'. pipe_rep world J0 T0 old popped' jr sr P' fs' \<and> popped' @ ring_items (dp_ring P') = popped @ ring_items (dp_ring P)"
proof -
  have ok: "ring_ok (dp_ring P)"
    using rep by (simp add: pipe_rep_def)
  show ?thesis
  proof (cases "ring_items (dp_ring P)")
    case Nil
    then have "P' = P\<lparr>dp_worker := (if batch \<noteq> [] then Journaling j s batch 0 False else Looping j s batch)\<rparr>" "fs' = fs"
      using step w ring.pop_none [OF ok] by (simp_all add: run_step_def)
    then show ?thesis
      using rep w by (intro exI [of _ popped]) (auto simp: pipe_rep_defs)
  next
    case (Cons f fs0)
    then obtain q where q: "tryPop (dp_ring P) = Some (Some f, q)" "ring_ok q" "ring_items q = fs0"
      using ring.pop_some [OF ok] by blast
    then have "P' = P\<lparr>dp_ring := q, dp_worker := (if length (batch @ [f]) \<ge> unat (dp_batchSize P)
        then Journaling j s (batch @ [f]) 0 False else Looping j s (batch @ [f]))\<rparr>" "fs' = fs"
      using step w by (simp_all add: run_step_def)
    moreover have "subseq (jr @ batch @ [f]) (popped @ [f])"
      using rep w subseq_append_iff by (simp add: pipe_rep_def flip: append_assoc)
    ultimately show ?thesis
      using rep w q Cons by (intro exI [of _ "popped @ [f]"]) (auto simp: pipe_rep_defs)
  qed
qed

lemma loop_step:
  assumes rep: "pipe_rep world J0 T0 old popped jr sr P fs"
    and w: "dp_worker P = Looping j s batch \<or> dp_worker P = Draining j s batch" and step: "run_step env P fs = Some (P', fs')"
  shows "pipe_rep world J0 T0 old popped jr sr P' fs' \<and> dp_ring P' = dp_ring P"
  using w
proof
  assume w: "dp_worker P = Looping j s batch"
  then have "P' = P\<lparr>dp_worker := (if dp_stop P then Draining j s batch else Popping j s batch)\<rparr>" "fs' = fs"
    using step by (simp_all add: run_step_def)
  then show ?thesis
    using rep w by (auto simp: pipe_rep_defs)
next
  assume w: "dp_worker P = Draining j s batch"
  then have "P' = P\<lparr>dp_worker := (if \<not> ring_empty (dp_ring P) then Popping j s batch
      else if batch \<noteq> [] then Journaling j s batch 0 True else Closing j)\<rparr>" "fs' = fs"
    using step by (simp_all add: run_step_def)
  then show ?thesis
    using rep w by (auto simp: pipe_rep_defs store_holds_def)
qed

lemma exit_step:
  assumes rep: "pipe_rep world J0 T0 old popped jr sr P fs"
    and w: "dp_worker P = Closing j \<or> dp_worker P = Failing e \<or> dp_worker P = Failed" and step: "run_step env P fs = Some (P', fs')"
  shows "pipe_rep world J0 T0 old popped jr sr P' fs' \<and> dp_ring P' = dp_ring P"
  using w
proof (elim disjE)
  assume w: "dp_worker P = Closing j"
  then have "fs' = fs" "P' = P\<lparr>dp_worker := Finished\<rparr> \<or> P' = P\<lparr>dp_worker := Failing ''failed to flush fill journal mapping''\<rparr>"
    using step by (auto simp: run_step_def journal_flush_def split: if_splits)
  then show ?thesis
    using rep w journal_holds_at [of j "J0 @ jr" fs] by (auto simp: pipe_rep_defs)
next
  assume w: "dp_worker P = Failing e"
  then show ?thesis
    using rep step by (auto simp: run_step_def setError_def pipe_rep_def journal_state_def clean_def)
next
  assume w: "dp_worker P = Failed"
  then show ?thesis
    using rep step by (auto simp: run_step_def pipe_rep_def journal_state_def clean_def)
qed

lemma run_step_rep:
  assumes rep: "pipe_rep world J0 T0 old popped jr sr P fs" and conf: "pipe_conf T0 old P" and env: "world env"
    and step: "run_step env P fs = Some (P', fs')"
  shows "\<exists>popped' jr' sr'. pipe_rep world J0 T0 old popped' jr' sr' P' fs' \<and>
           popped' @ ring_items (dp_ring P') = popped @ ring_items (dp_ring P)"
proof -
  have same: ?thesis if "pipe_rep world J0 T0 old popped jr' sr' P' fs' \<and> dp_ring P' = dp_ring P" for jr' sr'
    using that by (intro exI [of _ popped] exI [of _ jr'] exI [of _ sr']) simp
  show ?thesis
  proof (cases "dp_worker P")
    case Opening
    then show ?thesis using open_step [OF rep conf env _ step] same by blast
  next
    case (Looping j s b)
    then show ?thesis using loop_step [OF rep _ step, of j s b] same by blast
  next
    case (Draining j s b)
    then show ?thesis using loop_step [OF rep _ step, of j s b] same by blast
  next
    case (Popping j s b)
    then show ?thesis using pop_step [OF rep _ step] by blast
  next
    case (Journaling j s b k f)
    then show ?thesis using journal_step [OF rep conf _ step] same by blast
  next
    case (Counting j s b k idx f)
    then show ?thesis using count_step [OF rep conf _ step] same by blast
  next
    case (Storing j s b f)
    then show ?thesis using store_step [OF rep conf env _ step] same by blast
  next
    case (Writing j s b f os)
    then show ?thesis using write_step [OF rep conf _ step] same by blast
  next
    case (Flushing j s b f os)
    then show ?thesis using close_step [OF rep conf _ step] same by blast
  next
    case (Closing j)
    then show ?thesis using exit_step [OF rep _ step, of j] same by blast
  next
    case (Failing e)
    then show ?thesis using exit_step [OF rep _ step, of _ e] same by blast
  next
    case Failed
    then show ?thesis using exit_step [OF rep _ step] same by blast
  qed (use step in \<open>simp_all add: run_step_def\<close>)
qed

lemma run_step_const:
  assumes "run_step env P fs = Some (P', fs')"
  shows "dp_journalPath P' = dp_journalPath P" "dp_storePath P' = dp_storePath P" "dp_journalCapacity P' = dp_journalCapacity P"
    "dp_running P' = dp_running P" "dp_worker P \<noteq> NoWorker" "dp_worker P' \<noteq> NoWorker" "dp_stop P \<Longrightarrow> dp_stop P'"
proof -
  have h: "handler e \<noteq> NoWorker" for e
    by (cases e) simp_all
  have "dp_journalPath P' = dp_journalPath P \<and> dp_storePath P' = dp_storePath P \<and> dp_journalCapacity P' = dp_journalCapacity P \<and>
    dp_running P' = dp_running P \<and> dp_worker P \<noteq> NoWorker \<and> dp_worker P' \<noteq> NoWorker \<and> (dp_stop P \<longrightarrow> dp_stop P')"
    using assms h by (cases "dp_worker P")
      (auto simp: run_step_def setError_def split: prod.splits sum.splits option.splits if_splits)
  then show "dp_journalPath P' = dp_journalPath P" "dp_storePath P' = dp_storePath P" "dp_journalCapacity P' = dp_journalCapacity P"
    "dp_running P' = dp_running P" "dp_worker P \<noteq> NoWorker" "dp_worker P' \<noteq> NoWorker" "dp_stop P \<Longrightarrow> dp_stop P'"
    by simp_all
qed

end
