(* ===== verification/Pipeline_Invariant.thy ===== *)
theory Pipeline_Invariant
  imports Pipeline_Steps
begin

text \<open>
  The invariant of the durability pipeline under every interleaving of its caller and its worker: where the stop
  flag can be set, what the ring, the worker and the files hold together, and how many steps are left once
  \<open>stop\<close> has been called.
\<close>

section \<open>Control\<close>

fun stop_seen :: "pipe_worker \<Rightarrow> bool" where
  "stop_seen (Draining j s batch) = True"
| "stop_seen w = left_loop w"

lemma left_loop_stop: "left_loop w \<Longrightarrow> stop_seen w"
  by (cases w) simp_all

definition control :: "pipe_event list \<Rightarrow> pipe_system \<Rightarrow> bool" where
  "control evs S \<longleftrightarrow>
     (let P = ps_pipe S
      in (dp_running P \<longleftrightarrow> dp_worker P \<noteq> NoWorker) \<and> (ps_caller S = Stopping \<longrightarrow> dp_stop P) \<and>
         (dp_worker P = NoWorker \<and> Started \<in> set evs \<longrightarrow> dp_stop P \<and> (clean P \<longrightarrow> ring_items (dp_ring P) = [])) \<and>
         (dp_worker P \<noteq> NoWorker \<longrightarrow> Started \<in> set evs) \<and>
         (stop_seen (dp_worker P) \<longrightarrow> dp_stop P) \<and>
         (clean P \<and> left_loop (dp_worker P) \<longrightarrow> ring_items (dp_ring P) = []) \<and>
         (clean P \<and> dp_stop P \<longrightarrow> (\<forall>f. ps_caller S \<noteq> Publishing f)))"

lemma handler_simps [simp]:
  "handler e \<noteq> NoWorker" "NoWorker \<noteq> handler e" "\<not> left_loop (handler e)" "\<not> stop_seen (handler e)"
  "handler e \<noteq> Undefined \<Longrightarrow> failing (handler e)"
  by (cases e; simp)+

lemma failing_simps [simp]: "failing w \<Longrightarrow> \<not> left_loop w" "failing w \<Longrightarrow> \<not> stop_seen w" "failing w \<Longrightarrow> w \<noteq> NoWorker"
  by (cases w; simp)+

lemma control_work:
  assumes c: "control evs S" and step: "run_step env (ps_pipe S) (ps_files S) = Some (P', fs')"
    and ok: "ring_ok (dp_ring (ps_pipe S))" and def: "dp_worker P' \<noteq> Undefined"
    and err: "dp_worker (ps_pipe S) = Failed \<longrightarrow> dp_error (ps_pipe S) \<noteq> []"
  shows "control (evs @ [Internal]) (S\<lparr>ps_pipe := P', ps_files := fs'\<rparr>)"
proof -
  let ?P = "ps_pipe S"
  note emp = ring.empty_items [OF ok]
  note simps = control_def clean_def Let_def
  show ?thesis
  proof (cases "dp_worker ?P")
    case Opening
    then obtain w where P': "P' = ?P\<lparr>dp_worker := w\<rparr>" and w: "failing w \<or> (\<exists>j s. w = Looping j s [])"
      using step def by (auto simp: run_step_def split: prod.splits sum.splits)
    show ?thesis
      using w c Opening unfolding P' by (elim disjE exE) (simp_all add: simps)
  next
    case (Looping j s b)
    then have "P' = ?P\<lparr>dp_worker := (if dp_stop ?P then Draining j s b else Popping j s b)\<rparr>"
      using step by (simp add: run_step_def)
    then show ?thesis
      using c Looping by (cases "dp_stop ?P") (simp_all add: simps)
  next
    case (Draining j s b)
    then have "P' = ?P\<lparr>dp_worker := (if \<not> ring_empty (dp_ring ?P) then Popping j s b
        else if b \<noteq> [] then Journaling j s b 0 True else Closing j)\<rparr>"
      using step by (simp add: run_step_def)
    then show ?thesis
      using c Draining emp by (simp add: simps)
  next
    case (Popping j s b)
    then obtain w q where "P' = ?P\<lparr>dp_ring := q, dp_worker := w\<rparr>" "\<not> stop_seen w" "\<not> left_loop w" "w \<noteq> NoWorker"
      using step def by (auto simp: run_step_def split: option.splits)
    then show ?thesis
      using c Popping by (simp add: simps)
  next
    case (Journaling j s b k f)
    then obtain w where P': "P' = ?P\<lparr>dp_worker := w\<rparr>" and w: "failing w \<or> (\<exists>idx. w = Counting j s b k idx f) \<or> w = Storing j s b f"
      using step def by (auto simp: run_step_def split: prod.splits sum.splits if_splits)
    show ?thesis
      using w c Journaling unfolding P' by (elim disjE exE) (simp_all add: simps)
  next
    case (Counting j s b k idx f)
    then have "P' = ?P\<lparr>dp_worker := Journaling j s b (Suc k) f\<rparr>"
      using step def by (auto simp: run_step_def split: option.splits)
    then show ?thesis
      using c Counting by (simp add: simps)
  next
    case (Storing j s b f)
    then obtain w where P': "P' = ?P\<lparr>dp_worker := w\<rparr>" and w: "failing w \<or> (\<exists>os. w = Writing j s b f os)"
      using step def by (auto simp: run_step_def split: prod.splits sum.splits)
    show ?thesis
      using w c Storing unfolding P' by (elim disjE exE) (simp_all add: simps)
  next
    case (Writing j s b f os)
    then obtain w where P': "P' = ?P\<lparr>dp_worker := w\<rparr>" and w: "failing w \<or> w = Flushing j s b f os"
      using step def by (auto simp: run_step_def split: prod.splits sum.splits)
    show ?thesis
      using w c Writing unfolding P' by (elim disjE) (simp_all add: simps)
  next
    case (Flushing j s b f os)
    then have "P' = ?P\<lparr>dp_persisted := dp_persisted ?P + of_nat (length b), dp_worker := (if f then Closing j else Looping j (staged b s) [])\<rparr>"
      using step by (simp add: run_step_def)
    then show ?thesis
      using c Flushing by (cases f) (simp_all add: simps)
  next
    case (Closing j)
    then obtain w where P': "P' = ?P\<lparr>dp_worker := w\<rparr>" and w: "failing w \<or> w = Finished"
      using step def by (auto simp: run_step_def split: sum.splits)
    show ?thesis
      using w c Closing unfolding P' by (elim disjE) (simp_all add: simps)
  next
    case (Failing e)
    then have "P' = ?P\<lparr>dp_error := e, dp_worker := Failed\<rparr>"
      using step by (simp add: run_step_def setError_def)
    then show ?thesis
      using c Failing by (simp add: simps)
  next
    case Failed
    then have "P' = ?P\<lparr>dp_stop := True, dp_worker := Finished\<rparr>"
      using step by (simp add: run_step_def)
    then show ?thesis
      using c Failed err by (simp add: simps)
  qed (use step in \<open>simp_all add: run_step_def\<close>)
qed

section \<open>The invariant\<close>

definition pipe_inv :: "(environment \<Rightarrow> bool) \<Rightarrow> Fill list \<Rightarrow> Fill list \<Rightarrow> u8 list option \<Rightarrow> pipe_event list \<Rightarrow> pipe_system \<Rightarrow> bool" where
  "pipe_inv world J0 T0 old evs S \<longleftrightarrow> pipe_conf T0 old (ps_pipe S) \<and> control evs S \<and>
     (\<exists>popped jr sr. pipe_rep world J0 T0 old popped jr sr (ps_pipe S) (ps_files S) \<and>
        published evs = popped @ ring_items (dp_ring (ps_pipe S)))"

lemma pipe_invI:
  assumes "pipe_rep world J0 T0 old popped jr sr (ps_pipe S) (ps_files S)" and "control evs S" and "pipe_conf T0 old (ps_pipe S)"
    and "published evs = popped @ ring_items (dp_ring (ps_pipe S))"
  shows "pipe_inv world J0 T0 old evs S"
  using assms unfolding pipe_inv_def by blast

lemma published_snoc:
  "published (evs @ [ev]) = published evs @ (case ev of Published f ok \<Rightarrow> if ok then [f] else [] | _ \<Rightarrow> [])"
  by (simp add: published_def)

fun idle :: "pipe_worker \<Rightarrow> bool" where
  "idle NoWorker = True"
| "idle Opening = True"
| "idle Finished = True"
| "idle w = False"

lemma idle_simps:
  assumes "idle w"
  shows "the_journal w = None" "the_store w = None" "carried w = []" "unstored w = []" "\<not> failing w" "\<not> in_flush w"
    "\<not> rewriting w" "count_ready xs w fs" "stream_ready world w" "w \<noteq> Undefined" "w \<noteq> Failing e" "w \<noteq> Failed"
  using assms by (cases w; simp)+

lemma pipe_rep_upd:
  assumes rep: "pipe_rep world J0 T0 old popped jr sr P fs"
    and w: "dp_worker P' = dp_worker P \<or> dp_worker P \<in> {NoWorker, Finished} \<and> dp_worker P' \<in> {NoWorker, Opening}"
    and ring: "ring_ok (dp_ring P')" and mem: "clean P \<Longrightarrow> store_mem world T0 sr P \<Longrightarrow> store_mem world T0 sr P'"
    and same: "dp_journalPath P' = dp_journalPath P" "dp_storePath P' = dp_storePath P" "dp_journalCapacity P' = dp_journalCapacity P"
      "dp_error P' = dp_error P" "dp_persisted P' = dp_persisted P"
  shows "pipe_rep world J0 T0 old popped jr sr P' fs"
  using w
proof
  assume eq: "dp_worker P' = dp_worker P"
  have "journal_state P' (J0 @ jr) fs = journal_state P (J0 @ jr) fs"
    using eq same by (cases "the_journal (dp_worker P)") (simp_all add: journal_state_def)
  then show ?thesis
    using eq rep ring mem same unfolding pipe_rep_def clean_def by simp
next
  assume "dp_worker P \<in> {NoWorker, Finished} \<and> dp_worker P' \<in> {NoWorker, Opening}"
  then have idle: "idle (dp_worker P)" "idle (dp_worker P')"
    by auto
  have "journal_state P' (J0 @ jr) fs = journal_state P (J0 @ jr) fs"
    using idle same by (simp add: journal_state_def idle_simps)
  moreover have "store_disk world T0 old (dp_worker P') sr bs = store_disk world T0 old (dp_worker P) sr bs" for bs
    using idle by (simp add: store_disk_def idle_simps)
  ultimately show ?thesis
    using rep ring mem same idle_simps [OF idle(1)] idle_simps [OF idle(2)] unfolding pipe_rep_def clean_def by simp
qed

lemma pipe_inv_push:
  assumes inv: "pipe_inv world J0 T0 old evs S" and caller: "ps_caller S = Publishing f" and push: "tryPush f (dp_ring (ps_pipe S)) = Some (ok, r)"
  shows "pipe_inv world J0 T0 old (evs @ [Published f ok]) (S\<lparr>ps_pipe := (ps_pipe S)\<lparr>dp_ring := r\<rparr>, ps_caller := Idle\<rparr>)"
proof -
  let ?P = "ps_pipe S" and ?P' = "(ps_pipe S)\<lparr>dp_ring := r\<rparr>"
  obtain popped jr sr where rep: "pipe_rep world J0 T0 old popped jr sr ?P (ps_files S)" "published evs = popped @ ring_items (dp_ring ?P)"
    using inv by (auto simp: pipe_inv_def)
  have ring: "ring_ok (dp_ring ?P)"
    using rep(1) by (simp add: pipe_rep_def)
  have running: "clean ?P \<Longrightarrow> \<not> dp_stop ?P"
    using inv caller by (auto simp: pipe_inv_def control_def Let_def)
  have r: "ring_ok r \<and> ring_items r = ring_items (dp_ring ?P) @ (if ok then [f] else [])"
  proof (cases "length (ring_items (dp_ring ?P)) < ring_room (dp_ring ?P)")
    case True
    then show ?thesis
      using ring.push_room [OF ring, of f] push by auto
  next
    case False
    then show ?thesis
      using ring.push_full [OF ring, of f] ring.fits [OF ring] push ring by simp
  qed
  have "pipe_rep world J0 T0 old popped jr sr ?P' (ps_files S)"
    using r running by (intro pipe_rep_upd [OF rep(1)]) (simp_all add: store_mem_def quiet_def split: option.splits)
  moreover have "published (evs @ [Published f ok]) = popped @ ring_items (dp_ring ?P')"
    using r rep(2) by (simp add: published_snoc)
  moreover have "control (evs @ [Published f ok]) (S\<lparr>ps_pipe := ?P', ps_caller := Idle\<rparr>)"
    using inv caller left_loop_stop by (auto simp: pipe_inv_def control_def clean_def Let_def)
  ultimately show ?thesis
    using inv by (auto simp: pipe_inv_def pipe_conf_def)
qed

lemma pipe_inv_work:
  assumes inv: "pipe_inv world J0 T0 old evs S" and env: "world env" and step: "run_step env (ps_pipe S) (ps_files S) = Some (P', fs')"
  shows "pipe_inv world J0 T0 old (evs @ [Internal]) (S\<lparr>ps_pipe := P', ps_files := fs'\<rparr>)"
proof -
  obtain popped jr sr where rep: "pipe_rep world J0 T0 old popped jr sr (ps_pipe S) (ps_files S)"
      "published evs = popped @ ring_items (dp_ring (ps_pipe S))"
    using inv by (auto simp: pipe_inv_def)
  have conf: "pipe_conf T0 old (ps_pipe S)"
    using inv by (simp add: pipe_inv_def)
  obtain popped' jr' sr' where rep': "pipe_rep world J0 T0 old popped' jr' sr' P' fs'"
      "popped' @ ring_items (dp_ring P') = popped @ ring_items (dp_ring (ps_pipe S))"
    using run_step_rep [OF rep(1) conf env step] by blast
  have "control (evs @ [Internal]) (S\<lparr>ps_pipe := P', ps_files := fs'\<rparr>)"
    using inv rep(1) rep'(1) by (intro control_work [OF _ step]) (simp_all add: pipe_inv_def pipe_rep_def)
  moreover have "pipe_conf T0 old P'"
    using conf run_step_const [OF step] by (simp add: pipe_conf_def)
  ultimately show ?thesis
    using rep' rep(2) by (intro pipe_invI [of world J0 T0 old popped' jr' sr']) (simp_all add: published_snoc)
qed

lemma pipe_inv_step:
  assumes inv: "pipe_inv world J0 T0 old evs S" and step: "pipe_step world S ev S'"
  shows "pipe_inv world J0 T0 old (evs @ [ev]) S'"
proof -
  let ?P = "ps_pipe S"
  obtain popped jr sr where rep: "pipe_rep world J0 T0 old popped jr sr ?P (ps_files S)" "published evs = popped @ ring_items (dp_ring ?P)"
    using inv by (auto simp: pipe_inv_def)
  have ring: "ring_ok (dp_ring ?P)" and conf: "pipe_conf T0 old ?P" and c: "control evs S" and def: "dp_worker ?P \<noteq> Undefined"
    using inv rep(1) by (simp_all add: pipe_inv_def pipe_rep_def)
  show ?thesis
    using step
  proof cases
    case pipe_start
    have "pipe_rep world J0 T0 old popped jr sr (pipeline_start ?P) (ps_files S)"
    proof (cases "dp_running ?P")
      case True
      then show ?thesis using rep(1) by (simp add: pipeline_start_def)
    next
      case False
      then have "dp_worker ?P = NoWorker"
        using c by (simp add: control_def Let_def)
      then show ?thesis
        using False ring by (intro pipe_rep_upd [OF rep(1)]) (simp_all add: pipeline_start_def store_mem_def quiet_def)
    qed
    moreover have "control (evs @ [Started]) S'"
      using c pipe_start by (simp add: control_def pipeline_start_def clean_def Let_def)
    ultimately show ?thesis
      using conf rep(2) pipe_start
      by (intro pipe_invI [of world J0 T0 old popped jr sr]) (simp_all add: published_snoc pipeline_start_def pipe_conf_def)
  next
    case (publish_refuse f)
    then show ?thesis
      using inv by (auto simp: pipe_inv_def published_snoc control_def Let_def)
  next
    case (publish_load f)
    then show ?thesis
      using inv by (auto simp: pipe_inv_def published_snoc control_def Let_def)
  next
    case (publish_push f ok r)
    then show ?thesis
      using pipe_inv_push [OF inv] by simp
  next
    case stop_set
    have "pipe_rep world J0 T0 old popped jr sr (?P\<lparr>dp_stop := True\<rparr>) (ps_files S)"
      using ring by (intro pipe_rep_upd [OF rep(1)]) (auto simp: store_mem_def quiet_def split: option.splits)
    moreover have "control (evs @ [Internal]) S'"
      using c stop_set by (simp add: control_def clean_def Let_def)
    ultimately show ?thesis
      using conf rep(2) stop_set by (intro pipe_invI [of world J0 T0 old popped jr sr]) (simp_all add: published_snoc pipe_conf_def)
  next
    case stop_join
    have "pipe_rep world J0 T0 old popped jr sr (?P\<lparr>dp_worker := NoWorker, dp_running := False\<rparr>) (ps_files S)"
      using ring stop_join c by (intro pipe_rep_upd [OF rep(1)]) (auto simp: store_mem_def quiet_def control_def Let_def)
    moreover have "control (evs @ [StopReturned]) S'"
      using c stop_join by (auto simp: control_def clean_def Let_def)
    ultimately show ?thesis
      using conf rep(2) stop_join by (intro pipe_invI [of world J0 T0 old popped jr sr]) (simp_all add: published_snoc pipe_conf_def)
  next
    case (pipe_work env P fs)
    then show ?thesis
      using pipe_inv_work [OF inv] by auto
  qed
qed

lemma pipe_inv_exec:
  assumes "pipe_exec world S0 evs S" and "pipe_inv world J0 T0 old [] S0"
  shows "pipe_inv world J0 T0 old evs S"
  using assms(1) by (induction) (use assms(2) pipe_inv_step in blast)+

lemma pipe_inv_new:
  assumes "journal_at journalCapacity J0 journalPath fs" and "store_file T0 storePath fs" and "journalPath \<noteq> storePath"
    and "24 + unat journalCapacity * 40 < 2 ^ 63" and "unat ringCapacity < 2 ^ 63"
  shows "pipe_inv world J0 T0 (fs storePath) [] (pipe_new (DurabilityPipeline_new journalPath storePath ringCapacity journalCapacity batchSize) fs)"
proof -
  have "ring_ok (SPSCRingBuffer_new default_Fill ringCapacity)" "ring_items (SPSCRingBuffer_new default_Fill ringCapacity) = []"
    by (rule ring_new [OF assms(5)])+
  then show ?thesis
    using assms(1-4)
    by (intro pipe_invI [of world J0 T0 _ "[]" "[]" "[]"])
      (simp_all add: pipe_new_def DurabilityPipeline_new_def pipe_rep_defs control_def pipe_conf_def published_def store_file_def)
qed

section \<open>Stopping\<close>

text \<open>
  The steps the worker has left once \<open>m_stop\<close> is set, with \<open>n\<close> fills in the ring: each fill in the ring costs at
  most nine, each fill in hand two, and the way out of the loop at most fifteen.
\<close>

fun work_left :: "nat \<Rightarrow> pipe_worker \<Rightarrow> nat" where
  "work_left n Opening = 9 * n + 11"
| "work_left n (Looping j s b) = 9 * n + 2 * length b + 10"
| "work_left n (Draining j s b) = 9 * n + 2 * length b + 9"
| "work_left n (Popping j s b) = (if n = 0 then 2 * length b + 15 else 9 * n + 2 * length b + 8)"
| "work_left n (Journaling j s b k final) = 2 * (length b - k) + (if final then 7 else 9 * n + 14)"
| "work_left n (Counting j s b k idx final) = 2 * (length b - k) + (if final then 6 else 9 * n + 13)"
| "work_left n (Storing j s b final) = (if final then 6 else 9 * n + 13)"
| "work_left n (Writing j s b final os) = (if final then 5 else 9 * n + 12)"
| "work_left n (Flushing j s b final os) = (if final then 4 else 9 * n + 11)"
| "work_left n (Closing j) = 3"
| "work_left n (Failing e) = 2"
| "work_left n Failed = 1"
| "work_left n w = 0"

definition pipe_measure :: "pipe_system \<Rightarrow> nat" where
  "pipe_measure S = work_left (length (ring_items (dp_ring (ps_pipe S)))) (dp_worker (ps_pipe S)) +
     (if ps_caller S = Stopping then 1 else 0)"

lemma handler_left: "work_left n (handler e) \<le> 2"
  by (cases e) simp_all

lemma handler_less: "2 < k \<Longrightarrow> work_left n (handler e) < k"
  using handler_left le_less_trans by blast

lemma work_less:
  assumes "run_step env P fs = Some (P', fs')" and "ring_ok (dp_ring P)" and "dp_stop P" and "count_ready xs (dp_worker P) fs"
  shows "work_left (length (ring_items (dp_ring P'))) (dp_worker P') < work_left (length (ring_items (dp_ring P))) (dp_worker P)"
proof (cases "dp_worker P")
  case (Popping j s b)
  show ?thesis
  proof (cases "ring_items (dp_ring P)")
    case Nil
    then show ?thesis
      using assms(1) Popping ring.pop_none [OF assms(2)] by (auto simp: run_step_def)
  next
    case (Cons f fs0)
    then obtain q where "tryPop (dp_ring P) = Some (Some f, q)" "ring_items q = fs0"
      using ring.pop_some [OF assms(2)] by blast
    then show ?thesis
      using assms(1) Popping Cons by (auto simp: run_step_def)
  qed
next
  case (Draining j s b)
  then show ?thesis
    using assms(1) ring.empty_items [OF assms(2)] by (auto simp: run_step_def)
next
  case (Counting j s b k idx final)
  then show ?thesis
    using assms(1,4) by (auto simp: run_step_def)
qed (use assms(1,3) in \<open>auto simp: run_step_def setError_def handler_less split: prod.splits sum.splits if_splits\<close>)

lemma run_step_enabled:
  "dp_worker P \<noteq> NoWorker \<Longrightarrow> dp_worker P \<noteq> Finished \<Longrightarrow> dp_worker P \<noteq> Undefined \<Longrightarrow> \<exists>P' fs'. run_step env P fs = Some (P', fs')"
  by (cases "dp_worker P") (auto simp: run_step_def split: prod.split sum.split option.split)

end
