(* ===== verification/Pipeline_Properties.thy ===== *)
theory Pipeline_Properties
  imports Pipeline_Invariant
begin

text \<open>
  What the durability pipeline guarantees under every schedule: what is durable when it has stopped, what a
  crash or an error leaves behind, and that \<open>stop\<close> returns.
\<close>

section \<open>Properties\<close>











lemma pipe_step_const:
  assumes "pipe_step world S ev S'"
  shows "dp_journalPath (ps_pipe S') = dp_journalPath (ps_pipe S) \<and> dp_storePath (ps_pipe S') = dp_storePath (ps_pipe S) \<and>
         dp_journalCapacity (ps_pipe S') = dp_journalCapacity (ps_pipe S)"
  using assms by cases (auto simp: pipeline_start_def dest: run_step_const)

lemma pipe_exec_const:
  assumes "pipe_exec world S0 evs S"
  shows "dp_journalPath (ps_pipe S) = dp_journalPath (ps_pipe S0) \<and> dp_storePath (ps_pipe S) = dp_storePath (ps_pipe S0) \<and>
         dp_journalCapacity (ps_pipe S) = dp_journalCapacity (ps_pipe S0)"
  using assms by (induction) (auto dest: pipe_step_const)

text \<open>
  The files before the pipeline is constructed: a journal with the records of \<open>J0\<close> and a store with the trades
  \<open>T0\<close>, at different paths; and sizes that fit their types.
\<close>

definition pipeline_setup :: "Fill list \<Rightarrow> Fill list \<Rightarrow> string \<Rightarrow> string \<Rightarrow> size_t \<Rightarrow> size_t \<Rightarrow> files \<Rightarrow> bool" where
  "pipeline_setup J0 T0 journalPath storePath ringCapacity journalCapacity fs \<longleftrightarrow>
     journal_at journalCapacity J0 journalPath fs \<and> store_file T0 storePath fs \<and>
     journalPath \<noteq> storePath \<and> 24 + unat journalCapacity * 40 < 2 ^ 63 \<and>
     length T0 + unat journalCapacity < 2 ^ 64 \<and> unat ringCapacity < 2 ^ 63"

lemma reachable_inv:
  assumes "pipeline_setup J0 T0 jp sp rc jc fs"
    and "pipe_exec world (pipe_new (DurabilityPipeline_new jp sp rc jc batchSize) fs) evs S"
  shows "pipe_inv world J0 T0 (fs sp) evs S"
    and "dp_journalPath (ps_pipe S) = jp" "dp_storePath (ps_pipe S) = sp" "dp_journalCapacity (ps_pipe S) = jc"
proof -
  show "pipe_inv world J0 T0 (fs sp) evs S"
    using assms by (intro pipe_inv_exec [OF assms(2)] pipe_inv_new) (simp_all add: pipeline_setup_def)
  show "dp_journalPath (ps_pipe S) = jp" "dp_storePath (ps_pipe S) = sp" "dp_journalCapacity (ps_pipe S) = jc"
    using pipe_exec_const [OF assms(2)] by (simp_all add: pipe_new_def DurabilityPipeline_new_def)
qed



text \<open>
  (C29) \<open>stop\<close> returns: while it waits for the worker some thread can move, and every step of any thread
  decreases the work left, so under every schedule it returns after at most nine steps for each fill that is
  still in the ring, two for each fill in hand and sixteen more, whether or not the files can be written.
\<close>

theorem pipeline_stop_terminates:
  assumes "pipeline_setup J0 T0 journalPath storePath ringCapacity journalCapacity fs"
    and "pipe_exec world (pipe_new (DurabilityPipeline_new journalPath storePath ringCapacity journalCapacity batchSize) fs) evs S"
    and "ps_caller S = Stopping" and "world env"
  shows "(\<exists>ev S'. pipe_step world S ev S') \<and> (\<forall>ev S'. pipe_step world S ev S' \<longrightarrow> pipe_measure S' < pipe_measure S) \<and>
         pipe_measure S \<le> 9 * length (ring_items (dp_ring (ps_pipe S))) + 2 * length (carried (dp_worker (ps_pipe S))) + 16"
proof -
  note inv = reachable_inv(1) [OF assms(1,2)]
  obtain xs where ok: "ring_ok (dp_ring (ps_pipe S))" "dp_worker (ps_pipe S) \<noteq> Undefined" "dp_stop (ps_pipe S)"
      "count_ready xs (dp_worker (ps_pipe S)) (ps_files S)"
    using inv assms(3) by (auto simp: pipe_inv_def pipe_rep_def control_def Let_def)
  have "pipe_measure S' < pipe_measure S" if "pipe_step world S ev S'" for ev S'
    using that
  proof cases
    case (pipe_work env P fs)
    then show ?thesis
      using work_less [OF pipe_work(4) ok(1,3,4)] assms(3) by (simp add: pipe_measure_def)
  qed (use assms(3) in \<open>auto simp: pipe_measure_def\<close>)
  moreover have "\<exists>ev S'. pipe_step world S ev S'"
    using run_step_enabled [of "ps_pipe S" env "ps_files S"] ok(2) assms(3,4) pipe_work stop_join by metis
  moreover have "work_left n w \<le> 15 + 9 * n + 2 * length (carried w)" for n w
    by (cases w) simp_all
  then have "pipe_measure S \<le> 9 * length (ring_items (dp_ring (ps_pipe S))) + 2 * length (carried (dp_worker (ps_pipe S))) + 16"
    using assms(3) by (simp add: pipe_measure_def add.assoc)
  ultimately show ?thesis
    by blast
qed

text \<open>
  Stopping is final: once \<open>m_stop\<close> is set, by \<open>stop\<close> or by an error of the worker, no later
  \<open>tryPublish\<close> is accepted, not even after a new \<open>start\<close>.
\<close>

lemma pipeline_stop_is_final:
  assumes "pipe_exec world S evs S'" and "dp_stop (ps_pipe S)" and "\<forall>f. ps_caller S \<noteq> Publishing f"
  shows "published evs = [] \<and> dp_stop (ps_pipe S')"
proof -
  have "published evs = [] \<and> dp_stop (ps_pipe S') \<and> (\<forall>f. ps_caller S' \<noteq> Publishing f)"
    using assms(1)
  proof induction
    case pipe_nil
    then show ?case
      using assms(2,3) by (simp add: published_def)
  next
    case (pipe_snoc evs S1 ev S2)
    from pipe_snoc(2) show ?case
      by cases (use pipe_snoc.IH in \<open>auto simp: published_snoc pipeline_start_def dest: run_step_const(7)\<close>)
  qed
  then show ?thesis by simp
qed

section \<open>A run with one fill\<close>

definition sample_env :: environment where
  "sample_env = \<lparr>env_journal = sample_jos, env_stream = sample_stream, env_alloc = (\<lambda>_. True), env_read = True, env_early = 0\<rparr>"

definition sample_world :: "environment \<Rightarrow> bool" where
  "sample_world env \<longleftrightarrow> env = sample_env"

abbreviation (input) sample_pipeline :: DurabilityPipeline where
  "sample_pipeline \<equiv> DurabilityPipeline_new ''j'' ''s'' 1 2 1"

definition pipe_at :: "Fill SPSCRingBuffer \<Rightarrow> pipe_worker \<Rightarrow> bool \<Rightarrow> u64 \<Rightarrow> pipe_caller \<Rightarrow> files \<Rightarrow> pipe_system" where
  "pipe_at r w stop n c fs =
     \<lparr>ps_pipe = sample_pipeline\<lparr>dp_ring := r, dp_worker := w, dp_running := True, dp_stop := stop, dp_persisted := n\<rparr>,
      ps_caller = c, ps_files = fs\<rparr>"

lemma sample_setup: "pipeline_setup [] [] ''j'' ''s'' 1 2 Map.empty"
  by (simp add: pipeline_setup_def journal_at_def zero_file_def store_file_def store_bytes_def)


lemma exec_work:
  assumes "pipe_exec sample_world S0 evs (pipe_at r w stop n c fs)"
    and "run_step sample_env (ps_pipe (pipe_at r w stop n c fs)) fs = Some (ps_pipe (pipe_at r' w' stop n' c fs'), fs')"
  shows "pipe_exec sample_world S0 (evs @ [Internal]) (pipe_at r' w' stop n' c fs')"
proof -
  have "pipe_step sample_world (pipe_at r w stop n c fs) Internal (pipe_at r' w' stop n' c fs')"
    using pipe_work [of sample_world sample_env "pipe_at r w stop n c fs"] assms(2)
    by (simp add: sample_world_def pipe_at_def)
  then show ?thesis
    using pipe_snoc assms(1) by blast
qed

lemma exec_published:
  obtains j fs1 r1 where "pipe_exec sample_world (pipe_new sample_pipeline Map.empty) [Started, Internal, Internal, Published sample_fill True]
      (pipe_at r1 (Looping j (store_of ''s'' []) []) False 0 Idle fs1)"
    and "journal_rep j [] fs1" "fj_capacity j = 2" "fj_path j = ''j''" "fs1 ''s'' = None" "ring_ok r1" "ring_items r1 = [sample_fill]"
proof -
  let ?r0 = "SPSCRingBuffer_new default_Fill 1"
  obtain j fs1 where j: "FillJournal_new sample_jos ''j'' 2 Map.empty = (Inr j, fs1)" "journal_rep j [] fs1"
      "fj_path j = ''j''" "fj_capacity j = 2" "\<forall>q. q \<noteq> ''j'' \<longrightarrow> fs1 q = None"
    using open_new [OF sample_jos_good(1), of 2 Map.empty "''j''"] by auto
  have r0: "ring_ok ?r0" "ring_items ?r0 = []" "unat (1 :: size_t) \<le> ring_room ?r0"
    by (rule ring_new, simp)+
  obtain r1 where r1: "tryPush sample_fill ?r0 = Some (True, r1)" "ring_ok r1" "ring_items r1 = [sample_fill]"
    using ring.push_room [OF r0(1), of sample_fill] r0(2,3) by auto
  have "pipe_step sample_world (pipe_new sample_pipeline Map.empty) Started (pipe_at ?r0 Opening False 0 Idle Map.empty)"
    using pipe_start [of "pipe_new sample_pipeline Map.empty" sample_world]
    by (simp add: pipe_new_def pipe_at_def pipeline_start_def DurabilityPipeline_new_def)
  then have "pipe_exec sample_world (pipe_new sample_pipeline Map.empty) [Started] (pipe_at ?r0 Opening False 0 Idle Map.empty)"
    using pipe_snoc [OF pipe_nil] by fastforce
  moreover have "fs1 ''s'' = None"
    using j(5) by simp
  then have "run_step sample_env (ps_pipe (pipe_at ?r0 Opening False 0 Idle Map.empty)) Map.empty =
      Some (ps_pipe (pipe_at ?r0 (Looping j (store_of ''s'' []) []) False 0 Idle fs1), fs1)"
    using j(1) by (simp add: pipe_at_def run_step_def open_files_def DurabilityPipeline_new_def sample_env_def
        TradeStore_new_def load_store_def store_of_empty)
  ultimately have e1: "pipe_exec sample_world (pipe_new sample_pipeline Map.empty) [Started, Internal]
      (pipe_at ?r0 (Looping j (store_of ''s'' []) []) False 0 Idle fs1)"
    using exec_work by fastforce
  have "pipe_step sample_world (pipe_at ?r0 (Looping j (store_of ''s'' []) []) False 0 Idle fs1) Internal
      (pipe_at ?r0 (Looping j (store_of ''s'' []) []) False 0 (Publishing sample_fill) fs1)"
    using publish_load [of "pipe_at ?r0 (Looping j (store_of ''s'' []) []) False 0 Idle fs1" sample_world sample_fill]
    by (simp add: pipe_at_def)
  moreover have "pipe_step sample_world (pipe_at ?r0 (Looping j (store_of ''s'' []) []) False 0 (Publishing sample_fill) fs1)
      (Published sample_fill True) (pipe_at r1 (Looping j (store_of ''s'' []) []) False 0 Idle fs1)"
    using publish_push [of "pipe_at ?r0 (Looping j (store_of ''s'' []) []) False 0 (Publishing sample_fill) fs1" sample_fill True r1] r1(1)
    by (simp add: pipe_at_def DurabilityPipeline_new_def)
  ultimately have "pipe_exec sample_world (pipe_new sample_pipeline Map.empty) [Started, Internal, Internal, Published sample_fill True]
      (pipe_at r1 (Looping j (store_of ''s'' []) []) False 0 Idle fs1)"
    using pipe_snoc [OF pipe_snoc [OF e1]] by fastforce
  then show ?thesis
    using that j \<open>fs1 ''s'' = None\<close> r1 by blast
qed

lemma exec_rewriting:
  obtains j fs2 r2 where "pipe_exec sample_world (pipe_new sample_pipeline Map.empty)
      ([Started, Internal, Internal, Published sample_fill True] @ replicate 6 Internal)
      (pipe_at r2 (Writing j (store_of ''s'' []) [sample_fill] False sample_stream) False 0 Idle (fs2(''s'' \<mapsto> [])))"
    and "ring_ok r2" "ring_items r2 = []"
proof -
  obtain j fs1 r1 where e: "pipe_exec sample_world (pipe_new sample_pipeline Map.empty) [Started, Internal, Internal, Published sample_fill True]
      (pipe_at r1 (Looping j (store_of ''s'' []) []) False 0 Idle fs1)" (is "pipe_exec _ ?I ?evs _")
    and j: "journal_rep j [] fs1" "fj_capacity j = 2" "fj_path j = ''j''" "fs1 ''s'' = None"
    and r1: "ring_ok r1" "ring_items r1 = [sample_fill]"
    by (rule exec_published)
  let ?s = "store_of ''s'' []" and ?f = sample_fill
  obtain r2 where r2: "tryPop r1 = Some (Some ?f, r2)" "ring_ok r2" "ring_items r2 = []"
    using ring.pop_some [OF r1] by auto
  have holds: "journal_holds j [] fs1"
    using j(1) by (simp add: journal_holds_def)
  obtain f1 f2 where rec: "append_record ?f j fs1 = (Inr 0, f1)" "write_count 1 j f1 = Some f2"
  proof -
    obtain r f1 where a: "append_record ?f j fs1 = (r, f1)"
      by fastforce
    have "\<not> throws r"
      using append_room [OF j(1), of ?f] j(2) a by (auto simp: append_fill_steps throws_def)
    then show ?thesis
      using append_record_holds(2) [OF holds a] a that by auto
  qed
  have path: "ts_path ?s = ''s''" "ts_trades ?s = []"
    by (simp_all add: store_of_empty)
  note steps = pipe_at_def run_step_def DurabilityPipeline_new_def sample_env_def path
  have "pipe_exec sample_world ?I (?evs @ [Internal]) (pipe_at r1 (Popping j ?s []) False 0 Idle fs1)"
    by (rule exec_work [OF e]) (simp add: steps)
  then have "pipe_exec sample_world ?I ((?evs @ [Internal]) @ [Internal]) (pipe_at r2 (Journaling j ?s [?f] 0 False) False 0 Idle fs1)"
    by (rule exec_work) (simp add: steps r2(1))
  then have "pipe_exec sample_world ?I (((?evs @ [Internal]) @ [Internal]) @ [Internal]) (pipe_at r2 (Counting j ?s [?f] 0 0 False) False 0 Idle f1)"
    by (rule exec_work) (simp add: steps rec(1))
  then have "pipe_exec sample_world ?I ((((?evs @ [Internal]) @ [Internal]) @ [Internal]) @ [Internal])
      (pipe_at r2 (Journaling j ?s [?f] 1 False) False 0 Idle f2)"
    by (rule exec_work) (simp add: steps rec(2))
  then have "pipe_exec sample_world ?I (((((?evs @ [Internal]) @ [Internal]) @ [Internal]) @ [Internal]) @ [Internal])
      (pipe_at r2 (Storing j ?s [?f] False) False 0 Idle f2)"
    by (rule exec_work) (simp add: steps journal_flush_def sample_jos_def)
  then have "pipe_exec sample_world ?I ((((((?evs @ [Internal]) @ [Internal]) @ [Internal]) @ [Internal]) @ [Internal]) @ [Internal])
      (pipe_at r2 (Writing j ?s [?f] False sample_stream) False 0 Idle (f2(''s'' \<mapsto> [])))"
    by (rule exec_work) (simp add: steps write_open_def sample_stream_def)
  then have "pipe_exec sample_world ?I (?evs @ replicate 6 Internal) (pipe_at r2 (Writing j ?s [?f] False sample_stream) False 0 Idle (f2(''s'' \<mapsto> [])))"
    by (simp add: numeral_eq_Suc)
  then show ?thesis
    using that r2 by blast
qed

lemma exec_stopping:
  obtains j s1 fs2 r2 where "pipe_exec sample_world (pipe_new sample_pipeline Map.empty)
      ([Started, Internal, Internal, Published sample_fill True] @ replicate 9 Internal) (pipe_at r2 (Looping j s1 []) True 1 Stopping fs2)"
    and "ring_ok r2" "ring_items r2 = []"
proof -
  let ?s = "store_of ''s'' []" and ?f = sample_fill
  obtain j fs2 r2 where e: "pipe_exec sample_world (pipe_new sample_pipeline Map.empty)
      ([Started, Internal, Internal, Published sample_fill True] @ replicate 6 Internal)
      (pipe_at r2 (Writing j ?s [?f] False sample_stream) False 0 Idle (fs2(''s'' \<mapsto> [])))" (is "pipe_exec _ ?I ?evs _")
    and r2: "ring_ok r2" "ring_items r2 = []"
    by (rule exec_rewriting)
  let ?fs3 = "write_close sample_stream ''s'' (store_image [?f]) (fs2(''s'' \<mapsto> []))"
  note steps = pipe_at_def run_step_def DurabilityPipeline_new_def sample_env_def store_of_empty
  have "pipe_exec sample_world ?I (?evs @ [Internal]) (pipe_at r2 (Flushing j ?s [?f] False sample_stream) False 0 Idle (fs2(''s'' \<mapsto> [])))"
    by (rule exec_work [OF e]) (simp add: steps write_test_def sample_stream_def)
  then have "pipe_exec sample_world ?I ((?evs @ [Internal]) @ [Internal]) (pipe_at r2 (Looping j (staged [?f] ?s) []) False 1 Idle ?fs3)"
    by (rule exec_work) (simp add: steps)
  moreover have "pipe_step sample_world (pipe_at r2 (Looping j (staged [?f] ?s) []) False 1 Idle ?fs3) Internal
      (pipe_at r2 (Looping j (staged [?f] ?s) []) True 1 Stopping ?fs3)"
    using stop_set [of "pipe_at r2 (Looping j (staged [?f] ?s) []) False 1 Idle ?fs3" sample_world]
    by (simp add: pipe_at_def DurabilityPipeline_new_def)
  ultimately have "pipe_exec sample_world ?I (((?evs @ [Internal]) @ [Internal]) @ [Internal])
      (pipe_at r2 (Looping j (staged [?f] ?s) []) True 1 Stopping ?fs3)"
    using pipe_snoc by blast
  moreover have "((?evs @ [Internal]) @ [Internal]) @ [Internal] = [Started, Internal, Internal, Published sample_fill True] @ replicate 9 Internal"
    by (simp add: numeral_eq_Suc)
  ultimately show ?thesis
    using that r2 by metis
qed




theorem pipeline_stop_terminates_witness:
  "\<exists>evs S ev S'. pipe_exec sample_world (pipe_new sample_pipeline Map.empty) evs S \<and> ps_caller S = Stopping \<and>
     pipe_step sample_world S ev S' \<and> pipe_measure S' < pipe_measure S"
proof -
  obtain j s1 fs2 r2 where e: "pipe_exec sample_world (pipe_new sample_pipeline Map.empty)
      ([Started, Internal, Internal, Published sample_fill True] @ replicate 9 Internal) (pipe_at r2 (Looping j s1 []) True 1 Stopping fs2)"
    by (rule exec_stopping)
  have c: "ps_caller (pipe_at r2 (Looping j s1 []) True 1 Stopping fs2) = Stopping" "sample_world sample_env"
    by (simp_all add: pipe_at_def sample_world_def)
  show ?thesis
    using pipeline_stop_terminates [OF sample_setup e c] e c(1) by blast
qed

end
