(* ===== verification/Replay_Properties.thy ===== *)
theory Replay_Properties
  imports Sample_States Top_Of_Book
begin

text \<open>
  Properties of the feed and of its replay: files of messages, feeds of arbitrary bytes, the counters
  and samples of a run, and the running statistics.
\<close>

section \<open>Feed files\<close>

text \<open>
  (C16) Let \<open>writeFile\<close> write messages through a stream of which the first \<open>k\<close> bytes reach the
  file.  Reading the file back returns exactly the messages whose bytes are there, and \<open>nullopt\<close> when the
  file ends inside a message or cannot be read; with every byte stored that is the list written.  The
  same bytes cut anywhere into two reads parse to the same messages when the unconsumed tail of the
  first read is put in front of the second.
\<close>

theorem feed_file_roundtrip:
  assumes "os_opens os" and "os_stored os (encodeAll msgs) = take k (encodeAll msgs)"
    and "writeFile os path msgs fs = (ok, fs')"
  shows "readFile rd path fs' =
      (if k < length msgs * kFeedMessageSize \<and> \<not> kFeedMessageSize dvd k \<or> 0 < k \<and> msgs \<noteq> [] \<and> \<not> rd then None
       else Some (take (k div kFeedMessageSize) msgs)) \<and>
    (\<forall>bs1 bs2. bs1 @ bs2 = encodeAll msgs \<longrightarrow>
       (let (ms1, n) = parseBuffer bs1 in ms1 @ fst (parseBuffer (drop n bs1 @ bs2)) = msgs))"
proof -
  let ?w = kFeedMessageSize and ?bs = "encodeAll msgs"
  have len: "length ?bs = length msgs * ?w"
    by (rule length_encodeAll)
  note whole = parse_encodeAll
  have cut: "take (j * ?w) ?bs = encodeAll (take j msgs)" for j
    by (simp add: encodeAll_concat feed_codec.take_concat_enc)
  have stored: "fs' path = Some (take k ?bs)"
    using assms by (auto simp: writeFile_def Let_def)
  have "readFile rd path fs' =
      (if k < length msgs * ?w \<and> \<not> ?w dvd k \<or> 0 < k \<and> msgs \<noteq> [] \<and> \<not> rd then None
       else Some (take (k div ?w) msgs))"
  proof (cases "k < length msgs * ?w")
    case True
    have "fst (parseBuffer (take k ?bs)) = take (k div ?w) msgs" if "?w dvd k"
      using that cut [of "k div ?w"] whole by simp
    then show ?thesis
      using True stored len by (auto simp: readFile_def min_def dvd_eq_mod_eq_0)
  next
    case False
    then have "take k ?bs = ?bs" "length msgs \<le> k div ?w"
      using len by (simp_all add: less_eq_div_iff_mult_less_eq)
    moreover have "0 < k" if "msgs \<noteq> []"
      using that False by (cases k) simp_all
    ultimately show ?thesis
      using False stored len whole [of msgs] by (auto simp: readFile_def)
  qed
  moreover have "ms1 @ fst (parseBuffer (drop n bs1 @ bs2)) = msgs"
    if "bs1 @ bs2 = ?bs" "parseBuffer bs1 = (ms1, n)" for bs1 bs2 ms1 n
    using parse_resume [OF that(2), of bs2] that(1) whole [of msgs] by simp
  ultimately show ?thesis
    by (auto split: prod.splits)
qed

theorem feed_file_roundtrip_witness:
  "let os = \<lparr>os_opens = True, os_good = (\<lambda>_. True), os_stored = take 80\<rparr>;
       (ok, fs') = writeFile os ''feed.bin'' sample_feed Map.empty
   in ok \<and> readFile True ''feed.bin'' fs' = Some (take 2 sample_feed)"
  using feed_file_roundtrip [of "\<lparr>os_opens = True, os_good = (\<lambda>_. True), os_stored = take 80\<rparr>" sample_feed 80
      "''feed.bin''" Map.empty True _ True]
  by (simp add: writeFile_def Let_def sample_feed_def kFeedMessageSize_def)

section \<open>Replays\<close>

lemma spec_apply_wf:
  assumes "book_wf B" and "spec_apply cap m B = (fs, B')"
  shows "book_wf B'" and "uncrossed B \<Longrightarrow> uncrossed B'"
proof -
  have "book_wf B' \<and> (uncrossed B \<longrightarrow> uncrossed B')"
  proof (cases "isValidFeedMessage m")
    case True
    consider (add) "msg_msgType m = MSG_ADD" | (cancel) "msg_msgType m = MSG_CANCEL"
      | (modify) "msg_msgType m = MSG_MODIFY" "msg_price m \<noteq> 0"
      using valid_cases [OF True] by blast
    then show ?thesis
    proof cases
      case add
      then have "ord_type (order_of m) = LIMIT \<longrightarrow> ord_price (order_of m) \<noteq> 0"
        using True valid_add by blast
      then show ?thesis
        using True add assms spec_process_wf [OF assms(1)] by (auto simp: spec_apply_def split: if_splits)
    next
      case cancel
      then show ?thesis
        using True assms spec_cancel_wf [OF assms(1)] by (auto simp: spec_apply_def)
    next
      case modify
      obtain ok gs B1 where "spec_modify (msg_orderId m) (msg_price m) (msg_qty m) (msg_sequence m) B = (ok, gs, B1)"
        by (metis prod_cases3)
      then show ?thesis
        using True modify assms(2) spec_modify_wf [OF assms(1) modify(2)] by (auto simp: spec_apply_def)
    qed
  qed (use assms in \<open>simp add: spec_apply_def\<close>)
  then show "book_wf B'" and "uncrossed B \<Longrightarrow> uncrossed B'" by blast+
qed

lemma spec_replay_wf:
  "book_wf B \<Longrightarrow> uncrossed B \<Longrightarrow> spec_replay cap ms B = (fs, B') \<Longrightarrow> book_wf B' \<and> uncrossed B'"
proof (induction ms arbitrary: B fs)
  case (Cons m ms)
  then show ?case
    using spec_apply_wf by (auto split: prod.splits) metis+
qed simp

subsection \<open>Sampling\<close>

text \<open>The books a replay passes through, one after each message, and what the trackers see of them.\<close>

fun spec_books :: "nat \<Rightarrow> FeedMessage list \<Rightarrow> spec_book \<Rightarrow> spec_book list" where
  "spec_books cap [] B = []"
| "spec_books cap (m # ms) B = (let B1 = snd (spec_apply cap m B) in B1 # spec_books cap ms B1)"

definition top_qty :: "Side \<Rightarrow> spec_book \<Rightarrow> u64" where
  "top_qty s B = of_nat (open_qty (best_group (B s)))"

definition spread_samples :: "spec_book list \<Rightarrow> real list" where
  "spread_samples Bs = map (\<lambda>B. real (unat (best_price (B SELL)) - unat (best_price (B BUY))))
     (filter (\<lambda>B. B BUY \<noteq> [] \<and> B SELL \<noteq> []) Bs)"

definition depth_samples :: "(real \<Rightarrow> real) \<Rightarrow> spec_book list \<Rightarrow> real list" where
  "depth_samples rnd Bs = map (\<lambda>B. rnd (real (unat (top_qty BUY B + top_qty SELL B)))) Bs"

definition imbalance_samples :: "(real \<Rightarrow> real) \<Rightarrow> spec_book list \<Rightarrow> real list" where
  "imbalance_samples rnd Bs =
     map (\<lambda>B. rnd (rnd (rnd (real (unat (top_qty BUY B))) - rnd (real (unat (top_qty SELL B)))) /
                rnd (real (unat (top_qty BUY B + top_qty SELL B)))))
       (filter (\<lambda>B. top_qty BUY B + top_qty SELL B \<noteq> 0) Bs)"

definition sampled :: "(real \<Rightarrow> real) \<Rightarrow> spec_book list \<Rightarrow> ReplayEngine \<Rightarrow> ReplayEngine \<Rightarrow> bool" where
  "sampled rnd Bs r r' \<longleftrightarrow>
     st_stats (rep_spread r') = fold (RunningStats_add rnd) (spread_samples Bs) (st_stats (rep_spread r)) \<and>
     qd_depthStats (rep_queueDepth r') =
       fold (RunningStats_add rnd) (depth_samples rnd Bs) (qd_depthStats (rep_queueDepth r)) \<and>
     im_stats (rep_imbalance r') =
       fold (RunningStats_add rnd) (imbalance_samples rnd Bs) (im_stats (rep_imbalance r))"

lemma sampled_simps:
  "sampled rnd [] r r' \<longleftrightarrow> st_stats (rep_spread r') = st_stats (rep_spread r) \<and>
     qd_depthStats (rep_queueDepth r') = qd_depthStats (rep_queueDepth r) \<and>
     im_stats (rep_imbalance r') = im_stats (rep_imbalance r)"
  "sampled rnd [B] r r1 \<Longrightarrow> sampled rnd Bs r1 r' \<Longrightarrow> sampled rnd (B # Bs) r r'"
  by (auto simp: sampled_def spread_samples_def depth_samples_def imbalance_samples_def)

lemma sample_book_sampled:
  assumes "replay_ok r" and "uncrossed (replay_book r)" and "sample_book rnd m n r = Some r'"
  shows "sampled rnd [replay_book r] r r'"
proof -
  let ?e = "rep_engine r" and ?B = "replay_book r"
  have ok: "engine_ok ?e (rep_pool r)"
    using assms(1) by (simp add: replay_ok_def)
  have price: "side_price s (m_book ?e) = best_price (?B s)" for s
    by (simp add: side_top(1) [OF ok] replay_book_def)
  have qty: "side_qty s (m_book ?e) = top_qty s ?B" for s
    by (simp add: top_qty_def replay_book_def side_top(2) [OF ok, symmetric])
  have wf: "book_wf ?B"
    using engine_book_wf [OF ok] by (simp add: replay_book_def)
  have zero: "best_price (?B s) = 0 \<longleftrightarrow> ?B s = []" for s
    using best_price_best(1) [OF wf, of "hd (?B s)" s] by (cases "?B s = []") (simp_all add: best_price_def)
  have spread: "unat (getSpread (m_book ?e)) = unat (best_price (?B SELL)) - unat (best_price (?B BUY))"
    if "?B BUY \<noteq> []" "?B SELL \<noteq> []"
    using that spread_top [OF ok] two_sided_top [OF wf assms(2)] assms(2)
    by (simp add: replay_book_def unat_sub)
  have "rep_spread r' = SpreadTracker_update rnd (m_book ?e) (rep_spread r)"
      "rep_queueDepth r' = QueueDepthTracker_update rnd (m_book ?e) (rep_queueDepth r)"
      "rep_imbalance r' = ImbalanceTracker_update rnd (m_book ?e) (rep_imbalance r)"
    using assms(3) by (auto simp: sample_book_def Let_def split: if_splits bind_splits)
  then show ?thesis
    using spread
    by (simp add: sampled_def spread_samples_def depth_samples_def imbalance_samples_def SpreadTracker_update_def
        QueueDepthTracker_update_def ImbalanceTracker_update_def side_queries price qty zero Let_def)
qed

lemma applyMessage_trackers:
  assumes "ReplayEngine_applyMessage m r st = Some (n, r', st')"
  shows "sampled rnd [] r r'"
  using assms
  by (auto simp: ReplayEngine_applyMessage_def sampled_simps drain_step_def Let_def split: if_splits bind_splits prod.splits)

lemma run_normal_sampled:
  assumes "replay_ok r" and "uncrossed (replay_book r)" and "run_normal rnd ms r st = Some (r', st')"
  shows "sampled rnd (spec_books (replay_cap r) ms (replay_book r)) r r'"
  using assms
proof (induction ms arbitrary: r st)
  case Nil
  then show ?case
    by (simp add: sampled_simps)
next
  case (Cons m ms)
  obtain n r1 st1 fs where a: "ReplayEngine_applyMessage m r st = Some (n, r1, st1)" "step_post m fs n r st r1 st1"
    using applyMessage_rep [OF Cons.prems(1)] by blast
  obtain r2 where s: "sample_book rnd m n r1 = Some r2" "run_normal rnd ms r2 st1 = Some (r', st')"
    using Cons.prems(3) a(1) by (auto split: bind_splits)
  have kept: "rep_engine r2 = rep_engine r1" "rep_pool r2 = rep_pool r1"
    using s(1) by (auto simp: sample_book_def Let_def split: if_splits bind_splits)
  then have same: "replay_ok r2 = replay_ok r1" "replay_cap r2 = replay_cap r1" "replay_book r2 = replay_book r1"
    by (simp_all add: replay_ok_def replay_cap_def replay_book_def)
  have r1: "replay_ok r1" "replay_cap r1 = replay_cap r"
      "spec_apply (replay_cap r) m (replay_book r) = (fs, replay_book r1)"
    using a(2) by (simp_all add: step_post_def)
  have "book_wf (replay_book r)"
    using Cons.prems(1) engine_book_wf by (simp add: replay_ok_def replay_book_def)
  then have unc: "uncrossed (replay_book r1)"
    using spec_apply_wf(2) r1(3) Cons.prems(2) by blast
  have "sampled rnd [replay_book r1] r1 r2"
    by (rule sample_book_sampled [OF r1(1) unc s(1)])
  then have "sampled rnd [replay_book r1] r r2"
    using applyMessage_trackers [OF a(1), of rnd, unfolded sampled_simps(1)] by (simp add: sampled_def)
  moreover have "sampled rnd (spec_books (replay_cap r) ms (replay_book r1)) r2 r'"
    using Cons.IH [OF _ _ s(2)] r1(1,2) unc same by simp
  ultimately show ?case
    using sampled_simps(2) r1(3) by (simp add: Let_def)
qed

lemma replay_new_run:
  assumes "pool_inv p" and "unat (m_capacity p) \<le> 4294967295" and "live (mem p) = {}"
  obtains st r fs where
    "ReplayEngine_run rnd elapsed feed mode warmup (ReplayEngine_new MatchingEngine_new p) = Some (st, r)"
    "run_post feed fs (ReplayEngine_new MatchingEngine_new p) empty_ReplayStats r st"
    "mode = NORMAL_MODE \<longrightarrow> fill_rate_rep (spec_outcomes (unat (m_capacity p)) feed (\<lambda>_. [])) (rep_fillRate r)"
    "replay_cap (ReplayEngine_new MatchingEngine_new p) = unat (m_capacity p)"
  using ReplayEngine_run_rep [OF replay_ok_new(1,3) [OF assms], of rnd elapsed feed mode warmup] replay_ok_new(2) [OF assms]
  by (auto simp: replay_cap_def ReplayEngine_new_def)

text \<open>
  (C11) A replay through a new engine, in either mode and with any warm-up, completes without undefined
  behaviour and computes the fold of the engine's specification over the feed: the final book, the number
  of fills and the traded volume are those of the specification, and each counter is the number of
  messages with the verdict it stands for.
\<close>

theorem replay_refines:
  assumes "pool_inv p" and "unat (m_capacity p) \<le> 4294967295" and "live (mem p) = {}"
  shows "\<exists>st r. ReplayEngine_run rnd elapsed feed mode warmup (ReplayEngine_new MatchingEngine_new p) = Some (st, r) \<and>
    (let cap = unat (m_capacity p);
         (fills, book) = spec_replay cap feed (\<lambda>_. []);
         vs = spec_verdicts cap feed (\<lambda>_. [])
     in replay_ok r \<and> replay_book r = book \<and>
        rst_fills st = of_nat (length fills) \<and> rst_matchedVolume st = of_nat (traded_qty fills) \<and>
        rst_messages st = tally (- {Invalid}) vs \<and> rst_invalidMessages st = tally {Invalid} vs \<and>
        rst_adds st = tally {Added, Dropped} vs \<and> rst_droppedAdds st = tally {Dropped} vs \<and>
        rst_cancels st = tally {Cancelled, CancelMissed} vs \<and> rst_modifies st = tally {Modified, ModifyMissed} vs \<and>
        rst_cancelMisses st = tally {CancelMissed, ModifyMissed} vs)"
proof -
  obtain st r fs where "ReplayEngine_run rnd elapsed feed mode warmup (ReplayEngine_new MatchingEngine_new p) = Some (st, r)"
      "run_post feed fs (ReplayEngine_new MatchingEngine_new p) empty_ReplayStats r st"
      "replay_cap (ReplayEngine_new MatchingEngine_new p) = unat (m_capacity p)"
    using replay_new_run [OF assms, of rnd elapsed feed mode warmup] by blast
  then show ?thesis
    using replay_ok_new(2) [OF assms] by (simp add: run_post_def counted_def empty_ReplayStats_def volume_def Let_def)
qed

definition audit_feed :: "FeedMessage list" where
  "audit_feed = sample_feed @ [makeAdd 4 14 BUY LIMIT 104 7 7, makeCancel 5 99, makeCancel 6 0]"

theorem replay_refines_witness:
  "\<exists>st r. ReplayEngine_run (\<lambda>v. v) 1 audit_feed MAX_MODE 2 (ReplayEngine_new MatchingEngine_new sample_pool) = Some (st, r) \<and>
     rst_messages st = 5 \<and> rst_invalidMessages st = 1 \<and> rst_adds st = 4 \<and> rst_cancelMisses st = 1 \<and>
     rst_fills st = 2 \<and> rst_matchedVolume st = 7"
proof -
  have "let (fills, book) = spec_replay 4 audit_feed (\<lambda>_. []); vs = spec_verdicts 4 audit_feed (\<lambda>_. [])
      in (of_nat (length fills) :: u64) = 2 \<and> (of_nat (traded_qty fills) :: u64) = 7 \<and>
         tally (- {Invalid}) vs = 5 \<and> tally {Invalid} vs = 1 \<and> tally {Added, Dropped} vs = 4 \<and>
         tally {CancelMissed, ModifyMissed} vs = 1"
    by code_simp
  then show ?thesis
    using replay_refines [OF sample_pool_ok(1) _ sample_pool_ok(2), of "\<lambda>v. v" 1 audit_feed MAX_MODE 2] sample_pool_ok(3)
    by (auto simp: Let_def split: prod.splits)
qed

text \<open>
  In normal mode the trackers hold the statistics of the books the specification passes
  through: the spread of every two-sided book, the depth at the top of every book, the imbalance wherever
  the top is not empty, and the fill outcome of every ADD in a window of the last thousand.
\<close>

lemma replay_samples:
  assumes "pool_inv p" and "unat (m_capacity p) \<le> 4294967295" and "live (mem p) = {}"
  shows "\<exists>st r. ReplayEngine_run rnd elapsed feed NORMAL_MODE warmup (ReplayEngine_new MatchingEngine_new p) = Some (st, r) \<and>
    (let Bs = spec_books (unat (m_capacity p)) feed (\<lambda>_. [])
     in st_stats (rep_spread r) = stats_of rnd (spread_samples Bs) \<and>
        qd_depthStats (rep_queueDepth r) = stats_of rnd (depth_samples rnd Bs) \<and>
        im_stats (rep_imbalance r) = stats_of rnd (imbalance_samples rnd Bs)) \<and>
    fill_rate_rep (spec_outcomes (unat (m_capacity p)) feed (\<lambda>_. [])) (rep_fillRate r)"
proof -
  let ?r = "ReplayEngine_new MatchingEngine_new p"
  obtain st r where run: "ReplayEngine_run rnd elapsed feed NORMAL_MODE warmup ?r = Some (st, r)"
      "fill_rate_rep (spec_outcomes (unat (m_capacity p)) feed (\<lambda>_. [])) (rep_fillRate r)"
      "replay_cap ?r = unat (m_capacity p)"
    using replay_new_run [OF assms, of rnd elapsed feed NORMAL_MODE warmup] by blast
  obtain st1 where "run_normal rnd feed ?r empty_ReplayStats = Some (r, st1)"
    using run(1) by (auto simp: ReplayEngine_run_def split: bind_splits)
  from run_normal_sampled [OF replay_ok_new(1) [OF assms] _ this]
  have "sampled rnd (spec_books (unat (m_capacity p)) feed (\<lambda>_. [])) ?r r"
    using replay_ok_new(2) [OF assms] run(3) by (simp add: uncrossed_def)
  then show ?thesis
    using run by (simp add: sampled_def stats_of_def ReplayEngine_new_def SpreadTracker_new_def
        QueueDepthTracker_new_def ImbalanceTracker_new_def)
qed

subsection \<open>Feeds of arbitrary bytes\<close>

text \<open>
  (C13) Whatever bytes a feed file holds: if it is read at all, its messages replay without undefined
  behaviour, and the book stays well typed.  Every byte cast to an enumeration is the code of its
  enumerator, the orders of each side carry that side, a price and an open quantity, the ids are distinct,
  the queues are sorted and the book is not crossed.
\<close>

theorem any_feed_is_safe:
  assumes "pool_inv p" and "unat (m_capacity p) \<le> 4294967295" and "live (mem p) = {}"
    and "readFile rd path fs = Some feed"
  shows "\<exists>st r. ReplayEngine_run rnd elapsed feed mode warmup (ReplayEngine_new MatchingEngine_new p) = Some (st, r) \<and>
    replay_ok r \<and> book_wf (replay_book r) \<and> uncrossed (replay_book r) \<and>
    (\<forall>m\<in>set feed. isValidFeedMessage m \<and> msg_msgType m = MSG_ADD \<longrightarrow>
       side_code (ord_side (order_of m)) = msg_side m \<and> type_code (ord_type (order_of m)) = msg_orderType m)"
proof -
  obtain st r fs where run: "ReplayEngine_run rnd elapsed feed mode warmup (ReplayEngine_new MatchingEngine_new p) = Some (st, r)"
      "run_post feed fs (ReplayEngine_new MatchingEngine_new p) empty_ReplayStats r st"
    using replay_new_run [OF assms(1-3), of rnd elapsed feed mode warmup] by blast
  then have "replay_ok r" "spec_replay (replay_cap (ReplayEngine_new MatchingEngine_new p)) feed (\<lambda>_. []) = (fs, replay_book r)"
    using replay_ok_new(2) [OF assms(1-3)] by (simp_all add: run_post_def)
  moreover from this have "book_wf (replay_book r) \<and> uncrossed (replay_book r)"
    using spec_replay_wf [of "\<lambda>_. []"] by (simp add: book_wf_def uncrossed_def queue_sorted_def)
  moreover have "side_code (ord_side (order_of m)) = msg_side m \<and> type_code (ord_type (order_of m)) = msg_orderType m"
    if "isValidFeedMessage m" "msg_msgType m = MSG_ADD" for m
    using that by (auto simp: isValidFeedMessage_def isValidSide_def isValidOrderType_def order_of_def set_order_def
        to_Side_def to_OrderType_def split: if_splits)
  ultimately show ?thesis
    using run(1) by blast
qed

theorem any_feed_is_safe_witness:
  "\<exists>st r. ReplayEngine_run (\<lambda>v. v) 1 (fst (parseBuffer (replicate 80 7))) MAX_MODE 0
     (ReplayEngine_new MatchingEngine_new sample_pool) = Some (st, r) \<and> uncrossed (replay_book r)"
proof -
  have "readFile True ''feed.bin'' [''feed.bin'' \<mapsto> replicate 80 7] = Some (fst (parseBuffer (replicate 80 7)))"
    by (simp add: readFile_def kFeedMessageSize_def)
  from any_feed_is_safe [OF sample_pool_ok(1) _ sample_pool_ok(2) this, of "\<lambda>v. v" 1 MAX_MODE 0] sample_pool_ok(3)
  show ?thesis
    by auto
qed

section \<open>Running statistics\<close>

text \<open>
  Welford's recurrence is exact in exact arithmetic: after any samples the tracker reports their
  number, mean, least and greatest value and their unbiased variance; nothing is stored but five numbers.
\<close>

lemma running_stats_exact:
  assumes "xs \<noteq> []" and "length xs < 18446744073709551616"
  shows "let st = stats_of (\<lambda>v. v) xs; mean = sum_list xs / real (length xs)
    in unat (rs_n st) = length xs \<and> rs_mean st = mean \<and>
       RunningStats_variance (\<lambda>v. v) st =
         (if length xs = 1 then 0 else (\<Sum>x\<leftarrow>xs. (x - mean)\<^sup>2) / real (length xs - 1)) \<and>
       RunningStats_min st = Min (set xs) \<and> RunningStats_max st = Max (set xs)"
proof -
  let ?st = "stats_of (\<lambda>v. v) xs"
  have n: "unat (rs_n ?st) = length xs"
    using assms(2) by (simp add: stats_of_n unat_of_nat take_bit_eq_mod)
  then have "rs_n ?st \<noteq> 0"
    using assms(1) by auto
  moreover have "rs_n ?st > 1 \<longleftrightarrow> length xs \<noteq> 1"
    using n assms(1) by (cases xs) (auto simp: word_less_nat_alt)
  moreover have "unat (rs_n ?st - 1) = length xs - 1"
    using n \<open>rs_n ?st \<noteq> 0\<close> by (simp add: unat_minus_one)
  ultimately show ?thesis
    using n welford [OF assms] stats_extremes [of "\<lambda>v. v" xs] assms(1)
    by (simp add: Let_def RunningStats_variance_def RunningStats_min_def RunningStats_max_def samples_mean_def
        samples_m2_def)
qed

end
