(* ===== verification/Feed_Generator.thy ===== *)
theory Feed_Generator
  imports Feed_Protocol Complex_Main
begin

text \<open>
  \<open>include/feed/FeedGenerator.h\<close>: the synthetic feed.  The engine \<open>std::mt19937_64\<close> with the standard
  distributions is a parameter: a state, and one function per distribution the generator draws from.
  What the generator relies on is that a distribution stays within its bounds.
\<close>

section \<open>Random numbers\<close>

record 'g rng =
  rng_seed :: "u64 \<Rightarrow> 'g"
  rng_unit :: "'g \<Rightarrow> real \<times> 'g"
  rng_u32 :: "u32 \<Rightarrow> u32 \<Rightarrow> 'g \<Rightarrow> u32 \<times> 'g"
  rng_i32 :: "int \<Rightarrow> int \<Rightarrow> 'g \<Rightarrow> int \<times> 'g"
  rng_index :: "size_t \<Rightarrow> size_t \<Rightarrow> 'g \<Rightarrow> size_t \<times> 'g"

text \<open>\<open>uniform_int_distribution(a, b)\<close> yields values in \<open>[a, b]\<close>; it is undefined unless \<open>a \<le> b\<close>.\<close>

definition draws_in_range :: "'g rng \<Rightarrow> bool" where
  "draws_in_range rng \<longleftrightarrow>
     (\<forall>a b g. a \<le> b \<longrightarrow> a \<le> fst (rng_u32 rng a b g) \<and> fst (rng_u32 rng a b g) \<le> b) \<and>
     (\<forall>a b g. a \<le> b \<longrightarrow> a \<le> fst (rng_i32 rng a b g) \<and> fst (rng_i32 rng a b g) \<le> b) \<and>
     (\<forall>a b g. a \<le> b \<longrightarrow> a \<le> fst (rng_index rng a b g) \<and> fst (rng_index rng a b g) \<le> b)"

section \<open>State\<close>

record FeedConfig =
  cfg_numMessages :: size_t
  cfg_seed :: u64
  cfg_midPrice :: u32
  cfg_priceBand :: u32
  cfg_maxQty :: u32
  cfg_cancelProb :: real
  cfg_marketProb :: real
  cfg_iocProb :: real
  cfg_symbolPacked :: u64

record 'g FeedGenerator =
  gen_cfg :: FeedConfig
  gen_rng :: 'g

definition FeedGenerator_new :: "'g rng \<Rightarrow> FeedConfig \<Rightarrow> 'g FeedGenerator" where
  "FeedGenerator_new rng cfg = \<lparr>gen_cfg = cfg, gen_rng = rng_seed rng (cfg_seed cfg)\<rparr>"

text \<open>The local variables of \<open>generate\<close>.\<close>

record 'g gen_state =
  gs_msgs :: "FeedMessage list"
  gs_nextId :: u64
  gs_seq :: u64
  gs_live :: "u64 list"
  gs_rng :: 'g

section \<open>Operations\<close>

text \<open>
  Conversion to \<open>int32_t\<close> keeps the bits.  A negation or sum that leaves the range of \<open>int32_t\<close>, an
  empty range of a distribution and an index outside \<open>live\<close> are undefined.
\<close>

definition in_i32 :: "int \<Rightarrow> bool" where
  "in_i32 i \<longleftrightarrow> - 2147483648 \<le> i \<and> i \<le> 2147483647"

definition draw_cancel :: "'g rng \<Rightarrow> 'g gen_state \<Rightarrow> 'g gen_state option" where
  "draw_cancel rng st =
     (let (idx, g) = rng_index rng 0 (of_nat (length (gs_live st)) - 1) (gs_rng st)
      in if unat idx < length (gs_live st)
         then Some (st\<lparr>gs_msgs := gs_msgs st @ [makeCancel (gs_seq st) (gs_live st ! unat idx)],
                       gs_live := butlast ((gs_live st)[unat idx := last (gs_live st)]),
                       gs_rng := g\<rparr>)
         else None)"

definition draw_type :: "(real \<Rightarrow> real) \<Rightarrow> FeedConfig \<Rightarrow> real \<Rightarrow> OrderType" where
  "draw_type rnd cfg roll =
     (if roll < cfg_marketProb cfg then MARKET
      else if roll < rnd (cfg_marketProb cfg + cfg_iocProb cfg) then IOC
      else LIMIT)"

definition draw_add :: "(real \<Rightarrow> real) \<Rightarrow> 'g rng \<Rightarrow> FeedConfig \<Rightarrow> 'g gen_state \<Rightarrow> 'g gen_state option" where
  "draw_add rnd rng cfg st =
     (let band = sint (cfg_priceBand cfg);
          (u, g1) = rng_unit rng (gs_rng st);
          side = (if u < 1 / 2 then BUY else SELL);
          (d, g2) = rng_i32 rng (- band) band g1;
          (qty, g3) = rng_u32 rng 1 (cfg_maxQty cfg) g2;
          (roll, g4) = rng_unit rng g3;
          type = draw_type rnd cfg roll;
          i = gs_nextId st
      in if in_i32 (sint (cfg_midPrice cfg) + d)
         then let price = (word_of_int (sint (cfg_midPrice cfg) + d) :: u32)
              in Some (st\<lparr>gs_nextId := i + 1,
                          gs_msgs := gs_msgs st @ [makeAdd (gs_seq st) i side type
                            (if type = MARKET then 0 else price) qty (cfg_symbolPacked cfg)],
                          gs_live := (if type = LIMIT then gs_live st @ [i] else gs_live st),
                          gs_rng := g4\<rparr>)
         else None)"

text \<open>One round of the loop; the draw that decides on a cancel happens only when \<open>live\<close> is not empty.\<close>

definition gen_step :: "(real \<Rightarrow> real) \<Rightarrow> 'g rng \<Rightarrow> FeedConfig \<Rightarrow> 'g gen_state \<Rightarrow> 'g gen_state option" where
  "gen_step rnd rng cfg st0 =
     (let st = st0\<lparr>gs_seq := gs_seq st0 + 1\<rparr>
      in if gs_live st = [] then draw_add rnd rng cfg st
         else let (u, g) = rng_unit rng (gs_rng st); st1 = st\<lparr>gs_rng := g\<rparr>
              in if u < cfg_cancelProb cfg then draw_cancel rng st1 else draw_add rnd rng cfg st1)"

fun gen_loop :: "(real \<Rightarrow> real) \<Rightarrow> 'g rng \<Rightarrow> FeedConfig \<Rightarrow> nat \<Rightarrow> 'g gen_state \<Rightarrow> 'g gen_state option" where
  "gen_loop rnd rng cfg 0 st = Some st"
| "gen_loop rnd rng cfg (Suc n) st = do { st1 \<leftarrow> gen_step rnd rng cfg st; gen_loop rnd rng cfg n st1 }"

text \<open>The distributions are constructed before the loop, each with its precondition.\<close>

definition generate :: "(real \<Rightarrow> real) \<Rightarrow> 'g rng \<Rightarrow> 'g FeedGenerator \<Rightarrow> (FeedMessage list \<times> 'g FeedGenerator) option" where
  "generate rnd rng gen =
     (let cfg = gen_cfg gen; band = sint (cfg_priceBand cfg)
      in if 1 \<le> cfg_maxQty cfg \<and> in_i32 (- band) \<and> - band \<le> band
         then do {
           st \<leftarrow> gen_loop rnd rng cfg (unat (cfg_numMessages cfg))
                  \<lparr>gs_msgs = [], gs_nextId = 1, gs_seq = 0, gs_live = [], gs_rng = gen_rng gen\<rparr>;
           Some (gs_msgs st, gen\<lparr>gen_rng := gs_rng st\<rparr>)
         }
         else None)"

section \<open>Generated feeds\<close>

definition is_add :: "FeedMessage \<Rightarrow> bool" where
  "is_add m \<longleftrightarrow> msg_msgType m = MSG_ADD"

definition adds :: "FeedMessage list \<Rightarrow> nat" where
  "adds ms = length (filter is_add ms)"

definition cancels_of :: "u64 \<Rightarrow> FeedMessage list \<Rightarrow> FeedMessage list" where
  "cancels_of i ms = filter (\<lambda>c. msg_msgType c = MSG_CANCEL \<and> msg_orderId c = i) ms"

definition limit_added :: "u64 \<Rightarrow> FeedMessage list \<Rightarrow> bool" where
  "limit_added i ms \<longleftrightarrow> (\<exists>a\<in>set ms. is_add a \<and> msg_orderType a = type_code LIMIT \<and> msg_orderId a = i)"

text \<open>
  What a message may be after the messages \<open>ms\<close>: it carries the next sequence number and is valid; an
  ADD has the next id, the configured symbol, a quantity and a price within the configured bounds; a
  CANCEL names a limit order added before and not cancelled yet.
\<close>

definition good_next :: "FeedConfig \<Rightarrow> FeedMessage list \<Rightarrow> FeedMessage \<Rightarrow> bool" where
  "good_next cfg ms m \<longleftrightarrow>
     msg_sequence m = of_nat (Suc (length ms)) \<and> isValidFeedMessage m \<and>
     (if is_add m
      then msg_orderId m = of_nat (Suc (adds ms)) \<and> msg_symbolPacked m = cfg_symbolPacked cfg \<and>
           msg_qty m \<le> cfg_maxQty cfg \<and>
           (if msg_orderType m = type_code MARKET then msg_price m = 0
            else \<bar>int (unat (msg_price m)) - int (unat (cfg_midPrice cfg))\<bar> \<le> int (unat (cfg_priceBand cfg)))
      else msg_msgType m = MSG_CANCEL \<and> limit_added (msg_orderId m) ms \<and> cancels_of (msg_orderId m) ms = [])"

definition generated :: "FeedConfig \<Rightarrow> FeedMessage list \<Rightarrow> bool" where
  "generated cfg ms \<longleftrightarrow> (\<forall>i<length ms. good_next cfg (take i ms) (ms ! i))"

lemma generated_simps [simp]:
  "generated cfg []" "generated cfg (ms @ [m]) \<longleftrightarrow> generated cfg ms \<and> good_next cfg ms m"
  by (auto simp: generated_def less_Suc_eq nth_append)

lemma adds_simps [simp]:
  "adds [] = 0" "adds (ms @ [m]) = adds ms + of_bool (is_add m)" "adds ms \<le> length ms"
  by (simp_all add: adds_def)

lemma generated_ids:
  "generated cfg ms \<Longrightarrow> map msg_orderId (filter is_add ms) = map (\<lambda>k. of_nat (Suc k)) [0..<adds ms]"
  by (induction ms rule: rev_induct) (auto simp: good_next_def)

lemma generated_added:
  assumes "generated cfg ms" and "limit_added i ms"
  shows "\<exists>k<adds ms. i = of_nat (Suc k)"
proof -
  have "i \<in> set (map msg_orderId (filter is_add ms))"
    using assms(2) by (auto simp: limit_added_def)
  then show ?thesis
    unfolding generated_ids [OF assms(1)] by auto
qed

lemma generated_valid:
  "generated cfg ms \<Longrightarrow> \<forall>m\<in>set ms. isValidFeedMessage m"
  by (induction ms rule: rev_induct) (auto simp: good_next_def)

lemma generated_sequences:
  "generated cfg ms \<Longrightarrow> map msg_sequence ms = map (\<lambda>k. of_nat (Suc k)) [0..<length ms]"
  by (induction ms rule: rev_induct) (auto simp: good_next_def)

lemma of_nat_Suc_inj:
  "a < 18446744073709551615 \<Longrightarrow> b < 18446744073709551615 \<Longrightarrow>
   (of_nat (Suc a) :: u64) = of_nat (Suc b) \<longleftrightarrow> a = b"
  by (auto simp: word_unat_eq_iff unat_of_nat take_bit_eq_mod simp del: of_nat_Suc)

text \<open>Hence the feed meets what a comparison of two engines needs.\<close>

lemma generated_usable:
  assumes "generated cfg ms" and "length ms < 18446744073709551616"
  shows "sorted (map msg_sequence ms)" and "distinct (map msg_orderId (filter is_add ms))"
proof -
  have le: "(of_nat (Suc a) :: u64) \<le> of_nat (Suc b)" if "a \<le> b" "b < length ms" for a b
    using that assms(2) by (simp add: word_le_nat_alt unat_of_nat take_bit_eq_mod del: of_nat_Suc)
  show "sorted (map msg_sequence ms)"
    unfolding generated_sequences [OF assms(1)] using le
    by (auto simp: sorted_iff_nth_mono simp del: of_nat_Suc)
  have bound: "k < 18446744073709551615" if "k < adds ms" for k
    using that adds_simps(3) [of ms] assms(2) by linarith
  show "distinct (map msg_orderId (filter is_add ms))"
    unfolding generated_ids [OF assms(1)] using of_nat_Suc_inj [OF bound bound]
    by (auto simp: distinct_map inj_on_def simp del: of_nat_Suc)
qed

section \<open>The loop\<close>

definition sane_config :: "FeedConfig \<Rightarrow> bool" where
  "sane_config cfg \<longleftrightarrow> 1 \<le> cfg_maxQty cfg \<and> cfg_priceBand cfg < cfg_midPrice cfg \<and>
     unat (cfg_midPrice cfg) + unat (cfg_priceBand cfg) \<le> 2147483647"

definition gen_inv :: "FeedConfig \<Rightarrow> nat \<Rightarrow> nat \<Rightarrow> 'g gen_state \<Rightarrow> bool" where
  "gen_inv cfg n q st \<longleftrightarrow>
     generated cfg (gs_msgs st) \<and> length (gs_msgs st) = n \<and> gs_seq st = of_nat q \<and>
     gs_nextId st = of_nat (Suc (adds (gs_msgs st))) \<and> distinct (gs_live st) \<and>
     (\<forall>i\<in>set (gs_live st). limit_added i (gs_msgs st) \<and> cancels_of i (gs_msgs st) = [])"

lemma list_simps_add [simp]:
  "limit_added i (ms @ [m]) \<longleftrightarrow> limit_added i ms \<or>
     is_add m \<and> msg_orderType m = type_code LIMIT \<and> msg_orderId m = i"
  "cancels_of i (ms @ [m]) = cancels_of i ms @ (if msg_msgType m = MSG_CANCEL \<and> msg_orderId m = i then [m] else [])"
  by (auto simp: limit_added_def cancels_of_def)

lemma generated_cancels:
  "generated cfg ms \<Longrightarrow> \<not> limit_added i ms \<Longrightarrow> cancels_of i ms = []"
proof (induction ms rule: rev_induct)
  case (snoc m ms)
  then show ?case
    by (auto simp: good_next_def is_add_def split: if_splits)
qed (simp add: cancels_of_def)

lemma swap_remove:
  assumes "distinct xs" and "k < length xs"
  shows "distinct (butlast (xs[k := last xs]))" and "set (butlast (xs[k := last xs])) = set xs - {xs ! k}"
proof -
  obtain ys z where xs: "xs = ys @ [z]"
    using assms(2) by (metis length_greater_0_conv list.size(3) not_less_zero rev_exhaust)
  have u: "butlast (xs[k := last xs]) = (if k = length ys then ys else ys[k := z])"
    using assms(2) xs by (simp add: list_update_append butlast_append)
  have d: "distinct ys" "z \<notin> set ys"
    using assms(1) xs by auto
  have "distinct (ys[k := z]) \<and> set (ys[k := z]) = insert z (set ys - {ys ! k})" if "k < length ys"
    using that d by (simp add: distinct_list_update set_update_distinct)
  then show "distinct (butlast (xs[k := last xs]))" and "set (butlast (xs[k := last xs])) = set xs - {xs ! k}"
    using u d assms(2) xs by (auto simp: nth_append split: if_splits)
qed

lemma live_le:
  assumes "gen_inv cfg n q st"
  shows "length (gs_live st) \<le> n"
proof -
  let ?ids = "(\<lambda>k. of_nat (Suc k)) ` {..<adds (gs_msgs st)} :: u64 set"
  have "set (gs_live st) \<subseteq> ?ids"
    using assms generated_added [of cfg "gs_msgs st"] by (auto simp: gen_inv_def)
  then have "card (set (gs_live st)) \<le> card ?ids"
    by (intro card_mono) simp_all
  also have "\<dots> \<le> adds (gs_msgs st)"
    using card_image_le [of "{..<adds (gs_msgs st)}" "\<lambda>k. of_nat (Suc k) :: u64"] by simp
  also have "\<dots> \<le> n"
    using assms adds_simps(3) [of "gs_msgs st"] by (simp add: gen_inv_def)
  finally show ?thesis
    using assms by (simp add: gen_inv_def distinct_card)
qed

lemma draw_cancel_good:
  assumes inv: "gen_inv cfg n (Suc n) st" and ne: "gs_live st \<noteq> []" and rng: "draws_in_range rng"
    and n: "Suc n < 18446744073709551616"
  shows "\<exists>st'. draw_cancel rng st = Some st' \<and> gen_inv cfg (Suc n) (Suc n) st'"
proof -
  let ?live = "gs_live st"
  obtain idx g where d: "rng_index rng 0 (of_nat (length ?live) - 1) (gs_rng st) = (idx, g)"
    by (metis surj_pair)
  have "idx \<le> of_nat (length ?live) - 1"
    using rng d unfolding draws_in_range_def by (metis fst_conv word_zero_le)
  moreover have len: "length ?live < 18446744073709551616" "0 < length ?live"
    using live_le [OF inv] n ne by simp_all
  moreover have "unat (of_nat (length ?live) - 1 :: size_t) = length ?live - 1"
    using len by (subst unat_minus_one) (auto simp: unat_of_nat take_bit_eq_mod word_unat_eq_iff)
  ultimately have k: "unat idx < length ?live"
    unfolding word_le_nat_alt by linarith
  let ?i = "?live ! unat idx"
  have i: "limit_added ?i (gs_msgs st)" "cancels_of ?i (gs_msgs st) = []" "?i \<in> set ?live"
    using inv k by (simp_all add: gen_inv_def)
  obtain j where j: "j < adds (gs_msgs st)" "?i = of_nat (Suc j)"
    using generated_added i(1) inv unfolding gen_inv_def by blast
  moreover have "adds (gs_msgs st) \<le> n"
    using inv adds_simps(3) [of "gs_msgs st"] by (simp add: gen_inv_def)
  ultimately have "?i \<noteq> 0"
    using n by (simp add: word_unat_eq_iff unat_of_nat take_bit_eq_mod del: of_nat_Suc)
  then have "good_next cfg (gs_msgs st) (makeCancel (gs_seq st) ?i)"
    using inv i by (simp add: good_next_def gen_inv_def is_add_def makeCancel_def isValidFeedMessage_def
        isValidMsgType_def)
  then show ?thesis
    using inv d k swap_remove [of ?live "unat idx"]
    by (auto simp: draw_cancel_def gen_inv_def is_add_def makeCancel_def)
qed

lemma sint_small_u32:
  fixes w :: u32
  assumes "unat w \<le> 2147483647"
  shows "sint w = int (unat w)"
proof -
  have "signed_take_bit 31 (int k) = int k" if "k \<le> 2147483647" for k
    using that by (intro signed_take_bit_int_eq_self) simp_all
  from this [OF assms] show ?thesis
    unfolding sint_uint uint_nat by simp
qed

lemma unat_word_of_int_u32: "0 < k \<Longrightarrow> k \<le> 2147483647 \<Longrightarrow> int (unat (word_of_int k :: u32)) = k"
  by (simp add: unsigned_of_int take_bit_eq_mod)

lemma sint_config:
  assumes "sane_config cfg"
  shows "sint (cfg_midPrice cfg) = int (unat (cfg_midPrice cfg))"
    and "sint (cfg_priceBand cfg) = int (unat (cfg_priceBand cfg))"
  using assms by (simp_all add: sane_config_def sint_small_u32)

lemma draw_add_good:
  assumes inv: "gen_inv cfg n (Suc n) st" and cfg: "sane_config cfg" and rng: "draws_in_range rng"
    and n: "Suc n < 18446744073709551616"
  shows "\<exists>st'. draw_add rnd rng cfg st = Some st' \<and> gen_inv cfg (Suc n) (Suc n) st'"
proof -
  let ?band = "int (unat (cfg_priceBand cfg))" and ?mid = "int (unat (cfg_midPrice cfg))" and ?ms = "gs_msgs st"
  obtain u g1 where u: "rng_unit rng (gs_rng st) = (u, g1)" by (metis surj_pair)
  obtain d g2 where d: "rng_i32 rng (- ?band) ?band g1 = (d, g2)" by (metis surj_pair)
  obtain qty g3 where q: "rng_u32 rng 1 (cfg_maxQty cfg) g2 = (qty, g3)" by (metis surj_pair)
  obtain roll g4 where r: "rng_unit rng g3 = (roll, g4)" by (metis surj_pair)
  have "- ?band \<le> ?band"
    by simp
  then have dr: "- ?band \<le> d" "d \<le> ?band"
    using rng d unfolding draws_in_range_def by (metis fst_conv)+
  have qr: "1 \<le> qty" "qty \<le> cfg_maxQty cfg"
    using rng q cfg unfolding draws_in_range_def sane_config_def by (metis fst_conv)+
  have c: "unat (cfg_priceBand cfg) < unat (cfg_midPrice cfg)"
      "unat (cfg_midPrice cfg) + unat (cfg_priceBand cfg) \<le> 2147483647"
    using cfg by (simp_all add: sane_config_def word_less_nat_alt)
  have pr: "0 < ?mid + d" "?mid + d \<le> 2147483647"
    using dr c by linarith+
  define price :: u32 where "price = word_of_int (?mid + d)"
  have up: "int (unat price) = ?mid + d"
    unfolding price_def using pr by (rule unat_word_of_int_u32)
  then have price: "price \<noteq> 0" "\<bar>int (unat price) - ?mid\<bar> \<le> ?band"
    using pr(1) dr by (auto simp: abs_if)
  let ?m = "makeAdd (gs_seq st) (gs_nextId st) (if u < 1 / 2 then BUY else SELL) (draw_type rnd cfg roll)
      (if draw_type rnd cfg roll = MARKET then 0 else price) qty (cfg_symbolPacked cfg)"
  have ad: "adds ?ms \<le> n"
    using inv adds_simps(3) [of ?ms] by (simp add: gen_inv_def)
  then have id0: "gs_nextId st \<noteq> 0"
    using inv n by (simp add: gen_inv_def word_unat_eq_iff unat_of_nat take_bit_eq_mod del: of_nat_Suc)
  have "good_next cfg ?ms ?m"
    using inv id0 qr price
    by (cases "draw_type rnd cfg roll")
       (auto simp: good_next_def gen_inv_def is_add_def makeAdd_def isValidFeedMessage_def isValidMsgType_def
         isValidSide_def isValidOrderType_def)
  moreover have fresh: "\<not> limit_added (gs_nextId st) ?ms"
  proof
    assume "limit_added (gs_nextId st) ?ms"
    then obtain k where "k < adds ?ms" "gs_nextId st = of_nat (Suc k)"
      using generated_added inv unfolding gen_inv_def by blast
    then show False
      using inv n ad of_nat_Suc_inj [of "adds ?ms" k] by (simp add: gen_inv_def del: of_nat_Suc)
  qed
  moreover have "cancels_of (gs_nextId st) ?ms = []"
    using fresh generated_cancels inv unfolding gen_inv_def by blast
  moreover have "gs_nextId st \<notin> set (gs_live st)"
    using fresh inv unfolding gen_inv_def by blast
  ultimately show ?thesis
    using inv pr u d q r
    by (auto simp: draw_add_def sint_config [OF cfg] in_i32_def gen_inv_def price_def Let_def is_add_def makeAdd_def)
qed

lemma gen_step_good:
  assumes inv: "gen_inv cfg n n st" and cfg: "sane_config cfg" and rng: "draws_in_range rng"
    and n: "Suc n < 18446744073709551616"
  shows "\<exists>st'. gen_step rnd rng cfg st = Some st' \<and> gen_inv cfg (Suc n) (Suc n) st'"
proof -
  have "gen_inv cfg n (Suc n) (st\<lparr>gs_seq := gs_seq st + 1\<rparr>)"
    and "gen_inv cfg n (Suc n) (st\<lparr>gs_seq := gs_seq st + 1, gs_rng := g\<rparr>)" for g
    using inv by (simp_all add: gen_inv_def)
  then show ?thesis
    using draw_add_good [OF _ cfg rng n, of _ rnd] draw_cancel_good [OF _ _ rng n, of cfg]
    by (auto simp: gen_step_def Let_def split: prod.splits)
qed

lemma gen_loop_good:
  assumes "gen_inv cfg n n st" and "sane_config cfg" and "draws_in_range rng" and "n + k < 18446744073709551616"
  shows "\<exists>st'. gen_loop rnd rng cfg k st = Some st' \<and> gen_inv cfg (n + k) (n + k) st'"
  using assms
proof (induction k arbitrary: n st)
  case (Suc k)
  then obtain st1 where "gen_step rnd rng cfg st = Some st1" "gen_inv cfg (Suc n) (Suc n) st1"
    using gen_step_good [of cfg n st rng rnd] by auto
  then show ?case
    using Suc.IH [of "Suc n" st1] Suc.prems by simp
qed simp

lemma generate_good:
  assumes "sane_config (gen_cfg gen)" and "draws_in_range rng"
  obtains ms gen' where "generate rnd rng gen = Some (ms, gen')" and "gen_cfg gen' = gen_cfg gen"
    and "generated (gen_cfg gen) ms" and "length ms = unat (cfg_numMessages (gen_cfg gen))"
proof -
  let ?cfg = "gen_cfg gen"
  let ?st = "\<lparr>gs_msgs = [], gs_nextId = 1, gs_seq = 0, gs_live = [], gs_rng = gen_rng gen\<rparr>"
  have "gen_inv ?cfg 0 0 ?st"
    by (simp add: gen_inv_def)
  from gen_loop_good [OF this assms, of "unat (cfg_numMessages ?cfg)" rnd]
  obtain st' where "gen_loop rnd rng ?cfg (unat (cfg_numMessages ?cfg)) ?st = Some st'"
      "gen_inv ?cfg (unat (cfg_numMessages ?cfg)) (unat (cfg_numMessages ?cfg)) st'"
    using unat_u64_less [of "cfg_numMessages ?cfg"] by auto
  moreover have "1 \<le> cfg_maxQty ?cfg" "unat (cfg_priceBand ?cfg) \<le> 2147483647"
    using assms(1) by (simp_all add: sane_config_def)
  moreover from this have "in_i32 (- sint (cfg_priceBand ?cfg))" "0 \<le> sint (cfg_priceBand ?cfg)"
    unfolding in_i32_def sint_config(2) [OF assms(1)] by linarith+
  ultimately show ?thesis
    by (intro that [of "gs_msgs st'" "gen\<lparr>gen_rng := gs_rng st'\<rparr>"]) (simp_all add: generate_def gen_inv_def Let_def)
qed

end
