(* ===== verification/Tools.thy ===== *)
theory Tools
  imports Reference_Equivalence Replay_Properties Trade_Store Feed_Generator
begin

text \<open>
  The programs that compose the library: \<open>tools/feed_generator.cpp\<close>, \<open>tools/trade_query.cpp\<close> and
  \<open>bench/replay_demo.cpp\<close>, up to the formatting of what they print.  A program is a function of its
  argument vector, the files and the runtime's parameters, to an exit code and the values printed.
\<close>

section \<open>Numbers on the command line\<close>

text \<open>
  \<open>std::strtoull\<close> in base 10: leading white space, an optional sign, digits.  No digits give 0, a value out
  of range gives \<open>ULLONG_MAX\<close>, and a minus sign negates modulo \<open>2\<^sup>6\<^sup>4\<close>.
\<close>

definition is_space :: "char \<Rightarrow> bool" where
  "is_space c \<longleftrightarrow> c = CHR 0x20 \<or> 9 \<le> (of_char c :: nat) \<and> (of_char c :: nat) \<le> 13"

definition is_digit :: "char \<Rightarrow> bool" where
  "is_digit c \<longleftrightarrow> 48 \<le> (of_char c :: nat) \<and> (of_char c :: nat) \<le> 57"

definition digits_value :: "string \<Rightarrow> nat" where
  "digits_value ds = fold (\<lambda>c v. 10 * v + (of_char c - 48)) ds 0"

definition strtoull :: "string \<Rightarrow> u64" where
  "strtoull s =
     (let t = dropWhile is_space s;
          neg = (t \<noteq> [] \<and> hd t = CHR ''-'');
          u = (if t \<noteq> [] \<and> (hd t = CHR ''-'' \<or> hd t = CHR ''+'') then tl t else t);
          v = digits_value (takeWhile is_digit u)
      in if v > 18446744073709551615 then 18446744073709551615
         else if neg then - of_nat v else of_nat v)"

section \<open>The feed generator\<close>

definition default_FeedConfig :: "(real \<Rightarrow> real) \<Rightarrow> FeedConfig" where
  "default_FeedConfig rnd =
     \<lparr>cfg_numMessages = 1000000, cfg_seed = 0xC0FFEE, cfg_midPrice = 10000, cfg_priceBand = 50,
      cfg_maxQty = 500, cfg_cancelProb = rnd (20 / 100), cfg_marketProb = rnd (5 / 100),
      cfg_iocProb = rnd (5 / 100), cfg_symbolPacked = 0\<rparr>"

definition feed_generator_config :: "(real \<Rightarrow> real) \<Rightarrow> string list \<Rightarrow> FeedConfig" where
  "feed_generator_config rnd argv =
     (let cfg = default_FeedConfig rnd;
          cfg1 = (if length argv \<ge> 3 then cfg\<lparr>cfg_numMessages := strtoull (argv ! 2)\<rparr> else cfg)
      in if length argv \<ge> 4 then cfg1\<lparr>cfg_seed := strtoull (argv ! 3)\<rparr> else cfg1)"

definition feed_generator_main ::
  "(real \<Rightarrow> real) \<Rightarrow> 'g rng \<Rightarrow> out_stream \<Rightarrow> string list \<Rightarrow> files \<Rightarrow> (int \<times> files) option" where
  "feed_generator_main rnd rng os argv fs =
     (if length argv < 2 then Some (1, fs)
      else do {
        (msgs, _) \<leftarrow> generate rnd rng (FeedGenerator_new rng (feed_generator_config rnd argv));
        let (ok, fs1) = writeFile os (argv ! 1) msgs fs;
        Some (if \<not> ok then 1 else 0, fs1)
      })"

section \<open>The trade query\<close>

record query_output =
  qo_count :: u64
  qo_vwap :: real
  qo_plan :: string

definition trade_query_main ::
  "(nat \<Rightarrow> bool) \<Rightarrow> bool \<Rightarrow> (real \<Rightarrow> real) \<Rightarrow> (real \<Rightarrow> real) \<Rightarrow> string list \<Rightarrow> files \<Rightarrow> (int \<times> query_output option) result" where
  "trade_query_main can_alloc rd rl rdbl argv fs =
     (if length argv < 2 then Inr (2, None)
      else let beginTs = (if length argv > 2 then strtoull (argv ! 2) else 0);
               endTs = (if length argv > 3 then strtoull (argv ! 3) else 18446744073709551615)
           in result_bind (TradeStore_new can_alloc rd (argv ! 1) fs) (\<lambda>store.
                Inr (0, Some \<lparr>qo_count = tradeCount store, qo_vwap = store_vwap rl rdbl beginTs endTs store,
                              qo_plan = explainPlan\<rparr>)))"

section \<open>The replay demonstration\<close>

definition replay_demo_config :: "(real \<Rightarrow> real) \<Rightarrow> string list \<Rightarrow> FeedConfig" where
  "replay_demo_config rnd argv =
     (default_FeedConfig rnd)\<lparr>cfg_numMessages := (if length argv \<ge> 2 then strtoull (argv ! 1) else 1000000),
        cfg_seed := (if length argv \<ge> 3 then strtoull (argv ! 2) else 0xC0FFEE)\<rparr>"

text \<open>A fresh pool, engine and replayer run the feed; \<open>elapsed\<close> is what the clock shows for the run.\<close>

definition demo_run ::
  "(real \<Rightarrow> real) \<Rightarrow> real \<Rightarrow> os_mem \<Rightarrow> size_t \<Rightarrow> FeedMessage list \<Rightarrow> ReplayMode \<Rightarrow> size_t \<Rightarrow> (ReplayStats \<times> ReplayEngine) result" where
  "demo_run rnd elapsed os n feed mode warmup =
     result_bind (SlabPool_new sizeof_Order os (n + 16) False) (\<lambda>pool.
       case ReplayEngine_run rnd elapsed feed mode (unat warmup) (ReplayEngine_new MatchingEngine_new pool) of
         None \<Rightarrow> Inl UndefinedBehaviour
       | Some out \<Rightarrow> Inr out)"

definition replay_demo_main ::
  "(real \<Rightarrow> real) \<Rightarrow> 'g rng \<Rightarrow> real \<times> real \<Rightarrow> os_mem \<times> os_mem \<Rightarrow> string list \<Rightarrow>
   ((ReplayStats \<times> ReplayEngine) \<times> (ReplayStats \<times> ReplayEngine)) result" where
  "replay_demo_main rnd rng elapsed os argv =
     (let cfg = replay_demo_config rnd argv; n = cfg_numMessages cfg
      in case generate rnd rng (FeedGenerator_new rng cfg) of
           None \<Rightarrow> Inl UndefinedBehaviour
         | Some (feed, _) \<Rightarrow>
             result_bind (demo_run rnd (fst elapsed) (fst os) n feed NORMAL_MODE 0) (\<lambda>normal.
               result_bind (demo_run rnd (snd elapsed) (snd os) n feed MAX_MODE (n div 20)) (\<lambda>fast.
                 Inr (normal, fast))))"

section \<open>Generated feeds\<close>

lemma default_config_sane:
  "sane_config (feed_generator_config rnd argv)" "sane_config (replay_demo_config rnd argv)"
  by (simp_all add: feed_generator_config_def replay_demo_config_def default_FeedConfig_def sane_config_def Let_def)

lemma generated_kinds: "generated cfg ms \<Longrightarrow> \<forall>m\<in>set ms. msg_msgType m \<noteq> MSG_MODIFY"
  by (induction ms rule: rev_induct) (auto simp: good_next_def is_add_def split: if_splits)

lemma generated_valid_adds: "generated cfg ms \<Longrightarrow> valid_adds ms = filter is_add ms"
  using generated_valid by (auto simp: valid_adds_def is_add_def intro!: filter_cong)

text \<open>A pool with room for every order of a feed without MODIFYs drops none.\<close>

lemma book_size_process:
  assumes "spec_process ts x B = (fs, B')"
  shows "book_size B' \<le> Suc (book_size B)"
proof (cases "spec_contains (ord_orderId x) B")
  case True
  then show ?thesis
    using assms by (simp add: spec_process_def)
next
  case False
  obtain x1 gs q where m: "spec_match ts (ord_type x \<noteq> MARKET) x (B (opposite (ord_side x))) = (x1, gs, q)"
    by (cases "spec_match ts (ord_type x \<noteq> MARKET) x (B (opposite (ord_side x)))") auto
  obtain k where "list_all2 same_terms q (drop k (B (opposite (ord_side x))))"
    using spec_match_suffix [OF m] by blast
  then have "length q \<le> length (B (opposite (ord_side x)))"
    using list_all2_lengthD by fastforce
  moreover have "length (spec_enqueue s y p) = Suc (length p)" for s y p
    by (simp add: spec_enqueue_def) (metis length_append takeWhile_dropWhile_id)
  ultimately show ?thesis
    using assms spec_process_split [OF False m] by (cases "ord_side x") (auto simp: book_size_def)
qed

lemma no_drops:
  "\<forall>m\<in>set ms. msg_msgType m \<noteq> MSG_MODIFY \<Longrightarrow> book_size B + length (valid_adds ms) \<le> cap \<Longrightarrow>
   Dropped \<notin> set (spec_verdicts cap ms B)"
proof (induction ms arbitrary: B)
  case (Cons m ms)
  have "book_size (snd (spec_apply cap m B)) + length (valid_adds ms) \<le> cap"
    using Cons.prems book_size_process [of "msg_sequence m" "order_of m" B] book_size_cancel [of "msg_orderId m" B] valid_cases [of m]
    by (fastforce simp: spec_apply_def valid_adds_def prod_eq_iff split: if_splits)
  then show ?case
    using Cons by (auto simp: spec_verdict_def valid_adds_def split: if_splits)
qed simp


lemma generate_new:
  assumes "sane_config cfg" and "draws_in_range rng"
  obtains ms gen where "generate rnd rng (FeedGenerator_new rng cfg) = Some (ms, gen)" "generated cfg ms"
    "length ms = unat (cfg_numMessages cfg)"
proof -
  have "gen_cfg (FeedGenerator_new rng cfg) = cfg"
    by (simp add: FeedGenerator_new_def)
  then show ?thesis
    using generate_good [of "FeedGenerator_new rng cfg" rng rnd] assms that by metis
qed

text \<open>
  With a stream that stores what it is given and distributions that stay within their bounds,
  the feed generator writes a file that reads back as a feed of the requested length, and touches no other
  file.  In that feed the sequence numbers count up from 1 and every message is valid; ADDs carry ids
  counting up from 1, the configured symbol, a quantity and a price within the configured bounds; every
  CANCEL names a limit order added earlier and not cancelled before.
\<close>

lemma feed_generator_writes_feed:
  assumes "draws_in_range rng" and "2 \<le> length argv"
    and "os_opens os" and "\<And>bs. os_good os bs" and "\<And>bs. os_stored os bs = bs"
  shows "\<exists>fs' feed. feed_generator_main rnd rng os argv fs = Some (0, fs') \<and>
    readFile True (argv ! 1) fs' = Some feed \<and> (\<forall>path. path \<noteq> argv ! 1 \<longrightarrow> fs' path = fs path) \<and>
    length feed = (if length argv = 2 then 1000000 else unat (strtoull (argv ! 2))) \<and>
    generated (feed_generator_config rnd argv) feed"
proof -
  let ?cfg = "feed_generator_config rnd argv"
  obtain ms gen' where g: "generate rnd rng (FeedGenerator_new rng ?cfg) = Some (ms, gen')"
      "generated ?cfg ms" "length ms = unat (cfg_numMessages ?cfg)"
    using generate_new [OF default_config_sane(1) assms(1)] by blast
  moreover have "unat (cfg_numMessages ?cfg) = (if length argv = 2 then 1000000 else unat (strtoull (argv ! 2)))"
    using assms(2) by (auto simp: feed_generator_config_def default_FeedConfig_def Let_def)
  ultimately show ?thesis
    using assms(2-5) by (auto simp: feed_generator_main_def writeFile_def Let_def intro!: readFile_encodeAll)
qed

definition sample_rng :: "nat rng" where
  "sample_rng = \<lparr>rng_seed = unat, rng_unit = (\<lambda>g. (if even g then 1 / 10 else 9 / 10, g + 1)),
     rng_u32 = (\<lambda>a b g. (a, g)), rng_i32 = (\<lambda>a b g. (b, g)), rng_index = (\<lambda>a b g. (a, g))\<rparr>"

lemma sample_rng_ok: "draws_in_range sample_rng"
  by (simp add: draws_in_range_def sample_rng_def)

section \<open>Two replays of one feed\<close>

lemma tally_all: "set vs \<subseteq> A \<Longrightarrow> tally A vs = of_nat (length vs)"
  and tally_none: "set vs \<inter> A = {} \<Longrightarrow> tally A vs = 0"
  by (induction vs) auto

lemma tally_cong: "(\<And>v. v \<in> set vs \<Longrightarrow> v \<in> A \<longleftrightarrow> v \<in> B) \<Longrightarrow> tally A vs = tally B vs"
  by (simp add: tally_def cong: filter_cong)

lemma no_invalid: "\<forall>m\<in>set ms. isValidFeedMessage m \<Longrightarrow> Invalid \<notin> set (spec_verdicts cap ms B)"
  by (induction ms arbitrary: B) (auto simp: spec_verdict_def)

lemma length_spec_verdicts [simp]: "length (spec_verdicts cap ms B) = length ms"
  by (induction ms arbitrary: B) auto

lemma run_elapsed: "ReplayEngine_run rnd t feed mode w r = Some (st, r') \<Longrightarrow> rst_elapsedSeconds st = t"
  by (auto simp: ReplayEngine_run_def split: ReplayMode.splits bind_splits)

text \<open>What either run of the demonstration reports, in terms of the reference matcher.\<close>

definition demo_report :: "ReferenceMatcher \<Rightarrow> FeedMessage list \<Rightarrow> real \<Rightarrow> ReplayStats" where
  "demo_report R feed t =
     (let vs = spec_verdicts (length feed + 16) feed (\<lambda>_. []); fills = fst (rm_run feed R)
      in \<lparr>rst_messages = of_nat (length feed), rst_adds = tally {Added} vs,
          rst_cancels = tally {Cancelled, CancelMissed} vs, rst_modifies = tally {Modified, ModifyMissed} vs,
          rst_cancelMisses = tally {CancelMissed, ModifyMissed} vs, rst_invalidMessages = 0, rst_droppedAdds = 0,
          rst_fills = of_nat (length fills), rst_matchedVolume = of_nat (traded_qty fills),
          rst_elapsedSeconds = t\<rparr>)"

lemma demo_pool:
  assumes "unat n + 16 \<le> 4294967295" and "storage_granted os False"
  obtains p :: OrderPool where "SlabPool_new sizeof_Order os (n + 16) False = Inr p" "pool_inv p" "live (mem p) = {}"
    "unat (m_capacity p) = unat n + 16"
proof -
  have "unat (n + 16) = unat n + 16"
    using assms(1) by (simp add: unat_word_ariths)
  moreover obtain p :: OrderPool and fl where "SlabPool_new sizeof_Order os (n + 16) False = Inr p" "pool_rep p fl"
      "live (mem p) = {}" "m_capacity p = n + 16"
    using SlabPool_new_rep [OF assms(2), of sizeof_Order "n + 16"] assms(1) calculation by (auto simp: sizeof_Order_def)
  ultimately show ?thesis
    using that by (auto simp: pool_inv_def)
qed

lemma demo_run_good:
  assumes gen: "generated cfg feed" and len: "length feed = unat n" and room: "unat n + 16 \<le> 4294967295"
    and os: "storage_granted os False"
  shows "\<exists>r. demo_run rnd t os n feed mode w = Inr (demo_report R feed t, r) \<and>
    replay_book r = (\<lambda>s. ref_queue s (rm_book (snd (rm_run feed R))))"
proof -
  obtain p :: OrderPool where p: "SlabPool_new sizeof_Order os (n + 16) False = Inr p" "pool_inv p" "live (mem p) = {}"
      "unat (m_capacity p) = unat n + 16"
    using demo_pool [OF room os] .
  let ?r = "ReplayEngine_new MatchingEngine_new p" and ?vs = "spec_verdicts (unat n + 16) feed (\<lambda>_. [])"
  have cap: "unat (m_capacity p) \<le> 4294967295"
    using p(4) room by simp
  obtain st r fs where run: "ReplayEngine_run rnd t feed mode (unat w) ?r = Some (st, r)"
      "run_post feed fs ?r empty_ReplayStats r st" "replay_cap ?r = unat n + 16"
    using replay_new_run [OF p(2) cap p(3)] p(4) by metis
  have valid: "\<forall>m\<in>set feed. isValidFeedMessage m"
    by (rule generated_valid [OF gen])
  have va: "valid_adds feed = filter is_add feed"
    by (rule generated_valid_adds [OF gen])
  have vl: "length (valid_adds feed) \<le> unat n"
    using len length_filter_le [of is_add feed] unfolding va by simp
  have "sorted (map msg_sequence (filter isValidFeedMessage feed))" "distinct (map msg_orderId (valid_adds feed))"
    using generated_usable [OF gen] valid len room va by (simp_all cong: filter_cong)
  then have ref: "spec_replay (unat n + 16) feed (\<lambda>_. []) = (fst (rm_run feed R), \<lambda>s. ref_queue s (rm_book (snd (rm_run feed R))))"
    using vl by (intro rm_run_spec) simp_all
  have "Dropped \<notin> set ?vs"
    using vl by (intro no_drops [OF generated_kinds [OF gen]]) (simp add: book_size_def)
  moreover have "Invalid \<notin> set ?vs"
    by (rule no_invalid [OF valid])
  ultimately have t: "tally {Added, Dropped} ?vs = tally {Added} ?vs" "tally {Dropped} ?vs = 0" "tally {Invalid} ?vs = 0"
      "tally (- {Invalid}) ?vs = of_nat (length feed)"
    using tally_cong [of ?vs "{Added, Dropped}" "{Added}"] tally_none [of ?vs "{Dropped}"] tally_none [of ?vs "{Invalid}"]
      tally_all [of ?vs "- {Invalid}"] by auto
  have "st = demo_report R feed t"
    using run run_elapsed [OF run(1)] ref t replay_ok_new(2) [OF p(2) cap p(3)] len
    by (cases st) (simp add: demo_report_def run_post_def counted_def empty_ReplayStats_def volume_def Let_def)
  moreover have "replay_book r = (\<lambda>s. ref_queue s (rm_book (snd (rm_run feed R))))"
    using run(2,3) ref replay_ok_new(2) [OF p(2) cap p(3)] by (simp add: run_post_def)
  ultimately show ?thesis
    using p(1) run(1) by (simp add: demo_run_def)
qed

text \<open>
  (C15) The demonstration end to end: when storage is granted and the feed fits a pool, generating a
  feed and replaying it in normal and in throughput mode completes, and the two runs report the same
  counters up to the elapsed time.  Every message counts as valid and no order is dropped.  Fills and
  volume are those of the reference matcher on the feed, and both books end as its book.
\<close>

theorem replay_demo_agrees:
  assumes "draws_in_range rng" and "storage_granted (fst os) False" and "storage_granted (snd os) False"
    and "unat (cfg_numMessages (replay_demo_config rnd argv)) + 16 \<le> 4294967295"
  shows "\<exists>feed normal fast. replay_demo_main rnd rng elapsed os argv =
      Inr ((demo_report R feed (fst elapsed), normal), (demo_report R feed (snd elapsed), fast)) \<and>
    generated (replay_demo_config rnd argv) feed \<and>
    length feed = unat (cfg_numMessages (replay_demo_config rnd argv)) \<and>
    replay_book normal = (\<lambda>s. ref_queue s (rm_book (snd (rm_run feed R)))) \<and> replay_book fast = replay_book normal"
proof -
  let ?cfg = "replay_demo_config rnd argv"
  obtain feed gen where g: "generate rnd rng (FeedGenerator_new rng ?cfg) = Some (feed, gen)" "generated ?cfg feed"
      "length feed = unat (cfg_numMessages ?cfg)"
    using generate_new [OF default_config_sane(2) assms(1)] by blast
  note run = demo_run_good [OF g(2,3) assms(4)]
  show ?thesis
    using g run [OF assms(2), of rnd "fst elapsed" NORMAL_MODE 0 R]
      run [OF assms(3), of rnd "snd elapsed" MAX_MODE "cfg_numMessages ?cfg div 20" R]
    by (auto simp: replay_demo_main_def Let_def)
qed

theorem replay_demo_agrees_witness:
  "\<exists>feed normal fast.
     replay_demo_main (\<lambda>v. v) sample_rng (2, 1) (sample_os, sample_os) [''replay_demo'', ''4''] =
       Inr ((demo_report \<lparr>rm_book = [], rm_fills = []\<rparr> feed 2, normal),
            (demo_report \<lparr>rm_book = [], rm_fills = []\<rparr> feed 1, fast)) \<and> length feed = 4"
proof -
  have "unat (strtoull ''4'') = 4"
    by (simp add: strtoull_def digits_value_def is_space_def is_digit_def Let_def)
  then have "unat (cfg_numMessages (replay_demo_config (\<lambda>v. v) [''replay_demo'', ''4''])) = 4"
    by (simp add: replay_demo_config_def)
  then show ?thesis
    using replay_demo_agrees [OF sample_rng_ok, of "(sample_os, sample_os)" "\<lambda>v. v" "[''replay_demo'', ''4'']" "(2, 1)"
        "\<lparr>rm_book = [], rm_fills = []\<rparr>"]
    by (auto simp: storage_granted_def sample_os_def)
qed

end
