(* ===== verification/Latency_Histogram.thy ===== *)
theory Latency_Histogram
  imports CB_Prelude Complex_Main "HOL-Library.Multiset"
begin

text \<open>
  \<open>include/replay/LatencyHistogram.h\<close>: the recorded latencies and their percentiles.  Floating-point
  arithmetic takes place in the reals with a rounding function \<open>rnd\<close> after every operation, as for the
  other statistics.  A read outside the vector is \<open>None\<close>.
\<close>

record LatencySummary =
  ls_p50 :: u64
  ls_p99 :: u64
  ls_p999 :: u64
  ls_max :: u64

definition empty_LatencySummary :: LatencySummary where
  "empty_LatencySummary = \<lparr>ls_p50 = 0, ls_p99 = 0, ls_p999 = 0, ls_max = 0\<rparr>"

record LatencyHistogram =
  lh_values :: "u64 list"

definition record_latency :: "u64 \<Rightarrow> LatencyHistogram \<Rightarrow> LatencyHistogram" where
  "record_latency nanoseconds h = h\<lparr>lh_values := lh_values h @ [nanoseconds]\<rparr>"

definition latency_count :: "LatencyHistogram \<Rightarrow> size_t" where
  "latency_count h = of_nat (length (lh_values h))"

definition percentile_index :: "(real \<Rightarrow> real) \<Rightarrow> real \<Rightarrow> nat \<Rightarrow> nat" where
  "percentile_index rnd p n = nat \<lfloor>rnd (p * rnd (real (n - 1)))\<rfloor>"

definition percentile :: "(real \<Rightarrow> real) \<Rightarrow> real \<Rightarrow> LatencyHistogram \<Rightarrow> u64 option" where
  "percentile rnd p h =
     (let idx = percentile_index rnd p (length (lh_values h))
      in if idx < length (lh_values h) then Some (lh_values h ! idx) else None)"

text \<open>The percentiles are read off the vector after \<open>std::sort\<close> has put it in order.\<close>

definition summarize :: "(real \<Rightarrow> real) \<Rightarrow> LatencyHistogram \<Rightarrow> (LatencySummary \<times> LatencyHistogram) option" where
  "summarize rnd h =
     (if lh_values h = [] then Some (empty_LatencySummary, h)
      else do {
        let h1 = h\<lparr>lh_values := sort (lh_values h)\<rparr>;
        a \<leftarrow> percentile rnd (rnd (1 / 2)) h1;
        b \<leftarrow> percentile rnd (rnd (99 / 100)) h1;
        c \<leftarrow> percentile rnd (rnd (999 / 1000)) h1;
        Some (\<lparr>ls_p50 = a, ls_p99 = b, ls_p999 = c, ls_max = last (lh_values h1)\<rparr>, h1)
      })"

section \<open>Ranks\<close>

text \<open>
  Rounding to nearest is monotone and keeps the integers up to \<open>2\<^sup>5\<^sup>3\<close>.
\<close>

definition double_rounding :: "(real \<Rightarrow> real) \<Rightarrow> bool" where
  "double_rounding rnd \<longleftrightarrow> mono rnd \<and> (\<forall>n\<le>9007199254740992. rnd (real n) = real n)"

text \<open>
  \<open>v\<close> has rank \<open>k\<close> among the samples: more than \<open>k\<close> of them are at most \<open>v\<close> and at most \<open>k\<close> are below it.
\<close>

definition has_rank :: "nat \<Rightarrow> u64 list \<Rightarrow> u64 \<Rightarrow> bool" where
  "has_rank k xs v \<longleftrightarrow> v \<in> set xs \<and> k < length (filter (\<lambda>x. x \<le> v) xs) \<and> length (filter (\<lambda>x. x < v) xs) \<le> k"

lemma sorted_rank:
  assumes "k < length xs"
  shows "has_rank k xs (sort xs ! k)"
proof -
  let ?ys = "sort xs" and ?v = "sort xs ! k"
  have len: "k < length ?ys"
    using assms by simp
  have count: "length (filter P xs) = length (filter P ?ys)" for P
    by (metis mset_filter mset_sort size_mset)
  have parts: "length (filter P ?ys) = length (filter P (take j ?ys)) + length (filter P (drop j ?ys))" for P j
    by (metis append_take_drop_id filter_append length_append)
  have "filter (\<lambda>x. x \<le> ?v) (take (Suc k) ?ys) = take (Suc k) ?ys"
    using len by (intro filter_True) (auto simp: set_conv_nth intro!: sorted_nth_mono)
  then have "Suc k \<le> length (filter (\<lambda>x. x \<le> ?v) ?ys)"
    using len parts [of "\<lambda>x. x \<le> ?v" "Suc k"] by simp
  moreover have "filter (\<lambda>x. x < ?v) (drop k ?ys) = []"
    using len by (auto simp: filter_empty_conv set_conv_nth not_less intro!: sorted_nth_mono)
  then have "length (filter (\<lambda>x. x < ?v) ?ys) \<le> k"
    using len parts [of "\<lambda>x. x < ?v" k] length_filter_le [of "\<lambda>x. x < ?v" "take k ?ys"] by simp
  moreover have "?v \<in> set xs"
    using nth_mem [OF len] by simp
  ultimately show ?thesis
    by (simp add: has_rank_def count)
qed

lemma sorted_last_Max:
  assumes "sorted xs" and "xs \<noteq> []"
  shows "last xs = Max (set xs)"
proof -
  have "x \<le> last xs" if "x \<in> set xs" for x
    using that assms by (auto simp: in_set_conv_nth last_conv_nth intro!: sorted_nth_mono)
  then show ?thesis
    using assms(2) by (intro Max_eqI [symmetric]) simp_all
qed

lemma percentile_index_Suc:
  assumes "double_rounding rnd" and "Suc k \<le> 9007199254740992"
  shows "percentile_index rnd p (Suc k) = nat \<lfloor>rnd (p * real k)\<rfloor>"
  using assms by (simp add: percentile_index_def double_rounding_def)

lemma percentile_index_bounds:
  assumes rnd: "double_rounding rnd" and n: "Suc k \<le> 9007199254740992" and p: "p \<le> 1"
  shows "percentile_index rnd p (Suc k) \<le> k"
proof -
  have "p * real k \<le> real k"
    using mult_right_mono [OF p, of "real k"] by simp
  moreover have "rnd (real k) = real k"
    using rnd n by (simp add: double_rounding_def)
  ultimately have "rnd (p * real k) \<le> real k"
    using rnd unfolding double_rounding_def mono_def by metis
  then have "\<lfloor>rnd (p * real k)\<rfloor> \<le> int k"
    by (simp add: floor_le_iff)
  then show ?thesis
    unfolding percentile_index_Suc [OF rnd n] by linarith
qed

lemma percentile_index_mono:
  assumes "double_rounding rnd" and "Suc k \<le> 9007199254740992" and "p \<le> q"
  shows "percentile_index rnd p (Suc k) \<le> percentile_index rnd q (Suc k)"
proof -
  have "p * real k \<le> q * real k"
    using assms(3) by (simp add: mult_right_mono)
  then have "rnd (p * real k) \<le> rnd (q * real k)"
    using assms(1) by (simp add: double_rounding_def mono_def)
  then show ?thesis
    unfolding percentile_index_Suc [OF assms(1,2)] by (simp add: floor_mono nat_mono)
qed

text \<open>
  With double-precision rounding and up to \<open>2\<^sup>5\<^sup>3\<close> samples, \<open>summarize\<close> reads no element outside
  the vector.  Each percentile is a recorded sample of the rank it names, they are ordered, and the
  maximum is the greatest sample; the samples are only reordered.  With no samples every field is zero.
\<close>

lemma latency_summary:
  assumes "double_rounding rnd" and "length (lh_values h) \<le> 9007199254740992"
  shows "\<exists>s h'. summarize rnd h = Some (s, h') \<and> mset (lh_values h') = mset (lh_values h) \<and>
    (if lh_values h = [] then s = empty_LatencySummary
     else let n = length (lh_values h); ranked = (\<lambda>p. has_rank (percentile_index rnd (rnd p) n) (lh_values h))
          in sorted (lh_values h') \<and> ranked (1 / 2) (ls_p50 s) \<and> ranked (99 / 100) (ls_p99 s) \<and>
             ranked (999 / 1000) (ls_p999 s) \<and> ls_p50 s \<le> ls_p99 s \<and> ls_p99 s \<le> ls_p999 s \<and>
             ls_p999 s \<le> ls_max s \<and> ls_max s = Max (set (lh_values h)))"
proof (cases "lh_values h = []")
  case False
  let ?xs = "lh_values h" and ?n = "length (lh_values h)"
  have m: "mono rnd" "rnd 1 = 1"
    using assms(1) unfolding double_rounding_def by (blast, metis of_nat_1 one_le_numeral)
  obtain k where k: "?n = Suc k"
    using False by (cases ?n) simp_all
  let ?i = "\<lambda>p. percentile_index rnd (rnd p) (Suc k)"
  have idx: "?i p < ?n" if "p \<le> 1" for p
    using percentile_index_bounds [OF assms(1) _ , of k "rnd p"] assms(2) k monoD [OF m(1) that] m(2) by simp
  have "?i p \<le> ?i q" if "p \<le> q" for p q
    using percentile_index_mono [OF assms(1) _ monoD [OF m(1) that], of k] assms(2) k by simp
  then have ord: "sort ?xs ! ?i p \<le> sort ?xs ! ?i q" if "p \<le> q" "q \<le> 1" for p q
    using that idx by (intro sorted_nth_mono) simp_all
  have max: "last (sort ?xs) = Max (set ?xs)"
    using False sorted_last_Max [of "sort ?xs"] by (metis set_empty set_sort sorted_sort)
  have run: "summarize rnd h = Some (\<lparr>ls_p50 = sort ?xs ! ?i (1 / 2), ls_p99 = sort ?xs ! ?i (99 / 100),
      ls_p999 = sort ?xs ! ?i (999 / 1000), ls_max = last (sort ?xs)\<rparr>, h\<lparr>lh_values := sort ?xs\<rparr>)"
    using False idx by (simp add: summarize_def percentile_def Let_def k)
  have "sort ?xs ! ?i (999 / 1000) \<le> last (sort ?xs)"
    unfolding max using idx [of "999 / 1000"] nth_mem [of "?i (999 / 1000)" "sort ?xs"] by simp
  then show ?thesis
    using False run ord [of "1 / 2" "99 / 100"] ord [of "99 / 100" "999 / 1000"] max sorted_rank [OF idx]
    by (simp add: Let_def k)
qed (simp add: summarize_def)

end
