(* ===== verification/Wait_Queue.thy ===== *)
theory Wait_Queue
  imports CB_Prelude
begin

text \<open>
  Threads that block until a resource is available.  A system is a list of program points; \<open>asleep\<close> tells
  which threads are blocked, and \<open>promise\<close> how many units of the resource a thread is bound to offer to a
  sleeper or to try to take itself.  As long as the units in stock do not exceed what is promised, no unit lies
  idle while a thread sleeps.  The semaphores and the blocking queue are instances.
\<close>

section \<open>Promises\<close>

definition promised :: "('p \<Rightarrow> nat) \<Rightarrow> 'p list \<Rightarrow> nat" where
  "promised promise ps = (\<Sum>p\<leftarrow>ps. promise p)"

definition sleeping :: "('p \<Rightarrow> bool) \<Rightarrow> 'p list \<Rightarrow> bool" where
  "sleeping asleep ps \<longleftrightarrow> (\<exists>p\<in>set ps. asleep p)"

definition no_lost_wakeup :: "('p \<Rightarrow> bool) \<Rightarrow> ('p \<Rightarrow> nat) \<Rightarrow> 'p list \<Rightarrow> int \<Rightarrow> bool" where
  "no_lost_wakeup asleep promise ps stock \<longleftrightarrow> (sleeping asleep ps \<longrightarrow> stock \<le> int (promised promise ps))"

text \<open>Waking up to \<open>n\<close> sleepers, whichever they are.\<close>

inductive wakes :: "('p \<Rightarrow> bool) \<Rightarrow> ('p \<Rightarrow> 'p) \<Rightarrow> nat \<Rightarrow> 'p list \<Rightarrow> 'p list \<Rightarrow> bool" for asleep wake where
  wakes_enough: "wakes asleep wake 0 ps ps"
| wakes_nobody: "\<not> sleeping asleep ps \<Longrightarrow> wakes asleep wake n ps ps"
| wakes_one: "i < length ps \<Longrightarrow> asleep (ps ! i) \<Longrightarrow> wakes asleep wake n (ps[i := wake (ps ! i)]) ps' \<Longrightarrow>
    wakes asleep wake (Suc n) ps ps'"

definition wake_all :: "('p \<Rightarrow> bool) \<Rightarrow> ('p \<Rightarrow> 'p) \<Rightarrow> 'p list \<Rightarrow> 'p list" where
  "wake_all asleep wake ps = map (\<lambda>p. if asleep p then wake p else p) ps"

lemma promise_le: "i < length ps \<Longrightarrow> promise (ps ! i) \<le> promised promise ps"
  unfolding promised_def by (intro member_le_sum_list) simp_all

lemma promised_update:
  "i < length ps \<Longrightarrow> promised promise (ps[i := q]) + promise (ps ! i) = promised promise ps + promise q"
  using promise_le [of i ps promise] by (simp add: promised_def map_update sum_list_update)

lemma sleeping_update:
  assumes "i < length ps" and "sleeping asleep (ps[i := q])"
  shows "sleeping asleep ps \<or> asleep q"
proof -
  have "set (ps[i := q]) \<subseteq> insert q (set ps)"
    by (rule set_update_subset_insert)
  then show ?thesis
    using assms(2) by (auto simp: sleeping_def)
qed

section \<open>The interface\<close>

locale wait_queue =
  fixes asleep :: "'p \<Rightarrow> bool" and wake :: "'p \<Rightarrow> 'p" and promise :: "'p \<Rightarrow> nat"
  assumes asleep_promise: "asleep p \<Longrightarrow> promise p = 0"
    and wake_awake: "asleep p \<Longrightarrow> \<not> asleep (wake p)"
    and wake_promise: "asleep p \<Longrightarrow> promise (wake p) = 1"
begin

lemma wakes_keep: "wakes asleep wake n ps ps' \<Longrightarrow> length ps' = length ps \<and> (\<forall>i<length ps. \<not> asleep (ps ! i) \<longrightarrow> ps' ! i = ps ! i)"
proof (induction rule: wakes.induct)
  case (wakes_one i ps n ps')
  have "ps' ! k = ps ! k" if k: "k < length ps" "\<not> asleep (ps ! k)" for k
  proof -
    have "i \<noteq> k"
      using k(2) wakes_one.hyps(2) by auto
    then show ?thesis
      using wakes_one.IH k by (simp add: nth_list_update)
  qed
  then show ?case
    using wakes_one.IH by simp
qed simp_all

lemma wakes_promise: "wakes asleep wake n ps ps' \<Longrightarrow> sleeping asleep ps' \<Longrightarrow> promised promise ps' = promised promise ps + n"
proof (induction rule: wakes.induct)
  case (wakes_one i ps n ps')
  then show ?case
    using promised_update [of i ps promise "wake (ps ! i)"] by (simp add: asleep_promise wake_promise)
qed simp_all

lemma wakes_sleeping: "wakes asleep wake n ps ps' \<Longrightarrow> sleeping asleep ps' \<Longrightarrow> sleeping asleep ps"
  by (induction rule: wakes.induct) (auto simp: sleeping_def)

lemma wake_all_awake: "\<not> sleeping asleep (wake_all asleep wake ps)"
  by (auto simp: sleeping_def wake_all_def wake_awake)

lemma wake_all_step: "\<not> asleep q \<Longrightarrow> i < length ps \<Longrightarrow> \<not> sleeping asleep ((wake_all asleep wake ps)[i := q])"
  using sleeping_update [of i "wake_all asleep wake ps" asleep q] wake_all_awake by (auto simp: wake_all_def)

lemma local_step:
  assumes "no_lost_wakeup asleep promise ps stock" and "i < length ps" and "asleep q \<Longrightarrow> stock' \<le> 0"
    and "stock' \<le> 0 \<or> stock' + int (promise (ps ! i)) \<le> stock + int (promise q)"
  shows "no_lost_wakeup asleep promise (ps[i := q]) stock'"
  unfolding no_lost_wakeup_def
proof
  assume s: "sleeping asleep (ps[i := q])"
  have "int (promised promise (ps[i := q])) + int (promise (ps ! i)) = int (promised promise ps) + int (promise q)"
    using promised_update [OF assms(2), of promise q] by linarith
  then show "stock' \<le> int (promised promise (ps[i := q]))"
    using sleeping_update [OF assms(2) s] assms(1,3,4) by (auto simp: no_lost_wakeup_def)
qed

lemma wake_step:
  assumes "no_lost_wakeup asleep promise ps stock" and "i < length ps" and "wakes asleep wake n ps ps'"
    and "\<not> asleep (ps ! i)" and "\<not> asleep q" and "promise (ps ! i) \<le> n + promise q"
  shows "no_lost_wakeup asleep promise (ps'[i := q]) stock"
  unfolding no_lost_wakeup_def
proof
  assume "sleeping asleep (ps'[i := q])"
  have l: "length ps' = length ps" "ps' ! i = ps ! i"
    using wakes_keep [OF assms(3)] assms(2,4) by auto
  then have s: "sleeping asleep ps'"
    using sleeping_update [of i ps' asleep q] \<open>sleeping asleep (ps'[i := q])\<close> assms(2,5) by auto
  have "promised promise (ps'[i := q]) + promise (ps ! i) = promised promise ps + n + promise q"
    using promised_update [of i ps' promise q] wakes_promise [OF assms(3) s] l assms(2) by simp
  then show "stock \<le> int (promised promise (ps'[i := q]))"
    using assms(1,6) wakes_sleeping [OF assms(3) s] by (auto simp: no_lost_wakeup_def)
qed

text \<open>
  A flag that ends all waiting: while it is set and a thread sleeps, the thread that set it is still about to wake
  everybody, at the program point \<open>N\<close>.
\<close>

definition announced :: "'p \<Rightarrow> bool \<Rightarrow> 'p list \<Rightarrow> bool" where
  "announced N flag ps \<longleftrightarrow> (flag \<and> sleeping asleep ps \<longrightarrow> N \<in> set ps)"

lemma announced_local:
  assumes "announced N flag ps" and "i < length ps" and "ps ! i \<noteq> N" and "asleep q \<Longrightarrow> \<not> flag"
  shows "announced N flag (ps[i := q])"
proof -
  have "N \<in> set (ps[i := q])" if N: "N \<in> set ps"
  proof -
    obtain j where "j < length ps" "ps ! j = N" "j \<noteq> i"
      using N assms(3) by (auto simp: in_set_conv_nth)
    then show ?thesis
      using nth_mem [of j "ps[i := q]"] by simp
  qed
  then show ?thesis
    using assms sleeping_update [OF assms(2), of asleep q] by (auto simp: announced_def)
qed

lemma announced_wakes:
  assumes "announced N flag ps" and "wakes asleep wake n ps ps'" and "\<not> asleep N"
  shows "announced N flag ps'"
proof -
  have "N \<in> set ps'" if N: "N \<in> set ps"
  proof -
    obtain j where "j < length ps" "ps ! j = N"
      using N by (auto simp: in_set_conv_nth)
    then show ?thesis
      using wakes_keep [OF assms(2)] assms(3) nth_mem [of j ps'] by auto
  qed
  then show ?thesis
    using assms(1) wakes_sleeping [OF assms(2)] by (auto simp: announced_def)
qed

text \<open>When nobody is about to move, sleepers mean that the stock is used up.\<close>

lemma quiescent:
  assumes "no_lost_wakeup asleep promise ps stock" and "sleeping asleep ps" and "\<forall>p\<in>set ps. promise p = 0"
  shows "stock \<le> 0"
proof -
  have "promised promise ps = 0"
    using assms(3) by (induction ps) (simp_all add: promised_def)
  then show ?thesis
    using assms(1,2) by (simp add: no_lost_wakeup_def)
qed

end

section \<open>The ledger of a semaphore\<close>

text \<open>What the calls of a semaphore did, in order: permits put in, a permit taken, a call that returned without one.\<close>

datatype sem_event = SemSilent | SemReleased size_t | SemAcquired | SemRefused

definition released :: "sem_event list \<Rightarrow> nat" where
  "released evs = (\<Sum>ev\<leftarrow>evs. case ev of SemReleased n \<Rightarrow> unat n | _ \<Rightarrow> 0)"

definition acquired :: "sem_event list \<Rightarrow> nat" where
  "acquired evs = length (filter (\<lambda>ev. ev = SemAcquired) evs)"

definition permits :: "nat \<Rightarrow> sem_event list \<Rightarrow> nat" where
  "permits initial evs = initial + released evs - acquired evs"

text \<open>The permits in stock stay below the limit of the counter all along.\<close>

definition fits :: "nat \<Rightarrow> nat \<Rightarrow> sem_event list \<Rightarrow> bool" where
  "fits limit initial evs \<longleftrightarrow> (\<forall>k\<le>length evs. permits initial (take k evs) < limit)"

lemma released_snoc: "released (evs @ [ev]) = released evs + (case ev of SemReleased n \<Rightarrow> unat n | _ \<Rightarrow> 0)"
  by (simp add: released_def)

lemma acquired_snoc: "acquired (evs @ [ev]) = acquired evs + (if ev = SemAcquired then 1 else 0)"
  by (simp add: acquired_def)

lemma fits_snoc: "fits limit initial (evs @ [ev]) \<longleftrightarrow> fits limit initial evs \<and> permits initial (evs @ [ev]) < limit"
proof -
  have "k \<le> length (evs @ [ev]) \<longleftrightarrow> k \<le> length evs \<or> k = length (evs @ [ev])" for k
    by auto
  then show ?thesis
    unfolding fits_def by auto
qed

lemma fits_end: "fits limit initial evs \<Longrightarrow> permits initial evs < limit"
  unfolding fits_def by (metis order_refl take_all)

end
