(* ===== verification/Futex_Semaphore.thy ===== *)
theory Futex_Semaphore
  imports Wait_Queue
begin

text \<open>
  \<open>include/infra/FutexSemaphore.h\<close>, the Linux build: any number of threads call its operations, and each load,
  store, atomic read-modify-write and system call is one step.  \<open>FUTEX_WAIT\<close> compares the word and blocks in one
  step; a blocked thread is woken by \<open>FUTEX_WAKE\<close>, by a signal, or by its timeout.
\<close>

section \<open>State and steps\<close>

record FutexSemaphore =
  fx_count :: "32 word"
  fx_shutdown :: bool
  fx_waiters :: "32 word"

definition FutexSemaphore_new :: "size_t \<Rightarrow> FutexSemaphore" where
  "FutexSemaphore_new initial = \<lparr>fx_count = ucast initial, fx_shutdown = False, fx_waiters = 0\<rparr>"

definition available :: "FutexSemaphore \<Rightarrow> size_t" where
  "available s = (let v = fx_count s in if sint v > 0 then scast v else 0)"

text \<open>The three ways to take a permit: \<open>tryAcquire\<close>, \<open>acquire\<close> and \<open>tryAcquireFor\<close>.\<close>

datatype acquire_kind = Try | Block | Timed

datatype futex_pc =
    FIdle
  | FLoad acquire_kind
  | FCas acquire_kind "32 word"
  | FShutdown acquire_kind
  | FClock
  | FEnter acquire_kind
  | FCount acquire_kind
  | FRecheck acquire_kind
  | FWait acquire_kind
  | FAsleep acquire_kind
  | FLeave acquire_kind bool
  | FNotify size_t
  | FWake size_t
  | FWakeAll

text \<open>After the load of \<open>observed\<close>: the loop of \<open>tryAcquire\<close> goes on while it is positive.\<close>

definition observed_pc :: "acquire_kind \<Rightarrow> 32 word \<Rightarrow> futex_pc" where
  "observed_pc k v = (if sint v > 0 then FCas k v else if k = Try then FIdle else FShutdown k)"

definition observed_event :: "acquire_kind \<Rightarrow> 32 word \<Rightarrow> sem_event" where
  "observed_event k v = (if sint v > 0 then SemSilent else if k = Try then SemRefused else SemSilent)"

fun futex_asleep :: "futex_pc \<Rightarrow> bool" where
  "futex_asleep (FAsleep k) = True"
| "futex_asleep _ = False"

fun futex_woken :: "futex_pc \<Rightarrow> futex_pc" where
  "futex_woken (FAsleep k) = FLeave k False"
| "futex_woken p = p"

abbreviation futexWake :: "32 word \<Rightarrow> futex_pc list \<Rightarrow> futex_pc list \<Rightarrow> bool" where
  "futexWake n \<equiv> wakes futex_asleep futex_woken (nat (sint n))"

text \<open>
  The pieces of the steps: the permits of a \<open>release\<close> and the flag of a \<open>shutdown\<close>; what follows a failed attempt
  when there was no shutdown; the comparison that \<open>FUTEX_WAIT\<close> makes; what follows a wait.
\<close>

definition add_permits :: "size_t \<Rightarrow> FutexSemaphore \<Rightarrow> FutexSemaphore" where [simp]:
  "add_permits n s = s\<lparr>fx_count := fx_count s + ucast n\<rparr>"

definition set_shutdown :: "FutexSemaphore \<Rightarrow> FutexSemaphore" where [simp]:
  "set_shutdown s = s\<lparr>fx_shutdown := True\<rparr>"

definition goes_on :: "acquire_kind \<Rightarrow> futex_pc" where [simp]:
  "goes_on k = (if k = Timed then FClock else FEnter k)"

definition futexWait :: "acquire_kind \<Rightarrow> FutexSemaphore \<Rightarrow> futex_pc" where [simp]:
  "futexWait k s = (if fx_count s = 0 then FAsleep k else FLeave k False)"

definition leave_wait :: "acquire_kind \<Rightarrow> bool \<Rightarrow> sem_event \<times> futex_pc" where [simp]:
  "leave_wait k late = (if late then (SemRefused, FIdle) else (SemSilent, FLoad k))"

text \<open>One step of a thread at a program point: its next point, the semaphore and the other threads.\<close>

inductive thread_step ::
  "futex_pc \<Rightarrow> FutexSemaphore \<Rightarrow> futex_pc list \<Rightarrow> sem_event \<Rightarrow> futex_pc \<Rightarrow> FutexSemaphore \<Rightarrow> futex_pc list \<Rightarrow> bool" where
  release_add: "thread_step FIdle s ps (SemReleased n) (FNotify n) (add_permits n s) ps"
| release_done: "\<not> sint (fx_waiters s) > 0 \<Longrightarrow> thread_step (FNotify n) s ps SemSilent FIdle s ps"
| release_waiters: "sint (fx_waiters s) > 0 \<Longrightarrow> thread_step (FNotify n) s ps SemSilent (FWake n) s ps"
| release_wake: "futexWake (ucast n) ps ps' \<Longrightarrow> thread_step (FWake n) s ps SemSilent FIdle s ps'"
| acquire_call: "thread_step FIdle s ps SemSilent (FLoad k) s ps"
| acquire_load: "thread_step (FLoad k) s ps (observed_event k (fx_count s)) (observed_pc k (fx_count s)) s ps"
| acquire_cas: "fx_count s = v \<Longrightarrow>
    thread_step (FCas k v) s ps SemAcquired FIdle (s\<lparr>fx_count := v - 1\<rparr>) ps"
| acquire_cas_fails:
    "thread_step (FCas k v) s ps (observed_event k (fx_count s)) (observed_pc k (fx_count s)) s ps"
| acquire_shutdown: "fx_shutdown s \<Longrightarrow> thread_step (FShutdown k) s ps SemRefused FIdle s ps"
| acquire_goes_on: "\<not> fx_shutdown s \<Longrightarrow>
    thread_step (FShutdown k) s ps SemSilent (goes_on k) s ps"
| acquire_late: "thread_step FClock s ps SemRefused FIdle s ps"
| acquire_in_time: "thread_step FClock s ps SemSilent (FEnter Timed) s ps"
| acquire_enter: "thread_step (FEnter k) s ps SemSilent (FCount k) (s\<lparr>fx_waiters := fx_waiters s + 1\<rparr>) ps"
| acquire_count: "thread_step (FCount k) s ps SemSilent (if fx_count s = 0 then FRecheck k else FLeave k False) s ps"
| acquire_recheck: "thread_step (FRecheck k) s ps SemSilent (if fx_shutdown s then FLeave k False else FWait k) s ps"
| futex_wait: "thread_step (FWait k) s ps SemSilent (futexWait k s) s ps"
| futex_interrupted: "thread_step (FAsleep k) s ps SemSilent (FLeave k False) s ps"
| futex_timeout: "thread_step (FAsleep Timed) s ps SemSilent (FLeave Timed True) s ps"
| acquire_leave: "thread_step (FLeave k late) s ps (fst (leave_wait k late))
    (snd (leave_wait k late)) (s\<lparr>fx_waiters := fx_waiters s - 1\<rparr>) ps"
| shutdown_store: "thread_step FIdle s ps SemSilent FWakeAll (set_shutdown s) ps"
| shutdown_wake: "futexWake 2147483647 ps ps' \<Longrightarrow> thread_step FWakeAll s ps SemSilent FIdle s ps'"

record futex_system =
  fs_sem :: FutexSemaphore
  fs_threads :: "futex_pc list"

inductive futex_exec :: "futex_system \<Rightarrow> sem_event list \<Rightarrow> futex_system \<Rightarrow> bool" for S0 where
  futex_nil: "futex_exec S0 [] S0"
| futex_snoc: "futex_exec S0 evs S \<Longrightarrow> i < length (fs_threads S) \<Longrightarrow>
    thread_step (fs_threads S ! i) (fs_sem S) (fs_threads S) ev q s ps \<Longrightarrow>
    futex_exec S0 (evs @ [ev]) \<lparr>fs_sem = s, fs_threads = ps[i := q]\<rparr>"

definition futex_new :: "size_t \<Rightarrow> nat \<Rightarrow> futex_system" where
  "futex_new initial n = \<lparr>fs_sem = FutexSemaphore_new initial, fs_threads = replicate n FIdle\<rparr>"

section \<open>Invariant\<close>

text \<open>
  A releaser still has to wake as many sleepers as it released permits; a thread that is about to try has to
  take a permit or to see that there is none.
\<close>

fun futex_promise :: "futex_pc \<Rightarrow> nat" where
  "futex_promise (FNotify n) = unat n"
| "futex_promise (FWake n) = unat n"
| "futex_promise (FLoad k) = 1"
| "futex_promise (FCas k v) = 1"
| "futex_promise (FLeave k late) = (if late then 0 else 1)"
| "futex_promise _ = 0"

interpretation futex: wait_queue futex_asleep futex_woken futex_promise
proof
  fix p :: futex_pc
  assume "futex_asleep p"
  then show "futex_promise p = 0" "\<not> futex_asleep (futex_woken p)" "futex_promise (futex_woken p) = 1"
    by (cases p; simp)+
qed

text \<open>The threads that \<open>m_waiters\<close> counts.\<close>

fun inside :: "futex_pc \<Rightarrow> nat" where
  "inside (FCount k) = 1"
| "inside (FRecheck k) = 1"
| "inside (FWait k) = 1"
| "inside (FAsleep k) = 1"
| "inside (FLeave k late) = 1"
| "inside _ = 0"

fun pc_ok :: "futex_pc \<Rightarrow> bool" where
  "pc_ok (FNotify n) = (unat n < 2 ^ 31)"
| "pc_ok (FWake n) = (unat n < 2 ^ 31)"
| "pc_ok (FCas k v) = (sint v > 0)"
| "pc_ok p = True"

definition futex_good :: "nat \<Rightarrow> sem_event list \<Rightarrow> FutexSemaphore \<Rightarrow> futex_pc list \<Rightarrow> bool" where
  "futex_good initial evs s ps \<longleftrightarrow>
     (\<forall>p\<in>set ps. pc_ok p) \<and> acquired evs \<le> initial + released evs \<and> fx_count s = of_nat (permits initial evs) \<and>
     no_lost_wakeup futex_asleep futex_promise ps (int (permits initial evs))"

definition futex_inv :: "nat \<Rightarrow> sem_event list \<Rightarrow> FutexSemaphore \<Rightarrow> futex_pc list \<Rightarrow> bool" where
  "futex_inv initial evs s ps \<longleftrightarrow>
     length ps < 2 ^ 31 \<and> fx_waiters s = of_nat (promised inside ps) \<and> (fits (2 ^ 31) initial evs \<longrightarrow> futex_good initial evs s ps)"

lemma sint_small: "k < 2 ^ 31 \<Longrightarrow> sint (of_nat k :: 32 word) = int k"
  by (simp add: sint_uint uint_nat unat_of_nat take_bit_eq_mod signed_take_bit_int_eq_self)

lemma waiters_update:
  assumes "i < length ps" and "w = of_nat (promised inside ps)" and "w' + of_nat (inside (ps ! i)) = w + of_nat (inside q)"
  shows "w' = (of_nat (promised inside (ps[i := q])) :: 32 word)"
proof -
  have "of_nat (promised inside (ps[i := q]) + inside (ps ! i)) = (of_nat (promised inside ps + inside q) :: 32 word)"
    using promised_update [OF assms(1)] by metis
  then have "of_nat (promised inside (ps[i := q])) + of_nat (inside (ps ! i)) = (w + of_nat (inside q) :: 32 word)"
    using assms(2) by simp
  then show ?thesis
    using assms(3) by (metis add_right_cancel)
qed

lemma inside_length: "promised inside ps \<le> length ps"
proof (induction ps)
  case Nil
  then show ?case by (simp add: promised_def)
next
  case (Cons p ps)
  have "inside p \<le> 1"
    by (cases p) simp_all
  then show ?case
    using Cons by (simp add: promised_def)
qed

lemma wakes_inside: "wakes futex_asleep futex_woken n ps ps' \<Longrightarrow> promised inside ps' = promised inside ps"
proof (induction rule: wakes.induct)
  case (wakes_one i ps n ps')
  have "inside (futex_woken p) = inside p" for p
    by (cases p) simp_all
  then show ?case
    using wakes_one promised_update [of i ps inside "futex_woken (ps ! i)"] by simp
qed simp_all

lemma sleeping_waiters:
  assumes "length ps < 2 ^ 31" and "fx_waiters s = of_nat (promised inside ps)" and "sleeping futex_asleep ps"
  shows "sint (fx_waiters s) > 0"
proof -
  obtain i where i: "i < length ps" "futex_asleep (ps ! i)"
    using assms(3) by (auto simp: sleeping_def in_set_conv_nth)
  have "inside (ps ! i) = 1"
    using i(2) by (cases "ps ! i") simp_all
  then have "0 < promised inside ps"
    using promise_le [OF i(1), of inside] by simp
  moreover have "promised inside ps < 2 ^ 31"
    using inside_length [of ps] assms(1) by simp
  ultimately show ?thesis
    using assms(2) sint_small by simp
qed

lemma waiters_step:
  assumes "i < length ps" and "fx_waiters s = of_nat (promised inside ps)" and "thread_step (ps ! i) s ps ev q s' ps'"
  shows "fx_waiters s' = of_nat (promised inside (ps'[i := q])) \<and> length ps' = length ps"
proof -
  note upd = waiters_update [OF assms(1,2)]
  have wake: "fx_waiters s = of_nat (promised inside (ps'[i := FIdle])) \<and> length ps' = length ps"
    if "wakes futex_asleep futex_woken m ps ps'" "inside (ps ! i) = 0" "\<not> futex_asleep (ps ! i)" for m
  proof -
    have l: "length ps' = length ps" "ps' ! i = ps ! i"
      using futex.wakes_keep [OF that(1)] assms(1) that(3) by auto
    then show ?thesis
      using waiters_update [of i ps' "fx_waiters s" "fx_waiters s" FIdle] wakes_inside [OF that(1)] that(2) assms(1,2) by simp
  qed
  show ?thesis
    using assms(3) by cases (auto simp: observed_pc_def intro: upd dest: wake)
qed

lemma pc_ok_update: "\<forall>p\<in>set ps. pc_ok p \<Longrightarrow> pc_ok q \<Longrightarrow> \<forall>p\<in>set (ps[i := q]). pc_ok p"
  using set_update_subset_insert [of ps i q] by blast

lemma wakes_pc_ok: "wakes futex_asleep futex_woken n ps ps' \<Longrightarrow> \<forall>p\<in>set ps. pc_ok p \<Longrightarrow> \<forall>p\<in>set ps'. pc_ok p"
proof (induction rule: wakes.induct)
  case (wakes_one i ps n ps')
  have "pc_ok (futex_woken (ps ! i))"
    using wakes_one.hyps(2) by (cases "ps ! i") simp_all
  then show ?case
    by (rule wakes_one.IH [OF pc_ok_update [OF wakes_one.prems]])
qed simp_all

text \<open>The steps that neither release nor take a permit nor wake anybody.\<close>

lemma quiet_step:
  assumes good: "futex_good initial evs s ps" and fit: "permits initial evs < 2 ^ 31" and i: "i < length ps"
    and ev: "\<forall>n. ev \<noteq> SemReleased n" "ev \<noteq> SemAcquired" and count: "fx_count s' = fx_count s"
    and asleep: "futex_asleep q \<Longrightarrow> fx_count s = 0"
    and promise: "\<not> sint (fx_count s) > 0 \<or> futex_promise (ps ! i) \<le> futex_promise q \<or> \<not> sleeping futex_asleep ps"
    and ok: "pc_ok q"
  shows "futex_good initial (evs @ [ev]) s' (ps[i := q])"
proof -
  let ?P = "permits initial evs"
  have k: "released (evs @ [ev]) = released evs" "acquired (evs @ [ev]) = acquired evs" "permits initial (evs @ [ev]) = ?P"
    using ev by (auto simp: released_snoc acquired_snoc permits_def split: sem_event.split)
  have n: "no_lost_wakeup futex_asleep futex_promise ps (int ?P)" and c: "fx_count s = of_nat ?P"
    using good by (simp_all add: futex_good_def)
  have "sint (fx_count s) = int ?P"
    using fit c sint_small by simp
  moreover from this have "?P = 0" if "fx_count s = 0"
    using that by simp
  moreover have "no_lost_wakeup futex_asleep futex_promise (ps[i := q]) (int ?P)" if "\<not> sleeping futex_asleep ps" "?P \<noteq> 0"
    using that sleeping_update [OF i] asleep calculation(2) by (auto simp: no_lost_wakeup_def)
  ultimately have "no_lost_wakeup futex_asleep futex_promise (ps[i := q]) (int ?P)"
    using futex.local_step [OF n i, of q "int ?P"] asleep promise by fastforce
  moreover have "\<forall>p\<in>set (ps[i := q]). pc_ok p"
    using good by (intro pc_ok_update [OF _ ok]) (simp add: futex_good_def)
  ultimately show ?thesis
    using good k count by (simp add: futex_good_def)
qed

lemma release_step:
  assumes good: "futex_good initial evs s ps" and fit: "permits initial (evs @ [SemReleased n]) < 2 ^ 31"
    and i: "i < length ps" "ps ! i = FIdle"
  shows "futex_good initial (evs @ [SemReleased n]) (s\<lparr>fx_count := fx_count s + ucast n\<rparr>) (ps[i := FNotify n])"
proof -
  let ?evs = "evs @ [SemReleased n]"
  have k: "released ?evs = released evs + unat n" "acquired ?evs = acquired evs"
    by (simp_all add: released_snoc acquired_snoc)
  have p: "permits initial ?evs = permits initial evs + unat n"
    using good k by (simp add: permits_def futex_good_def)
  have "(ucast n :: 32 word) = of_nat (unat n)"
    by simp
  moreover have "no_lost_wakeup futex_asleep futex_promise (ps[i := FNotify n]) (int (permits initial evs + unat n))"
    using i good by (intro futex.local_step [where stock = "int (permits initial evs)"]) (simp_all add: futex_good_def)
  moreover have "\<forall>p\<in>set (ps[i := FNotify n]). pc_ok p"
    using good fit p by (intro pc_ok_update) (auto simp: futex_good_def)
  ultimately show ?thesis
    using good k p by (simp add: futex_good_def)
qed

lemma acquire_step:
  assumes good: "futex_good initial evs s ps" and fit: "permits initial evs < 2 ^ 31"
    and i: "i < length ps" "ps ! i = FCas k (fx_count s)"
  shows "futex_good initial (evs @ [SemAcquired]) (s\<lparr>fx_count := fx_count s - 1\<rparr>) (ps[i := FIdle])"
proof -
  let ?evs = "evs @ [SemAcquired]"
  have k: "released ?evs = released evs" "acquired ?evs = Suc (acquired evs)"
    by (simp_all add: released_snoc acquired_snoc)
  have "pc_ok (ps ! i)"
    using good i(1) by (simp add: futex_good_def)
  then have "sint (fx_count s) > 0"
    using i(2) by simp
  moreover have "sint (fx_count s) = int (permits initial evs)"
    using good fit sint_small by (simp add: futex_good_def)
  ultimately have p: "permits initial evs = Suc (permits initial ?evs)" "acquired evs < initial + released evs"
    using k by (simp_all add: permits_def)
  have "no_lost_wakeup futex_asleep futex_promise (ps[i := FIdle]) (int (permits initial ?evs))"
    using i good p(1) by (intro futex.local_step [where stock = "int (permits initial evs)"]) (simp_all add: futex_good_def)
  moreover have "\<forall>p\<in>set (ps[i := FIdle]). pc_ok p"
    using good by (intro pc_ok_update) (auto simp: futex_good_def)
  ultimately show ?thesis
    using good k p by (simp add: futex_good_def)
qed

lemma futex_wake_good:
  assumes good: "futex_good initial evs s ps" and i: "i < length ps"
    and p: "ps ! i = FWake n \<and> m = ucast n \<or> ps ! i = FWakeAll" and w: "futexWake m ps ps'"
  shows "futex_good initial (evs @ [SemSilent]) s (ps'[i := FIdle])"
proof -
  have k: "released (evs @ [SemSilent]) = released evs" "acquired (evs @ [SemSilent]) = acquired evs"
      "permits initial (evs @ [SemSilent]) = permits initial evs"
    by (simp_all add: released_snoc acquired_snoc permits_def)
  have "pc_ok (ps ! i)"
    using good i by (simp add: futex_good_def)
  then have n: "unat n < 2 ^ 31 \<or> ps ! i = FWakeAll"
    using p by auto
  have "sint (ucast n :: 32 word) = int (unat n)" if "unat n < 2 ^ 31"
    using that sint_small [of "unat n"] by simp
  then have "futex_promise (ps ! i) \<le> nat (sint m) + futex_promise FIdle"
    using p n by auto
  then have "no_lost_wakeup futex_asleep futex_promise (ps'[i := FIdle]) (int (permits initial evs))"
    using good p by (intro futex.wake_step [OF _ i w]) (auto simp: futex_good_def)
  moreover have "\<forall>p\<in>set (ps'[i := FIdle]). pc_ok p"
    using good wakes_pc_ok [OF w] by (intro pc_ok_update) (auto simp: futex_good_def)
  ultimately show ?thesis
    using good k by (simp add: futex_good_def)
qed

lemma futex_good_step:
  assumes good: "futex_good initial evs s ps" and fit: "permits initial evs < 2 ^ 31" "permits initial (evs @ [ev]) < 2 ^ 31"
    and i: "i < length ps" and waiters: "sleeping futex_asleep ps \<Longrightarrow> sint (fx_waiters s) > 0"
    and step: "thread_step (ps ! i) s ps ev q s' ps'"
  shows "futex_good initial (evs @ [ev]) s' (ps'[i := q])"
proof -
  note quiet = quiet_step [OF good fit(1) i]
  have load: "futex_good initial (evs @ [observed_event k (fx_count s)]) s (ps[i := observed_pc k (fx_count s)])"
    if "ps ! i = FLoad k \<or> (\<exists>v. ps ! i = FCas k v)" for k
    using that by (intro quiet) (auto simp: observed_event_def observed_pc_def split: if_splits)
  show ?thesis
    using step
  proof cases
    case (release_add n)
    then show ?thesis using release_step [OF good _ i] fit(2) by simp
  next
    case (release_done n)
    then show ?thesis using waiters by (auto intro!: quiet)
  next
    case (release_wake n)
    then show ?thesis using futex_wake_good [OF good i] by auto
  next
    case (acquire_load k)
    then show ?thesis using load by simp
  next
    case (acquire_cas v k)
    then show ?thesis using acquire_step [OF good fit(1) i] by simp
  next
    case (acquire_cas_fails k v)
    then show ?thesis using load by simp
  next
    case shutdown_wake
    then show ?thesis using futex_wake_good [OF good i, of 0 2147483647 ps'] by simp
  next
    case (release_waiters n)
    moreover have "pc_ok (ps ! i)"
      using good i by (simp add: futex_good_def)
    ultimately show ?thesis by (auto intro!: quiet)
  qed (auto intro!: quiet split: if_splits)
qed

lemma futex_inv_step:
  assumes inv: "futex_inv initial evs s ps" and i: "i < length ps" and step: "thread_step (ps ! i) s ps ev q s' ps'"
  shows "futex_inv initial (evs @ [ev]) s' (ps'[i := q])"
proof -
  have w: "length ps < 2 ^ 31" "fx_waiters s = of_nat (promised inside ps)"
    using inv by (simp_all add: futex_inv_def)
  have "futex_good initial (evs @ [ev]) s' (ps'[i := q])" if "fits (2 ^ 31) initial (evs @ [ev])"
  proof (rule futex_good_step [OF _ _ _ i _ step])
    show "futex_good initial evs s ps" "permits initial evs < 2 ^ 31" "permits initial (evs @ [ev]) < 2 ^ 31"
      using inv that fits_end by (auto simp: futex_inv_def fits_snoc)
  qed (rule sleeping_waiters [OF w])
  then show ?thesis
    using waiters_step [OF i w(2) step] w(1) by (simp add: futex_inv_def)
qed

lemma futex_inv_exec:
  assumes "futex_exec S0 evs S" and "futex_inv initial [] (fs_sem S0) (fs_threads S0)"
  shows "futex_inv initial evs (fs_sem S) (fs_threads S)"
  using assms(1) by (induction) (use assms(2) futex_inv_step in auto)

lemma futex_inv_new:
  assumes "n < 2 ^ 31"
  shows "futex_inv (unat initial) [] (FutexSemaphore_new initial) (replicate n FIdle)"
proof -
  have "promised inside (replicate n FIdle) = 0" "\<not> sleeping futex_asleep (replicate n FIdle)"
    by (auto simp: promised_def sum_list_replicate sleeping_def)
  then show ?thesis
    using assms by (auto simp: futex_inv_def futex_good_def FutexSemaphore_new_def released_def acquired_def permits_def
        no_lost_wakeup_def)
qed

section \<open>Properties\<close>

text \<open>
  (C24) The semaphore conserves permits and loses no release, under every interleaving of any number of
  threads: as long as the permits in stock fit an \<open>int\<close>, no more are taken than were put in, the rest is what
  \<open>available\<close> reports, and when every thread is either outside or asleep and one is asleep, no permit is left.
\<close>

theorem futex_semaphore_correct:
  assumes "futex_exec (futex_new initial n) evs S" and "n < 2 ^ 31" and "fits (2 ^ 31) (unat initial) evs"
  shows "acquired evs \<le> unat initial + released evs \<and>
         unat (available (fs_sem S)) = unat initial + released evs - acquired evs \<and>
         ((\<forall>p\<in>set (fs_threads S). p = FIdle \<or> futex_asleep p) \<and> (\<exists>p\<in>set (fs_threads S). futex_asleep p) \<longrightarrow>
            available (fs_sem S) = 0)"
proof -
  have "futex_inv (unat initial) evs (fs_sem S) (fs_threads S)"
    using futex_inv_exec [OF assms(1)] futex_inv_new [OF assms(2)] by (simp add: futex_new_def)
  let ?P = "permits (unat initial) evs"
  have c: "acquired evs \<le> unat initial + released evs" "fx_count (fs_sem S) = of_nat ?P"
      "no_lost_wakeup futex_asleep futex_promise (fs_threads S) (int ?P)"
    using \<open>futex_inv _ _ _ _\<close> assms(3) by (auto simp: futex_inv_def futex_good_def)
  have "sint (fx_count (fs_sem S)) = int ?P"
    using c(2) fits_end [OF assms(3)] sint_small by simp
  then have a: "unat (available (fs_sem S)) = ?P"
    using fits_end [OF assms(3)] by (simp add: available_def Let_def scast_eq unat_of_nat take_bit_eq_mod)
  moreover have "?P = 0" if "\<forall>p\<in>set (fs_threads S). p = FIdle \<or> futex_asleep p" "sleeping futex_asleep (fs_threads S)"
  proof -
    have "\<forall>p\<in>set (fs_threads S). futex_promise p = 0"
      using that(1) futex.asleep_promise by fastforce
    then show ?thesis
      using futex.quiescent [OF c(3) that(2)] by simp
  qed
  ultimately show ?thesis
    using c(1) unfolding sleeping_def permits_def by (auto simp: word_unat_eq_iff)
qed

abbreviation (input) two_threads :: "32 word \<Rightarrow> bool \<Rightarrow> 32 word \<Rightarrow> futex_pc \<Rightarrow> futex_pc \<Rightarrow> futex_system" where
  "two_threads c sd w p q \<equiv> \<lparr>fs_sem = \<lparr>fx_count = c, fx_shutdown = sd, fx_waiters = w\<rparr>, fs_threads = [p, q]\<rparr>"

lemma first_moves:
  assumes "futex_exec S0 evs (two_threads c sd w p q)"
    and "thread_step p \<lparr>fx_count = c, fx_shutdown = sd, fx_waiters = w\<rparr> [p, q] ev p' \<lparr>fx_count = c', fx_shutdown = sd', fx_waiters = w'\<rparr> [p0, q']"
  shows "futex_exec S0 (evs @ [ev]) (two_threads c' sd' w' p' q')"
  using futex_snoc [OF assms(1), of 0] assms(2) by fastforce

lemma second_moves:
  assumes "futex_exec S0 evs (two_threads c sd w p q)"
    and "thread_step q \<lparr>fx_count = c, fx_shutdown = sd, fx_waiters = w\<rparr> [p, q] ev q' \<lparr>fx_count = c', fx_shutdown = sd', fx_waiters = w'\<rparr> [p', q0]"
  shows "futex_exec S0 (evs @ [ev]) (two_threads c' sd' w' p' q')"
  using futex_snoc [OF assms(1), of 1] assms(2) by fastforce

text \<open>A thread in \<open>acquire\<close> that has seen no permit and no shutdown and is about to call \<open>FUTEX_WAIT\<close>.\<close>

lemma about_to_wait:
  "futex_exec (futex_new 0 2) (replicate 6 SemSilent) (two_threads 0 False 1 (FWait Block) FIdle)"
proof -
  have new: "futex_new 0 2 = two_threads 0 False 0 FIdle FIdle"
    by (simp add: futex_new_def FutexSemaphore_new_def numeral_eq_Suc)
  have "futex_exec (futex_new 0 2) [] (two_threads 0 False 0 FIdle FIdle)"
    unfolding new by (rule futex_nil)
  then have "futex_exec (futex_new 0 2) ([] @ [SemSilent]) (two_threads 0 False 0 (FLoad Block) FIdle)"
    by (rule first_moves) (rule acquire_call)
  then have "futex_exec (futex_new 0 2) (([] @ [SemSilent]) @ [SemSilent]) (two_threads 0 False 0 (FShutdown Block) FIdle)"
    by (rule first_moves) (use acquire_load [of Block "\<lparr>fx_count = 0, fx_shutdown = False, fx_waiters = 0\<rparr>"]
        in \<open>simp add: observed_pc_def observed_event_def\<close>)
  then have "futex_exec (futex_new 0 2) ((([] @ [SemSilent]) @ [SemSilent]) @ [SemSilent]) (two_threads 0 False 0 (FEnter Block) FIdle)"
    by (rule first_moves) (use acquire_goes_on [of "\<lparr>fx_count = 0, fx_shutdown = False, fx_waiters = 0\<rparr>" Block] in simp)
  then have "futex_exec (futex_new 0 2) (((([] @ [SemSilent]) @ [SemSilent]) @ [SemSilent]) @ [SemSilent]) (two_threads 0 False 1 (FCount Block) FIdle)"
    by (rule first_moves) (use acquire_enter [of Block "\<lparr>fx_count = 0, fx_shutdown = False, fx_waiters = 0\<rparr>"] in simp)
  then have "futex_exec (futex_new 0 2) ((((([] @ [SemSilent]) @ [SemSilent]) @ [SemSilent]) @ [SemSilent]) @ [SemSilent]) (two_threads 0 False 1 (FRecheck Block) FIdle)"
    by (rule first_moves) (use acquire_count [of Block "\<lparr>fx_count = 0, fx_shutdown = False, fx_waiters = 1\<rparr>"] in simp)
  then have "futex_exec (futex_new 0 2) (((((([] @ [SemSilent]) @ [SemSilent]) @ [SemSilent]) @ [SemSilent]) @ [SemSilent]) @ [SemSilent]) (two_threads 0 False 1 (FWait Block) FIdle)"
    by (rule first_moves) (use acquire_recheck [of Block "\<lparr>fx_count = 0, fx_shutdown = False, fx_waiters = 1\<rparr>"] in simp)
  then show ?thesis
    by (simp add: numeral_eq_Suc)
qed

text \<open>
  (C32) \<open>shutdown\<close> can lose its wake-up: it stores the flag and wakes the sleepers without a change of the
  futex word, so a thread that has read the flag before the store still goes to sleep after the wake, and
  nothing wakes it although \<open>shutdown\<close> has returned.
\<close>

theorem futex_shutdown_loses_wakeup:
  "\<exists>evs S. futex_exec (futex_new 0 2) evs S \<and> fx_shutdown (fs_sem S) \<and> fs_threads S = [FAsleep Block, FIdle]"
proof -
  let ?e = "replicate 6 SemSilent"
  have "futex_exec (futex_new 0 2) (?e @ [SemSilent]) (two_threads 0 True 1 (FWait Block) FWakeAll)"
    by (rule second_moves [OF about_to_wait]) (use shutdown_store [of "\<lparr>fx_count = 0, fx_shutdown = False, fx_waiters = 1\<rparr>"] in simp)
  then have "futex_exec (futex_new 0 2) ((?e @ [SemSilent]) @ [SemSilent]) (two_threads 0 True 1 (FWait Block) FIdle)"
    by (rule second_moves) (rule shutdown_wake, rule wakes_nobody, simp add: sleeping_def)
  then have "futex_exec (futex_new 0 2) (((?e @ [SemSilent]) @ [SemSilent]) @ [SemSilent]) (two_threads 0 True 1 (FAsleep Block) FIdle)"
    by (rule first_moves) (use futex_wait [of Block "\<lparr>fx_count = 0, fx_shutdown = True, fx_waiters = 1\<rparr>"] in simp)
  then show ?thesis
    by (intro exI conjI) (assumption, simp_all)
qed

theorem futex_semaphore_correct_witness:
  "\<exists>evs S. futex_exec (futex_new 0 2) evs S \<and> fs_threads S = [FAsleep Block, FIdle] \<and> available (fs_sem S) = 0"
proof -
  let ?e = "replicate 6 SemSilent @ [SemSilent]"
  have "futex_exec (futex_new 0 2) ?e (two_threads 0 False 1 (FAsleep Block) FIdle)"
    by (rule first_moves [OF about_to_wait]) (use futex_wait [of Block "\<lparr>fx_count = 0, fx_shutdown = False, fx_waiters = 1\<rparr>"] in simp)
  moreover have "released (take k ?e) = 0" for k
    by (cases "k - 6") (simp_all add: released_def take_replicate sum_list_replicate)
  then have "fits (2 ^ 31) 0 ?e"
    by (simp add: fits_def permits_def)
  ultimately show ?thesis
    using futex_semaphore_correct [of 0 2 ?e "two_threads 0 False 1 (FAsleep Block) FIdle"] by (intro exI [of _ ?e]) auto
qed

end
