(* ===== verification/Connection_Pool.thy ===== *)
theory Connection_Pool
  imports Futex_Semaphore "HOL-Library.Multiset"
begin

text \<open>
  \<open>ConnectionPool\<close> and \<open>ConnectionLease\<close> of \<open>include/store/TradeStore.h\<close>: a queue of free connections guarded
  by a mutex and counted by a \<open>FutexSemaphore\<close>.  The semaphore runs step by step below the pool, and the critical
  sections are single steps.  A connection is its position in \<open>m_all\<close>; a lease can be returned by any thread.
\<close>

section \<open>State and steps\<close>

record SQLiteConnection =
  conn_path :: string

record ConnectionPool =
  cp_all :: "SQLiteConnection list"
  cp_available :: "nat list"
  cp_sem :: FutexSemaphore

definition ConnectionPool_new :: "string \<Rightarrow> size_t \<Rightarrow> ConnectionPool result" where
  "ConnectionPool_new path sz =
     (if sz = 0 then Inl (Throws (invalid_argument ''connection pool size must be > 0''))
      else Inr \<lparr>cp_all = replicate (unat sz) \<lparr>conn_path = path\<rparr>, cp_available = [0..<unat sz],
                cp_sem = FutexSemaphore_new sz\<rparr>)"

definition pool_available :: "ConnectionPool \<Rightarrow> size_t" where
  "pool_available P = of_nat (length (cp_available P))"

text \<open>In \<open>acquire\<close> or \<open>tryAcquireFor\<close>: in the semaphore, then before the critical section.  In \<open>release\<close>: before the
  release of the semaphore, then in it.\<close>

datatype pool_pc = PIdle | PSem acquire_kind | PFront | PPushed | PRelease | PUndefined

record pool_system =
  pl_pool :: ConnectionPool
  pl_futex :: "futex_pc list"
  pl_threads :: "pool_pc list"
  pl_leases :: "nat list"

text \<open>The critical section of \<open>acquire\<close>: \<open>front\<close> of an empty queue is undefined.\<close>

fun take_front :: "ConnectionPool \<Rightarrow> (nat \<times> ConnectionPool) option" where
  "take_front P = (case cp_available P of [] \<Rightarrow> None | c # cs \<Rightarrow> Some (c, P\<lparr>cp_available := cs\<rparr>))"

definition give_back :: "nat \<Rightarrow> ConnectionPool \<Rightarrow> ConnectionPool" where
  "give_back c P = P\<lparr>cp_available := cp_available P @ [c]\<rparr>"

definition after_sem :: "acquire_kind \<Rightarrow> sem_event \<Rightarrow> pool_pc" where
  "after_sem k ev = (case ev of SemAcquired \<Rightarrow> PFront | SemRefused \<Rightarrow> (if k = Block then PFront else PIdle) | _ \<Rightarrow> PSem k)"

inductive pool_step :: "pool_system \<Rightarrow> sem_event option \<Rightarrow> pool_system \<Rightarrow> bool" where
  pool_acquire: "i < length (pl_threads S) \<Longrightarrow> pl_threads S ! i = PIdle \<Longrightarrow> k \<noteq> Try \<Longrightarrow>
    thread_step (pl_futex S ! i) (cp_sem (pl_pool S)) (pl_futex S) SemSilent (FLoad k) s ps \<Longrightarrow>
    pool_step S (Some SemSilent) (S\<lparr>pl_pool := (pl_pool S)\<lparr>cp_sem := s\<rparr>, pl_futex := ps[i := FLoad k],
      pl_threads := (pl_threads S)[i := PSem k]\<rparr>)"
| pool_sem: "i < length (pl_threads S) \<Longrightarrow> pl_threads S ! i = PSem k \<Longrightarrow>
    thread_step (pl_futex S ! i) (cp_sem (pl_pool S)) (pl_futex S) ev q s ps \<Longrightarrow>
    pool_step S (Some ev) (S\<lparr>pl_pool := (pl_pool S)\<lparr>cp_sem := s\<rparr>, pl_futex := ps[i := q],
      pl_threads := (pl_threads S)[i := after_sem k ev]\<rparr>)"
| pool_front: "i < length (pl_threads S) \<Longrightarrow> pl_threads S ! i = PFront \<Longrightarrow> take_front (pl_pool S) = Some (c, P) \<Longrightarrow>
    pool_step S None (S\<lparr>pl_pool := P, pl_leases := c # pl_leases S, pl_threads := (pl_threads S)[i := PIdle]\<rparr>)"
| pool_undefined: "i < length (pl_threads S) \<Longrightarrow> pl_threads S ! i = PFront \<Longrightarrow> take_front (pl_pool S) = None \<Longrightarrow>
    pool_step S None (S\<lparr>pl_threads := (pl_threads S)[i := PUndefined]\<rparr>)"
| pool_reset: "i < length (pl_threads S) \<Longrightarrow> pl_threads S ! i = PIdle \<Longrightarrow> c \<in> set (pl_leases S) \<Longrightarrow>
    pool_step S None (S\<lparr>pl_pool := give_back c (pl_pool S), pl_leases := remove1 c (pl_leases S),
      pl_threads := (pl_threads S)[i := PPushed]\<rparr>)"
| pool_release: "i < length (pl_threads S) \<Longrightarrow> pl_threads S ! i = PPushed \<Longrightarrow>
    thread_step (pl_futex S ! i) (cp_sem (pl_pool S)) (pl_futex S) (SemReleased 1) q s ps \<Longrightarrow>
    pool_step S (Some (SemReleased 1)) (S\<lparr>pl_pool := (pl_pool S)\<lparr>cp_sem := s\<rparr>, pl_futex := ps[i := q],
      pl_threads := (pl_threads S)[i := PRelease]\<rparr>)"
| pool_notify: "i < length (pl_threads S) \<Longrightarrow> pl_threads S ! i = PRelease \<Longrightarrow>
    thread_step (pl_futex S ! i) (cp_sem (pl_pool S)) (pl_futex S) ev q s ps \<Longrightarrow>
    pool_step S (Some ev) (S\<lparr>pl_pool := (pl_pool S)\<lparr>cp_sem := s\<rparr>, pl_futex := ps[i := q],
      pl_threads := (pl_threads S)[i := (if q = FIdle then PIdle else PRelease)]\<rparr>)"

inductive pool_exec :: "pool_system \<Rightarrow> sem_event list \<Rightarrow> pool_system \<Rightarrow> bool" for S0 where
  pool_nil: "pool_exec S0 [] S0"
| pool_snoc: "pool_exec S0 evs S \<Longrightarrow> pool_step S l S' \<Longrightarrow>
    pool_exec S0 (evs @ (case l of None \<Rightarrow> [] | Some ev \<Rightarrow> [ev])) S'"

definition pool_new :: "ConnectionPool \<Rightarrow> nat \<Rightarrow> pool_system" where
  "pool_new P n = \<lparr>pl_pool = P, pl_futex = replicate n FIdle, pl_threads = replicate n PIdle, pl_leases = []\<rparr>"

section \<open>Leases\<close>

text \<open>
  A lease holds the pool and a connection, or nothing.  \<open>reset\<close> and the move assignment tell which connection
  they hand to \<open>release\<close>; \<open>same\<close> tells that the two sides of an assignment are one object.
\<close>

record ConnectionLease =
  cl_pool :: "unit option"
  cl_conn :: "nat option"

definition empty_lease :: ConnectionLease where
  "empty_lease = \<lparr>cl_pool = None, cl_conn = None\<rparr>"

definition lease_reset :: "ConnectionLease \<Rightarrow> nat option \<times> ConnectionLease" where
  "lease_reset l = (if cl_pool l \<noteq> None \<and> cl_conn l \<noteq> None then (cl_conn l, empty_lease) else (None, l))"

definition lease_move :: "ConnectionLease \<Rightarrow> ConnectionLease \<times> ConnectionLease" where
  "lease_move other = (\<lparr>cl_pool = cl_pool other, cl_conn = cl_conn other\<rparr>, empty_lease)"

definition lease_assign :: "bool \<Rightarrow> ConnectionLease \<Rightarrow> ConnectionLease \<Rightarrow> nat option \<times> ConnectionLease \<times> ConnectionLease" where
  "lease_assign same this other =
     (if same then (None, this, other)
      else case lease_reset this of (c, l) \<Rightarrow> (c, l\<lparr>cl_pool := cl_pool other, cl_conn := cl_conn other\<rparr>, empty_lease))"

definition lease_ok :: "ConnectionLease \<Rightarrow> bool" where
  "lease_ok l \<longleftrightarrow> (cl_pool l = None \<longleftrightarrow> cl_conn l = None)"

text \<open>Moving leases around neither duplicates nor loses a connection.\<close>

lemma lease_moves:
  assumes "lease_ok this" and "lease_ok other"
  shows "lease_reset this = (c, l) \<Longrightarrow> lease_ok l \<and> cl_conn l = None \<and> c = cl_conn this"
    and "lease_move other = (l, l') \<Longrightarrow> lease_ok l \<and> lease_ok l' \<and> cl_conn l = cl_conn other \<and> cl_conn l' = None"
    and "lease_assign False this other = (c, l, l') \<Longrightarrow>
      lease_ok l \<and> lease_ok l' \<and> c = cl_conn this \<and> cl_conn l = cl_conn other \<and> cl_conn l' = None"
  using assms by (auto simp: lease_ok_def lease_reset_def lease_move_def lease_assign_def empty_lease_def split: if_splits)

section \<open>Invariant\<close>

fun kind_of :: "futex_pc \<Rightarrow> acquire_kind option" where
  "kind_of (FLoad k) = Some k"
| "kind_of (FCas k v) = Some k"
| "kind_of (FShutdown k) = Some k"
| "kind_of FClock = Some Timed"
| "kind_of (FEnter k) = Some k"
| "kind_of (FCount k) = Some k"
| "kind_of (FRecheck k) = Some k"
| "kind_of (FWait k) = Some k"
| "kind_of (FAsleep k) = Some k"
| "kind_of (FLeave k late) = (if late \<and> k \<noteq> Timed then None else Some k)"
| "kind_of _ = None"

text \<open>Where a thread of the pool is in the semaphore, and the units it holds between queue and semaphore.\<close>

fun pool_match :: "pool_pc \<Rightarrow> futex_pc \<Rightarrow> bool" where
  "pool_match (PSem k) p \<longleftrightarrow> k \<noteq> Try \<and> kind_of p = Some k"
| "pool_match PRelease p \<longleftrightarrow> p = FNotify 1 \<or> p = FWake 1"
| "pool_match PUndefined p \<longleftrightarrow> False"
| "pool_match _ p \<longleftrightarrow> p = FIdle"

fun token :: "pool_pc \<Rightarrow> nat" where
  "token PFront = 1"
| "token PPushed = 1"
| "token _ = 0"

definition pool_inv :: "nat \<Rightarrow> sem_event list \<Rightarrow> pool_system \<Rightarrow> bool" where
  "pool_inv sz evs S \<longleftrightarrow> sz < 2 ^ 31 \<and>
     futex_inv sz evs (cp_sem (pl_pool S)) (pl_futex S) \<and> \<not> fx_shutdown (cp_sem (pl_pool S)) \<and> fits (2 ^ 31) sz evs \<and>
     list_all2 pool_match (pl_threads S) (pl_futex S) \<and>
     length (cp_available (pl_pool S)) = permits sz evs + promised token (pl_threads S) \<and>
     mset (cp_available (pl_pool S)) + mset (pl_leases S) = mset [0..<sz]"

lemma sem_moves:
  assumes "thread_step p s ps ev q s' ps'" and "kind_of p = Some k" and "k \<noteq> Try" and "\<not> fx_shutdown s"
  shows "\<not> fx_shutdown s' \<and> ps' = ps \<and> (\<forall>n. ev \<noteq> SemReleased n) \<and> pool_match (after_sem k ev) q \<and>
         (ev = SemRefused \<longrightarrow> k \<noteq> Block)"
  using assms by cases (auto simp: observed_pc_def observed_event_def after_sem_def split: if_splits)

lemma release_moves:
  assumes "thread_step p s ps ev q s' ps'" and "p = FNotify 1 \<or> p = FWake 1"
  shows "fx_shutdown s' = fx_shutdown s \<and> ev = SemSilent \<and> (q = FIdle \<or> q = FWake 1) \<and>
         (ps' = ps \<or> (\<exists>n. wakes futex_asleep futex_woken n ps ps'))"
  using assms by cases auto

lemma match_wakes:
  "wakes futex_asleep futex_woken n ps ps' \<Longrightarrow> list_all2 pool_match ts ps \<Longrightarrow> list_all2 pool_match ts ps'"
proof (induction rule: wakes.induct)
  case (wakes_one i ps n ps')
  have "pool_match t (futex_woken p)" if "pool_match t p" "futex_asleep p" for t p
    using that by (cases t; cases p) auto
  then have "list_all2 pool_match ts (ps[i := futex_woken (ps ! i)])"
    using wakes_one.hyps(1,2) wakes_one.prems by (auto simp: list_all2_conv_all_nth nth_list_update)
  then show ?case
    by (rule wakes_one.IH)
qed simp_all

lemma match_update: "list_all2 pool_match ts ps \<Longrightarrow> pool_match t q \<Longrightarrow> list_all2 pool_match (ts[i := t]) (ps[i := q])"
  by (rule list_all2_update_cong)

text \<open>A step of the semaphore below the pool that moves no queued connection.\<close>

lemma pool_sem_inv:
  assumes inv: "pool_inv sz evs S" and i: "i < length (pl_threads S)"
    and step: "thread_step (pl_futex S ! i) (cp_sem (pl_pool S)) (pl_futex S) ev q s ps"
    and sd: "\<not> fx_shutdown s" and match: "list_all2 pool_match (pl_threads S) ps" "pool_match t q"
    and tok: "permits sz (evs @ [ev]) + token t = permits sz evs + token (pl_threads S ! i)"
  shows "pool_inv sz (evs @ [ev]) (S\<lparr>pl_pool := (pl_pool S)\<lparr>cp_sem := s\<rparr>, pl_futex := ps[i := q], pl_threads := (pl_threads S)[i := t]\<rparr>)"
proof -
  have v: "sz < 2 ^ 31" "futex_inv sz evs (cp_sem (pl_pool S)) (pl_futex S)" "fits (2 ^ 31) sz evs"
      "list_all2 pool_match (pl_threads S) (pl_futex S)"
      "length (cp_available (pl_pool S)) = permits sz evs + promised token (pl_threads S)"
      "mset (cp_available (pl_pool S)) + mset (pl_leases S) = mset [0..<sz]"
    using inv by (simp_all add: pool_inv_def)
  have j: "i < length (pl_futex S)"
    using i v(4) list_all2_lengthD by fastforce
  have u: "promised token ((pl_threads S)[i := t]) + token (pl_threads S ! i) = promised token (pl_threads S) + token t"
    by (rule promised_update [OF i])
  then have a: "length (cp_available (pl_pool S)) = permits sz (evs @ [ev]) + promised token ((pl_threads S)[i := t])"
    using tok v(5) by linarith
  have "size (mset (cp_available (pl_pool S)) + mset (pl_leases S)) = sz"
    unfolding v(6) by simp
  then have "length (cp_available (pl_pool S)) \<le> sz"
    by simp
  then have "fits (2 ^ 31) sz (evs @ [ev])"
    using v(1,3) a by (simp add: fits_snoc)
  then show ?thesis
    using futex_inv_step [OF v(2) j step] v(1,6) a sd match_update [OF match] by (simp add: pool_inv_def)
qed

lemma sem_takes:
  assumes inv: "pool_inv sz evs S" and i: "i < length (pl_threads S)"
    and step: "thread_step (pl_futex S ! i) (cp_sem (pl_pool S)) (pl_futex S) SemAcquired q s ps"
  shows "acquired evs < sz + released evs"
proof -
  have v: "futex_inv sz evs (cp_sem (pl_pool S)) (pl_futex S)" "fits (2 ^ 31) sz evs"
    using inv by (simp_all add: pool_inv_def)
  have j: "i < length (pl_futex S)"
    using i inv list_all2_lengthD by (fastforce simp: pool_inv_def)
  have "permits sz (evs @ [SemAcquired]) < 2 ^ 31"
    using fits_end [OF v(2)] by (simp add: permits_def released_snoc acquired_snoc)
  then have "acquired (evs @ [SemAcquired]) \<le> sz + released (evs @ [SemAcquired])"
    using futex_inv_step [OF v(1) j step] v(2) by (simp add: futex_inv_def futex_good_def fits_snoc)
  then show ?thesis
    by (simp add: released_snoc acquired_snoc)
qed

lemma match_here:
  "list_all2 pool_match ts ps \<Longrightarrow> i < length ts \<Longrightarrow> pool_match t (ps ! i) \<Longrightarrow> list_all2 pool_match (ts[i := t]) ps"
  by (auto simp: list_all2_conv_all_nth nth_list_update)

lemma pool_inv_step:
  assumes inv: "pool_inv sz evs S" and step: "pool_step S l S'"
  shows "pool_inv sz (evs @ (case l of None \<Rightarrow> [] | Some ev \<Rightarrow> [ev])) S'"
proof -
  let ?s = "cp_sem (pl_pool S)"
  have v: "\<not> fx_shutdown ?s" "list_all2 pool_match (pl_threads S) (pl_futex S)" "futex_good sz evs ?s (pl_futex S)"
      "length (cp_available (pl_pool S)) = permits sz evs + promised token (pl_threads S)"
      "mset (cp_available (pl_pool S)) + mset (pl_leases S) = mset [0..<sz]"
    using inv by (simp_all add: pool_inv_def futex_inv_def)
  have m: "pool_match (pl_threads S ! i) (pl_futex S ! i)" if "i < length (pl_threads S)" for i
    using v(2) that by (simp add: list_all2_conv_all_nth)
  have quiet: "permits sz (evs @ [ev]) = permits sz evs" if "\<forall>n. ev \<noteq> SemReleased n" "ev \<noteq> SemAcquired" for ev
    using that by (auto simp: permits_def released_snoc acquired_snoc split: sem_event.split)
  show ?thesis
    using step
  proof cases
    case (pool_acquire i k s ps)
    then have "ps = pl_futex S \<and> s = ?s"
      using m [of i] by (auto elim: thread_step.cases)
    then show ?thesis
      using pool_acquire pool_sem_inv [OF inv pool_acquire(3,6), of "PSem k"] v(1,2) quiet by simp
  next
    case (pool_sem i k ev q s ps)
    have mv: "\<not> fx_shutdown s" "ps = pl_futex S" "\<forall>n. ev \<noteq> SemReleased n" "pool_match (after_sem k ev) q" "ev = SemRefused \<longrightarrow> k \<noteq> Block"
      using sem_moves [OF pool_sem(5), of k] m [OF pool_sem(3)] pool_sem(4) v(1) by auto
    have "permits sz (evs @ [ev]) + token (after_sem k ev) = permits sz evs + token (pl_threads S ! i)"
    proof (cases "ev = SemAcquired")
      case True
      have "acquired evs < sz + released evs"
        using sem_takes [OF inv pool_sem(3)] pool_sem(5) True by blast
      then show ?thesis
        using True pool_sem(4) by (simp add: after_sem_def permits_def released_snoc acquired_snoc)
    next
      case False
      then show ?thesis
        using mv pool_sem(4) quiet [of ev] by (cases ev) (auto simp: after_sem_def)
    qed
    then show ?thesis
      using pool_sem pool_sem_inv [OF inv pool_sem(3,5) mv(1), of "after_sem k ev"] v(2) mv by simp
  next
    case (pool_front i c P)
    then obtain cs where cs: "cp_available (pl_pool S) = c # cs" "P = (pl_pool S)\<lparr>cp_available := cs\<rparr>"
      by (auto split: list.splits)
    have "promised token ((pl_threads S)[i := PIdle]) + 1 = promised token (pl_threads S)"
      using promised_update [OF pool_front(3), of token PIdle] pool_front(4) by simp
    moreover have "list_all2 pool_match ((pl_threads S)[i := PIdle]) (pl_futex S)"
      using match_here [OF v(2) pool_front(3)] m [OF pool_front(3)] pool_front(4) by simp
    ultimately show ?thesis
      using inv v(4,5) cs pool_front(1,2) by (simp add: pool_inv_def)
  next
    case (pool_undefined i)
    have "0 < promised token (pl_threads S)"
      using promise_le [OF pool_undefined(3), of token] pool_undefined(4) by simp
    then show ?thesis
      using v(4) pool_undefined(5) by (simp split: list.splits)
  next
    case (pool_reset i c)
    then have "promised token ((pl_threads S)[i := PPushed]) = promised token (pl_threads S) + 1"
      using promised_update [OF pool_reset(3), of token PPushed] by simp
    moreover have "list_all2 pool_match ((pl_threads S)[i := PPushed]) (pl_futex S)"
      using match_here [OF v(2) pool_reset(3)] m [OF pool_reset(3)] pool_reset(4) by simp
    moreover have "mset (cp_available (pl_pool S) @ [c]) + mset (remove1 c (pl_leases S)) = mset [0..<sz]"
    proof -
      have "mset (cp_available (pl_pool S) @ [c]) + mset (remove1 c (pl_leases S)) =
          mset (cp_available (pl_pool S)) + add_mset c (mset (remove1 c (pl_leases S)))"
        by (simp del: mset_remove1)
      also have "add_mset c (mset (remove1 c (pl_leases S))) = mset (pl_leases S)"
        using pool_reset(5) by simp
      finally show ?thesis
        using v(5) by simp
    qed
    ultimately show ?thesis
      using inv v(4) pool_reset(1,2) by (simp add: pool_inv_def give_back_def del: mset_remove1 mset_append)
  next
    case (pool_release i q s ps)
    then have "pl_futex S ! i = FIdle"
      using m [of i] by simp
    then have r: "ps = pl_futex S" "q = FNotify 1" "fx_shutdown s = fx_shutdown ?s"
      using pool_release(5) by (auto elim: thread_step.cases)
    have "acquired evs \<le> sz + released evs"
      using v(3) by (simp add: futex_good_def)
    then have "permits sz (evs @ [SemReleased 1]) = permits sz evs + 1"
      by (simp add: permits_def released_snoc acquired_snoc)
    then show ?thesis
      using pool_release pool_sem_inv [OF inv pool_release(3,5), of PRelease] v(1,2) r by simp
  next
    case (pool_notify i ev q s ps)
    have r: "fx_shutdown s = fx_shutdown ?s" "ev = SemSilent" "q = FIdle \<or> q = FWake 1" "ps = pl_futex S \<or> (\<exists>n. wakes futex_asleep futex_woken n (pl_futex S) ps)"
      using release_moves [OF pool_notify(5)] m [OF pool_notify(3)] pool_notify(4) by auto
    have "list_all2 pool_match (pl_threads S) ps"
      using r(4) v(2) match_wakes by auto
    then show ?thesis
      using pool_notify pool_sem_inv [OF inv pool_notify(3,5), of "if q = FIdle then PIdle else PRelease"] v(1) r quiet by auto
  qed
qed

lemma pool_inv_exec:
  assumes "pool_exec S0 evs S" and "pool_inv sz [] S0"
  shows "pool_inv sz evs S"
  using assms(1) by (induction) (use assms(2) pool_inv_step in auto)

lemma pool_inv_new:
  assumes "ConnectionPool_new path sz = Inr P" and "unat sz < 2 ^ 31" and "n < 2 ^ 31"
  shows "pool_inv (unat sz) [] (pool_new P n)"
proof -
  have "promised token (replicate n PIdle) = 0"
    by (simp add: promised_def sum_list_replicate)
  then show ?thesis
    using assms futex_inv_new [OF assms(3), of sz]
    by (auto simp: pool_inv_def pool_new_def ConnectionPool_new_def FutexSemaphore_new_def fits_def permits_def released_def
        acquired_def list_all2_conv_all_nth split: if_splits)
qed

lemma pool_exec_length: "pool_exec S0 evs S \<Longrightarrow> length (pl_threads S) = length (pl_threads S0)"
proof (induction rule: pool_exec.induct)
  case (pool_snoc evs S l S')
  from pool_snoc(2) show ?case
    by cases (use pool_snoc.IH in simp_all)
qed simp

lemma pool_quiescent:
  assumes inv: "pool_inv sz evs S"
    and quiet: "\<forall>i<length (pl_threads S). pl_threads S ! i = PIdle \<or> futex_asleep (pl_futex S ! i)"
    and asleep: "i < length (pl_threads S)" "futex_asleep (pl_futex S ! i)"
  shows "cp_available (pl_pool S) = []"
proof -
  have v: "list_all2 pool_match (pl_threads S) (pl_futex S)" "futex_good sz evs (cp_sem (pl_pool S)) (pl_futex S)"
      "length (cp_available (pl_pool S)) = permits sz evs + promised token (pl_threads S)"
    using inv by (simp_all add: pool_inv_def futex_inv_def)
  have l: "length (pl_futex S) = length (pl_threads S)"
    using v(1) list_all2_lengthD by fastforce
  have both: "token (pl_threads S ! j) = 0" "futex_promise (pl_futex S ! j) = 0" if j: "j < length (pl_threads S)" for j
  proof -
    have "pool_match (pl_threads S ! j) (pl_futex S ! j)"
      using v(1) j by (simp add: list_all2_conv_all_nth)
    then show "token (pl_threads S ! j) = 0" "futex_promise (pl_futex S ! j) = 0"
      using quiet j futex.asleep_promise by (cases "pl_threads S ! j"; auto)+
  qed
  then have "\<forall>t\<in>set (pl_threads S). token t = 0" "\<forall>p\<in>set (pl_futex S). futex_promise p = 0"
    using l by (auto simp: in_set_conv_nth)
  moreover have "sleeping futex_asleep (pl_futex S)"
    using asleep l nth_mem by (fastforce simp: sleeping_def)
  moreover have "promised token ts = 0" if "\<forall>t\<in>set ts. token t = 0" for ts
    using that by (induction ts) (simp_all add: promised_def)
  ultimately show ?thesis
    using v(3) futex.quiescent [of "pl_futex S" "int (permits sz evs)"] v(2) by (simp add: futex_good_def)
qed

section \<open>Properties\<close>

text \<open>
  (C25) Under every interleaving of any number of threads that take leases and return them: no thread ever
  reads the front of an empty queue, every connection is at all times either in the queue once or leased once
  and never both, and when every thread is outside the pool or asleep and one is asleep, all connections are leased.
\<close>

theorem connection_pool_correct:
  assumes "ConnectionPool_new path sz = Inr P" and "unat sz < 2 ^ 31" and "n < 2 ^ 31" and "pool_exec (pool_new P n) evs S"
  shows "PUndefined \<notin> set (pl_threads S) \<and>
         mset (cp_available (pl_pool S)) + mset (pl_leases S) = mset [0..<unat sz] \<and>
         distinct (cp_available (pl_pool S) @ pl_leases S) \<and>
         ((\<forall>i<n. pl_threads S ! i = PIdle \<or> futex_asleep (pl_futex S ! i)) \<and> (\<exists>i<n. futex_asleep (pl_futex S ! i)) \<longrightarrow>
            pool_available (pl_pool S) = 0)"
proof -
  have inv: "pool_inv (unat sz) evs S"
    using pool_inv_exec [OF assms(4) pool_inv_new [OF assms(1-3)]] .
  have m: "list_all2 pool_match (pl_threads S) (pl_futex S)"
      and ms: "mset (cp_available (pl_pool S)) + mset (pl_leases S) = mset [0..<unat sz]"
    using inv by (simp_all add: pool_inv_def)
  have "PUndefined \<notin> set (pl_threads S)"
    using m by (auto simp: list_all2_conv_all_nth in_set_conv_nth)
  moreover have "mset (cp_available (pl_pool S) @ pl_leases S) = mset [0..<unat sz]"
    using ms by simp
  then have "distinct (cp_available (pl_pool S) @ pl_leases S)"
    using distinct_upt mset_eq_imp_distinct_iff by blast
  moreover have "length (pl_threads S) = n"
    using pool_exec_length [OF assms(4)] by (simp add: pool_new_def)
  ultimately show ?thesis
    using ms pool_quiescent [OF inv] by (auto simp: pool_available_def)
qed

section \<open>One lease\<close>

abbreviation (input) one_thread :: "nat list \<Rightarrow> 32 word \<Rightarrow> futex_pc \<Rightarrow> pool_pc \<Rightarrow> nat list \<Rightarrow> pool_system" where
  "one_thread av c p t ls \<equiv>
     \<lparr>pl_pool = \<lparr>cp_all = [\<lparr>conn_path = ''s''\<rparr>], cp_available = av, cp_sem = \<lparr>fx_count = c, fx_shutdown = False, fx_waiters = 0\<rparr>\<rparr>,
      pl_futex = [p], pl_threads = [t], pl_leases = ls\<rparr>"

lemma one_lease:
  assumes "S0 = one_thread [0] 1 FIdle PIdle []"
  shows "pool_exec S0 [SemSilent, SemSilent, SemAcquired] (one_thread [] 0 FIdle PIdle [0])"
proof -
  have "thread_step FIdle \<lparr>fx_count = 1, fx_shutdown = False, fx_waiters = 0\<rparr> [FIdle] SemSilent (FLoad Block)
      \<lparr>fx_count = 1, fx_shutdown = False, fx_waiters = 0\<rparr> [FIdle]"
    by (rule acquire_call)
  then have "pool_step S0 (Some SemSilent) (one_thread [0] 1 (FLoad Block) (PSem Block) [])"
    using pool_acquire [of 0 S0 Block] assms by fastforce
  then have e1: "pool_exec S0 [SemSilent] (one_thread [0] 1 (FLoad Block) (PSem Block) [])"
    using pool_snoc [OF pool_nil] by fastforce
  have "thread_step (FLoad Block) \<lparr>fx_count = 1, fx_shutdown = False, fx_waiters = 0\<rparr> [FLoad Block] SemSilent (FCas Block 1)
      \<lparr>fx_count = 1, fx_shutdown = False, fx_waiters = 0\<rparr> [FLoad Block]"
    using acquire_load [of Block "\<lparr>fx_count = 1, fx_shutdown = False, fx_waiters = 0\<rparr>"] by (simp add: observed_pc_def observed_event_def)
  then have "pool_step (one_thread [0] 1 (FLoad Block) (PSem Block) []) (Some SemSilent) (one_thread [0] 1 (FCas Block 1) (PSem Block) [])"
    using pool_sem [of 0 "one_thread [0] 1 (FLoad Block) (PSem Block) []" Block SemSilent] by (fastforce simp: after_sem_def)
  then have e2: "pool_exec S0 [SemSilent, SemSilent] (one_thread [0] 1 (FCas Block 1) (PSem Block) [])"
    using pool_snoc [OF e1] by fastforce
  have "thread_step (FCas Block 1) \<lparr>fx_count = 1, fx_shutdown = False, fx_waiters = 0\<rparr> [FCas Block 1] SemAcquired FIdle
      \<lparr>fx_count = 0, fx_shutdown = False, fx_waiters = 0\<rparr> [FCas Block 1]"
    using acquire_cas [of "\<lparr>fx_count = 1, fx_shutdown = False, fx_waiters = 0\<rparr>" 1 Block] by simp
  then have "pool_step (one_thread [0] 1 (FCas Block 1) (PSem Block) []) (Some SemAcquired) (one_thread [0] 0 FIdle PFront [])"
    using pool_sem [of 0 "one_thread [0] 1 (FCas Block 1) (PSem Block) []" Block SemAcquired] by (fastforce simp: after_sem_def)
  then have e3: "pool_exec S0 [SemSilent, SemSilent, SemAcquired] (one_thread [0] 0 FIdle PFront [])"
    using pool_snoc [OF e2] by fastforce
  have "pool_step (one_thread [0] 0 FIdle PFront []) None (one_thread [] 0 FIdle PIdle [0])"
    using pool_front [of 0 "one_thread [0] 0 FIdle PFront []"] by fastforce
  then show ?thesis
    using pool_snoc [OF e3] by fastforce
qed

theorem connection_pool_correct_witness:
  "\<exists>P evs S. ConnectionPool_new ''s'' 1 = Inr P \<and> pool_exec (pool_new P 1) evs S \<and> pl_leases S = [0] \<and> cp_available (pl_pool S) = []"
proof -
  obtain P where P: "ConnectionPool_new ''s'' 1 = Inr P"
    by (simp add: ConnectionPool_new_def)
  have "pool_new P 1 = one_thread [0] 1 FIdle PIdle []"
    using P by (auto simp: pool_new_def ConnectionPool_new_def FutexSemaphore_new_def)
  then have e: "pool_exec (pool_new P 1) [SemSilent, SemSilent, SemAcquired] (one_thread [] 0 FIdle PIdle [0])" (is "pool_exec _ _ ?S")
    by (rule one_lease)
  have "mset (cp_available (pl_pool ?S)) + mset (pl_leases ?S) = mset [0..<unat (1 :: size_t)]"
    using connection_pool_correct [OF P _ _ e] by simp
  then show ?thesis
    using P e by (intro exI [of _ P] exI [of _ "[SemSilent, SemSilent, SemAcquired]"] exI [of _ ?S]) simp
qed

end
