(* ===== verification/Monitors.thy ===== *)
theory Monitors
  imports Wait_Queue
begin

text \<open>
  The classes built on a mutex and a condition variable: \<open>include/infra/CvSemaphore.h\<close>,
  \<open>include/infra/ThreadSafeQueue.h\<close> and \<open>include/infra/Eventcount.h\<close>.  A critical section is one step, and so
  is each notification, which the code issues outside the lock.  A waiter blocks in the step in which it finds its
  predicate false, gets notified or wakes by itself, and then evaluates the predicate again.
\<close>

section \<open>The semaphore\<close>

record CvSemaphore =
  cv_count :: size_t
  cv_shutdown :: bool

datatype cv_pc = CIdle | CWaiting bool | CWoken bool | CExpired | CNotify nat | CNotifyAll

fun cv_asleep :: "cv_pc \<Rightarrow> bool" where
  "cv_asleep (CWaiting timed) = True"
| "cv_asleep _ = False"

fun cv_woken :: "cv_pc \<Rightarrow> cv_pc" where
  "cv_woken (CWaiting timed) = CWoken timed"
| "cv_woken p = p"

text \<open>Under the lock: \<open>tryAcquire\<close>; the wait of \<open>acquire\<close> and \<open>tryAcquireFor\<close> with what follows it.\<close>

definition cv_tryAcquire :: "CvSemaphore \<Rightarrow> sem_event \<times> CvSemaphore" where
  "cv_tryAcquire s = (if cv_count s = 0 then (SemRefused, s) else (SemAcquired, s\<lparr>cv_count := cv_count s - 1\<rparr>))"

definition cv_acquire :: "bool \<Rightarrow> CvSemaphore \<Rightarrow> sem_event \<times> cv_pc \<times> CvSemaphore" where
  "cv_acquire timed s =
     (if cv_count s > 0 \<or> cv_shutdown s then (case cv_tryAcquire s of (ev, s') \<Rightarrow> (ev, CIdle, s'))
      else (SemSilent, CWaiting timed, s))"

definition cv_available :: "CvSemaphore \<Rightarrow> size_t" where
  "cv_available s = cv_count s"

inductive cv_step :: "cv_pc \<Rightarrow> CvSemaphore \<Rightarrow> cv_pc list \<Rightarrow> sem_event \<Rightarrow> cv_pc \<Rightarrow> CvSemaphore \<Rightarrow> cv_pc list \<Rightarrow> bool" where
  cv_release: "cv_step CIdle s ps (SemReleased n) (CNotify (unat n)) (s\<lparr>cv_count := cv_count s + n\<rparr>) ps"
| cv_notified: "cv_step (CNotify 0) s ps SemSilent CIdle s ps"
| cv_notify_one: "wakes cv_asleep cv_woken 1 ps ps' \<Longrightarrow> cv_step (CNotify (Suc n)) s ps SemSilent (CNotify n) s ps'"
| cv_try: "cv_tryAcquire s = (ev, s') \<Longrightarrow> cv_step CIdle s ps ev CIdle s' ps"
| cv_lock: "cv_acquire timed s = (ev, q, s') \<Longrightarrow> cv_step CIdle s ps ev q s' ps"
| cv_relock: "cv_acquire timed s = (ev, q, s') \<Longrightarrow> cv_step (CWoken timed) s ps ev q s' ps"
| cv_spurious: "cv_step (CWaiting timed) s ps SemSilent (CWoken timed) s ps"
| cv_expire: "cv_step (CWaiting True) s ps SemSilent CExpired s ps"
| cv_expired: "cv_tryAcquire s = (ev, s') \<Longrightarrow> cv_step CExpired s ps ev CIdle s' ps"
| cv_shut: "cv_step CIdle s ps SemSilent CNotifyAll (s\<lparr>cv_shutdown := True\<rparr>) ps"
| cv_notify_all: "cv_step CNotifyAll s ps SemSilent CIdle s (wake_all cv_asleep cv_woken ps)"

inductive cv_exec :: "CvSemaphore \<Rightarrow> cv_pc list \<Rightarrow> sem_event list \<Rightarrow> CvSemaphore \<Rightarrow> cv_pc list \<Rightarrow> bool" for s0 ps0 where
  cv_nil: "cv_exec s0 ps0 [] s0 ps0"
| cv_snoc: "cv_exec s0 ps0 evs s ps \<Longrightarrow> i < length ps \<Longrightarrow> cv_step (ps ! i) s ps ev q s' ps' \<Longrightarrow>
    cv_exec s0 ps0 (evs @ [ev]) s' (ps'[i := q])"

definition CvSemaphore_new :: "size_t \<Rightarrow> CvSemaphore" where
  "CvSemaphore_new initial = \<lparr>cv_count = initial, cv_shutdown = False\<rparr>"

fun cv_promise :: "cv_pc \<Rightarrow> nat" where
  "cv_promise (CNotify n) = n"
| "cv_promise (CWoken timed) = 1"
| "cv_promise _ = 0"

interpretation cv: wait_queue cv_asleep cv_woken cv_promise
proof
  fix p :: cv_pc
  assume "cv_asleep p"
  then show "cv_promise p = 0" "\<not> cv_asleep (cv_woken p)" "cv_promise (cv_woken p) = 1"
    by (cases p; simp)+
qed

definition cv_good :: "nat \<Rightarrow> sem_event list \<Rightarrow> CvSemaphore \<Rightarrow> cv_pc list \<Rightarrow> bool" where
  "cv_good initial evs s ps \<longleftrightarrow> acquired evs \<le> initial + released evs \<and> cv_count s = of_nat (permits initial evs) \<and>
     no_lost_wakeup cv_asleep cv_promise ps (int (permits initial evs)) \<and>
     cv.announced CNotifyAll (cv_shutdown s) ps"

text \<open>The steps by what they do to the permits.\<close>

lemma cv_take:
  assumes good: "cv_good initial evs s ps" and fit: "permits initial evs < 2 ^ 64" and i: "i < length ps"
    and p: "cv_promise (ps ! i) \<le> 1" "ps ! i \<noteq> CNotifyAll" and take: "cv_tryAcquire s = (ev, s')"
  shows "cv_good initial (evs @ [ev]) s' (ps[i := CIdle])"
proof -
  have g: "acquired evs \<le> initial + released evs" "cv_count s = of_nat (permits initial evs)"
      "no_lost_wakeup cv_asleep cv_promise ps (int (permits initial evs))" "cv.announced CNotifyAll (cv_shutdown s) ps"
    using good by (simp_all add: cv_good_def)
  have n: "unat (cv_count s) = permits initial evs"
    using g(2) fit by (simp add: unat_of_nat take_bit_eq_mod)
  have a: "cv.announced CNotifyAll (cv_shutdown s') (ps[i := CIdle])"
    using take cv.announced_local [OF g(4) i p(2), of CIdle] by (auto simp: cv_tryAcquire_def split: if_splits)
  show ?thesis
  proof (cases "cv_count s = 0")
    case True
    then have "ev = SemRefused" "s' = s" "permits initial evs = 0"
      using take n by (simp_all add: cv_tryAcquire_def)
    moreover have "no_lost_wakeup cv_asleep cv_promise (ps[i := CIdle]) 0"
      using \<open>permits initial evs = 0\<close> cv.local_step [OF g(3) i, of CIdle 0] by simp
    ultimately show ?thesis
      using g a by (simp add: cv_good_def permits_def released_snoc acquired_snoc)
  next
    case False
    then have ev: "ev = SemAcquired" "s' = s\<lparr>cv_count := cv_count s - 1\<rparr>"
      using take by (simp_all add: cv_tryAcquire_def)
    have "permits initial evs \<noteq> 0"
      using False n by (metis unat_eq_zero)
    then have q: "permits initial evs = Suc (permits initial (evs @ [ev]))" "acquired evs < initial + released evs"
      using ev(1) by (simp_all add: permits_def released_snoc acquired_snoc)
    have "no_lost_wakeup cv_asleep cv_promise (ps[i := CIdle]) (int (permits initial (evs @ [ev])))"
      using q(1) p(1) by (intro cv.local_step [OF g(3) i]) simp_all
    then show ?thesis
      using g q ev a by (simp add: cv_good_def released_snoc acquired_snoc)
  qed
qed

lemma cv_quiet:
  assumes good: "cv_good initial evs s ps" and i: "i < length ps" and p: "ps ! i \<noteq> CNotifyAll"
    and promise: "permits initial evs = 0 \<or> cv_promise (ps ! i) \<le> cv_promise q"
    and asleep: "cv_asleep q \<Longrightarrow> permits initial evs = 0 \<and> \<not> cv_shutdown s"
  shows "cv_good initial (evs @ [SemSilent]) s (ps[i := q])"
proof -
  have g: "no_lost_wakeup cv_asleep cv_promise ps (int (permits initial evs))" "cv.announced CNotifyAll (cv_shutdown s) ps"
    using good by (simp_all add: cv_good_def)
  have "no_lost_wakeup cv_asleep cv_promise (ps[i := q]) (int (permits initial evs))"
    using promise asleep by (intro cv.local_step [OF g(1) i]) auto
  moreover have "cv.announced CNotifyAll (cv_shutdown s) (ps[i := q])"
    using asleep by (intro cv.announced_local [OF g(2) i p]) simp
  ultimately show ?thesis
    using good by (simp add: cv_good_def permits_def released_snoc acquired_snoc)
qed

lemma cv_wait:
  assumes good: "cv_good initial evs s ps" and fit: "permits initial evs < 2 ^ 64" and i: "i < length ps"
    and p: "cv_promise (ps ! i) \<le> 1" "ps ! i \<noteq> CNotifyAll" and acq: "cv_acquire timed s = (ev, q, s')"
  shows "cv_good initial (evs @ [ev]) s' (ps[i := q])"
proof (cases "cv_count s > 0 \<or> cv_shutdown s")
  case True
  then show ?thesis
    using cv_take [OF good fit i p] acq by (auto simp: cv_acquire_def split: prod.splits)
next
  case False
  have "unat (cv_count s) = permits initial evs"
    using good fit by (simp add: cv_good_def unat_of_nat take_bit_eq_mod)
  then have "permits initial evs = 0"
    using False by (simp add: word_less_nat_alt)
  then show ?thesis
    using cv_quiet [OF good i p(2), of q] False acq by (auto simp: cv_acquire_def)
qed

lemma cv_good_step:
  assumes good: "cv_good initial evs s ps" and fit: "permits initial evs < 2 ^ 64"
    and i: "i < length ps" and step: "cv_step (ps ! i) s ps ev q s' ps'"
  shows "cv_good initial (evs @ [ev]) s' (ps'[i := q])"
proof -
  have g: "acquired evs \<le> initial + released evs" "no_lost_wakeup cv_asleep cv_promise ps (int (permits initial evs))"
      "cv.announced CNotifyAll (cv_shutdown s) ps"
    using good by (simp_all add: cv_good_def)
  show ?thesis
    using step
  proof cases
    case (cv_release n)
    have "permits initial (evs @ [SemReleased n]) = permits initial evs + unat n"
      using g(1) by (simp add: permits_def released_snoc acquired_snoc)
    moreover have "no_lost_wakeup cv_asleep cv_promise (ps[i := CNotify (unat n)]) (int (permits initial evs + unat n))"
      using cv_release by (intro cv.local_step [OF g(2) i]) simp_all
    moreover have "cv.announced CNotifyAll (cv_shutdown s) (ps[i := CNotify (unat n)])"
      using cv_release by (intro cv.announced_local [OF g(3) i]) simp_all
    ultimately show ?thesis
      using good cv_release by (simp add: cv_good_def released_snoc acquired_snoc)
  next
    case (cv_notify_one n)
    have l: "length ps' = length ps" "ps' ! i = ps ! i"
      using cv.wakes_keep [OF cv_notify_one(5)] i cv_notify_one(1) by auto
    have "no_lost_wakeup cv_asleep cv_promise (ps'[i := CNotify n]) (int (permits initial evs))"
      using cv_notify_one by (intro cv.wake_step [OF g(2) i cv_notify_one(5)]) simp_all
    moreover have "cv.announced CNotifyAll (cv_shutdown s) (ps'[i := CNotify n])"
      using l i cv_notify_one(1) by (intro cv.announced_local [OF cv.announced_wakes [OF g(3) cv_notify_one(5)]]) simp_all
    ultimately show ?thesis
      using good cv_notify_one by (simp add: cv_good_def permits_def released_snoc acquired_snoc)
  next
    case cv_notify_all
    have "\<not> sleeping cv_asleep ((wake_all cv_asleep cv_woken ps)[i := CIdle])"
      by (rule cv.wake_all_step [OF _ i]) simp
    then show ?thesis
      using good cv_notify_all
      by (simp add: cv_good_def no_lost_wakeup_def cv.announced_def permits_def released_snoc acquired_snoc)
  next
    case cv_shut
    have "no_lost_wakeup cv_asleep cv_promise (ps[i := CNotifyAll]) (int (permits initial evs))"
      using cv_shut by (intro cv.local_step [OF g(2) i]) simp_all
    then show ?thesis
      using good cv_shut i by (simp add: cv_good_def cv.announced_def permits_def released_snoc acquired_snoc set_update_memI)
  next
    case cv_notified
    then show ?thesis
      using cv_quiet [OF good i, of CIdle] by simp
  next
    case cv_try
    then show ?thesis
      using cv_take [OF good fit i] by simp
  next
    case (cv_lock timed)
    then show ?thesis
      using cv_wait [OF good fit i] by simp
  next
    case (cv_relock timed)
    then show ?thesis
      using cv_wait [OF good fit i] by simp
  next
    case (cv_spurious timed)
    then show ?thesis
      using cv_quiet [OF good i, of "CWoken timed"] by simp
  next
    case cv_expire
    then show ?thesis
      using cv_quiet [OF good i, of CExpired] by simp
  next
    case cv_expired
    then show ?thesis
      using cv_take [OF good fit i] by simp
  qed
qed

lemma cv_good_exec:
  assumes "cv_exec s0 ps0 evs s ps" and "cv_good initial [] s0 ps0" and "fits (2 ^ 64) initial evs"
  shows "cv_good initial evs s ps"
  using assms(1,3)
proof (induction rule: cv_exec.induct)
  case cv_nil
  then show ?case using assms(2) by simp
next
  case (cv_snoc evs s ps i ev q s' ps')
  then have "fits (2 ^ 64) initial evs"
    by (simp add: fits_snoc)
  then show ?case
    using cv_good_step [OF cv_snoc.IH _ cv_snoc(2,3)] fits_end by blast
qed

text \<open>
  (C27) The condition-variable semaphore conserves permits and loses neither a release nor a shutdown, under
  every interleaving: no more permits are taken than were put in, the rest is what \<open>available\<close> reports, and when every thread
  is either outside or asleep and one is asleep, no permit is left and \<open>shutdown\<close> has not been called.
\<close>

theorem cv_semaphore_correct:
  assumes "cv_exec (CvSemaphore_new initial) (replicate n CIdle) evs s ps" and "fits (2 ^ 64) (unat initial) evs"
  shows "acquired evs \<le> unat initial + released evs \<and> unat (cv_available s) = unat initial + released evs - acquired evs \<and>
         ((\<forall>p\<in>set ps. p = CIdle \<or> cv_asleep p) \<and> (\<exists>p\<in>set ps. cv_asleep p) \<longrightarrow> cv_available s = 0 \<and> \<not> cv_shutdown s)"
proof -
  have "\<not> sleeping cv_asleep (replicate n CIdle)"
    by (auto simp: sleeping_def)
  then have "cv_good (unat initial) [] (CvSemaphore_new initial) (replicate n CIdle)"
    by (simp add: cv_good_def CvSemaphore_new_def acquired_def released_def permits_def no_lost_wakeup_def cv.announced_def)
  then have good: "cv_good (unat initial) evs s ps"
    using cv_good_exec assms by blast
  let ?P = "permits (unat initial) evs"
  have c: "unat (cv_count s) = ?P"
    using good fits_end [OF assms(2)] by (simp add: cv_good_def unat_of_nat take_bit_eq_mod)
  moreover have "?P = 0 \<and> \<not> cv_shutdown s" if "\<forall>p\<in>set ps. p = CIdle \<or> cv_asleep p" "sleeping cv_asleep ps"
  proof -
    have "\<forall>p\<in>set ps. cv_promise p = 0"
      using that(1) cv.asleep_promise by fastforce
    then show ?thesis
      using cv.quiescent [of ps "int ?P", OF _ that(2)] that good by (auto simp: cv_good_def cv.announced_def)
  qed
  moreover have "acquired evs \<le> unat initial + released evs"
    using good by (simp add: cv_good_def)
  ultimately show ?thesis
    unfolding sleeping_def cv_available_def by (auto simp: permits_def word_unat_eq_iff)
qed

theorem cv_semaphore_correct_witness:
  "\<exists>evs s. cv_exec (CvSemaphore_new 0) [CIdle, CIdle] evs s [CWaiting False, CIdle] \<and> cv_available s = 0 \<and> \<not> cv_shutdown s"
proof -
  have "cv_step CIdle (CvSemaphore_new 0) [CIdle, CIdle] SemSilent (CWaiting False) (CvSemaphore_new 0) [CIdle, CIdle]"
    by (rule cv_lock [of False]) (simp add: cv_acquire_def CvSemaphore_new_def)
  then have e: "cv_exec (CvSemaphore_new 0) [CIdle, CIdle] [SemSilent] (CvSemaphore_new 0) [CWaiting False, CIdle]"
    using cv_snoc [OF cv_nil, of 0] by fastforce
  have "fits (2 ^ 64) (unat (0 :: size_t)) [SemSilent]"
    by (auto simp: fits_def permits_def released_def take_Cons')
  moreover have "replicate 2 CIdle = [CIdle, CIdle]"
    by (simp add: numeral_2_eq_2)
  ultimately have "cv_available (CvSemaphore_new 0) = 0 \<and> \<not> cv_shutdown (CvSemaphore_new 0)"
    using cv_semaphore_correct [of 0 2 "[SemSilent]" "CvSemaphore_new 0" "[CWaiting False, CIdle]"] e by simp
  then show ?thesis
    using e by blast
qed

section \<open>The queue\<close>

record 'a ThreadSafeQueue =
  tq_q :: "'a list"
  tq_closed :: bool

datatype tq_pc = QIdle | QWaiting | QWoken | QNotify | QNotifyAll

datatype 'a tq_event = TSilent | TPushed 'a | TPopped 'a | TEmpty | TEnd

fun tq_asleep :: "tq_pc \<Rightarrow> bool" where
  "tq_asleep QWaiting = True"
| "tq_asleep _ = False"

fun tq_woken :: "tq_pc \<Rightarrow> tq_pc" where
  "tq_woken QWaiting = QWoken"
| "tq_woken p = p"

definition tq_push :: "'a \<Rightarrow> 'a ThreadSafeQueue \<Rightarrow> 'a ThreadSafeQueue" where
  "tq_push value s = s\<lparr>tq_q := tq_q s @ [value]\<rparr>"

definition tq_tryPop :: "'a ThreadSafeQueue \<Rightarrow> 'a tq_event \<times> 'a ThreadSafeQueue" where
  "tq_tryPop s = (case tq_q s of [] \<Rightarrow> (TEmpty, s) | v # vs \<Rightarrow> (TPopped v, s\<lparr>tq_q := vs\<rparr>))"

definition tq_pop :: "'a ThreadSafeQueue \<Rightarrow> 'a tq_event \<times> tq_pc \<times> 'a ThreadSafeQueue" where
  "tq_pop s =
     (if tq_q s \<noteq> [] \<or> tq_closed s
      then (case tq_q s of [] \<Rightarrow> (TEnd, QIdle, s) | v # vs \<Rightarrow> (TPopped v, QIdle, s\<lparr>tq_q := vs\<rparr>))
      else (TSilent, QWaiting, s))"

definition tq_size :: "'a ThreadSafeQueue \<Rightarrow> size_t" where
  "tq_size s = of_nat (length (tq_q s))"

inductive tq_step ::
  "tq_pc \<Rightarrow> 'a ThreadSafeQueue \<Rightarrow> tq_pc list \<Rightarrow> 'a tq_event \<Rightarrow> tq_pc \<Rightarrow> 'a ThreadSafeQueue \<Rightarrow> tq_pc list \<Rightarrow> bool" where
  tq_pushes: "tq_step QIdle s ps (TPushed v) QNotify (tq_push v s) ps"
| tq_notify_one: "wakes tq_asleep tq_woken 1 ps ps' \<Longrightarrow> tq_step QNotify s ps TSilent QIdle s ps'"
| tq_tries: "tq_tryPop s = (ev, s') \<Longrightarrow> tq_step QIdle s ps ev QIdle s' ps"
| tq_lock: "tq_pop s = (ev, q, s') \<Longrightarrow> tq_step QIdle s ps ev q s' ps"
| tq_relock: "tq_pop s = (ev, q, s') \<Longrightarrow> tq_step QWoken s ps ev q s' ps"
| tq_spurious: "tq_step QWaiting s ps TSilent QWoken s ps"
| tq_close: "tq_step QIdle s ps TSilent QNotifyAll (s\<lparr>tq_closed := True\<rparr>) ps"
| tq_notify_all: "tq_step QNotifyAll s ps TSilent QIdle s (wake_all tq_asleep tq_woken ps)"

inductive tq_exec :: "'a ThreadSafeQueue \<Rightarrow> tq_pc list \<Rightarrow> 'a tq_event list \<Rightarrow> 'a ThreadSafeQueue \<Rightarrow> tq_pc list \<Rightarrow> bool" for s0 ps0 where
  tq_nil: "tq_exec s0 ps0 [] s0 ps0"
| tq_snoc: "tq_exec s0 ps0 evs s ps \<Longrightarrow> i < length ps \<Longrightarrow> tq_step (ps ! i) s ps ev q s' ps' \<Longrightarrow>
    tq_exec s0 ps0 (evs @ [ev]) s' (ps'[i := q])"

definition ThreadSafeQueue_new :: "'a ThreadSafeQueue" where
  "ThreadSafeQueue_new = \<lparr>tq_q = [], tq_closed = False\<rparr>"

definition tq_pushed :: "'a tq_event list \<Rightarrow> 'a list" where
  "tq_pushed evs = concat (map (\<lambda>ev. case ev of TPushed v \<Rightarrow> [v] | _ \<Rightarrow> []) evs)"

definition tq_popped :: "'a tq_event list \<Rightarrow> 'a list" where
  "tq_popped evs = concat (map (\<lambda>ev. case ev of TPopped v \<Rightarrow> [v] | _ \<Rightarrow> []) evs)"

fun tq_promise :: "tq_pc \<Rightarrow> nat" where
  "tq_promise QNotify = 1"
| "tq_promise QWoken = 1"
| "tq_promise _ = 0"

interpretation tq: wait_queue tq_asleep tq_woken tq_promise
proof
  fix p :: tq_pc
  assume "tq_asleep p"
  then show "tq_promise p = 0" "\<not> tq_asleep (tq_woken p)" "tq_promise (tq_woken p) = 1"
    by (cases p; simp)+
qed

definition ends_drained :: "'a tq_event list \<Rightarrow> bool" where
  "ends_drained evs \<longleftrightarrow> (\<forall>pre post. evs = pre @ TEnd # post \<longrightarrow> tq_popped pre = tq_pushed pre)"

definition tq_good :: "'a tq_event list \<Rightarrow> 'a ThreadSafeQueue \<Rightarrow> tq_pc list \<Rightarrow> bool" where
  "tq_good evs s ps \<longleftrightarrow> tq_pushed evs = tq_popped evs @ tq_q s \<and> (TEnd \<in> set evs \<longrightarrow> tq_closed s) \<and>
     ends_drained evs \<and> no_lost_wakeup tq_asleep tq_promise ps (int (length (tq_q s))) \<and> tq.announced QNotifyAll (tq_closed s) ps"

lemma tq_snoc_simps:
  "tq_pushed (evs @ [ev]) = tq_pushed evs @ (case ev of TPushed v \<Rightarrow> [v] | _ \<Rightarrow> [])"
  "tq_popped (evs @ [ev]) = tq_popped evs @ (case ev of TPopped v \<Rightarrow> [v] | _ \<Rightarrow> [])"
  by (simp_all add: tq_pushed_def tq_popped_def)

lemma end_snoc: "ends_drained (evs @ [ev]) \<longleftrightarrow> ends_drained evs \<and> (ev = TEnd \<longrightarrow> tq_popped evs = tq_pushed evs)"
proof -
  have "evs @ [ev] = pre @ TEnd # post \<longleftrightarrow> (\<exists>post'. evs = pre @ TEnd # post' \<and> post = post' @ [ev]) \<or> (evs = pre \<and> ev = TEnd \<and> post = [])"
    for pre post
    by (cases post rule: rev_cases) auto
  then show ?thesis
    unfolding ends_drained_def by blast
qed

text \<open>A step of thread \<open>i\<close> that wakes nobody.\<close>

lemma tq_local:
  assumes good: "tq_good evs s ps" and i: "i < length ps" and p: "ps ! i \<noteq> QNotifyAll"
    and q: "tq_pushed (evs @ [ev]) = tq_popped (evs @ [ev]) @ tq_q s'" and closed: "tq_closed s' = tq_closed s"
    and fin: "ev = TEnd \<Longrightarrow> tq_closed s \<and> tq_q s = []"
    and promise: "tq_q s' = [] \<or> length (tq_q s') + tq_promise (ps ! i) \<le> length (tq_q s) + tq_promise q"
    and asleep: "tq_asleep q \<Longrightarrow> tq_q s' = [] \<and> \<not> tq_closed s"
  shows "tq_good (evs @ [ev]) s' (ps[i := q])"
proof -
  have g: "no_lost_wakeup tq_asleep tq_promise ps (int (length (tq_q s)))" "tq.announced QNotifyAll (tq_closed s) ps"
    using good by (simp_all add: tq_good_def)
  have "no_lost_wakeup tq_asleep tq_promise (ps[i := q]) (int (length (tq_q s')))"
    using promise asleep by (intro tq.local_step [OF g(1) i]) auto
  moreover have "tq.announced QNotifyAll (tq_closed s') (ps[i := q])"
    using asleep closed by (simp add: tq.announced_local [OF g(2) i p])
  moreover have "tq_popped evs = tq_pushed evs" if "ev = TEnd"
    using good fin that by (simp add: tq_good_def)
  ultimately show ?thesis
    using good q closed fin by (auto simp: tq_good_def end_snoc)
qed

lemma tq_pop_good:
  assumes good: "tq_good evs s ps" and i: "i < length ps" and p: "ps ! i = QIdle \<or> ps ! i = QWoken"
    and pop: "tq_pop s = (ev, q, s') \<or> (ps ! i = QIdle \<and> tq_tryPop s = (ev, s') \<and> q = QIdle)"
  shows "tq_good (evs @ [ev]) s' (ps[i := q])"
proof -
  have h: "tq_pushed evs = tq_popped evs @ tq_q s"
    using good by (simp add: tq_good_def)
  show ?thesis
    using pop p h
    by (intro tq_local [OF good i])
      (auto simp: tq_pop_def tq_tryPop_def tq_snoc_simps split: if_splits list.splits)
qed

lemma tq_good_step:
  assumes good: "tq_good evs s ps" and i: "i < length ps" and step: "tq_step (ps ! i) s ps ev q s' ps'"
  shows "tq_good (evs @ [ev]) s' (ps'[i := q])"
proof -
  have g: "no_lost_wakeup tq_asleep tq_promise ps (int (length (tq_q s)))" "tq.announced QNotifyAll (tq_closed s) ps"
      "tq_pushed evs = tq_popped evs @ tq_q s"
    using good by (simp_all add: tq_good_def)
  show ?thesis
    using step
  proof cases
    case (tq_pushes v)
    then show ?thesis
      using tq_local [OF good i, of "TPushed v" "tq_push v s" QNotify] g(3) by (simp add: tq_push_def tq_snoc_simps)
  next
    case tq_notify_one
    have l: "length ps' = length ps" "ps' ! i = ps ! i"
      using tq.wakes_keep [OF tq_notify_one(5)] i tq_notify_one(1) by auto
    have "no_lost_wakeup tq_asleep tq_promise (ps'[i := QIdle]) (int (length (tq_q s)))"
      using tq_notify_one by (intro tq.wake_step [OF g(1) i tq_notify_one(5)]) simp_all
    moreover have "tq.announced QNotifyAll (tq_closed s) (ps'[i := QIdle])"
      using l i tq_notify_one(1) by (intro tq.announced_local [OF tq.announced_wakes [OF g(2) tq_notify_one(5)]]) simp_all
    ultimately show ?thesis
      using good tq_notify_one by (simp add: tq_good_def tq_snoc_simps end_snoc)
  next
    case tq_notify_all
    have "\<not> sleeping tq_asleep ((wake_all tq_asleep tq_woken ps)[i := QIdle])"
      by (rule tq.wake_all_step [OF _ i]) simp
    then show ?thesis
      using good tq_notify_all by (simp add: tq_good_def no_lost_wakeup_def tq.announced_def tq_snoc_simps end_snoc)
  next
    case tq_close
    have "no_lost_wakeup tq_asleep tq_promise (ps[i := QNotifyAll]) (int (length (tq_q s)))"
      using tq_close by (intro tq.local_step [OF g(1) i]) simp_all
    then show ?thesis
      using good tq_close i by (simp add: tq_good_def tq.announced_def tq_snoc_simps end_snoc set_update_memI)
  next
    case tq_spurious
    then show ?thesis
      using tq_local [OF good i, of TSilent s QWoken] g(3) by (simp add: tq_snoc_simps)
  next
    case tq_tries
    then show ?thesis using tq_pop_good [OF good i] by simp
  next
    case tq_lock
    then show ?thesis using tq_pop_good [OF good i] by simp
  next
    case tq_relock
    then show ?thesis using tq_pop_good [OF good i] by simp
  qed
qed

lemma tq_good_exec: "tq_exec s0 ps0 evs s ps \<Longrightarrow> tq_good [] s0 ps0 \<Longrightarrow> tq_good evs s ps"
  by (induction rule: tq_exec.induct) (auto intro: tq_good_step)

text \<open>
  (C26) The blocking queue is a FIFO that loses no message and no wake-up, under every interleaving of any number of
  producers and consumers: what has been popped is a prefix of what has been pushed, in order, and the rest is in the
  queue; \<open>pop\<close> reports the end only when the queue is closed and everything pushed so far has been popped; and when
  every thread is outside or asleep and one is asleep, the queue is empty and not closed.
\<close>

theorem thread_safe_queue_correct:
  assumes "tq_exec ThreadSafeQueue_new (replicate n QIdle) evs s ps"
  shows "tq_pushed evs = tq_popped evs @ tq_q s \<and>
         (\<forall>pre post. evs = pre @ TEnd # post \<longrightarrow> tq_closed s \<and> tq_popped pre = tq_pushed pre) \<and>
         ((\<forall>p\<in>set ps. p = QIdle \<or> tq_asleep p) \<and> (\<exists>p\<in>set ps. tq_asleep p) \<longrightarrow> tq_q s = [] \<and> \<not> tq_closed s)"
proof -
  have "\<not> sleeping tq_asleep (replicate n QIdle)"
    by (auto simp: sleeping_def)
  then have "tq_good [] (ThreadSafeQueue_new :: 'a ThreadSafeQueue) (replicate n QIdle)"
    by (simp add: tq_good_def ThreadSafeQueue_new_def tq_pushed_def tq_popped_def ends_drained_def no_lost_wakeup_def tq.announced_def)
  then have good: "tq_good evs s ps"
    using tq_good_exec assms by blast
  moreover have "tq_q s = [] \<and> \<not> tq_closed s" if "\<forall>p\<in>set ps. p = QIdle \<or> tq_asleep p" "sleeping tq_asleep ps"
  proof -
    have "\<forall>p\<in>set ps. tq_promise p = 0"
      using that(1) tq.asleep_promise by fastforce
    then show ?thesis
      using tq.quiescent [of ps "int (length (tq_q s))", OF _ that(2)] that good by (auto simp: tq_good_def tq.announced_def)
  qed
  ultimately show ?thesis
    unfolding sleeping_def by (auto simp: tq_good_def ends_drained_def)
qed

theorem thread_safe_queue_correct_witness:
  "\<exists>evs s. tq_exec ThreadSafeQueue_new [QIdle] evs s [QWaiting] \<and> tq_popped evs = [5 :: nat] \<and> tq_q s = []"
proof -
  let ?s0 = "ThreadSafeQueue_new :: nat ThreadSafeQueue" and ?s1 = "\<lparr>tq_q = [5 :: nat], tq_closed = False\<rparr>"
  have "tq_step QIdle ?s0 [QIdle] (TPushed 5) QNotify ?s1 [QIdle]"
    using tq_pushes [of ?s0 "[QIdle]" 5] by (simp add: tq_push_def ThreadSafeQueue_new_def)
  then have e1: "tq_exec ?s0 [QIdle] [TPushed 5] ?s1 [QNotify]"
    using tq_snoc [OF tq_nil, of 0] by fastforce
  have "tq_step QNotify ?s1 [QNotify] TSilent QIdle ?s1 [QNotify]"
    by (rule tq_notify_one, rule wakes_nobody) (simp add: sleeping_def)
  then have e2: "tq_exec ?s0 [QIdle] [TPushed 5, TSilent] ?s1 [QIdle]"
    using tq_snoc [OF e1, of 0] by fastforce
  have "tq_step QIdle ?s1 [QIdle] (TPopped 5) QIdle ?s0 [QIdle]"
    by (rule tq_lock) (simp add: tq_pop_def ThreadSafeQueue_new_def)
  then have e3: "tq_exec ?s0 [QIdle] [TPushed 5, TSilent, TPopped 5] ?s0 [QIdle]"
    using tq_snoc [OF e2, of 0] by fastforce
  have "tq_step QIdle ?s0 [QIdle] TSilent QWaiting ?s0 [QIdle]"
    by (rule tq_lock) (simp add: tq_pop_def ThreadSafeQueue_new_def)
  then have e: "tq_exec ?s0 [QIdle] [TPushed 5, TSilent, TPopped 5, TSilent] ?s0 [QWaiting]"
    using tq_snoc [OF e3, of 0] by fastforce
  have "tq_q ?s0 = [] \<and> tq_pushed [TPushed 5, TSilent, TPopped (5 :: nat), TSilent] = tq_popped [TPushed 5, TSilent, TPopped 5, TSilent] @ tq_q ?s0"
    using thread_safe_queue_correct [of 1 _ ?s0 "[QWaiting]"] e by fastforce
  then show ?thesis
    using e by (intro exI [of _ "[TPushed 5, TSilent, TPopped 5, TSilent]"] exI [of _ ?s0]) (simp add: tq_popped_def)
qed

section \<open>The eventcount\<close>

text \<open>
  \<open>commitWait\<close> holds the mutex from the lock to the block, but \<open>notifyAll\<close> takes no lock, so the evaluation of the
  predicate and the block are two steps here: \<open>EDeciding\<close> has seen the old epoch and is about to block.
\<close>

record Eventcount =
  ec_epoch :: u64
  ec_locked :: bool

datatype ec_pc = EIdle | ELocking u64 | EDeciding u64 | EBlocked u64 | ENotify

datatype ec_event = ESilent | EPrepared u64 | ECommitted u64 u64

fun ec_asleep :: "ec_pc \<Rightarrow> bool" where
  "ec_asleep (EBlocked v) = True"
| "ec_asleep _ = False"

fun ec_woken :: "ec_pc \<Rightarrow> ec_pc" where
  "ec_woken (EBlocked v) = ELocking v"
| "ec_woken p = p"

definition prepareWait :: "Eventcount \<Rightarrow> u64" where
  "prepareWait s = ec_epoch s"

inductive ec_step :: "ec_pc \<Rightarrow> Eventcount \<Rightarrow> ec_pc list \<Rightarrow> ec_event \<Rightarrow> ec_pc \<Rightarrow> Eventcount \<Rightarrow> ec_pc list \<Rightarrow> bool" where
  ec_prepare: "ec_step EIdle s ps (EPrepared (prepareWait s)) EIdle s ps"
| ec_commit: "ec_step EIdle s ps ESilent (ELocking observed) s ps"
| ec_return: "\<not> ec_locked s \<Longrightarrow> ec_epoch s \<noteq> observed \<Longrightarrow>
    ec_step (ELocking observed) s ps (ECommitted observed (ec_epoch s)) EIdle s ps"
| ec_decide: "\<not> ec_locked s \<Longrightarrow> ec_epoch s = observed \<Longrightarrow>
    ec_step (ELocking observed) s ps ESilent (EDeciding observed) (s\<lparr>ec_locked := True\<rparr>) ps"
| ec_block: "ec_step (EDeciding observed) s ps ESilent (EBlocked observed) (s\<lparr>ec_locked := False\<rparr>) ps"
| ec_spurious: "ec_step (EBlocked observed) s ps ESilent (ELocking observed) s ps"
| ec_notify: "ec_step EIdle s ps ESilent ENotify (s\<lparr>ec_epoch := ec_epoch s + 1\<rparr>) ps"
| ec_notify_all: "ec_step ENotify s ps ESilent EIdle s (wake_all ec_asleep ec_woken ps)"

inductive ec_exec :: "Eventcount \<Rightarrow> ec_pc list \<Rightarrow> ec_event list \<Rightarrow> Eventcount \<Rightarrow> ec_pc list \<Rightarrow> bool" for s0 ps0 where
  ec_nil: "ec_exec s0 ps0 [] s0 ps0"
| ec_snoc: "ec_exec s0 ps0 evs s ps \<Longrightarrow> i < length ps \<Longrightarrow> ec_step (ps ! i) s ps ev q s' ps' \<Longrightarrow>
    ec_exec s0 ps0 (evs @ [ev]) s' (ps'[i := q])"

definition Eventcount_new :: Eventcount where
  "Eventcount_new = \<lparr>ec_epoch = 0, ec_locked = False\<rparr>"

text \<open>\<open>commitWait\<close> returns only after the epoch has moved on.\<close>

lemma commitWait_sees_change:
  "ec_exec s0 ps0 evs s ps \<Longrightarrow> ECommitted observed now \<in> set evs \<Longrightarrow> now \<noteq> observed"
  by (induction rule: ec_exec.induct) (auto elim: ec_step.cases)

text \<open>
  (C33) \<open>notifyAll\<close> can lose its wake-up: it moves the epoch and notifies without the mutex, so a waiter that has
  just seen the old epoch blocks after the notification.  In the state reached here \<open>notifyAll\<close> has returned, the
  epoch is not the one the waiter observed, and the waiter is blocked with nobody left to wake it.
\<close>

theorem eventcount_loses_wakeup:
  "\<exists>evs s. ec_exec Eventcount_new [EIdle, EIdle] evs s [EBlocked 0, EIdle] \<and> EPrepared 0 \<in> set evs \<and> ec_epoch s = 1"
proof -
  let ?s0 = "Eventcount_new" and ?s1 = "\<lparr>ec_epoch = 0, ec_locked = True\<rparr>" and ?s2 = "\<lparr>ec_epoch = 1, ec_locked = True\<rparr>"
    and ?s3 = "\<lparr>ec_epoch = 1, ec_locked = False\<rparr>"
  have "ec_step EIdle ?s0 [EIdle, EIdle] (EPrepared 0) EIdle ?s0 [EIdle, EIdle]"
    using ec_prepare [of ?s0] by (simp add: prepareWait_def Eventcount_new_def)
  then have e1: "ec_exec ?s0 [EIdle, EIdle] [EPrepared 0] ?s0 [EIdle, EIdle]"
    using ec_snoc [OF ec_nil, of 0] by fastforce
  have e2: "ec_exec ?s0 [EIdle, EIdle] [EPrepared 0, ESilent] ?s0 [ELocking 0, EIdle]"
    using ec_snoc [OF e1, of 0] ec_commit by fastforce
  have "ec_step (ELocking 0) ?s0 [ELocking 0, EIdle] ESilent (EDeciding 0) ?s1 [ELocking 0, EIdle]"
    using ec_decide [of ?s0 0] by (simp add: Eventcount_new_def)
  then have e3: "ec_exec ?s0 [EIdle, EIdle] [EPrepared 0, ESilent, ESilent] ?s1 [EDeciding 0, EIdle]"
    using ec_snoc [OF e2, of 0] by fastforce
  have "ec_step EIdle ?s1 [EDeciding 0, EIdle] ESilent ENotify ?s2 [EDeciding 0, EIdle]"
    using ec_notify [of ?s1] by simp
  then have e4: "ec_exec ?s0 [EIdle, EIdle] [EPrepared 0, ESilent, ESilent, ESilent] ?s2 [EDeciding 0, ENotify]"
    using ec_snoc [OF e3, of 1] by fastforce
  have "ec_step ENotify ?s2 [EDeciding 0, ENotify] ESilent EIdle ?s2 [EDeciding 0, ENotify]"
    using ec_notify_all [of ?s2 "[EDeciding 0, ENotify]"] by (simp add: wake_all_def)
  then have e5: "ec_exec ?s0 [EIdle, EIdle] [EPrepared 0, ESilent, ESilent, ESilent, ESilent] ?s2 [EDeciding 0, EIdle]"
    using ec_snoc [OF e4, of 1] by fastforce
  have "ec_step (EDeciding 0) ?s2 [EDeciding 0, EIdle] ESilent (EBlocked 0) ?s3 [EDeciding 0, EIdle]"
    using ec_block [of 0 ?s2] by simp
  then have "ec_exec ?s0 [EIdle, EIdle] [EPrepared 0, ESilent, ESilent, ESilent, ESilent, ESilent] ?s3 [EBlocked 0, EIdle]"
    using ec_snoc [OF e5, of 0] by fastforce
  then show ?thesis
    by (intro exI conjI) (assumption, simp_all)
qed

end
