(* ===== verification/Statement_Cache.thy ===== *)
theory Statement_Cache
  imports CB_Prelude
begin

text \<open>
  \<open>StatementCache\<close> of \<open>include/store/TradeStore.h\<close>: prepared statements in a list ordered by last use, and an
  index from the text of a statement to its list node.  Nodes keep their identity when they are spliced, as
  the iterators of the index need.  List and index are the same in both builds and hold statements of any
  type; \<open>cache_get\<close> is the lookup of the build without SQLite.
\<close>

section \<open>State and operations\<close>

record PreparedStatement =
  ps_sql :: string

record 's Entry =
  en_node :: nat
  en_sql :: string
  en_stmt :: 's

record 's StatementCache =
  sc_capacity :: size_t
  sc_lru :: "'s Entry list"
  sc_index :: "string \<rightharpoonup> nat"
  sc_fresh :: nat

definition StatementCache_new :: "size_t \<Rightarrow> 's StatementCache" where
  "StatementCache_new cap = \<lparr>sc_capacity = cap, sc_lru = [], sc_index = Map.empty, sc_fresh = 0\<rparr>"

text \<open>\<open>splice\<close> of one node to the front; \<open>None\<close> when no node has this identity.\<close>

definition splice_front :: "nat \<Rightarrow> 's Entry list \<Rightarrow> 's Entry list option" where
  "splice_front n es =
     (case find (\<lambda>e. en_node e = n) es of None \<Rightarrow> None | Some e \<Rightarrow> Some (e # remove1 e es))"

text \<open>The eviction; \<open>back\<close> and \<open>pop_back\<close> of an empty list are undefined.\<close>

definition evict :: "'s StatementCache \<Rightarrow> 's StatementCache option" where
  "evict c =
     (if of_nat (length (sc_lru c)) = sc_capacity c
      then if sc_lru c = [] then None
           else Some (c\<lparr>sc_index := (sc_index c)(en_sql (last (sc_lru c)) := None), sc_lru := butlast (sc_lru c)\<rparr>)
      else Some c)"

definition push_entry :: "string \<Rightarrow> 's \<Rightarrow> 's StatementCache \<Rightarrow> 's StatementCache" where
  "push_entry sql stmt c =
     c\<lparr>sc_lru := \<lparr>en_node = sc_fresh c, en_sql = sql, en_stmt = stmt\<rparr> # sc_lru c,
       sc_index := (sc_index c)(sql \<mapsto> sc_fresh c), sc_fresh := sc_fresh c + 1\<rparr>"

definition cache_get :: "string \<Rightarrow> PreparedStatement StatementCache \<Rightarrow>
    (PreparedStatement \<times> PreparedStatement StatementCache) option" where
  "cache_get sql c =
     (case sc_index c sql of
        Some node \<Rightarrow>
          (case splice_front node (sc_lru c) of
             Some (e # es) \<Rightarrow> Some (en_stmt e, c\<lparr>sc_lru := e # es\<rparr>)
           | _ \<Rightarrow> None)
      | None \<Rightarrow>
          (case evict c of
             None \<Rightarrow> None
           | Some c1 \<Rightarrow> Some (\<lparr>ps_sql = sql\<rparr>, push_entry sql \<lparr>ps_sql = sql\<rparr> c1)))"

definition cache_size :: "'s StatementCache \<Rightarrow> size_t" where
  "cache_size c = of_nat (length (sc_lru c))"

text \<open>\<open>Transaction\<close> of the build without SQLite.\<close>

record Transaction =
  tx_active :: bool

definition Transaction_new :: Transaction where
  "Transaction_new = \<lparr>tx_active = True\<rparr>"

definition Transaction_commit :: "Transaction \<Rightarrow> Transaction" where
  "Transaction_commit t = t\<lparr>tx_active := False\<rparr>"

section \<open>Least recently used\<close>

text \<open>The specification: the texts in order of last use, cut at the capacity.\<close>

definition lru_get :: "nat \<Rightarrow> string \<Rightarrow> string list \<Rightarrow> string list" where
  "lru_get cap sql xs = take cap (sql # remove1 sql xs)"

definition cache_texts :: "'s StatementCache \<Rightarrow> string list" where
  "cache_texts c = map en_sql (sc_lru c)"

definition cache_wf :: "'s StatementCache \<Rightarrow> bool" where
  "cache_wf c \<longleftrightarrow> distinct (map en_node (sc_lru c)) \<and> distinct (cache_texts c) \<and>
     sc_index c = map_of (map (\<lambda>e. (en_sql e, en_node e)) (sc_lru c)) \<and>
     (\<forall>e\<in>set (sc_lru c). en_node e < sc_fresh c) \<and> length (sc_lru c) \<le> unat (sc_capacity c)"

definition cache_ok :: "PreparedStatement StatementCache \<Rightarrow> bool" where
  "cache_ok c \<longleftrightarrow> cache_wf c \<and> (\<forall>e\<in>set (sc_lru c). ps_sql (en_stmt e) = en_sql e)"

lemma index_hit:
  assumes "cache_wf c" and "sc_index c sql = Some node"
  obtains e where "e \<in> set (sc_lru c)" "en_node e = node" "en_sql e = sql" "splice_front node (sc_lru c) = Some (e # remove1 e (sc_lru c))"
proof -
  obtain e where e: "e \<in> set (sc_lru c)" "en_node e = node" "en_sql e = sql"
    using assms by (auto simp: cache_wf_def dest!: map_of_SomeD)
  have "find (\<lambda>e. en_node e = node) (sc_lru c) = Some e"
  proof -
    have inj: "inj_on en_node (set (sc_lru c))"
      using assms(1) by (simp add: cache_wf_def distinct_map)
    obtain i where i: "i < length (sc_lru c)" "sc_lru c ! i = e"
      using e(1) by (auto simp: in_set_conv_nth)
    have d: "distinct (sc_lru c)"
      using assms(1) by (simp add: cache_wf_def distinct_map)
    have "en_node (sc_lru c ! j) \<noteq> node" if "j < i" for j
      using inj i d e(1,2) that by (metis inj_onD nth_eq_iff_index_eq nth_mem order_less_irrefl order_less_trans)
    then show ?thesis
      using i e(2) by (auto simp: find_Some_iff)
  qed
  then show ?thesis
    using that e by (simp add: splice_front_def)
qed

lemma map_remove1: "inj_on f (set xs) \<Longrightarrow> x \<in> set xs \<Longrightarrow> map f (remove1 x xs) = remove1 (f x) (map f xs)"
proof (induction xs)
  case (Cons y ys)
  show ?case
  proof (cases "x = y")
    case False
    then have "f x \<noteq> f y" "x \<in> set ys"
      using inj_onD [OF Cons.prems(1), of x y] Cons.prems(2) by auto
    then show ?thesis
      using False Cons by auto
  qed simp
qed simp

lemma splice_wf:
  assumes wf: "cache_wf c" and e: "e \<in> set (sc_lru c)"
  shows "cache_wf (c\<lparr>sc_lru := e # remove1 e (sc_lru c)\<rparr>)" and "set (e # remove1 e (sc_lru c)) = set (sc_lru c)"
    and "cache_texts (c\<lparr>sc_lru := e # remove1 e (sc_lru c)\<rparr>) = lru_get (unat (sc_capacity c)) (en_sql e) (cache_texts c)"
proof -
  let ?l = "e # remove1 e (sc_lru c)"
  have d: "distinct (map en_node (sc_lru c))" "distinct (map en_sql (sc_lru c))" "distinct (sc_lru c)"
    using wf by (simp_all add: cache_wf_def cache_texts_def distinct_map)
  show set: "set ?l = set (sc_lru c)"
    using e d(3) by auto
  have len: "length ?l = length (sc_lru c)"
    using e by (simp add: length_remove1) (metis Suc_pred length_pos_if_in_set)
  have texts: "map en_sql ?l = en_sql e # remove1 (en_sql e) (map en_sql (sc_lru c))"
    using map_remove1 [of en_sql "sc_lru c" e] d(2) e by (simp add: distinct_map)
  moreover have "map en_node ?l = en_node e # remove1 (en_node e) (map en_node (sc_lru c))"
    using map_remove1 [of en_node "sc_lru c" e] d(1) e by (simp add: distinct_map)
  ultimately have dist: "distinct (map en_sql ?l)" "distinct (map en_node ?l)"
    using d(1,2) by simp_all
  have "map_of (map (\<lambda>e. (en_sql e, en_node e)) ?l) = map_of (map (\<lambda>e. (en_sql e, en_node e)) (sc_lru c))"
  proof (subst map_of_inject_set)
    show "distinct (map fst (map (\<lambda>e. (en_sql e, en_node e)) ?l))"
      using dist(1) by (simp add: comp_def)
    show "distinct (map fst (map (\<lambda>e. (en_sql e, en_node e)) (sc_lru c)))"
      using d(2) by (simp add: comp_def)
    show "set (map (\<lambda>e. (en_sql e, en_node e)) ?l) = set (map (\<lambda>e. (en_sql e, en_node e)) (sc_lru c))"
      unfolding set_map set ..
  qed
  then show "cache_wf (c\<lparr>sc_lru := ?l\<rparr>)"
    using wf dist set len unfolding cache_wf_def cache_texts_def by simp
  have "length (map en_sql ?l) \<le> unat (sc_capacity c)"
    using wf len by (simp add: cache_wf_def)
  then show "cache_texts (c\<lparr>sc_lru := ?l\<rparr>) = lru_get (unat (sc_capacity c)) (en_sql e) (cache_texts c)"
    unfolding cache_texts_def lru_get_def texts [symmetric] by simp
qed

lemma cache_hit:
  assumes ok: "cache_ok c" and hit: "sc_index c sql = Some node"
  shows "\<exists>c'. cache_get sql c = Some (\<lparr>ps_sql = sql\<rparr>, c') \<and> cache_ok c' \<and> sc_capacity c' = sc_capacity c \<and>
           cache_texts c' = lru_get (unat (sc_capacity c)) sql (cache_texts c)"
proof -
  have wf: "cache_wf c"
    using ok by (simp add: cache_ok_def)
  obtain e where e: "e \<in> set (sc_lru c)" "en_sql e = sql" "splice_front node (sc_lru c) = Some (e # remove1 e (sc_lru c))"
    using index_hit [OF wf hit] by blast
  have "en_stmt e = \<lparr>ps_sql = sql\<rparr>"
    using ok e(1,2) by (cases "en_stmt e") (auto simp: cache_ok_def)
  moreover have "cache_ok (c\<lparr>sc_lru := e # remove1 e (sc_lru c)\<rparr>)"
    using ok splice_wf(1,2) [OF wf e(1)] by (simp add: cache_ok_def)
  ultimately show ?thesis
    using hit e(2,3) splice_wf(3) [OF wf e(1)] by (simp add: cache_get_def)
qed

lemma evict_wf:
  assumes ok: "cache_wf c" and cap: "0 < sc_capacity c"
  shows "\<exists>c1. evict c = Some c1 \<and> cache_wf c1 \<and> sc_capacity c1 = sc_capacity c \<and> sc_fresh c1 = sc_fresh c \<and>
           cache_texts c1 = take (unat (sc_capacity c) - 1) (cache_texts c) \<and> length (sc_lru c1) < unat (sc_capacity c) \<and>
           set (sc_lru c1) \<subseteq> set (sc_lru c)"
proof -
  have pos: "0 < unat (sc_capacity c)"
    using cap by (simp add: word_less_nat_alt)
  have le: "length (sc_lru c) \<le> unat (sc_capacity c)"
    using ok by (simp add: cache_wf_def)
  then have "length (sc_lru c) < 18446744073709551616"
    by (rule order_le_less_trans [OF _ unat_u64_less])
  then have full: "of_nat (length (sc_lru c)) = sc_capacity c \<longleftrightarrow> length (sc_lru c) = unat (sc_capacity c)"
    by (auto simp: word_unat_eq_iff unat_of_nat take_bit_eq_mod)
  show ?thesis
  proof (cases "length (sc_lru c) = unat (sc_capacity c)")
    case False
    then show ?thesis
      using ok full le by (simp add: evict_def cache_texts_def)
  next
    case True
    then have ne: "sc_lru c \<noteq> []"
      using pos by auto
    then obtain es l where l: "sc_lru c = es @ [l]"
      by (metis append_butlast_last_id)
    have d: "distinct (map en_sql es)" "en_sql l \<notin> en_sql ` set es"
      using ok l by (simp_all add: cache_wf_def cache_texts_def)
    have "(map_of (map (\<lambda>e. (en_sql e, en_node e)) (es @ [l])))(en_sql l := None) = map_of (map (\<lambda>e. (en_sql e, en_node e)) es)"
    proof (rule ext)
      fix k
      have "map_of (map (\<lambda>e. (en_sql e, en_node e)) es) (en_sql l) = None"
        using d(2) by (auto simp: map_of_eq_None_iff)
      then show "((map_of (map (\<lambda>e. (en_sql e, en_node e)) (es @ [l])))(en_sql l := None)) k = map_of (map (\<lambda>e. (en_sql e, en_node e)) es) k"
        by (simp add: map_of_append map_add_def split: option.split)
    qed
    then have "cache_wf (c\<lparr>sc_index := (sc_index c)(en_sql l := None), sc_lru := es\<rparr>)"
      using ok l by (simp add: cache_wf_def cache_texts_def)
    then show ?thesis
      using True l full ne by (simp add: evict_def cache_texts_def subset_insertI)
  qed
qed

lemma push_wf:
  assumes "cache_wf c" and "length (sc_lru c) < unat (sc_capacity c)" and "sql \<notin> set (cache_texts c)"
  shows "cache_wf (push_entry sql stmt c)"
  using assms by (auto simp: push_entry_def cache_wf_def cache_texts_def less_Suc_eq)

lemma miss_text: "cache_wf c \<Longrightarrow> sc_index c sql = None \<Longrightarrow> sql \<notin> set (cache_texts c)"
  by (auto simp: cache_wf_def cache_texts_def map_of_eq_None_iff image_image)

lemma cache_miss:
  assumes ok: "cache_ok c" and cap: "0 < sc_capacity c" and miss: "sc_index c sql = None"
  shows "\<exists>c'. cache_get sql c = Some (\<lparr>ps_sql = sql\<rparr>, c') \<and> cache_ok c' \<and> sc_capacity c' = sc_capacity c \<and>
           cache_texts c' = lru_get (unat (sc_capacity c)) sql (cache_texts c)"
proof -
  have wf: "cache_wf c"
    using ok by (simp add: cache_ok_def)
  obtain c1 where c1: "evict c = Some c1" "cache_wf c1" "sc_capacity c1 = sc_capacity c"
      "cache_texts c1 = take (unat (sc_capacity c) - 1) (cache_texts c)" "length (sc_lru c1) < unat (sc_capacity c)"
      "set (sc_lru c1) \<subseteq> set (sc_lru c)"
    using evict_wf [OF wf cap] by blast
  have "sql \<notin> set (cache_texts c)"
    by (rule miss_text [OF wf miss])
  then have new: "sql \<notin> set (cache_texts c1)" and "lru_get (unat (sc_capacity c)) sql (cache_texts c) = sql # cache_texts c1"
    using c1(4) cap in_set_takeD by (fastforce simp: lru_get_def remove1_idem take_Cons' word_less_nat_alt)+
  moreover have "cache_ok (push_entry sql \<lparr>ps_sql = sql\<rparr> c1)"
    using push_wf [OF c1(2) _ new] c1(3,5,6) ok by (auto simp: cache_ok_def push_entry_def)
  ultimately show ?thesis
    using miss c1(1,3) by (simp add: cache_get_def cache_texts_def push_entry_def)
qed

text \<open>
  (C28) The statement cache is a least-recently-used cache: every lookup returns the statement for the text
  asked for, puts it in front, keeps the order of the others, evicts exactly the least recently used one when the
  cache is full, and leaves list and index consistent.
\<close>

theorem statement_cache_lru:
  assumes "cache_ok c" and "0 < sc_capacity c"
  shows "\<exists>c'. cache_get sql c = Some (\<lparr>ps_sql = sql\<rparr>, c') \<and> cache_ok c' \<and> sc_capacity c' = sc_capacity c \<and>
           cache_texts c' = lru_get (unat (sc_capacity c)) sql (cache_texts c)"
  using cache_hit [OF assms(1)] cache_miss [OF assms] by (cases "sc_index c sql") blast+

text \<open>With capacity zero the first lookup evicts from an empty list.\<close>

lemma cache_capacity_zero: "cache_get sql (StatementCache_new 0) = None"
  by (simp add: cache_get_def StatementCache_new_def evict_def)

theorem statement_cache_lru_witness:
  "\<exists>c1 c2 c3. cache_get ''a'' (StatementCache_new 2) = Some (\<lparr>ps_sql = ''a''\<rparr>, c1) \<and>
     cache_get ''b'' c1 = Some (\<lparr>ps_sql = ''b''\<rparr>, c2) \<and> cache_get ''a'' c2 = Some (\<lparr>ps_sql = ''a''\<rparr>, c3) \<and>
     cache_texts c3 = [''a'', ''b'']"
proof -
  let ?new = "StatementCache_new 2 :: PreparedStatement StatementCache"
  have "cache_ok ?new" "0 < sc_capacity ?new" "cache_texts ?new = []" "sc_capacity ?new = 2"
    by (simp_all add: cache_ok_def cache_wf_def StatementCache_new_def cache_texts_def)
  then obtain c1 where c1: "cache_get ''a'' (StatementCache_new 2) = Some (\<lparr>ps_sql = ''a''\<rparr>, c1)" "cache_ok c1" "sc_capacity c1 = 2"
      "cache_texts c1 = [''a'']"
    using statement_cache_lru [of "StatementCache_new 2" "''a''"] by (auto simp: lru_get_def)
  then obtain c2 where c2: "cache_get ''b'' c1 = Some (\<lparr>ps_sql = ''b''\<rparr>, c2)" "cache_ok c2" "sc_capacity c2 = 2"
      "cache_texts c2 = [''b'', ''a'']"
    using statement_cache_lru [of c1 "''b''"] by (auto simp: lru_get_def)
  then obtain c3 where "cache_get ''a'' c2 = Some (\<lparr>ps_sql = ''a''\<rparr>, c3)" "cache_texts c3 = [''a'', ''b'']"
    using statement_cache_lru [of c2 "''a''"] by (auto simp: lru_get_def)
  then show ?thesis
    using c1 c2 by blast
qed

end
