(* ===== verification/SQLite_Backend.thy ===== *)
theory SQLite_Backend
  imports Matching_Engine Statement_Cache Complex_Main
begin

text \<open>
  \<open>include/store/TradeStore.h\<close>, the SQLite backend (lines 321 to 839): the classes that wrap the C interface
  of the library, and the trade store on top of them.  The library itself is a parameter: a record of the
  functions the sources load, each a function of the library's state \<open>'w\<close>.  An operation returns its result,
  possibly an exception, together with the state it leaves.
\<close>

section \<open>The library\<close>

record 'w sqlite_api =
  sq_open :: "string \<Rightarrow> 'w \<Rightarrow> int \<times> ptr \<times> 'w"
  sq_close :: "ptr \<Rightarrow> 'w \<Rightarrow> 'w"
  sq_errmsg :: "ptr \<Rightarrow> 'w \<Rightarrow> string"
  sq_exec :: "ptr \<Rightarrow> string \<Rightarrow> 'w \<Rightarrow> int \<times> string option \<times> 'w"
  sq_free :: "'w \<Rightarrow> 'w"
  sq_prepare :: "ptr \<Rightarrow> string \<Rightarrow> 'w \<Rightarrow> int \<times> ptr \<times> 'w"
  sq_finalize :: "ptr \<Rightarrow> 'w \<Rightarrow> 'w"
  sq_step :: "ptr \<Rightarrow> 'w \<Rightarrow> int \<times> 'w"
  sq_reset :: "ptr \<Rightarrow> 'w \<Rightarrow> 'w"
  sq_clear_bindings :: "ptr \<Rightarrow> 'w \<Rightarrow> 'w"
  sq_bind_int :: "ptr \<Rightarrow> nat \<Rightarrow> u32 \<Rightarrow> 'w \<Rightarrow> int \<times> 'w"
  sq_bind_int64 :: "ptr \<Rightarrow> nat \<Rightarrow> u64 \<Rightarrow> 'w \<Rightarrow> int \<times> 'w"
  sq_bind_text :: "ptr \<Rightarrow> nat \<Rightarrow> string \<Rightarrow> u32 \<Rightarrow> 'w \<Rightarrow> int \<times> 'w"
  sq_column_int64 :: "ptr \<Rightarrow> nat \<Rightarrow> 'w \<Rightarrow> u64"
  sq_column_double :: "ptr \<Rightarrow> nat \<Rightarrow> 'w \<Rightarrow> real"
  sq_column_text :: "ptr \<Rightarrow> nat \<Rightarrow> 'w \<Rightarrow> string option"

abbreviation (input) kSqliteOk :: int where "kSqliteOk \<equiv> 0"
abbreviation (input) kSqliteRow :: int where "kSqliteRow \<equiv> 100"
abbreviation (input) kSqliteDone :: int where "kSqliteDone \<equiv> 101"

text \<open>
  Loading: \<open>dlopen\<close> and \<open>dlsym\<close> are parameters, and the functions are looked up in the order of the sources.
\<close>

definition api_symbols :: "string list" where
  "api_symbols = [''sqlite3_open_v2'', ''sqlite3_close'', ''sqlite3_errmsg'', ''sqlite3_exec'', ''sqlite3_free'',
     ''sqlite3_prepare_v2'', ''sqlite3_finalize'', ''sqlite3_step'', ''sqlite3_reset'', ''sqlite3_clear_bindings'',
     ''sqlite3_bind_int'', ''sqlite3_bind_int64'', ''sqlite3_bind_text'', ''sqlite3_column_int64'',
     ''sqlite3_column_double'', ''sqlite3_column_text'']"

definition api_symbol :: "('h \<Rightarrow> string \<Rightarrow> ptr) \<Rightarrow> 'h \<Rightarrow> string \<Rightarrow> ptr result" where
  "api_symbol dlsym handle nm =
     (case dlsym handle nm of
        None \<Rightarrow> Inl (Throws (SQLiteError (''missing SQLite symbol: '' @ nm)))
      | Some p \<Rightarrow> Inr (Some p))"

fun load_symbols :: "('h \<Rightarrow> string \<Rightarrow> ptr) \<Rightarrow> 'h \<Rightarrow> string list \<Rightarrow> ptr list result" where
  "load_symbols dlsym handle [] = Inr []"
| "load_symbols dlsym handle (nm # nms) =
     result_bind (api_symbol dlsym handle nm) (\<lambda>p.
       result_bind (load_symbols dlsym handle nms) (\<lambda>ps. Inr (p # ps)))"

definition SQLiteApi_load :: "(string \<Rightarrow> 'h option) \<Rightarrow> ('h \<Rightarrow> string \<Rightarrow> ptr) \<Rightarrow> ptr list result" where
  "SQLiteApi_load dlopen dlsym =
     (case dlopen ''libsqlite3.so'' of
        Some handle \<Rightarrow> load_symbols dlsym handle api_symbols
      | None \<Rightarrow> (case dlopen ''libsqlite3.dylib'' of
            Some handle \<Rightarrow> load_symbols dlsym handle api_symbols
          | None \<Rightarrow> Inl (Throws (SQLiteError ''libsqlite3 not found''))))"

section \<open>Sequencing\<close>

text \<open>One computation after the other; an exception ends the sequence and keeps the state reached.\<close>

definition andthen :: "('s \<Rightarrow> 'a result \<times> 's) \<Rightarrow> ('a \<Rightarrow> 's \<Rightarrow> 'b result \<times> 's) \<Rightarrow> 's \<Rightarrow> 'b result \<times> 's" where
  "andthen m f s = (case m s of (Inl e, s1) \<Rightarrow> (Inl e, s1) | (Inr x, s1) \<Rightarrow> f x s1)"

section \<open>Connections\<close>

definition SqConnection_new :: "'w sqlite_api \<Rightarrow> string \<Rightarrow> 'w \<Rightarrow> ptr result \<times> 'w" where
  "SqConnection_new api path w =
     (case sq_open api path w of (rc, db, w1) \<Rightarrow>
        if rc \<noteq> kSqliteOk \<or> db = nullptr then (Inl (Throws (SQLiteError ''sqlite3_open_v2 failed'')), w1)
        else (Inr db, w1))"

definition SqConnection_destroy :: "'w sqlite_api \<Rightarrow> ptr \<Rightarrow> 'w \<Rightarrow> 'w" where
  "SqConnection_destroy api db w = (if db \<noteq> nullptr then sq_close api db w else w)"

text \<open>Moving yields the new object and what is left in the source.\<close>

definition SqConnection_move :: "ptr \<Rightarrow> ptr \<times> ptr" where
  "SqConnection_move other = (other, nullptr)"

definition SqConnection_assign :: "'w sqlite_api \<Rightarrow> bool \<Rightarrow> ptr \<Rightarrow> ptr \<Rightarrow> 'w \<Rightarrow> ptr \<times> ptr \<times> 'w" where
  "SqConnection_assign api same this other w =
     (if same then (this, this, w) else (other, nullptr, SqConnection_destroy api this w))"

definition conn_exec :: "'w sqlite_api \<Rightarrow> ptr \<Rightarrow> string \<Rightarrow> 'w \<Rightarrow> unit result \<times> 'w" where
  "conn_exec api db sql w =
     (case sq_exec api db sql w of (rc, err, w1) \<Rightarrow>
        if rc \<noteq> kSqliteOk
        then (case err of
                Some msg \<Rightarrow> (Inl (Throws (SQLiteError msg)), sq_free api w1)
              | None \<Rightarrow> (Inl (Throws (SQLiteError (sq_errmsg api db w1))), w1))
        else (Inr (), w1))"

definition conn_error :: "'w sqlite_api \<Rightarrow> ptr \<Rightarrow> 'w \<Rightarrow> string" where
  "conn_error api db w = sq_errmsg api db w"

section \<open>Statements\<close>

record SqStatement =
  pst_db :: ptr
  pst_stmt :: ptr
  pst_sql :: string

definition SqStatement_new :: "'w sqlite_api \<Rightarrow> ptr \<Rightarrow> string \<Rightarrow> 'w \<Rightarrow> SqStatement result \<times> 'w" where
  "SqStatement_new api db sql w =
     (case sq_prepare api db sql w of (rc, p, w1) \<Rightarrow>
        if rc \<noteq> kSqliteOk then (Inl (Throws (SQLiteError (''prepare failed: '' @ conn_error api db w1))), w1)
        else (Inr \<lparr>pst_db = db, pst_stmt = p, pst_sql = sql\<rparr>, w1))"

definition SqStatement_destroy :: "'w sqlite_api \<Rightarrow> SqStatement \<Rightarrow> 'w \<Rightarrow> 'w" where
  "SqStatement_destroy api st w = (if pst_stmt st \<noteq> nullptr then sq_finalize api (pst_stmt st) w else w)"

text \<open>The string of a statement that was moved from is unspecified: the parameter \<open>left\<close>.\<close>

definition SqStatement_move :: "string \<Rightarrow> SqStatement \<Rightarrow> SqStatement \<times> SqStatement" where
  "SqStatement_move left other = (other, \<lparr>pst_db = nullptr, pst_stmt = nullptr, pst_sql = left\<rparr>)"

definition stmt_reset :: "'w sqlite_api \<Rightarrow> SqStatement \<Rightarrow> 'w \<Rightarrow> unit result \<times> 'w" where
  "stmt_reset api st w = (Inr (), sq_clear_bindings api (pst_stmt st) (sq_reset api (pst_stmt st) w))"

definition stmt_check :: "'w sqlite_api \<Rightarrow> SqStatement \<Rightarrow> int \<times> 'w \<Rightarrow> unit result \<times> 'w" where
  "stmt_check api st out =
     (case out of (rc, w) \<Rightarrow>
        if rc \<noteq> kSqliteOk then (Inl (Throws (SQLiteError (''bind failed: '' @ conn_error api (pst_db st) w))), w)
        else (Inr (), w))"

definition bindInt :: "'w sqlite_api \<Rightarrow> SqStatement \<Rightarrow> nat \<Rightarrow> u32 \<Rightarrow> 'w \<Rightarrow> unit result \<times> 'w" where
  "bindInt api st index v w = stmt_check api st (sq_bind_int api (pst_stmt st) index v w)"

definition bindInt64 :: "'w sqlite_api \<Rightarrow> SqStatement \<Rightarrow> nat \<Rightarrow> u64 \<Rightarrow> 'w \<Rightarrow> unit result \<times> 'w" where
  "bindInt64 api st index v w = stmt_check api st (sq_bind_int64 api (pst_stmt st) index v w)"

definition bindText :: "'w sqlite_api \<Rightarrow> SqStatement \<Rightarrow> nat \<Rightarrow> string \<Rightarrow> 'w \<Rightarrow> unit result \<times> 'w" where
  "bindText api st index v w = stmt_check api st (sq_bind_text api (pst_stmt st) index v (of_nat (length v)) w)"

definition stepRow :: "'w sqlite_api \<Rightarrow> SqStatement \<Rightarrow> 'w \<Rightarrow> bool result \<times> 'w" where
  "stepRow api st w =
     (case sq_step api (pst_stmt st) w of (rc, w1) \<Rightarrow>
        if rc = kSqliteRow then (Inr True, w1)
        else if rc = kSqliteDone then (Inr False, w1)
        else (Inl (Throws (SQLiteError (''step failed: '' @ conn_error api (pst_db st) w1))), w1))"

definition stepDone :: "'w sqlite_api \<Rightarrow> SqStatement \<Rightarrow> 'w \<Rightarrow> unit result \<times> 'w" where
  "stepDone api st w =
     (case sq_step api (pst_stmt st) w of (rc, w1) \<Rightarrow>
        if rc \<noteq> kSqliteDone
        then (Inl (Throws (SQLiteError (''stepDone failed: '' @ conn_error api (pst_db st) w1))), w1)
        else (Inr (), w1))"

definition columnUInt64 :: "'w sqlite_api \<Rightarrow> SqStatement \<Rightarrow> nat \<Rightarrow> 'w \<Rightarrow> u64" where
  "columnUInt64 api st index w = sq_column_int64 api (pst_stmt st) index w"

definition columnDouble :: "'w sqlite_api \<Rightarrow> SqStatement \<Rightarrow> nat \<Rightarrow> 'w \<Rightarrow> real" where
  "columnDouble api st index w = sq_column_double api (pst_stmt st) index w"

definition columnText :: "'w sqlite_api \<Rightarrow> SqStatement \<Rightarrow> nat \<Rightarrow> 'w \<Rightarrow> string" where
  "columnText api st index w = (case sq_column_text api (pst_stmt st) index w of Some t \<Rightarrow> t | None \<Rightarrow> '''')"

section \<open>The store\<close>

text \<open>The members of \<open>TradeStore\<close>, and the state of the library.\<close>

record 'w SqTradeStore =
  sqs_path :: string
  sqs_writer :: ptr
  sqs_cache :: "SqStatement StatementCache"
  sqs_lib :: 'w

definition on_lib :: "('w \<Rightarrow> 'a result \<times> 'w) \<Rightarrow> 'w SqTradeStore \<Rightarrow> 'a result \<times> 'w SqTradeStore" where
  "on_lib f s = (case f (sqs_lib s) of (r, w) \<Rightarrow> (r, s\<lparr>sqs_lib := w\<rparr>))"

text \<open>
  \<open>StatementCache::get\<close>: a hit resets the statement; a miss destroys the evicted statement, if any, and
  prepares a new one.  When the preparation throws, the eviction has already happened.
\<close>

definition destroy_evicted :: "'w sqlite_api \<Rightarrow> SqStatement StatementCache \<Rightarrow> SqStatement StatementCache \<Rightarrow> 'w \<Rightarrow> 'w" where
  "destroy_evicted api c c1 w =
     (if length (sc_lru c1) < length (sc_lru c) then SqStatement_destroy api (en_stmt (last (sc_lru c))) w else w)"

definition sq_cache_get :: "'w sqlite_api \<Rightarrow> string \<Rightarrow> 'w SqTradeStore \<Rightarrow> SqStatement result \<times> 'w SqTradeStore" where
  "sq_cache_get api sql s =
     (let c = sqs_cache s
      in case sc_index c sql of
           Some node \<Rightarrow>
             (case splice_front node (sc_lru c) of
                Some (e # es) \<Rightarrow>
                  andthen (on_lib (stmt_reset api (en_stmt e))) (\<lambda>_ s1. (Inr (en_stmt e), s1))
                    (s\<lparr>sqs_cache := c\<lparr>sc_lru := e # es\<rparr>\<rparr>)
              | _ \<Rightarrow> (Inl UndefinedBehaviour, s))
         | None \<Rightarrow>
             (case evict c of
                None \<Rightarrow> (Inl UndefinedBehaviour, s)
              | Some c1 \<Rightarrow>
                  andthen (on_lib (SqStatement_new api (sqs_writer s) sql))
                    (\<lambda>st s1. (Inr st, s1\<lparr>sqs_cache := push_entry sql st (sqs_cache s1)\<rparr>))
                    (s\<lparr>sqs_cache := c1, sqs_lib := destroy_evicted api c c1 (sqs_lib s)\<rparr>)))"

subsection \<open>Transactions\<close>

text \<open>
  A \<open>Transaction\<close> around the statements \<open>body\<close> that ends with \<open>commit\<close>: the destructor finds \<open>m_active\<close> set
  unless \<open>commit\<close> has returned, rolls back then and swallows any exception of the rollback.
\<close>

definition Transaction_begin :: "'w sqlite_api \<Rightarrow> 'w SqTradeStore \<Rightarrow> unit result \<times> 'w SqTradeStore" where
  "Transaction_begin api s = on_lib (conn_exec api (sqs_writer s) ''BEGIN IMMEDIATE;'') s"

definition Transaction_end :: "'w sqlite_api \<Rightarrow> bool \<Rightarrow> 'w SqTradeStore \<Rightarrow> 'w SqTradeStore" where
  "Transaction_end api active s =
     (if active then snd (on_lib (conn_exec api (sqs_writer s) ''ROLLBACK;'') s) else s)"

definition sq_commit :: "'w sqlite_api \<Rightarrow> 'w SqTradeStore \<Rightarrow> unit result \<times> 'w SqTradeStore" where
  "sq_commit api s = on_lib (conn_exec api (sqs_writer s) ''COMMIT;'') s"

definition in_transaction ::
  "'w sqlite_api \<Rightarrow> ('w SqTradeStore \<Rightarrow> unit result \<times> 'w SqTradeStore) \<Rightarrow> 'w SqTradeStore \<Rightarrow> unit result \<times> 'w SqTradeStore" where
  "in_transaction api body =
     andthen (Transaction_begin api) (\<lambda>_ s.
       case andthen body (\<lambda>_. sq_commit api) s of
         (Inl e, s1) \<Rightarrow> (Inl e, Transaction_end api True s1)
       | (Inr _, s1) \<Rightarrow> (Inr (), Transaction_end api False s1))"

subsection \<open>Construction\<close>

definition schema_sql :: "string list" where
  "schema_sql =
     [''PRAGMA journal_mode=WAL;'', ''PRAGMA synchronous=NORMAL;'',
      ''CREATE TABLE IF NOT EXISTS trades ('' @ ''id INTEGER PRIMARY KEY AUTOINCREMENT,'' @
        ''buy_order_id INTEGER NOT NULL,'' @ ''sell_order_id INTEGER NOT NULL,'' @ ''symbol INTEGER NOT NULL,'' @
        ''price INTEGER NOT NULL,'' @ ''qty INTEGER NOT NULL,'' @ ''ts INTEGER NOT NULL);'',
      ''CREATE INDEX IF NOT EXISTS idx_trades_symbol_ts ON trades(symbol, ts);'',
      ''CREATE INDEX IF NOT EXISTS idx_trades_ts ON trades(ts);'']"

fun exec_all :: "'w sqlite_api \<Rightarrow> ptr \<Rightarrow> string list \<Rightarrow> 'w \<Rightarrow> unit result \<times> 'w" where
  "exec_all api db [] w = (Inr (), w)"
| "exec_all api db (q # qs) w = andthen (conn_exec api db q) (\<lambda>_. exec_all api db qs) w"

definition sq_init :: "'w sqlite_api \<Rightarrow> ptr \<Rightarrow> 'w \<Rightarrow> unit result \<times> 'w" where
  "sq_init api db = exec_all api db schema_sql"

text \<open>When \<open>init\<close> throws, the members built so far are destroyed; the cache is still empty.\<close>

definition SqTradeStore_new :: "'w sqlite_api \<Rightarrow> string \<Rightarrow> 'w \<Rightarrow> 'w SqTradeStore result \<times> 'w" where
  "SqTradeStore_new api path =
     andthen (SqConnection_new api path) (\<lambda>db w.
       case sq_init api db w of
         (Inl e, w1) \<Rightarrow> (Inl e, SqConnection_destroy api db w1)
       | (Inr _, w1) \<Rightarrow>
           (Inr \<lparr>sqs_path = path, sqs_writer = db, sqs_cache = StatementCache_new 16, sqs_lib = w1\<rparr>, w1))"

definition SqTradeStore_destroy :: "'w sqlite_api \<Rightarrow> 'w SqTradeStore \<Rightarrow> 'w" where
  "SqTradeStore_destroy api s =
     SqConnection_destroy api (sqs_writer s)
       (fold (\<lambda>e. SqStatement_destroy api (en_stmt e)) (sc_lru (sqs_cache s)) (sqs_lib s))"

subsection \<open>Inserting\<close>

definition insert_sql :: string where
  "insert_sql = ''INSERT INTO trades(buy_order_id,sell_order_id,symbol,price,qty,ts) VALUES(?,?,?,?,?,?);''"

definition insert_fill :: "'w sqlite_api \<Rightarrow> SqStatement \<Rightarrow> Fill \<Rightarrow> 'w \<Rightarrow> unit result \<times> 'w" where
  "insert_fill api st f =
     andthen (stmt_reset api st) (\<lambda>_.
     andthen (bindInt64 api st 1 (fill_buyOrderId f)) (\<lambda>_.
     andthen (bindInt64 api st 2 (fill_sellOrderId f)) (\<lambda>_.
     andthen (bindInt64 api st 3 (fill_symbolPacked f)) (\<lambda>_.
     andthen (bindInt api st 4 (fill_price f)) (\<lambda>_.
     andthen (bindInt api st 5 (fill_qty f)) (\<lambda>_.
     andthen (bindInt64 api st 6 (fill_timestamp f)) (\<lambda>_.
     stepDone api st)))))))"

fun insert_fills :: "'w sqlite_api \<Rightarrow> SqStatement \<Rightarrow> Fill list \<Rightarrow> 'w \<Rightarrow> unit result \<times> 'w" where
  "insert_fills api st [] w = (Inr (), w)"
| "insert_fills api st (f # fs) w = andthen (insert_fill api st f) (\<lambda>_. insert_fills api st fs) w"

definition sq_insertBatch :: "'w sqlite_api \<Rightarrow> Fill list \<Rightarrow> bool \<Rightarrow> 'w SqTradeStore \<Rightarrow> unit result \<times> 'w SqTradeStore" where
  "sq_insertBatch api fills failBeforeCommit =
     in_transaction api
       (andthen (sq_cache_get api insert_sql) (\<lambda>st.
        andthen (on_lib (insert_fills api st fills)) (\<lambda>_ s.
          if failBeforeCommit then (Inl (Throws (SQLiteError ''injected failure before commit'')), s) else (Inr (), s))))"

definition sq_replaceAll :: "'w sqlite_api \<Rightarrow> Fill list \<Rightarrow> 'w SqTradeStore \<Rightarrow> unit result \<times> 'w SqTradeStore" where
  "sq_replaceAll api fills s0 =
     in_transaction api
       (andthen (on_lib (conn_exec api (sqs_writer s0) ''DELETE FROM trades;'')) (\<lambda>_.
        andthen (sq_cache_get api insert_sql) (\<lambda>st.
        on_lib (insert_fills api st fills)))) s0"

subsection \<open>Queries\<close>

definition count_sql :: string where
  "count_sql = ''SELECT COUNT(*) FROM trades;''"

definition count_symbol_sql :: string where
  "count_symbol_sql = ''SELECT COUNT(*) FROM trades WHERE symbol=?;''"

definition vwap_sql :: string where
  "vwap_sql = ''SELECT COALESCE(SUM(price * qty) * 1.0 / NULLIF(SUM(qty),0),0) '' @
     ''FROM trades WHERE ts BETWEEN ? AND ?;''"

definition vwap_symbol_sql :: string where
  "vwap_symbol_sql = ''SELECT COALESCE(SUM(price * qty) * 1.0 / NULLIF(SUM(qty),0),0) '' @
     ''FROM trades WHERE symbol=? AND ts BETWEEN ? AND ?;''"

definition timeline_sql :: string where
  "timeline_sql = ''SELECT buy_order_id,sell_order_id,price,qty,ts,symbol '' @
     ''FROM trades WHERE symbol=? AND ts BETWEEN ? AND ? ORDER BY ts,id;''"

definition explain_sql :: string where
  "explain_sql = ''EXPLAIN QUERY PLAN SELECT * FROM trades WHERE ts BETWEEN ? AND ?;''"

text \<open>Binding 64-bit values to the parameters from \<open>index\<close> on.\<close>

fun bind_from :: "'w sqlite_api \<Rightarrow> SqStatement \<Rightarrow> nat \<Rightarrow> u64 list \<Rightarrow> 'w \<Rightarrow> unit result \<times> 'w" where
  "bind_from api st index [] w = (Inr (), w)"
| "bind_from api st index (v # vs) w = andthen (bindInt64 api st index v) (\<lambda>_. bind_from api st (Suc index) vs) w"

text \<open>\<open>stmt.stepRow() ? column(0) : 0\<close>.\<close>

definition first_column :: "'w sqlite_api \<Rightarrow> (SqStatement \<Rightarrow> 'w \<Rightarrow> 'a) \<Rightarrow> 'a \<Rightarrow> SqStatement \<Rightarrow> 'w \<Rightarrow> 'a result \<times> 'w" where
  "first_column api column dflt st =
     andthen (stepRow api st) (\<lambda>row w. (Inr (if row then column st w else dflt), w))"

definition sq_query ::
  "'w sqlite_api \<Rightarrow> (SqStatement \<Rightarrow> 'w \<Rightarrow> 'a) \<Rightarrow> 'a \<Rightarrow> string \<Rightarrow> u64 list \<Rightarrow> 'w SqTradeStore \<Rightarrow> 'a result \<times> 'w SqTradeStore" where
  "sq_query api column dflt sql args =
     andthen (sq_cache_get api sql) (\<lambda>st.
     andthen (on_lib (bind_from api st 1 args)) (\<lambda>_.
     on_lib (first_column api column dflt st)))"

definition sq_tradeCount :: "'w sqlite_api \<Rightarrow> 'w SqTradeStore \<Rightarrow> u64 result \<times> 'w SqTradeStore" where
  "sq_tradeCount api = sq_query api (\<lambda>st. columnUInt64 api st 0) 0 count_sql []"

definition sq_tradeCount_symbol :: "'w sqlite_api \<Rightarrow> u64 \<Rightarrow> 'w SqTradeStore \<Rightarrow> u64 result \<times> 'w SqTradeStore" where
  "sq_tradeCount_symbol api y = sq_query api (\<lambda>st. columnUInt64 api st 0) 0 count_symbol_sql [y]"

definition sq_vwap :: "'w sqlite_api \<Rightarrow> u64 \<Rightarrow> u64 \<Rightarrow> 'w SqTradeStore \<Rightarrow> real result \<times> 'w SqTradeStore" where
  "sq_vwap api beginTs endTs = sq_query api (\<lambda>st. columnDouble api st 0) 0 vwap_sql [beginTs, endTs]"

definition sq_vwap_symbol :: "'w sqlite_api \<Rightarrow> u64 \<Rightarrow> u64 \<Rightarrow> u64 \<Rightarrow> 'w SqTradeStore \<Rightarrow> real result \<times> 'w SqTradeStore" where
  "sq_vwap_symbol api y beginTs endTs = sq_query api (\<lambda>st. columnDouble api st 0) 0 vwap_symbol_sql [y, beginTs, endTs]"

text \<open>\<open>while (stmt.stepRow())\<close>: the loop ends when the library says so.\<close>

partial_function (option) fetch_rows ::
  "'w sqlite_api \<Rightarrow> (SqStatement \<Rightarrow> 'w \<Rightarrow> 'a) \<Rightarrow> SqStatement \<Rightarrow> 'a list \<Rightarrow> 'w \<Rightarrow> ('a list result \<times> 'w) option" where
  "fetch_rows api row st out w =
     (case stepRow api st w of
        (Inl e, w1) \<Rightarrow> Some (Inl e, w1)
      | (Inr found, w1) \<Rightarrow> if found then fetch_rows api row st (out @ [row st w1]) w1 else Some (Inr out, w1))"

definition sq_select_all ::
  "'w sqlite_api \<Rightarrow> (SqStatement \<Rightarrow> 'w \<Rightarrow> 'a) \<Rightarrow> string \<Rightarrow> u64 list \<Rightarrow> 'w SqTradeStore \<Rightarrow>
   ('a list result \<times> 'w SqTradeStore) option" where
  "sq_select_all api row sql args s =
     (case andthen (sq_cache_get api sql) (\<lambda>st. andthen (on_lib (bind_from api st 1 args)) (\<lambda>_ s. (Inr st, s))) s of
        (Inl e, s1) \<Rightarrow> Some (Inl e, s1)
      | (Inr st, s1) \<Rightarrow> map_option (\<lambda>(r, w). (r, s1\<lparr>sqs_lib := w\<rparr>)) (fetch_rows api row st [] (sqs_lib s1)))"

definition row_fill :: "'w sqlite_api \<Rightarrow> SqStatement \<Rightarrow> 'w \<Rightarrow> Fill" where
  "row_fill api st w =
     \<lparr>fill_buyOrderId = columnUInt64 api st 0 w, fill_sellOrderId = columnUInt64 api st 1 w,
      fill_price = ucast (columnUInt64 api st 2 w), fill_qty = ucast (columnUInt64 api st 3 w),
      fill_timestamp = columnUInt64 api st 4 w, fill_symbolPacked = columnUInt64 api st 5 w\<rparr>"

definition sq_timeline ::
  "'w sqlite_api \<Rightarrow> u64 \<Rightarrow> u64 \<Rightarrow> u64 \<Rightarrow> 'w SqTradeStore \<Rightarrow> (Fill list result \<times> 'w SqTradeStore) option" where
  "sq_timeline api y beginTs endTs = sq_select_all api (row_fill api) timeline_sql [y, beginTs, endTs]"

definition sq_explainPlan :: "'w sqlite_api \<Rightarrow> 'w SqTradeStore \<Rightarrow> (string result \<times> 'w SqTradeStore) option" where
  "sq_explainPlan api s =
     map_option (\<lambda>(r, s1). (case r of Inl e \<Rightarrow> Inl e | Inr lines \<Rightarrow> Inr (concat (map (\<lambda>l. l @ [CHR 0x0A]) lines)), s1))
       (sq_select_all api (\<lambda>st. columnText api st 3) explain_sql [0, 18446744073709551615] s)"

section \<open>The pool\<close>

text \<open>
  The constructor of \<open>ConnectionPool\<close>: every connection is opened and initialised; an exception destroys the
  ones opened so far.  The operations on the pool are those of the build without SQLite.
\<close>

definition open_pooled :: "'w sqlite_api \<Rightarrow> string \<Rightarrow> 'w \<Rightarrow> ptr result \<times> 'w" where
  "open_pooled api path =
     andthen (SqConnection_new api path) (\<lambda>db w.
       case sq_init api db w of
         (Inl e, w1) \<Rightarrow> (Inl e, SqConnection_destroy api db w1)
       | (Inr _, w1) \<Rightarrow> (Inr db, w1))"

fun open_connections :: "'w sqlite_api \<Rightarrow> string \<Rightarrow> nat \<Rightarrow> ptr list \<Rightarrow> 'w \<Rightarrow> ptr list result \<times> 'w" where
  "open_connections api path 0 dbs w = (Inr dbs, w)"
| "open_connections api path (Suc n) dbs w =
     (case open_pooled api path w of
        (Inl e, w1) \<Rightarrow> (Inl e, fold (SqConnection_destroy api) dbs w1)
      | (Inr db, w1) \<Rightarrow> open_connections api path n (dbs @ [db]) w1)"

definition SqConnectionPool_new :: "'w sqlite_api \<Rightarrow> string \<Rightarrow> size_t \<Rightarrow> 'w \<Rightarrow> ptr list result \<times> 'w" where
  "SqConnectionPool_new api path n w =
     (if n = 0 then (Inl (Throws (invalid_argument ''connection pool size must be > 0'')), w)
      else open_connections api path (unat n) [] w)"

end
