(* ===== verification/SQLite_Contract.thy ===== *)
theory SQLite_Contract
  imports SQLite_Backend
begin

text \<open>
  What the SQLite backend relies on: the documented behaviour of the library for the statements the sources
  send, over an abstract view of a database with one writer.  Every call may fail; the laws say what a success
  means and what a failure leaves alone.
\<close>

section \<open>Sequences of calls\<close>

text \<open>\<open>m\<close> from \<open>P\<close> returns a value and a state in \<open>Q\<close>, or throws an SQLite error in a state in \<open>E\<close>.\<close>

definition sends :: "('s \<Rightarrow> bool) \<Rightarrow> ('s \<Rightarrow> 'a result \<times> 's) \<Rightarrow> ('a \<Rightarrow> 's \<Rightarrow> bool) \<Rightarrow> ('s \<Rightarrow> bool) \<Rightarrow> bool" where
  "sends P m Q E \<longleftrightarrow>
     (\<forall>s r s'. P s \<and> m s = (r, s') \<longrightarrow>
        (case r of Inr x \<Rightarrow> Q x s' | Inl e \<Rightarrow> (\<exists>msg. e = Throws (SQLiteError msg)) \<and> E s'))"

text \<open>\<open>m\<close> does not throw from \<open>P\<close>.\<close>

definition succeeds :: "('s \<Rightarrow> bool) \<Rightarrow> ('s \<Rightarrow> 'a result \<times> 's) \<Rightarrow> bool" where
  "succeeds P m \<longleftrightarrow> (\<forall>s. P s \<longrightarrow> (\<exists>x s'. m s = (Inr x, s')))"

lemma andthen_eq:
  "andthen m f s = (r, s') \<longleftrightarrow>
     (\<exists>e. m s = (Inl e, s') \<and> r = Inl e) \<or> (\<exists>x s1. m s = (Inr x, s1) \<and> f x s1 = (r, s'))"
  by (auto simp: andthen_def split: prod.splits sum.splits)

lemma sends_andthen:
  assumes "sends P m Q E" and "\<And>x. sends (Q x) (f x) R E"
  shows "sends P (andthen m f) R E"
  using assms unfolding sends_def andthen_eq by (fastforce split: sum.splits)

lemma succeeds_andthen:
  assumes "succeeds P m" and "sends P m Q E" and "\<And>x. succeeds (Q x) (f x)"
  shows "succeeds P (andthen m f)"
  unfolding succeeds_def
proof (intro allI impI)
  fix s assume "P s"
  then obtain x s1 where m: "m s = (Inr x, s1)"
    using assms(1) by (auto simp: succeeds_def)
  then have "Q x s1"
    using assms(2) \<open>P s\<close> by (auto simp: sends_def split: sum.splits)
  then show "\<exists>x s'. andthen m f s = (Inr x, s')"
    using assms(3) m by (auto simp: succeeds_def andthen_def)
qed

lemma sends_weaken:
  "sends P m Q E \<Longrightarrow> (\<And>s. P' s \<Longrightarrow> P s) \<Longrightarrow> (\<And>x s. Q x s \<Longrightarrow> Q' x s) \<Longrightarrow> (\<And>s. E s \<Longrightarrow> E' s) \<Longrightarrow> sends P' m Q' E'"
  unfolding sends_def by (fastforce split: sum.splits)

lemma sendsD:
  assumes "sends P m Q E" and "P s" and "m s = (r, s')"
  shows "(\<exists>x. r = Inr x \<and> Q x s') \<or> (\<exists>msg. r = Inl (Throws (SQLiteError msg)) \<and> E s')"
proof -
  have "case r of Inr x \<Rightarrow> Q x s' | Inl e \<Rightarrow> (\<exists>msg. e = Throws (SQLiteError msg)) \<and> E s'"
    using assms unfolding sends_def by blast
  then show ?thesis
    by (cases r) auto
qed

section \<open>The database\<close>

datatype sq_value = IntV int | RealV real | NullV

record trade_row =
  tr_buy :: int
  tr_sell :: int
  tr_symbol :: int
  tr_price :: int
  tr_qty :: int
  tr_ts :: int

text \<open>
  A prepared statement: its text, the values bound to its parameters, the rows still to come once it has been
  stepped, and the row it is at.
\<close>

record stmt_view =
  sv_sql :: string
  sv_binds :: "nat \<rightharpoonup> int"
  sv_results :: "sq_value list list option"
  sv_row :: "sq_value list"

text \<open>The committed rows in order of \<open>id\<close>, the rows as the open transaction sees them, and the statements.\<close>

record sq_view =
  vw_rows :: "trade_row list"
  vw_txn :: "trade_row list option"
  vw_stmts :: "addr \<rightharpoonup> stmt_view"

definition visible :: "sq_view \<Rightarrow> trade_row list" where
  "visible v = (case vw_txn v of Some rs \<Rightarrow> rs | None \<Rightarrow> vw_rows v)"

definition set_visible :: "trade_row list \<Rightarrow> sq_view \<Rightarrow> sq_view" where
  "set_visible rs v = (case vw_txn v of Some _ \<Rightarrow> v\<lparr>vw_txn := Some rs\<rparr> | None \<Rightarrow> v\<lparr>vw_rows := rs\<rparr>)"

definition texts :: "sq_view \<Rightarrow> addr \<rightharpoonup> string" where
  "texts v a = map_option sv_sql (vw_stmts v a)"

text \<open>The tables agree, and every statement still exists with its text.\<close>

definition same_data :: "sq_view \<Rightarrow> sq_view \<Rightarrow> bool" where
  "same_data v v' \<longleftrightarrow> vw_rows v' = vw_rows v \<and> vw_txn v' = vw_txn v \<and> texts v' = texts v"

text \<open>A failed call may also have rolled the transaction back.\<close>

definition unharmed :: "sq_view \<Rightarrow> sq_view \<Rightarrow> bool" where
  "unharmed v v' \<longleftrightarrow> vw_rows v' = vw_rows v \<and> (vw_txn v' = vw_txn v \<or> vw_txn v' = None) \<and> texts v' = texts v"

definition row_of_binds :: "(nat \<rightharpoonup> int) \<Rightarrow> trade_row option" where
  "row_of_binds b = do {
     x1 \<leftarrow> b 1; x2 \<leftarrow> b 2; x3 \<leftarrow> b 3; x4 \<leftarrow> b 4; x5 \<leftarrow> b 5; x6 \<leftarrow> b 6;
     Some \<lparr>tr_buy = x1, tr_sell = x2, tr_symbol = x3, tr_price = x4, tr_qty = x5, tr_ts = x6\<rparr>
   }"

text \<open>The answers to the queries.  A sum that leaves the range of 64-bit integers is an error.\<close>

definition in_i64 :: "int \<Rightarrow> bool" where
  "in_i64 i \<longleftrightarrow> - 9223372036854775808 \<le> i \<and> i \<le> 9223372036854775807"

definition answer_vwap :: "(real \<Rightarrow> real) \<Rightarrow> trade_row list \<Rightarrow> sq_value list list option" where
  "answer_vwap rnd rs =
     (let n = sum_list (map (\<lambda>r. tr_price r * tr_qty r) rs); q = sum_list (map tr_qty rs)
      in if in_i64 n \<and> in_i64 q
         then Some [[if q = 0 then IntV 0 else RealV (rnd (rnd (real_of_int n) / rnd (real_of_int q)))]]
         else None)"

definition row_values :: "trade_row \<Rightarrow> sq_value list" where
  "row_values r = map IntV [tr_buy r, tr_sell r, tr_price r, tr_qty r, tr_ts r, tr_symbol r]"

text \<open>A comparison with an unbound parameter selects nothing.\<close>

definition cmp :: "(int \<Rightarrow> bool) \<Rightarrow> int option \<Rightarrow> bool" where
  "cmp p v = (case v of None \<Rightarrow> False | Some i \<Rightarrow> p i)"

definition selected :: "(nat \<rightharpoonup> int) \<Rightarrow> nat \<Rightarrow> trade_row \<Rightarrow> bool" where
  "selected b k r \<longleftrightarrow> cmp (\<lambda>i. i \<le> tr_ts r) (b k) \<and> cmp (\<lambda>i. tr_ts r \<le> i) (b (Suc k))"

definition answer :: "(real \<Rightarrow> real) \<Rightarrow> string \<Rightarrow> (nat \<rightharpoonup> int) \<Rightarrow> trade_row list \<Rightarrow> sq_value list list option" where
  "answer rnd q b rs =
     (if q = count_sql then Some [[IntV (int (length rs))]]
      else if q = count_symbol_sql
        then Some [[IntV (int (length (filter (\<lambda>r. cmp (\<lambda>y. tr_symbol r = y) (b 1)) rs)))]]
      else if q = vwap_sql then answer_vwap rnd (filter (selected b 1) rs)
      else if q = vwap_symbol_sql
        then answer_vwap rnd (filter (\<lambda>r. cmp (\<lambda>y. tr_symbol r = y) (b 1) \<and> selected b 2 r) rs)
      else if q = timeline_sql
        then Some (map row_values (sort_key tr_ts
               (filter (\<lambda>r. cmp (\<lambda>y. tr_symbol r = y) (b 1) \<and> selected b 2 r) rs)))
      else None)"

section \<open>The contract\<close>

definition exec_law :: "'w sqlite_api \<Rightarrow> ('w \<Rightarrow> sq_view) \<Rightarrow> bool" where
  "exec_law api view \<longleftrightarrow>
     (\<forall>db q w rc err w'. sq_exec api db q w = (rc, err, w') \<longrightarrow>
        view (sq_free api w') = view w' \<and>
        (rc \<noteq> kSqliteOk \<longrightarrow> unharmed (view w) (view w')) \<and>
        (rc = kSqliteOk \<longrightarrow>
          (q = ''BEGIN IMMEDIATE;'' \<longrightarrow> vw_txn (view w) = None \<and>
             same_data ((view w)\<lparr>vw_txn := Some (vw_rows (view w))\<rparr>) (view w')) \<and>
          (q = ''COMMIT;'' \<longrightarrow> vw_txn (view w) \<noteq> None \<and>
             same_data ((view w)\<lparr>vw_rows := visible (view w), vw_txn := None\<rparr>) (view w')) \<and>
          (q = ''ROLLBACK;'' \<longrightarrow> same_data ((view w)\<lparr>vw_txn := None\<rparr>) (view w')) \<and>
          (q = ''DELETE FROM trades;'' \<longrightarrow> same_data (set_visible [] (view w)) (view w')) \<and>
          (q \<in> set schema_sql \<longrightarrow> same_data (view w) (view w'))))"

definition prepare_law :: "'w sqlite_api \<Rightarrow> ('w \<Rightarrow> sq_view) \<Rightarrow> bool" where
  "prepare_law api view \<longleftrightarrow>
     (\<forall>db q w rc p w'. sq_prepare api db q w = (rc, p, w') \<longrightarrow>
        (if rc = kSqliteOk
         then \<exists>a. p = Some a \<and> vw_stmts (view w) a = None \<and>
                view w' = (view w)\<lparr>vw_stmts := (vw_stmts (view w))
                  (a \<mapsto> \<lparr>sv_sql = q, sv_binds = Map.empty, sv_results = None, sv_row = []\<rparr>)\<rparr>
         else view w' = view w)) \<and>
     (\<forall>a w. view (sq_finalize api (Some a) w) = (view w)\<lparr>vw_stmts := (vw_stmts (view w))(a := None)\<rparr>)"

definition set_stmt :: "addr \<Rightarrow> stmt_view \<Rightarrow> sq_view \<Rightarrow> sq_view" where
  "set_stmt a sv v = v\<lparr>vw_stmts := (vw_stmts v)(a \<mapsto> sv)\<rparr>"

definition bind_law :: "'w sqlite_api \<Rightarrow> ('w \<Rightarrow> sq_view) \<Rightarrow> bool" where
  "bind_law api view \<longleftrightarrow>
     (\<forall>a w sv. vw_stmts (view w) a = Some sv \<longrightarrow>
        view (sq_reset api (Some a) w) = set_stmt a (sv\<lparr>sv_results := None\<rparr>) (view w) \<and>
        view (sq_clear_bindings api (Some a) w) = set_stmt a (sv\<lparr>sv_binds := Map.empty\<rparr>) (view w) \<and>
        (\<forall>i x rc w'. sq_bind_int api (Some a) i x w = (rc, w') \<longrightarrow>
           view w' = (if rc = kSqliteOk then set_stmt a (sv\<lparr>sv_binds := (sv_binds sv)(i \<mapsto> sint x)\<rparr>) (view w) else view w)) \<and>
        (\<forall>i x rc w'. sq_bind_int64 api (Some a) i x w = (rc, w') \<longrightarrow>
           view w' = (if rc = kSqliteOk then set_stmt a (sv\<lparr>sv_binds := (sv_binds sv)(i \<mapsto> sint x)\<rparr>) (view w) else view w)))"

text \<open>The rows a statement still has to deliver.\<close>

definition due :: "(real \<Rightarrow> real) \<Rightarrow> sq_view \<Rightarrow> stmt_view \<Rightarrow> sq_value list list option" where
  "due rnd v sv = (case sv_results sv of Some rs \<Rightarrow> Some rs | None \<Rightarrow> answer rnd (sv_sql sv) (sv_binds sv) (visible v))"

definition step_law :: "(real \<Rightarrow> real) \<Rightarrow> 'w sqlite_api \<Rightarrow> ('w \<Rightarrow> sq_view) \<Rightarrow> bool" where
  "step_law rnd api view \<longleftrightarrow>
     (\<forall>a w sv rc w'. vw_stmts (view w) a = Some sv \<and> sq_step api (Some a) w = (rc, w') \<longrightarrow>
        (rc \<noteq> kSqliteRow \<and> rc \<noteq> kSqliteDone \<longrightarrow> unharmed (view w) (view w')) \<and>
        (sv_sql sv = insert_sql \<longrightarrow>
          (if rc = kSqliteDone
           then \<exists>row. row_of_binds (sv_binds sv) = Some row \<and>
                  same_data (set_visible (visible (view w) @ [row]) (view w)) (view w')
           else unharmed (view w) (view w'))) \<and>
        (\<forall>rs. sv_sql sv \<noteq> insert_sql \<and> due rnd (view w) sv = Some rs \<longrightarrow>
          (rc = kSqliteRow \<longrightarrow> rs \<noteq> [] \<and>
             view w' = set_stmt a (sv\<lparr>sv_results := Some (tl rs), sv_row := hd rs\<rparr>) (view w)) \<and>
          (rc = kSqliteDone \<longrightarrow> rs = [] \<and> view w' = set_stmt a (sv\<lparr>sv_results := None\<rparr>) (view w))))"

definition column_law :: "'w sqlite_api \<Rightarrow> ('w \<Rightarrow> sq_view) \<Rightarrow> bool" where
  "column_law api view \<longleftrightarrow>
     (\<forall>a w sv i. vw_stmts (view w) a = Some sv \<and> i < length (sv_row sv) \<longrightarrow>
        (\<forall>k. sv_row sv ! i = IntV k \<longrightarrow> sq_column_int64 api (Some a) i w = word_of_int k \<and>
               sq_column_double api (Some a) i w = real_of_int k) \<and>
        (\<forall>x. sv_row sv ! i = RealV x \<longrightarrow> sq_column_double api (Some a) i w = x))"

definition sqlite_behaves :: "(real \<Rightarrow> real) \<Rightarrow> 'w sqlite_api \<Rightarrow> ('w \<Rightarrow> sq_view) \<Rightarrow> bool" where
  "sqlite_behaves rnd api view \<longleftrightarrow>
     exec_law api view \<and> prepare_law api view \<and> bind_law api view \<and> step_law rnd api view \<and> column_law api view"

text \<open>A library that never fails where it need not.\<close>

definition params :: "string \<Rightarrow> nat" where
  "params q = length (filter (\<lambda>c. c = CHR ''?'') q)"

definition sqlite_reliable :: "(real \<Rightarrow> real) \<Rightarrow> 'w sqlite_api \<Rightarrow> ('w \<Rightarrow> sq_view) \<Rightarrow> bool" where
  "sqlite_reliable rnd api view \<longleftrightarrow>
     (\<forall>db q w. (q = ''BEGIN IMMEDIATE;'' \<and> vw_txn (view w) = None \<or> q = ''COMMIT;'' \<and> vw_txn (view w) \<noteq> None \<or>
        q = ''DELETE FROM trades;'' \<or> q \<in> set schema_sql) \<longrightarrow> fst (sq_exec api db q w) = kSqliteOk) \<and>
     (\<forall>db q w. fst (sq_prepare api db q w) = kSqliteOk) \<and>
     (\<forall>a w sv. vw_stmts (view w) a = Some sv \<longrightarrow>
        (\<forall>i x y. sv_results sv = None \<and> 0 < i \<and> i \<le> params (sv_sql sv) \<longrightarrow>
           fst (sq_bind_int api (Some a) i x w) = kSqliteOk \<and> fst (sq_bind_int64 api (Some a) i y w) = kSqliteOk) \<and>
        (sv_sql sv = insert_sql \<and> row_of_binds (sv_binds sv) \<noteq> None \<longrightarrow> fst (sq_step api (Some a) w) = kSqliteDone) \<and>
        (sv_sql sv \<noteq> insert_sql \<and> due rnd (view w) sv \<noteq> None \<longrightarrow>
           fst (sq_step api (Some a) w) \<in> {kSqliteRow, kSqliteDone}))"

end
