(* ===== verification/SQLite_Batches.thy ===== *)
theory SQLite_Batches
  imports SQLite_Contract
begin

text \<open>
  The batches of the SQLite backend under the contract of the library: the invariant of the statement cache,
  the effect of every call on the tables, and that a transaction either takes effect as a whole or leaves the
  committed rows alone.
\<close>

section \<open>The store between calls\<close>

text \<open>The rows, committed and in the open transaction.\<close>

definition data :: "('w \<Rightarrow> sq_view) \<Rightarrow> 'w SqTradeStore \<Rightarrow> trade_row list \<times> trade_row list option" where
  "data view s = (vw_rows (view (sqs_lib s)), vw_txn (view (sqs_lib s)))"

text \<open>The cache is in order and every cached statement exists under its text.\<close>

definition held :: "('w \<Rightarrow> sq_view) \<Rightarrow> 'w SqTradeStore \<Rightarrow> bool" where
  "held view s \<longleftrightarrow> cache_wf (sqs_cache s) \<and> sc_capacity (sqs_cache s) = 16 \<and>
     distinct (map (\<lambda>e. pst_stmt (en_stmt e)) (sc_lru (sqs_cache s))) \<and>
     (\<forall>e\<in>set (sc_lru (sqs_cache s)). \<exists>a. pst_stmt (en_stmt e) = Some a \<and> texts (view (sqs_lib s)) a = Some (en_sql e))"

lemma held_texts:
  "held view s \<Longrightarrow> texts (view w) = texts (view (sqs_lib s)) \<Longrightarrow> held view (s\<lparr>sqs_lib := w\<rparr>)"
  by (simp add: held_def)

lemma texts_set_stmt [simp]:
  "vw_stmts v a = Some sv \<Longrightarrow> sv_sql sv' = sv_sql sv \<Longrightarrow> texts (set_stmt a sv' v) = texts v"
  by (auto simp: texts_def set_stmt_def fun_eq_iff)

lemma set_stmt_data [simp]:
  "vw_rows (set_stmt a sv v) = vw_rows v" "vw_txn (set_stmt a sv v) = vw_txn v"
  "visible (set_stmt a sv v) = visible v" "vw_stmts (set_stmt a sv v) a = Some sv"
  "set_stmt a sv2 (set_stmt a sv1 v) = set_stmt a sv2 v"
  by (simp_all add: set_stmt_def visible_def split: option.split)

lemma texts_data [simp]:
  "texts (v\<lparr>vw_txn := t\<rparr>) = texts v" "texts (v\<lparr>vw_rows := rs\<rparr>) = texts v" "texts (set_visible rs v) = texts v"
  by (simp_all add: texts_def fun_eq_iff set_visible_def split: option.split)

lemma texts_stmt: "texts v a = Some q \<longleftrightarrow> (\<exists>sv. vw_stmts v a = Some sv \<and> sv_sql sv = q)"
  by (simp add: texts_def)

text \<open>A statement handle with its parameters unbound, before its first step.\<close>

definition ready :: "('w \<Rightarrow> sq_view) \<Rightarrow> string \<Rightarrow> SqStatement \<Rightarrow> (nat \<rightharpoonup> int) \<Rightarrow> 'w \<Rightarrow> bool" where
  "ready view sql st b w \<longleftrightarrow>
     (\<exists>a sv. pst_stmt st = Some a \<and> vw_stmts (view w) a = Some sv \<and> sv_sql sv = sql \<and> sv_binds sv = b \<and> sv_results sv = None)"

lemma evict_cases:
  assumes "cache_wf c" and "0 < sc_capacity c"
  obtains "evict c = Some c"
  | c1 e where "evict c = Some c1" "sc_lru c = sc_lru c1 @ [e]"
proof (cases "of_nat (length (sc_lru c)) = sc_capacity c")
  case True
  then have "sc_lru c \<noteq> []"
    using assms(2) by auto
  then show ?thesis
    using True that(2) [of "c\<lparr>sc_index := (sc_index c)(en_sql (last (sc_lru c)) := None), sc_lru := butlast (sc_lru c)\<rparr>"
        "last (sc_lru c)"] by (simp add: evict_def)
qed (use that(1) in \<open>simp add: evict_def\<close>)

lemma bind_laws:
  assumes "bind_law api view" and "vw_stmts (view w) a = Some sv"
  shows "view (sq_reset api (Some a) w) = set_stmt a (sv\<lparr>sv_results := None\<rparr>) (view w)"
    and "view (sq_clear_bindings api (Some a) w) = set_stmt a (sv\<lparr>sv_binds := Map.empty\<rparr>) (view w)"
    and "sq_bind_int api (Some a) i x w = (rc, w') \<Longrightarrow>
      view w' = (if rc = kSqliteOk then set_stmt a (sv\<lparr>sv_binds := (sv_binds sv)(i \<mapsto> sint x)\<rparr>) (view w) else view w)"
    and "sq_bind_int64 api (Some a) i y w = (rc, w') \<Longrightarrow>
      view w' = (if rc = kSqliteOk then set_stmt a (sv\<lparr>sv_binds := (sv_binds sv)(i \<mapsto> sint y)\<rparr>) (view w) else view w)"
  using assms unfolding bind_law_def by blast+

lemma stmt_reset_ready:
  assumes law: "bind_law api view" and st: "pst_stmt st = Some a" "texts (view w) a = Some sql"
    and run: "stmt_reset api st w = (r, w')"
  shows "r = Inr ()" and "ready view sql st Map.empty w'" and "same_data (view w) (view w')"
proof -
  obtain sv where sv: "vw_stmts (view w) a = Some sv" "sv_sql sv = sql"
    using st(2) by (auto simp: texts_stmt)
  let ?w1 = "sq_reset api (Some a) w"
  have v1: "view ?w1 = set_stmt a (sv\<lparr>sv_results := None\<rparr>) (view w)"
    by (rule bind_laws(1) [OF law sv(1)])
  then have "view (sq_clear_bindings api (Some a) ?w1) =
      set_stmt a (sv\<lparr>sv_results := None, sv_binds := Map.empty\<rparr>) (view w)"
    using bind_laws(2) [OF law, of ?w1 a "sv\<lparr>sv_results := None\<rparr>"] by simp
  moreover have "w' = sq_clear_bindings api (Some a) ?w1" "r = Inr ()"
    using run st(1) by (simp_all add: stmt_reset_def)
  ultimately show "r = Inr ()" and "ready view sql st Map.empty w'" and "same_data (view w) (view w')"
    using st(1) sv by (simp_all add: ready_def same_data_def)
qed

text \<open>Looking up a statement.\<close>

abbreviation (input) steady :: "('w \<Rightarrow> sq_view) \<Rightarrow> trade_row list \<times> trade_row list option \<Rightarrow> 'w SqTradeStore \<Rightarrow> bool" where
  "steady view d s \<equiv> held view s \<and> data view s = d"

lemma get_hit:
  assumes law: "bind_law api view" and s: "steady view d s" and hit: "sc_index (sqs_cache s) sql = Some node"
  shows "\<exists>st s'. sq_cache_get api sql s = (Inr st, s') \<and> steady view d s' \<and> ready view sql st Map.empty (sqs_lib s')"
proof -
  let ?c = "sqs_cache s"
  have wf: "cache_wf ?c"
    using s by (simp add: held_def)
  obtain e where e: "e \<in> set (sc_lru ?c)" "en_sql e = sql" "splice_front node (sc_lru ?c) = Some (e # remove1 e (sc_lru ?c))"
    using index_hit [OF wf hit] by blast
  let ?l = "e # remove1 e (sc_lru ?c)"
  let ?s1 = "s\<lparr>sqs_cache := ?c\<lparr>sc_lru := ?l\<rparr>\<rparr>"
  obtain a where a: "pst_stmt (en_stmt e) = Some a" "texts (view (sqs_lib s)) a = Some sql"
    using s e(1,2) by (auto simp: held_def)
  have "distinct (map (\<lambda>e. pst_stmt (en_stmt e)) ?l)"
  proof -
    have "distinct (map (\<lambda>e. pst_stmt (en_stmt e)) (sc_lru ?c))"
      using s by (simp add: held_def)
    then show ?thesis
      using e(1) map_remove1 [of "\<lambda>e. pst_stmt (en_stmt e)" "sc_lru ?c" e] by (simp add: distinct_map)
  qed
  then have s1: "held view ?s1"
    using s splice_wf(1,2) [OF wf e(1)] by (simp add: held_def)
  obtain r w' where run: "stmt_reset api (en_stmt e) (sqs_lib s) = (r, w')"
    by (cases "stmt_reset api (en_stmt e) (sqs_lib s)")
  note rr = stmt_reset_ready [OF law a run]
  have "held view (?s1\<lparr>sqs_lib := w'\<rparr>)"
    using rr(3) s1 by (intro held_texts) (simp_all add: same_data_def)
  moreover have "sq_cache_get api sql s = (Inr (en_stmt e), ?s1\<lparr>sqs_lib := w'\<rparr>)"
    using hit e(3) run rr(1) by (simp add: sq_cache_get_def Let_def andthen_def on_lib_def)
  ultimately show ?thesis
    using rr(2,3) s by (simp add: data_def same_data_def)
qed

lemma evicted_held:
  assumes law: "prepare_law api view" and s: "steady view d s" and miss: "sc_index (sqs_cache s) sql = None"
  obtains c1 where "evict (sqs_cache s) = Some c1"
    and "steady view d (s\<lparr>sqs_cache := c1, sqs_lib := destroy_evicted api (sqs_cache s) c1 (sqs_lib s)\<rparr>)"
    and "length (sc_lru c1) < 16" and "sql \<notin> set (cache_texts c1)"
proof -
  let ?c = "sqs_cache s" and ?v = "view (sqs_lib s)"
  have wf: "cache_wf ?c" and cap: "sc_capacity ?c = 16" "0 < sc_capacity ?c"
    using s by (simp_all add: held_def)
  obtain c1 where c1: "evict ?c = Some c1" "cache_wf c1" "sc_capacity c1 = 16" "length (sc_lru c1) < 16"
      "set (sc_lru c1) \<subseteq> set (sc_lru ?c)"
    using evict_wf [OF wf cap(2)] cap(1) by auto
  have new: "sql \<notin> set (cache_texts c1)"
    using miss_text [OF wf miss] c1(5) by (auto simp: cache_texts_def)
  let ?w = "destroy_evicted api ?c c1 (sqs_lib s)"
  have "held view (s\<lparr>sqs_cache := c1, sqs_lib := ?w\<rparr>) \<and> vw_rows (view ?w) = vw_rows ?v \<and> vw_txn (view ?w) = vw_txn ?v"
  proof (cases rule: evict_cases [OF wf cap(2)])
    case 1
    then show ?thesis
      using c1 s by (simp add: destroy_evicted_def held_def)
  next
    case (2 c2 e)
    then have lru: "sc_lru ?c = sc_lru c1 @ [e]"
      using c1(1) by simp
    obtain a where a: "pst_stmt (en_stmt e) = Some a"
      using s lru by (auto simp: held_def)
    have fin: "view ?w = ?v\<lparr>vw_stmts := (vw_stmts ?v)(a := None)\<rparr>"
      using law lru a by (simp add: destroy_evicted_def SqStatement_destroy_def prepare_law_def)
    have "distinct (map (\<lambda>e. pst_stmt (en_stmt e)) (sc_lru c1))" "Some a \<notin> (\<lambda>e. pst_stmt (en_stmt e)) ` set (sc_lru c1)"
      using s lru a by (simp_all add: held_def)
    moreover have "\<exists>b. pst_stmt (en_stmt e') = Some b \<and> texts (view ?w) b = Some (en_sql e')" if e': "e' \<in> set (sc_lru c1)" for e'
    proof -
      obtain b where b: "pst_stmt (en_stmt e') = Some b" "texts ?v b = Some (en_sql e')"
        using s e' c1(5) unfolding held_def by blast
      then have "b \<noteq> a"
        using calculation(2) e' by force
      then show ?thesis
        using b fin by (simp add: texts_def)
    qed
    ultimately show ?thesis
      using fin c1(2,3) by (simp add: held_def)
  qed
  then show ?thesis
    using that c1(1,4) new s by (simp add: data_def)
qed

lemma held_push:
  assumes h: "held view s" and "length (sc_lru (sqs_cache s)) < 16" and "sql \<notin> set (cache_texts (sqs_cache s))"
    and st: "pst_stmt st = Some a" and fresh: "texts (view (sqs_lib s)) a = None"
    and new: "texts (view w) = (texts (view (sqs_lib s)))(a \<mapsto> sql)"
  shows "held view (s\<lparr>sqs_lib := w, sqs_cache := push_entry sql st (sqs_cache s)\<rparr>)"
proof -
  have "cache_wf (push_entry sql st (sqs_cache s))"
    using assms(1-3) by (intro push_wf) (simp_all add: held_def)
  moreover have self: "texts (view w) a = Some sql"
    using new by simp
  moreover have old: "\<exists>b. pst_stmt (en_stmt e) = Some b \<and> texts (view w) b = Some (en_sql e)" and "pst_stmt (en_stmt e) \<noteq> Some a"
    if "e \<in> set (sc_lru (sqs_cache s))" for e
  proof -
    obtain b where "pst_stmt (en_stmt e) = Some b" "texts (view (sqs_lib s)) b = Some (en_sql e)"
      using h \<open>e \<in> set (sc_lru (sqs_cache s))\<close> unfolding held_def by blast
    then show "\<exists>b. pst_stmt (en_stmt e) = Some b \<and> texts (view w) b = Some (en_sql e)" and "pst_stmt (en_stmt e) \<noteq> Some a"
      using fresh new by auto
  qed
  then have "Some a \<notin> (\<lambda>e. pst_stmt (en_stmt e)) ` set (sc_lru (sqs_cache s))"
    by force
  ultimately show ?thesis
    using h st old self by (simp add: held_def push_entry_def)
qed

lemma prepare_laws:
  assumes "prepare_law api view" and "sq_prepare api db q w = (rc, p, w')"
  shows "rc = kSqliteOk \<Longrightarrow> \<exists>a. p = Some a \<and> vw_stmts (view w) a = None \<and>
      view w' = (view w)\<lparr>vw_stmts := (vw_stmts (view w))
        (a \<mapsto> \<lparr>sv_sql = q, sv_binds = Map.empty, sv_results = None, sv_row = []\<rparr>)\<rparr>"
    and "rc \<noteq> kSqliteOk \<Longrightarrow> view w' = view w"
  using assms(1) [unfolded prepare_law_def, THEN conjunct1, rule_format, OF assms(2)] by simp_all

lemma get_miss:
  assumes law: "prepare_law api view" and s: "steady view d s" and miss: "sc_index (sqs_cache s) sql = None"
    and run: "sq_cache_get api sql s = (r, s')"
  shows "steady view d s'" and "(\<exists>st. r = Inr st \<and> ready view sql st Map.empty (sqs_lib s')) \<or> (\<exists>msg. r = Inl (Throws (SQLiteError msg)))"
    and "(\<And>w. fst (sq_prepare api (sqs_writer s) sql w) = kSqliteOk) \<Longrightarrow> \<exists>st. r = Inr st"
proof -
  obtain c1 where c1: "evict (sqs_cache s) = Some c1"
      "steady view d (s\<lparr>sqs_cache := c1, sqs_lib := destroy_evicted api (sqs_cache s) c1 (sqs_lib s)\<rparr>)"
      "length (sc_lru c1) < 16" "sql \<notin> set (cache_texts c1)"
    using evicted_held [OF law s miss] by blast
  let ?s1 = "s\<lparr>sqs_cache := c1, sqs_lib := destroy_evicted api (sqs_cache s) c1 (sqs_lib s)\<rparr>"
  let ?w = "sqs_lib ?s1"
  obtain rc p w' where prep: "sq_prepare api (sqs_writer s) sql ?w = (rc, p, w')"
    by (metis prod_cases3)
  have eq: "(r, s') = (if rc \<noteq> kSqliteOk
      then (Inl (Throws (SQLiteError (''prepare failed: '' @ conn_error api (sqs_writer s) w'))), ?s1\<lparr>sqs_lib := w'\<rparr>)
      else (let st = \<lparr>pst_db = sqs_writer s, pst_stmt = p, pst_sql = sql\<rparr>
            in (Inr st, ?s1\<lparr>sqs_lib := w', sqs_cache := push_entry sql st c1\<rparr>)))"
    using run miss c1(1) prep
    by (simp add: sq_cache_get_def Let_def andthen_def on_lib_def SqStatement_new_def split: if_splits)
  have "steady view d s' \<and> ((\<exists>st. r = Inr st \<and> ready view sql st Map.empty (sqs_lib s')) \<or> (\<exists>msg. r = Inl (Throws (SQLiteError msg))))"
  proof (cases "rc = kSqliteOk")
    case False
    then have "view w' = view ?w"
      using prepare_laws(2) [OF law prep] by simp
    then show ?thesis
      using eq False c1(2) held_texts [of view ?s1 w'] by (simp add: data_def)
  next
    case True
    then obtain a where a: "p = Some a" "vw_stmts (view ?w) a = None"
        "view w' = (view ?w)\<lparr>vw_stmts := (vw_stmts (view ?w))(a \<mapsto> \<lparr>sv_sql = sql, sv_binds = Map.empty, sv_results = None, sv_row = []\<rparr>)\<rparr>"
      using prepare_laws(1) [OF law prep True] by blast
    let ?st = "\<lparr>pst_db = sqs_writer s, pst_stmt = p, pst_sql = sql\<rparr>"
    have h: "held view ?s1"
      using c1(2) by blast
    have "texts (view w') = (texts (view ?w))(a \<mapsto> sql)"
      using a(3) by (auto simp: texts_def)
    then have "held view (?s1\<lparr>sqs_lib := w', sqs_cache := push_entry sql ?st c1\<rparr>)"
      using held_push [OF h, of sql ?st a w'] c1(3,4) a(1,2) by (simp add: texts_def)
    moreover have "ready view sql ?st Map.empty w'"
      using a by (simp add: ready_def)
    ultimately show ?thesis
      using eq True a c1(2) by (simp add: data_def Let_def)
  qed
  then show "steady view d s'" and "(\<exists>st. r = Inr st \<and> ready view sql st Map.empty (sqs_lib s')) \<or> (\<exists>msg. r = Inl (Throws (SQLiteError msg)))"
    by blast+
  show "\<exists>st. r = Inr st" if "\<And>w. fst (sq_prepare api (sqs_writer s) sql w) = kSqliteOk"
    using that [of ?w] eq prep by (simp add: Let_def)
qed

lemma cache_get_sends:
  assumes "prepare_law api view" and "bind_law api view"
  shows "sends (steady view d) (sq_cache_get api sql)
    (\<lambda>st s. steady view d s \<and> ready view sql st Map.empty (sqs_lib s)) (steady view d)"
  unfolding sends_def
proof (intro allI impI)
  fix s r s' assume s: "steady view d s \<and> sq_cache_get api sql s = (r, s')"
  show "case r of Inr st \<Rightarrow> steady view d s' \<and> ready view sql st Map.empty (sqs_lib s')
      | Inl e \<Rightarrow> (\<exists>msg. e = Throws (SQLiteError msg)) \<and> steady view d s'"
  proof (cases "sc_index (sqs_cache s) sql")
    case None
    show ?thesis
      using get_miss(1,2) [OF assms(1) _ None, of d r s'] s by auto
  next
    case (Some node)
    show ?thesis
      using get_hit [OF assms(2) _ Some, of d] s by auto
  qed
qed

lemma cache_get_succeeds:
  assumes "prepare_law api view" and "bind_law api view" and "sqlite_reliable rnd api view"
  shows "succeeds (steady view d) (sq_cache_get api sql)"
  unfolding succeeds_def
proof (intro allI impI)
  fix s assume s: "steady view d s"
  show "\<exists>x s'. sq_cache_get api sql s = (Inr x, s')"
  proof (cases "sc_index (sqs_cache s) sql")
    case None
    have "fst (sq_prepare api (sqs_writer s) sql w) = kSqliteOk" for w
      using assms(3) unfolding sqlite_reliable_def by blast
    then show ?thesis
      using get_miss(3) [OF assms(1) s None] by (metis surj_pair)
  next
    case (Some node)
    then show ?thesis
      using get_hit [OF assms(2) s] by blast
  qed
qed

section \<open>Binding and stepping\<close>

definition seen :: "('w \<Rightarrow> sq_view) \<Rightarrow> 'w \<Rightarrow> trade_row list \<times> trade_row list option \<times> (addr \<rightharpoonup> string)" where
  "seen view w = (vw_rows (view w), vw_txn (view w), texts (view w))"

lemma readyE:
  assumes "ready view q st b w"
  obtains a sv where "pst_stmt st = Some a" "vw_stmts (view w) a = Some sv" "sv_sql sv = q" "sv_binds sv = b" "sv_results sv = None"
  using assms by (auto simp: ready_def)

lemma bound_ready:
  assumes "pst_stmt st = Some a" and "vw_stmts (view w) a = Some sv" and "sv_sql sv = q" and "sv_binds sv = b"
    and "sv_results sv = None"
    and "view w' = (if rc = kSqliteOk then set_stmt a (sv\<lparr>sv_binds := (sv_binds sv)(i \<mapsto> v)\<rparr>) (view w) else view w)"
  shows "seen view w' = seen view w" and "rc = kSqliteOk \<Longrightarrow> ready view q st (b(i \<mapsto> v)) w'"
  using assms by (auto simp: seen_def ready_def)

lemma check_sends:
  assumes "\<And>w rc w'. P w \<Longrightarrow> call w = (rc, w') \<Longrightarrow> E w' \<and> (rc = kSqliteOk \<longrightarrow> Q w')"
  shows "sends P (\<lambda>w. stmt_check api st (call w)) (\<lambda>_. Q) E"
  unfolding sends_def
proof (intro allI impI)
  fix w r w' assume a: "P w \<and> stmt_check api st (call w) = (r, w')"
  obtain rc w1 where c: "call w = (rc, w1)"
    by (cases "call w")
  with a have "w1 = w'"
    by (auto simp: stmt_check_def split: if_splits)
  then show "case r of Inr _ \<Rightarrow> Q w' | Inl e \<Rightarrow> (\<exists>msg. e = Throws (SQLiteError msg)) \<and> E w'"
    using assms [of w rc w'] a c by (auto simp: stmt_check_def split: if_splits)
qed

lemma bind_sends:
  assumes law: "bind_law api view"
  shows "sends (\<lambda>w. ready view q st b w \<and> seen view w = d) (bindInt api st i x)
      (\<lambda>_ w. ready view q st (b(i \<mapsto> sint x)) w \<and> seen view w = d) (\<lambda>w. seen view w = d)"
    and "sends (\<lambda>w. ready view q st b w \<and> seen view w = d) (bindInt64 api st i y)
      (\<lambda>_ w. ready view q st (b(i \<mapsto> sint y)) w \<and> seen view w = d) (\<lambda>w. seen view w = d)"
proof -
  have "seen view w' = d \<and> (rc = kSqliteOk \<longrightarrow> ready view q st (b(i \<mapsto> sint x)) w' \<and> seen view w' = d)"
    if w: "ready view q st b w \<and> seen view w = d" and c: "sq_bind_int api (pst_stmt st) i x w = (rc, w')" for w rc w'
  proof -
    obtain a sv where sv: "pst_stmt st = Some a" "vw_stmts (view w) a = Some sv" "sv_sql sv = q" "sv_binds sv = b" "sv_results sv = None"
      using conjunct1 [OF w] by (rule readyE)
    have "view w' = (if rc = kSqliteOk then set_stmt a (sv\<lparr>sv_binds := (sv_binds sv)(i \<mapsto> sint x)\<rparr>) (view w) else view w)"
      using bind_laws(3) [OF law sv(2)] c sv(1) by simp
    then show ?thesis
      using bound_ready [of st a view w sv q b w' rc i "sint x"] sv w by simp
  qed
  then show "sends (\<lambda>w. ready view q st b w \<and> seen view w = d) (bindInt api st i x)
      (\<lambda>_ w. ready view q st (b(i \<mapsto> sint x)) w \<and> seen view w = d) (\<lambda>w. seen view w = d)"
    unfolding bindInt_def by (rule check_sends)
  have "seen view w' = d \<and> (rc = kSqliteOk \<longrightarrow> ready view q st (b(i \<mapsto> sint y)) w' \<and> seen view w' = d)"
    if w: "ready view q st b w \<and> seen view w = d" and c: "sq_bind_int64 api (pst_stmt st) i y w = (rc, w')" for w rc w'
  proof -
    obtain a sv where sv: "pst_stmt st = Some a" "vw_stmts (view w) a = Some sv" "sv_sql sv = q" "sv_binds sv = b" "sv_results sv = None"
      using conjunct1 [OF w] by (rule readyE)
    have "view w' = (if rc = kSqliteOk then set_stmt a (sv\<lparr>sv_binds := (sv_binds sv)(i \<mapsto> sint y)\<rparr>) (view w) else view w)"
      using bind_laws(4) [OF law sv(2)] c sv(1) by simp
    then show ?thesis
      using bound_ready [of st a view w sv q b w' rc i "sint y"] sv w by simp
  qed
  then show "sends (\<lambda>w. ready view q st b w \<and> seen view w = d) (bindInt64 api st i y)
      (\<lambda>_ w. ready view q st (b(i \<mapsto> sint y)) w \<and> seen view w = d) (\<lambda>w. seen view w = d)"
    unfolding bindInt64_def by (rule check_sends)
qed

lemma bind_succeeds:
  assumes "sqlite_reliable rnd api view" and "0 < i" and "i \<le> params q"
  shows "succeeds (\<lambda>w. ready view q st b w \<and> seen view w = d) (bindInt api st i x)"
    and "succeeds (\<lambda>w. ready view q st b w \<and> seen view w = d) (bindInt64 api st i y)"
  unfolding succeeds_def
proof (safe)
  fix w assume "ready view q st b w"
  then obtain a sv where sv: "pst_stmt st = Some a" "vw_stmts (view w) a = Some sv" "sv_sql sv = q" "sv_binds sv = b"
      "sv_results sv = None"
    by (rule readyE)
  then have "fst (sq_bind_int api (Some a) i x w) = kSqliteOk" "fst (sq_bind_int64 api (Some a) i y w) = kSqliteOk"
    using assms unfolding sqlite_reliable_def by blast+
  then show "\<exists>u w'. bindInt api st i x w = (Inr u, w')" "\<exists>u w'. bindInt64 api st i y w = (Inr u, w')"
    using sv(1) by (auto simp: bindInt_def bindInt64_def stmt_check_def split: prod.splits)
qed

section \<open>Inserting\<close>

definition row_of_fill :: "Fill \<Rightarrow> trade_row" where
  "row_of_fill f = \<lparr>tr_buy = sint (fill_buyOrderId f), tr_sell = sint (fill_sellOrderId f),
     tr_symbol = sint (fill_symbolPacked f), tr_price = sint (fill_price f), tr_qty = sint (fill_qty f),
     tr_ts = sint (fill_timestamp f)\<rparr>"

text \<open>The handle of a statement that exists with the text \<open>q\<close>.\<close>

definition exists_as :: "string \<Rightarrow> SqStatement \<Rightarrow> (addr \<rightharpoonup> string) \<Rightarrow> bool" where
  "exists_as q st tx \<longleftrightarrow> (\<exists>a. pst_stmt st = Some a \<and> tx a = Some q)"

lemma ready_exists: "ready view q st b w \<Longrightarrow> exists_as q st (texts (view w))"
  by (auto simp: ready_def exists_as_def texts_stmt)

lemma reset_sends:
  assumes "bind_law api view" and "exists_as q st tx"
  shows "sends (\<lambda>w. seen view w = (R, T, tx)) (stmt_reset api st)
      (\<lambda>_ w. ready view q st Map.empty w \<and> seen view w = (R, T, tx)) E"
    and "succeeds P (stmt_reset api st)"
proof -
  obtain a where a: "pst_stmt st = Some a" "tx a = Some q"
    using assms(2) by (auto simp: exists_as_def)
  have "r = Inr () \<and> ready view q st Map.empty w' \<and> seen view w' = (R, T, tx)"
    if "seen view w = (R, T, tx)" "stmt_reset api st w = (r, w')" for w r w'
    using stmt_reset_ready [OF assms(1) a(1) _ that(2), of q] that(1) a(2) by (simp add: seen_def same_data_def)
  then show "sends (\<lambda>w. seen view w = (R, T, tx)) (stmt_reset api st)
      (\<lambda>_ w. ready view q st Map.empty w \<and> seen view w = (R, T, tx)) E"
    unfolding sends_def by (auto split: sum.splits)
  show "succeeds P (stmt_reset api st)"
    by (simp add: succeeds_def stmt_reset_def)
qed

lemma step_insert:
  assumes law: "step_law rnd api view" and w: "ready view insert_sql st b w" "seen view w = (R, Some rs, tx)"
    and run: "stepDone api st w = (r, w')"
  shows "(r = Inr () \<and> (\<exists>row. row_of_binds b = Some row \<and> seen view w' = (R, Some (rs @ [row]), tx))) \<or>
    ((\<exists>msg. r = Inl (Throws (SQLiteError msg))) \<and> (\<exists>T. seen view w' = (R, T, tx)))"
proof -
  obtain a sv where sv: "pst_stmt st = Some a" "vw_stmts (view w) a = Some sv" "sv_sql sv = insert_sql" "sv_binds sv = b"
      "sv_results sv = None"
    using w(1) by (rule readyE)
  obtain rc where c: "sq_step api (Some a) w = (rc, w')"
    using run sv(1) by (auto simp: stepDone_def split: prod.splits if_splits)
  have "if rc = kSqliteDone then \<exists>row. row_of_binds (sv_binds sv) = Some row \<and>
      same_data (set_visible (visible (view w) @ [row]) (view w)) (view w') else unharmed (view w) (view w')"
    using law sv(2,3) c unfolding step_law_def by blast
  then show ?thesis
    using run c sv(1,4) w(2)
    by (auto simp: stepDone_def seen_def same_data_def unharmed_def set_visible_def visible_def
        split: if_splits)
qed

lemma insert_fill_sends:
  assumes laws: "bind_law api view" "step_law rnd api view" and st: "exists_as insert_sql st tx"
  shows "sends (\<lambda>w. seen view w = (R, Some rs, tx)) (insert_fill api st f)
    (\<lambda>_ w. seen view w = (R, Some (rs @ [row_of_fill f]), tx)) (\<lambda>w. \<exists>T. seen view w = (R, T, tx))"
proof -
  let ?E = "\<lambda>w. \<exists>T. seen view w = (R, T, tx)" and ?d = "(R, Some rs, tx)"
  have b4: "sends (\<lambda>w. ready view insert_sql st b w \<and> seen view w = ?d) (bindInt api st i x)
      (\<lambda>_ w. ready view insert_sql st (b(i \<mapsto> sint x)) w \<and> seen view w = ?d) ?E" for b i x
    by (rule sends_weaken [OF bind_sends(1) [OF laws(1)]]) auto
  have b8: "sends (\<lambda>w. ready view insert_sql st b w \<and> seen view w = ?d) (bindInt64 api st i x)
      (\<lambda>_ w. ready view insert_sql st (b(i \<mapsto> sint x)) w \<and> seen view w = ?d) ?E" for b i x
    by (rule sends_weaken [OF bind_sends(2) [OF laws(1)]]) auto
  have step: "sends (\<lambda>w. ready view insert_sql st b w \<and> seen view w = ?d) (stepDone api st)
      (\<lambda>_ w. \<exists>row. row_of_binds b = Some row \<and> seen view w = (R, Some (rs @ [row]), tx)) ?E" for b
    unfolding sends_def using step_insert [OF laws(2)] by (fastforce split: sum.splits)
  show ?thesis
    unfolding insert_fill_def
    apply (rule sends_andthen [OF reset_sends(1) [OF laws(1) st]])
    apply (rule sends_andthen [OF b8])
    apply (rule sends_andthen [OF b8])
    apply (rule sends_andthen [OF b8])
    apply (rule sends_andthen [OF b4])
    apply (rule sends_andthen [OF b4])
    apply (rule sends_andthen [OF b8])
    apply (rule sends_weaken [OF step])
      apply (auto simp: row_of_binds_def row_of_fill_def)
    done
qed

lemma step_insert_succeeds:
  assumes "sqlite_reliable rnd api view" and "row_of_binds b \<noteq> None"
  shows "succeeds (\<lambda>w. ready view insert_sql st b w \<and> seen view w = d) (stepDone api st)"
  unfolding succeeds_def
proof (safe)
  fix w assume "ready view insert_sql st b w"
  then obtain a sv where sv: "pst_stmt st = Some a" "vw_stmts (view w) a = Some sv" "sv_sql sv = insert_sql" "sv_binds sv = b"
      "sv_results sv = None"
    by (rule readyE)
  then have "fst (sq_step api (Some a) w) = kSqliteDone"
    using assms unfolding sqlite_reliable_def by blast
  then show "\<exists>u w'. stepDone api st w = (Inr u, w')"
    using sv(1) by (auto simp: stepDone_def split: prod.splits)
qed

lemma params_insert: "params insert_sql = 6"
  by (simp add: params_def insert_sql_def)

lemma insert_fill_succeeds:
  assumes law: "bind_law api view" and rel: "sqlite_reliable rnd api view" and st: "exists_as insert_sql st tx"
  shows "succeeds (\<lambda>w. seen view w = (R, T, tx)) (insert_fill api st f)"
proof -
  let ?d = "(R, T, tx)"
  note ok = bind_succeeds [OF rel, of _ insert_sql, unfolded params_insert, simplified]
  show ?thesis
    unfolding insert_fill_def
    apply (rule succeeds_andthen [OF reset_sends(2) [OF law st] reset_sends(1) [OF law st]])
    apply (rule succeeds_andthen [OF ok(2) bind_sends(2) [OF law]], simp, simp)
    apply (rule succeeds_andthen [OF ok(2) bind_sends(2) [OF law]], simp, simp)
    apply (rule succeeds_andthen [OF ok(2) bind_sends(2) [OF law]], simp, simp)
    apply (rule succeeds_andthen [OF ok(1) bind_sends(1) [OF law]], simp, simp)
    apply (rule succeeds_andthen [OF ok(1) bind_sends(1) [OF law]], simp, simp)
    apply (rule succeeds_andthen [OF ok(2) bind_sends(2) [OF law]], simp, simp)
    apply (rule step_insert_succeeds [OF rel])
    apply (simp add: row_of_binds_def)
    done
qed

lemma insert_fills_eq: "insert_fills api st (f # fs) = andthen (insert_fill api st f) (\<lambda>_. insert_fills api st fs)"
  by (simp add: fun_eq_iff)

lemma insert_fills_sends:
  assumes laws: "bind_law api view" "step_law rnd api view" and st: "exists_as insert_sql st tx"
  shows "sends (\<lambda>w. seen view w = (R, Some rs, tx)) (insert_fills api st fs)
    (\<lambda>_ w. seen view w = (R, Some (rs @ map row_of_fill fs), tx)) (\<lambda>w. \<exists>T. seen view w = (R, T, tx))"
proof (induction fs arbitrary: rs)
  case Nil
  show ?case
    by (simp add: sends_def split: sum.splits)
next
  case (Cons f fs)
  show ?case
    unfolding insert_fills_eq
    using sends_andthen [OF insert_fill_sends [OF laws st, of R rs f] Cons.IH [of "rs @ [row_of_fill f]"]] by simp
qed

lemma insert_fills_succeeds:
  assumes laws: "bind_law api view" "step_law rnd api view" and rel: "sqlite_reliable rnd api view"
    and st: "exists_as insert_sql st tx"
  shows "succeeds (\<lambda>w. seen view w = (R, Some rs, tx)) (insert_fills api st fs)"
proof (induction fs arbitrary: rs)
  case Nil
  show ?case
    by (simp add: succeeds_def)
next
  case (Cons f fs)
  show ?case
    unfolding insert_fills_eq
    by (rule succeeds_andthen [OF insert_fill_succeeds [OF laws(1) rel st] insert_fill_sends [OF laws st] Cons.IH])
qed

section \<open>Operations of the store\<close>

definition rows_kept :: "('w \<Rightarrow> sq_view) \<Rightarrow> trade_row list \<Rightarrow> 'w SqTradeStore \<Rightarrow> bool" where
  "rows_kept view R s \<longleftrightarrow> (\<exists>T. steady view (R, T) s)"

lemma rows_keptI: "steady view (R, T) s \<Longrightarrow> rows_kept view R s"
  unfolding rows_kept_def by blast

text \<open>A computation on the library, run on the store.\<close>

lemma on_lib_lift:
  assumes "\<And>tx. sends (\<lambda>w. P w \<and> seen view w = (R, T, tx)) m
    (\<lambda>x w. Q x w \<and> seen view w = (R', T', tx)) (\<lambda>w. \<exists>T. seen view w = (R, T, tx))"
  shows "sends (\<lambda>s. P (sqs_lib s) \<and> steady view (R, T) s) (on_lib m)
    (\<lambda>x s. Q x (sqs_lib s) \<and> steady view (R', T') s) (rows_kept view R)"
  unfolding sends_def
proof (intro allI impI)
  fix s r s' assume a: "(P (sqs_lib s) \<and> steady view (R, T) s) \<and> on_lib m s = (r, s')"
  obtain w' where w': "m (sqs_lib s) = (r, w')" "s' = s\<lparr>sqs_lib := w'\<rparr>"
    using a by (auto simp: on_lib_def split: prod.splits)
  have "P (sqs_lib s) \<and> seen view (sqs_lib s) = (R, T, texts (view (sqs_lib s)))"
    using a by (simp add: seen_def data_def)
  note out = sendsD [OF assms this w'(1)]
  have texts: "texts (view w') = texts (view (sqs_lib s))"
    using out by (auto simp: seen_def)
  show "case r of Inr x \<Rightarrow> Q x (sqs_lib s') \<and> steady view (R', T') s'
      | Inl e \<Rightarrow> (\<exists>msg. e = Throws (SQLiteError msg)) \<and> rows_kept view R s'"
    using out a held_texts [OF _ texts] w'(2) by (auto simp: seen_def data_def rows_kept_def)
qed

lemma on_lib_returns:
  assumes "\<And>tx. succeeds (\<lambda>w. P w \<and> seen view w = (R, T, tx)) m"
  shows "succeeds (\<lambda>s. P (sqs_lib s) \<and> steady view (R, T) s) (on_lib m)"
  unfolding succeeds_def
proof (intro allI impI)
  fix s assume s: "P (sqs_lib s) \<and> steady view (R, T) s"
  then have "P (sqs_lib s) \<and> seen view (sqs_lib s) = (R, T, texts (view (sqs_lib s)))"
    by (simp add: seen_def data_def)
  then obtain x w where "m (sqs_lib s) = (Inr x, w)"
    using assms unfolding succeeds_def by blast
  then show "\<exists>x s'. on_lib m s = (Inr x, s')"
    by (simp add: on_lib_def)
qed

text \<open>The same for a computation that depends on the statements alone.\<close>

lemma on_lib_sends:
  assumes "\<And>tx. A tx \<Longrightarrow> sends (\<lambda>w. seen view w = (R, T, tx)) m (\<lambda>x w. seen view w = (R', T', tx)) (\<lambda>w. \<exists>T. seen view w = (R, T, tx))"
  shows "sends (\<lambda>s. A (texts (view (sqs_lib s))) \<and> steady view (R, T) s) (on_lib m) (\<lambda>x. steady view (R', T')) (rows_kept view R)"
proof -
  have "sends (\<lambda>w. A (texts (view w)) \<and> seen view w = (R, T, tx)) m
      (\<lambda>x w. True \<and> seen view w = (R', T', tx)) (\<lambda>w. \<exists>T. seen view w = (R, T, tx))" for tx
    using assms [of tx] by (cases "A tx") (auto simp: sends_def seen_def)
  from on_lib_lift [OF this] show ?thesis
    by simp
qed

lemma on_lib_succeeds:
  assumes "\<And>tx. A tx \<Longrightarrow> succeeds (\<lambda>w. seen view w = (R, T, tx)) m"
  shows "succeeds (\<lambda>s. A (texts (view (sqs_lib s))) \<and> steady view (R, T) s) (on_lib m)"
  by (rule on_lib_returns) (use assms in \<open>auto simp: succeeds_def seen_def\<close>)

lemma exec_laws:
  assumes "exec_law api view" and "sq_exec api db q w = (rc, err, w')"
  shows "view (sq_free api w') = view w'" and "rc \<noteq> kSqliteOk \<Longrightarrow> unharmed (view w) (view w')"
    and "rc = kSqliteOk \<Longrightarrow> q = ''BEGIN IMMEDIATE;'' \<Longrightarrow>
      vw_txn (view w) = None \<and> same_data ((view w)\<lparr>vw_txn := Some (vw_rows (view w))\<rparr>) (view w')"
    and "rc = kSqliteOk \<Longrightarrow> q = ''COMMIT;'' \<Longrightarrow>
      vw_txn (view w) \<noteq> None \<and> same_data ((view w)\<lparr>vw_rows := visible (view w), vw_txn := None\<rparr>) (view w')"
    and "rc = kSqliteOk \<Longrightarrow> q = ''ROLLBACK;'' \<Longrightarrow> same_data ((view w)\<lparr>vw_txn := None\<rparr>) (view w')"
    and "rc = kSqliteOk \<Longrightarrow> q = ''DELETE FROM trades;'' \<Longrightarrow> same_data (set_visible [] (view w)) (view w')"
    and "rc = kSqliteOk \<Longrightarrow> q \<in> set schema_sql \<Longrightarrow> same_data (view w) (view w')"
  using assms(1) [unfolded exec_law_def, rule_format, OF assms(2)] by blast+

lemma exec_sends:
  assumes law: "exec_law api view"
    and ok: "\<And>w err w'. seen view w = (R, T, tx) \<Longrightarrow> sq_exec api db q w = (kSqliteOk, err, w') \<Longrightarrow> Q w'"
  shows "sends (\<lambda>w. seen view w = (R, T, tx)) (conn_exec api db q) (\<lambda>_. Q) (\<lambda>w. \<exists>T. seen view w = (R, T, tx))"
  unfolding sends_def
proof (intro allI impI)
  fix w r w' assume a: "seen view w = (R, T, tx) \<and> conn_exec api db q w = (r, w')"
  obtain rc err w1 where c: "sq_exec api db q w = (rc, err, w1)"
    by (metis prod_cases3)
  show "case r of Inr _ \<Rightarrow> Q w' | Inl e \<Rightarrow> (\<exists>msg. e = Throws (SQLiteError msg)) \<and> (\<exists>T. seen view w' = (R, T, tx))"
  proof (cases "rc = kSqliteOk")
    case True
    then show ?thesis
      using a c ok by (auto simp: conn_exec_def)
  next
    case False
    have "\<exists>T. seen view w1 = (R, T, tx)"
      using exec_laws(2) [OF law c False] a by (auto simp: unharmed_def seen_def)
    moreover have "view (sq_free api w1) = view w1"
      by (rule exec_laws(1) [OF law c])
    ultimately show ?thesis
      using a c False by (auto simp: conn_exec_def seen_def split: option.splits)
  qed
qed

lemma store_exec_sends:
  assumes "exec_law api view"
    and "\<And>w err w' tx. seen view w = (R, T, tx) \<Longrightarrow> sq_exec api db q w = (kSqliteOk, err, w') \<Longrightarrow> seen view w' = (R', T', tx)"
  shows "sends (steady view (R, T)) (on_lib (conn_exec api db q)) (\<lambda>_. steady view (R', T')) (rows_kept view R)"
  using on_lib_sends [of "\<lambda>_. True", OF exec_sends [OF assms]] by simp

lemma exec_statements:
  assumes law: "exec_law api view"
  shows "sends (steady view (R, T)) (on_lib (conn_exec api db ''BEGIN IMMEDIATE;'')) (\<lambda>_. steady view (R, Some R)) (rows_kept view R)"
    and "sends (steady view (R, Some rs)) (on_lib (conn_exec api db ''COMMIT;'')) (\<lambda>_. steady view (rs, None)) (rows_kept view R)"
    and "sends (steady view (R, T)) (on_lib (conn_exec api db ''ROLLBACK;'')) (\<lambda>_. steady view (R, None)) (rows_kept view R)"
    and "sends (steady view (R, Some rs)) (on_lib (conn_exec api db ''DELETE FROM trades;''))
      (\<lambda>_. steady view (R, Some [])) (rows_kept view R)"
proof -
  show "sends (steady view (R, T)) (on_lib (conn_exec api db ''BEGIN IMMEDIATE;'')) (\<lambda>_. steady view (R, Some R)) (rows_kept view R)"
  proof (rule store_exec_sends [OF law])
    fix w err w' tx assume "seen view w = (R, T, tx)" "sq_exec api db ''BEGIN IMMEDIATE;'' w = (kSqliteOk, err, w')"
    then show "seen view w' = (R, Some R, tx)"
      using exec_laws(3) [OF law, of db "''BEGIN IMMEDIATE;''" w 0 err w'] by (simp add: seen_def same_data_def)
  qed
  show "sends (steady view (R, Some rs)) (on_lib (conn_exec api db ''COMMIT;'')) (\<lambda>_. steady view (rs, None)) (rows_kept view R)"
  proof (rule store_exec_sends [OF law])
    fix w err w' tx assume "seen view w = (R, Some rs, tx)" "sq_exec api db ''COMMIT;'' w = (kSqliteOk, err, w')"
    then show "seen view w' = (rs, None, tx)"
      using exec_laws(4) [OF law, of db "''COMMIT;''" w 0 err w'] by (simp add: seen_def same_data_def visible_def)
  qed
  show "sends (steady view (R, T)) (on_lib (conn_exec api db ''ROLLBACK;'')) (\<lambda>_. steady view (R, None)) (rows_kept view R)"
  proof (rule store_exec_sends [OF law])
    fix w err w' tx assume "seen view w = (R, T, tx)" "sq_exec api db ''ROLLBACK;'' w = (kSqliteOk, err, w')"
    then show "seen view w' = (R, None, tx)"
      using exec_laws(5) [OF law, of db "''ROLLBACK;''" w 0 err w'] by (simp add: seen_def same_data_def)
  qed
  show "sends (steady view (R, Some rs)) (on_lib (conn_exec api db ''DELETE FROM trades;''))
      (\<lambda>_. steady view (R, Some [])) (rows_kept view R)"
  proof (rule store_exec_sends [OF law])
    fix w err w' tx assume "seen view w = (R, Some rs, tx)" "sq_exec api db ''DELETE FROM trades;'' w = (kSqliteOk, err, w')"
    then show "seen view w' = (R, Some [], tx)"
      using exec_laws(6) [OF law, of db "''DELETE FROM trades;''" w 0 err w'] by (auto simp: seen_def same_data_def set_visible_def)
  qed
qed

lemma transaction_sends:
  assumes law: "exec_law api view"
  shows "sends (steady view (R, T)) (Transaction_begin api) (\<lambda>_. steady view (R, Some R)) (rows_kept view R)"
    and "sends (steady view (R, Some rs)) (sq_commit api) (\<lambda>_. steady view (rs, None)) (rows_kept view R)"
  using exec_statements(1,2) [OF law] unfolding sends_def Transaction_begin_def sq_commit_def by blast+

lemma rolled_back:
  assumes law: "exec_law api view" and s: "rows_kept view R s"
  shows "rows_kept view R (Transaction_end api active s)"
proof (cases active)
  case True
  obtain T where "steady view (R, T) s"
    using s by (auto simp: rows_kept_def)
  then show ?thesis
    using sendsD [OF exec_statements(3) [OF law, of R T "sqs_writer s"]] True
    by (cases "on_lib (conn_exec api (sqs_writer s) ''ROLLBACK;'') s") (auto simp: Transaction_end_def rows_kept_def)
qed (simp add: Transaction_end_def s)

lemma in_transaction_sends:
  assumes law: "exec_law api view"
    and body: "sends (steady view (R, Some R)) body (\<lambda>_ s. C \<and> steady view (R, Some rs) s) (rows_kept view R)"
  shows "sends (steady view (R, T)) (in_transaction api body) (\<lambda>_ s. C \<and> steady view (rs, None) s) (rows_kept view R)"
  unfolding in_transaction_def
proof (rule sends_andthen [OF transaction_sends(1) [OF law]])
  have run: "sends (steady view (R, Some R)) (andthen body (\<lambda>_. sq_commit api)) (\<lambda>_ s. C \<and> steady view (rs, None) s) (rows_kept view R)"
    by (rule sends_andthen [OF body]) (cases C, use transaction_sends(2) [OF law, of R rs] in \<open>simp_all add: sends_def\<close>)
  show "sends (steady view (R, Some R))
      (\<lambda>s. case andthen body (\<lambda>_. sq_commit api) s of
         (Inl e, s1) \<Rightarrow> (Inl e, Transaction_end api True s1)
       | (Inr _, s1) \<Rightarrow> (Inr (), Transaction_end api False s1)) (\<lambda>_ s. C \<and> steady view (rs, None) s) (rows_kept view R)" for x :: unit
    unfolding sends_def
  proof (intro allI impI, elim conjE)
    fix s r s' assume s: "held view s" "data view s = (R, Some R)"
      and eq: "(case andthen body (\<lambda>_. sq_commit api) s of
         (Inl e, s1) \<Rightarrow> (Inl e, Transaction_end api True s1)
       | (Inr _, s1) \<Rightarrow> (Inr (), Transaction_end api False s1)) = (r, s')"
    obtain r1 s1 where c: "andthen body (\<lambda>_. sq_commit api) s = (r1, s1)"
      by fastforce
    show "case r of Inr _ \<Rightarrow> C \<and> steady view (rs, None) s' | Inl e \<Rightarrow> (\<exists>msg. e = Throws (SQLiteError msg)) \<and> rows_kept view R s'"
      using sendsD [OF run _ c] s eq c rolled_back [OF law, of R s1 True]
      by (auto simp: Transaction_end_def split: sum.splits)
  qed
qed

section \<open>Batches\<close>

lemma get_insert_sends:
  assumes laws: "sqlite_behaves rnd api view"
  shows "sends (steady view (R, Some rs)) (andthen (sq_cache_get api insert_sql) (\<lambda>st. on_lib (insert_fills api st fs)))
      (\<lambda>_. steady view (R, Some (rs @ map row_of_fill fs))) (rows_kept view R)"
    and "sqlite_reliable rnd api view \<Longrightarrow>
      succeeds (steady view (R, Some rs)) (andthen (sq_cache_get api insert_sql) (\<lambda>st. on_lib (insert_fills api st fs)))"
proof -
  note l = laws [unfolded sqlite_behaves_def, THEN conjunct2, THEN conjunct1]
    laws [unfolded sqlite_behaves_def, THEN conjunct2, THEN conjunct2, THEN conjunct1]
    laws [unfolded sqlite_behaves_def, THEN conjunct2, THEN conjunct2, THEN conjunct2, THEN conjunct1]
  let ?A = "\<lambda>st s. exists_as insert_sql st (texts (view (sqs_lib s))) \<and> steady view (R, Some rs) s"
  have get: "sends (steady view (R, Some rs)) (sq_cache_get api insert_sql) ?A (rows_kept view R)"
    by (rule sends_weaken [OF cache_get_sends [OF l(1,2)]]) (auto intro: ready_exists rows_keptI)
  show "sends (steady view (R, Some rs)) (andthen (sq_cache_get api insert_sql) (\<lambda>st. on_lib (insert_fills api st fs)))
      (\<lambda>_. steady view (R, Some (rs @ map row_of_fill fs))) (rows_kept view R)"
    by (rule sends_andthen [OF get on_lib_sends [OF insert_fills_sends [OF l(2,3)]]])
  show "succeeds (steady view (R, Some rs)) (andthen (sq_cache_get api insert_sql) (\<lambda>st. on_lib (insert_fills api st fs)))"
    if rel: "sqlite_reliable rnd api view"
    by (rule succeeds_andthen [OF cache_get_succeeds [OF l(1,2) rel] get on_lib_succeeds [OF insert_fills_succeeds [OF l(2,3) rel]]])
qed

lemma andthen_assoc: "andthen m (\<lambda>x. andthen (f x) g) = andthen (andthen m f) g"
  by (simp add: andthen_def fun_eq_iff split: prod.split sum.split)

lemma exec_succeeds:
  assumes "sqlite_reliable rnd api view"
    and "q = ''BEGIN IMMEDIATE;'' \<and> T = None \<or> q = ''COMMIT;'' \<and> T \<noteq> None \<or> q = ''DELETE FROM trades;''"
  shows "succeeds (steady view (R, T)) (\<lambda>s. on_lib (conn_exec api (db s) q) s)"
  unfolding succeeds_def
proof (intro allI impI)
  fix s assume s: "steady view (R, T) s"
  then have "q = ''BEGIN IMMEDIATE;'' \<and> vw_txn (view (sqs_lib s)) = None \<or>
      q = ''COMMIT;'' \<and> vw_txn (view (sqs_lib s)) \<noteq> None \<or> q = ''DELETE FROM trades;''"
    using assms(2) by (simp add: data_def)
  then have "fst (sq_exec api (db s) q (sqs_lib s)) = kSqliteOk"
    using assms(1) [unfolded sqlite_reliable_def, THEN conjunct1] by blast
  then show "\<exists>x s'. on_lib (conn_exec api (db s) q) s = (Inr x, s')"
    by (auto simp: on_lib_def conn_exec_def split: prod.splits)
qed

lemma in_transaction_succeeds:
  assumes law: "exec_law api view" and rel: "sqlite_reliable rnd api view"
    and body: "sends (steady view (R, Some R)) body (\<lambda>_. steady view (R, Some rs)) (rows_kept view R)"
      "succeeds (steady view (R, Some R)) body"
  shows "succeeds (steady view (R, None)) (in_transaction api body)"
  unfolding in_transaction_def
proof (rule succeeds_andthen [OF _ transaction_sends(1) [OF law]])
  show "succeeds (steady view (R, None)) (Transaction_begin api)"
    using exec_succeeds [OF rel, of "''BEGIN IMMEDIATE;''" None] by (simp add: Transaction_begin_def [abs_def])
  have "succeeds (steady view (R, Some rs)) (sq_commit api)"
    using exec_succeeds [OF rel, of "''COMMIT;''" "Some rs"] by (simp add: sq_commit_def [abs_def])
  then have "succeeds (steady view (R, Some R)) (andthen body (\<lambda>_. sq_commit api))"
    by (rule succeeds_andthen [OF body(2,1)])
  then show "succeeds (steady view (R, Some R))
      (\<lambda>s. case andthen body (\<lambda>_. sq_commit api) s of
         (Inl e, s1) \<Rightarrow> (Inl e, Transaction_end api True s1)
       | (Inr _, s1) \<Rightarrow> (Inr (), Transaction_end api False s1))" for x :: unit
    by (fastforce simp: succeeds_def)
qed

lemma insertBatch_sends:
  assumes laws: "sqlite_behaves rnd api view"
  shows "sends (steady view (R, T)) (sq_insertBatch api fs failBeforeCommit)
      (\<lambda>_ s. \<not> failBeforeCommit \<and> steady view (R @ map row_of_fill fs, None) s) (rows_kept view R)"
    and "sqlite_reliable rnd api view \<Longrightarrow> succeeds (steady view (R, None)) (sq_insertBatch api fs False)"
proof -
  let ?m = "andthen (sq_cache_get api insert_sql) (\<lambda>st. on_lib (insert_fills api st fs))"
  let ?last = "\<lambda>fail (_ :: unit) s. if fail then (Inl (Throws (SQLiteError ''injected failure before commit'')), s) else (Inr (), s)"
  note exec = laws [unfolded sqlite_behaves_def, THEN conjunct1]
  have last: "sends (steady view (R, Some (R @ map row_of_fill fs))) (?last fail u)
      (\<lambda>_ s. \<not> fail \<and> steady view (R, Some (R @ map row_of_fill fs)) s) (rows_kept view R)" for fail u
    by (auto simp: sends_def rows_kept_def)
  note body = sends_andthen [OF get_insert_sends(1) [OF laws] last]
  show "sends (steady view (R, T)) (sq_insertBatch api fs failBeforeCommit)
      (\<lambda>_ s. \<not> failBeforeCommit \<and> steady view (R @ map row_of_fill fs, None) s) (rows_kept view R)"
    unfolding sq_insertBatch_def andthen_assoc by (rule in_transaction_sends [OF exec body])
  assume rel: "sqlite_reliable rnd api view"
  have "succeeds (steady view (R, Some R)) (andthen ?m (?last False))"
    by (rule succeeds_andthen [OF get_insert_sends(2) [OF laws rel] get_insert_sends(1) [OF laws]]) (simp add: succeeds_def)
  then show "succeeds (steady view (R, None)) (sq_insertBatch api fs False)"
    unfolding sq_insertBatch_def andthen_assoc
    using in_transaction_succeeds [OF exec rel _ , of R "andthen ?m (?last False)" "R @ map row_of_fill fs"] body [of False] by simp
qed

lemma replaceAll_sends:
  assumes laws: "sqlite_behaves rnd api view"
  shows "sends (steady view (R, T)) (sq_replaceAll api fs) (\<lambda>_. steady view (map row_of_fill fs, None)) (rows_kept view R)"
    and "sqlite_reliable rnd api view \<Longrightarrow> succeeds (steady view (R, None)) (sq_replaceAll api fs)"
proof -
  note exec = laws [unfolded sqlite_behaves_def, THEN conjunct1]
  let ?m = "andthen (sq_cache_get api insert_sql) (\<lambda>st. on_lib (insert_fills api st fs))"
  let ?body = "\<lambda>db. andthen (on_lib (conn_exec api db ''DELETE FROM trades;'')) (\<lambda>_. ?m)"
  have body: "sends (steady view (R, Some R)) (?body db) (\<lambda>_. steady view (R, Some (map row_of_fill fs))) (rows_kept view R)" for db
    using sends_andthen [OF exec_statements(4) [OF exec] get_insert_sends(1) [OF laws, of R "[]" fs]] by simp
  have "sends (steady view (R, T)) (in_transaction api (?body db)) (\<lambda>_. steady view (map row_of_fill fs, None)) (rows_kept view R)" for db
    using in_transaction_sends [OF exec, of R "?body db" True] body by simp
  then show "sends (steady view (R, T)) (sq_replaceAll api fs) (\<lambda>_. steady view (map row_of_fill fs, None)) (rows_kept view R)"
    unfolding sends_def sq_replaceAll_def by blast
  assume rel: "sqlite_reliable rnd api view"
  have "succeeds (steady view (R, Some R)) (?body db)" for db
    by (rule succeeds_andthen [OF _ exec_statements(4) [OF exec] get_insert_sends(2) [OF laws rel]])
      (rule exec_succeeds [OF rel], simp)
  then have "succeeds (steady view (R, None)) (in_transaction api (?body db))" for db
    by (rule in_transaction_succeeds [OF exec rel body])
  then show "succeeds (steady view (R, None)) (sq_replaceAll api fs)"
    unfolding succeeds_def sq_replaceAll_def by blast
qed

end
