(* ===== verification/SQLite_Queries.thy ===== *)
theory SQLite_Queries
  imports SQLite_Batches Trade_Store
begin

text \<open>
  The queries of the SQLite backend under the contract of the library: what the statements deliver, that the
  loop over the rows ends, and how the answers compare with those of the flat-file backend.
\<close>

section \<open>Delivering rows\<close>

definition reading :: "(real \<Rightarrow> real) \<Rightarrow> ('w \<Rightarrow> sq_view) \<Rightarrow> string \<Rightarrow> SqStatement \<Rightarrow> sq_value list list \<Rightarrow> 'w \<Rightarrow> bool" where
  "reading rnd view q st rs w \<longleftrightarrow>
     (\<exists>a sv. pst_stmt st = Some a \<and> vw_stmts (view w) a = Some sv \<and> sv_sql sv = q \<and> due rnd (view w) sv = Some rs)"

definition at_row :: "('w \<Rightarrow> sq_view) \<Rightarrow> SqStatement \<Rightarrow> sq_value list \<Rightarrow> 'w \<Rightarrow> bool" where
  "at_row view st r w \<longleftrightarrow> (\<exists>a sv. pst_stmt st = Some a \<and> vw_stmts (view w) a = Some sv \<and> sv_row sv = r)"

lemma readingE:
  assumes "reading rnd view q st rs w"
  obtains a sv where "pst_stmt st = Some a" "vw_stmts (view w) a = Some sv" "sv_sql sv = q" "due rnd (view w) sv = Some rs"
  using assms by (auto simp: reading_def)

lemma ready_reading:
  assumes "ready view q st b w" and "seen view w = (R, None, tx)" and "answer rnd q b R = Some rs"
  shows "reading rnd view q st rs w"
  using assms by (auto simp: ready_def reading_def seen_def due_def visible_def)

lemma step_laws:
  assumes "step_law rnd api view" and "vw_stmts (view w) a = Some sv" and "sq_step api (Some a) w = (rc, w')"
  shows "rc \<noteq> kSqliteRow \<Longrightarrow> rc \<noteq> kSqliteDone \<Longrightarrow> unharmed (view w) (view w')"
    and "sv_sql sv \<noteq> insert_sql \<Longrightarrow> due rnd (view w) sv = Some rs \<Longrightarrow> rc = kSqliteRow \<Longrightarrow>
      rs \<noteq> [] \<and> view w' = set_stmt a (sv\<lparr>sv_results := Some (tl rs), sv_row := hd rs\<rparr>) (view w)"
    and "sv_sql sv \<noteq> insert_sql \<Longrightarrow> due rnd (view w) sv = Some rs \<Longrightarrow> rc = kSqliteDone \<Longrightarrow>
      rs = [] \<and> view w' = set_stmt a (sv\<lparr>sv_results := None\<rparr>) (view w)"
  using assms(1) [unfolded step_law_def, rule_format, OF conjI, OF assms(2,3)] by blast+

lemma stepRow_sends:
  assumes law: "step_law rnd api view" and q: "q \<noteq> insert_sql"
  shows "sends (\<lambda>w. reading rnd view q st rs w \<and> seen view w = (R, T, tx)) (stepRow api st)
    (\<lambda>found w. (if found then rs \<noteq> [] \<and> at_row view st (hd rs) w \<and> reading rnd view q st (tl rs) w else rs = []) \<and>
       seen view w = (R, T, tx))
    (\<lambda>w. \<exists>T. seen view w = (R, T, tx))"
  unfolding sends_def
proof (intro allI impI, elim conjE)
  fix w r w' assume "reading rnd view q st rs w" and seen: "seen view w = (R, T, tx)" and run: "stepRow api st w = (r, w')"
  then obtain a sv where sv: "pst_stmt st = Some a" "vw_stmts (view w) a = Some sv" "sv_sql sv = q" "due rnd (view w) sv = Some rs"
    by (auto elim: readingE)
  obtain rc where c: "sq_step api (Some a) w = (rc, w')"
    using run sv(1) by (auto simp: stepRow_def split: prod.splits if_splits)
  note l = step_laws [OF law sv(2) c]
  show "case r of Inr found \<Rightarrow> (if found then rs \<noteq> [] \<and> at_row view st (hd rs) w' \<and> reading rnd view q st (tl rs) w' else rs = []) \<and>
         seen view w' = (R, T, tx)
      | Inl e \<Rightarrow> (\<exists>msg. e = Throws (SQLiteError msg)) \<and> (\<exists>T. seen view w' = (R, T, tx))"
  proof -
    consider "rc = kSqliteRow" | "rc = kSqliteDone" | "rc \<noteq> kSqliteRow" "rc \<noteq> kSqliteDone"
      by blast
    then show ?thesis
    proof cases
      case 1
      have "rs \<noteq> []" and v: "view w' = set_stmt a (sv\<lparr>sv_results := Some (tl rs), sv_row := hd rs\<rparr>) (view w)"
        using l(2) [OF _ sv(4) 1] q sv(3) by simp_all
      moreover have "at_row view st (hd rs) w'" "reading rnd view q st (tl rs) w'"
        using v sv by (simp_all add: at_row_def reading_def due_def)
      moreover have "seen view w' = (R, T, tx)"
        using v seen sv(2) by (simp add: seen_def)
      ultimately show ?thesis
        using run c 1 sv(1) by (auto simp: stepRow_def)
    next
      case 2
      then show ?thesis
        using l(3) [OF _ sv(4) 2] q sv(2,3) seen run c sv(1) by (auto simp: stepRow_def seen_def)
    next
      case 3
      then show ?thesis
        using l(1) [OF 3] seen run c sv(1) by (auto simp: stepRow_def seen_def unharmed_def)
    qed
  qed
qed

lemma stepRow_succeeds:
  assumes "sqlite_reliable rnd api view" and "q \<noteq> insert_sql" and "reading rnd view q st rs w"
  shows "\<exists>found w'. stepRow api st w = (Inr found, w')"
proof -
  obtain a sv where sv: "pst_stmt st = Some a" "vw_stmts (view w) a = Some sv" "sv_sql sv = q" "due rnd (view w) sv = Some rs"
    using assms(3) by (rule readingE)
  then have "due rnd (view w) sv \<noteq> None" "sv_sql sv \<noteq> insert_sql"
    using assms(2) by simp_all
  then have "fst (sq_step api (Some a) w) \<in> {kSqliteRow, kSqliteDone}"
    using assms(1) sv(2) unfolding sqlite_reliable_def by blast
  then show ?thesis
    using sv(1) by (auto simp: stepRow_def split: prod.splits)
qed

text \<open>The loop over the rows delivers all of them and ends.\<close>

lemma fetch_rows_returns:
  assumes law: "step_law rnd api view" and q: "q \<noteq> insert_sql"
    and row: "\<And>r w. r \<in> set rs \<Longrightarrow> at_row view st r w \<Longrightarrow> row st w = f r"
    and w: "reading rnd view q st rs w" "seen view w = (R, T, tx)"
  shows "\<exists>r w'. fetch_rows api row st out w = Some (r, w') \<and>
    ((r = Inr (out @ map f rs) \<and> seen view w' = (R, T, tx)) \<or>
     (\<exists>msg. r = Inl (Throws (SQLiteError msg))) \<and> (\<exists>T. seen view w' = (R, T, tx)) \<and> \<not> sqlite_reliable rnd api view)"
  using row w
proof (induction rs arbitrary: out w)
  case Nil
  obtain r w' where c: "stepRow api st w = (r, w')"
    by fastforce
  show ?case
    using sendsD [OF stepRow_sends [OF law q] conjI, OF Nil(2,3) c] stepRow_succeeds [OF _ q Nil(2), of api] c
    by (auto simp: fetch_rows.simps [of api row st out w])
next
  case (Cons x xs)
  obtain r w' where c: "stepRow api st w = (r, w')"
    by fastforce
  from sendsD [OF stepRow_sends [OF law q] conjI, OF Cons(3,4) c]
  consider "r = Inr True" "at_row view st x w'" "reading rnd view q st xs w'" "seen view w' = (R, T, tx)"
    | msg where "r = Inl (Throws (SQLiteError msg))" "\<exists>T. seen view w' = (R, T, tx)"
    by (auto split: if_splits)
  then show ?case
  proof cases
    case 1
    have "row st w' = f x"
      using 1(2) Cons.prems(1) [of x w'] by simp
    then show ?thesis
      using Cons.IH [OF Cons.prems(1) 1(3,4), of "out @ [f x]"] c 1(1)
      by (simp add: fetch_rows.simps [of api row st out w])
  next
    case 2
    then show ?thesis
      using c stepRow_succeeds [OF _ q Cons(3), of api] by (auto simp: fetch_rows.simps [of api row st out w])
  qed
qed

section \<open>Parameters and columns\<close>

fun args_from :: "(nat \<rightharpoonup> int) \<Rightarrow> nat \<Rightarrow> u64 list \<Rightarrow> nat \<rightharpoonup> int" where
  "args_from b i [] = b"
| "args_from b i (v # vs) = args_from (b(i \<mapsto> sint v)) (Suc i) vs"

lemma bind_from_eq: "bind_from api st i (v # vs) = andthen (bindInt64 api st i v) (\<lambda>_. bind_from api st (Suc i) vs)"
  by (simp add: fun_eq_iff)

lemma bind_from_sends:
  assumes law: "bind_law api view"
  shows "sends (\<lambda>w. ready view q st b w \<and> seen view w = d) (bind_from api st i vs)
    (\<lambda>_ w. ready view q st (args_from b i vs) w \<and> seen view w = d) (\<lambda>w. seen view w = d)"
proof (induction vs arbitrary: i b)
  case Nil
  show ?case
    by (simp add: sends_def)
next
  case (Cons v vs)
  show ?case
    unfolding bind_from_eq args_from.simps by (rule sends_andthen [OF bind_sends(2) [OF law] Cons.IH])
qed

lemma bind_from_succeeds:
  assumes law: "bind_law api view" and rel: "sqlite_reliable rnd api view" and "0 < i" and "i + length vs \<le> Suc (params q)"
  shows "succeeds (\<lambda>w. ready view q st b w \<and> seen view w = d) (bind_from api st i vs)"
  using assms(3,4)
proof (induction vs arbitrary: i b)
  case Nil
  show ?case
    by (simp add: succeeds_def)
next
  case (Cons v vs)
  have "succeeds (\<lambda>w. ready view q st b' w \<and> seen view w = d) (bind_from api st (Suc i) vs)" for b'
    using Cons.IH [of "Suc i" b'] Cons.prems by simp
  then show ?case
    unfolding bind_from_eq using Cons.prems
    by (intro succeeds_andthen [OF bind_succeeds(2) [OF rel] bind_sends(2) [OF law]]) simp_all
qed

lemma column_laws:
  assumes "column_law api view" and "at_row view st r w" and "i < length r"
  shows "r ! i = IntV k \<Longrightarrow> columnUInt64 api st i w = word_of_int k"
    and "r ! i = IntV k \<Longrightarrow> columnDouble api st i w = real_of_int k"
    and "r ! i = RealV x \<Longrightarrow> columnDouble api st i w = x"
proof -
  obtain a sv where sv: "pst_stmt st = Some a" "vw_stmts (view w) a = Some sv" "sv_row sv = r"
    using assms(2) by (auto simp: at_row_def)
  then have "i < length (sv_row sv)"
    using assms(3) by simp
  note l = assms(1) [unfolded column_law_def, rule_format, OF conjI, OF sv(2) this]
  show "r ! i = IntV k \<Longrightarrow> columnUInt64 api st i w = word_of_int k"
    "r ! i = IntV k \<Longrightarrow> columnDouble api st i w = real_of_int k" "r ! i = RealV x \<Longrightarrow> columnDouble api st i w = x"
    using l sv by (simp_all add: columnUInt64_def columnDouble_def)
qed

section \<open>Queries\<close>

lemma first_column_sends:
  assumes law: "step_law rnd api view" and q: "q \<noteq> insert_sql" and col: "\<And>w. at_row view st r w \<Longrightarrow> column st w = x"
  shows "sends (\<lambda>w. reading rnd view q st [r] w \<and> seen view w = (R, T, tx)) (first_column api column dflt st)
    (\<lambda>y w. y = x \<and> seen view w = (R, T, tx)) (\<lambda>w. \<exists>T. seen view w = (R, T, tx))"
  unfolding first_column_def
  by (rule sends_andthen [OF stepRow_sends [OF law q]]) (auto simp: sends_def col split: if_splits)

lemma first_column_succeeds:
  assumes "sqlite_reliable rnd api view" and "q \<noteq> insert_sql"
  shows "succeeds (\<lambda>w. reading rnd view q st rs w \<and> seen view w = d) (first_column api column dflt st)"
  unfolding succeeds_def
proof (intro allI impI, elim conjE)
  fix w assume "reading rnd view q st rs w"
  then obtain found w' where "stepRow api st w = (Inr found, w')"
    using stepRow_succeeds [OF assms] by blast
  then show "\<exists>x w'. first_column api column dflt st w = (Inr x, w')"
    by (simp add: first_column_def andthen_def)
qed

lemma get_ready_sends:
  assumes "prepare_law api view" and "bind_law api view"
  shows "sends (steady view (R, T)) (sq_cache_get api q)
    (\<lambda>st s. ready view q st Map.empty (sqs_lib s) \<and> steady view (R, T) s) (rows_kept view R)"
  by (rule sends_weaken [OF cache_get_sends [OF assms]]) (auto intro: rows_keptI)

lemma args_sends:
  assumes "bind_law api view"
  shows "sends (\<lambda>s. ready view q st Map.empty (sqs_lib s) \<and> steady view (R, T) s) (on_lib (bind_from api st 1 args))
    (\<lambda>_ s. ready view q st (args_from Map.empty 1 args) (sqs_lib s) \<and> steady view (R, T) s) (rows_kept view R)"
  by (rule on_lib_lift, rule sends_weaken [OF bind_from_sends [OF assms]]) auto

lemma query_sends:
  assumes laws: "sqlite_behaves rnd api view" and q: "q \<noteq> insert_sql"
    and ans: "answer rnd q (args_from Map.empty 1 args) R = Some [r]"
    and col: "\<And>st w. at_row view st r w \<Longrightarrow> column st w = x"
  shows "sends (steady view (R, None)) (sq_query api column dflt q args)
    (\<lambda>y s. y = x \<and> steady view (R, None) s) (rows_kept view R)"
proof -
  note l = laws [unfolded sqlite_behaves_def]
  have first: "sends (\<lambda>w. ready view q st (args_from Map.empty 1 args) w \<and> seen view w = (R, None, tx))
      (first_column api column dflt st) (\<lambda>y w. y = x \<and> seen view w = (R, None, tx)) (\<lambda>w. \<exists>T. seen view w = (R, T, tx))" for st tx
    by (rule sends_weaken [OF first_column_sends [OF _ q col]]) (use l in \<open>auto intro: ready_reading [OF _ _ ans]\<close>)
  show ?thesis
    unfolding sq_query_def
    by (rule sends_andthen [OF get_ready_sends], use l in blast, use l in blast,
        rule sends_andthen [OF args_sends], use l in blast, rule on_lib_lift [OF first])
qed

lemma query_succeeds:
  assumes laws: "sqlite_behaves rnd api view" and rel: "sqlite_reliable rnd api view" and q: "q \<noteq> insert_sql"
    and ans: "answer rnd q (args_from Map.empty 1 args) R = Some rs" and args: "length args \<le> params q"
  shows "succeeds (steady view (R, None)) (sq_query api column dflt q args)"
proof -
  note l = laws [unfolded sqlite_behaves_def]
  have first: "succeeds (\<lambda>w. ready view q st (args_from Map.empty 1 args) w \<and> seen view w = (R, None, tx))
      (first_column api column dflt st)" for st tx
    using first_column_succeeds [OF rel q, where rs = rs and d = "(R, None, tx)" and st = st and column = column and dflt = dflt]
      ready_reading [OF _ _ ans, of view st _ tx] unfolding succeeds_def by blast
  have bind: "succeeds (\<lambda>w. ready view q st Map.empty w \<and> seen view w = (R, None, tx)) (bind_from api st 1 args)" for st tx
    using l args by (intro bind_from_succeeds [OF _ rel]) auto
  show ?thesis
    unfolding sq_query_def
    by (rule succeeds_andthen [OF cache_get_succeeds [OF _ _ rel] get_ready_sends], use l in blast, use l in blast, use l in blast,
        use l in blast, rule succeeds_andthen [OF on_lib_returns [OF bind] args_sends], use l in blast, rule on_lib_returns [OF first])
qed

text \<open>A query of many rows ends, with all of them or with an error.\<close>

lemma select_all_returns:
  assumes laws: "sqlite_behaves rnd api view" and q: "q \<noteq> insert_sql" and s: "steady view (R, None) s"
    and ans: "answer rnd q (args_from Map.empty 1 args) R = Some rs"
    and row: "\<And>st r w. r \<in> set rs \<Longrightarrow> at_row view st r w \<Longrightarrow> row st w = f r"
  shows "\<exists>r s'. sq_select_all api row q args s = Some (r, s') \<and>
    (r = Inr (map f rs) \<and> steady view (R, None) s' \<or>
     (\<exists>msg. r = Inl (Throws (SQLiteError msg))) \<and> rows_kept view R s' \<and>
     (length args \<le> params q \<longrightarrow> \<not> sqlite_reliable rnd api view))"
proof -
  note l = laws [unfolded sqlite_behaves_def]
  let ?m = "andthen (sq_cache_get api q) (\<lambda>st. andthen (on_lib (bind_from api st 1 args)) (\<lambda>_ s. (Inr st, s)))"
  let ?Q = "\<lambda>st s. ready view q st (args_from Map.empty 1 args) (sqs_lib s) \<and> steady view (R, None) s"
  have ret: "sends (?Q st) (\<lambda>s. (Inr st, s)) ?Q (rows_kept view R)" for st
    by (simp add: sends_def)
  have m: "sends (steady view (R, None)) ?m ?Q (rows_kept view R)"
    by (rule sends_andthen [OF get_ready_sends], use l in blast, use l in blast,
        rule sends_andthen [OF args_sends ret], use l in blast)
  have ok: "succeeds (steady view (R, None)) ?m" if rel: "sqlite_reliable rnd api view" and "length args \<le> params q"
  proof -
    have bind: "succeeds (\<lambda>w. ready view q st Map.empty w \<and> seen view w = (R, None, tx)) (bind_from api st 1 args)" for st tx
      using l \<open>length args \<le> params q\<close> by (intro bind_from_succeeds [OF _ rel]) auto
    show ?thesis
      by (rule succeeds_andthen [OF cache_get_succeeds [OF _ _ rel] get_ready_sends], use l in blast, use l in blast, use l in blast,
          use l in blast, rule succeeds_andthen [OF on_lib_returns [OF bind] args_sends], use l in blast) (simp add: succeeds_def)
  qed
  obtain r1 s1 where c: "?m s = (r1, s1)"
    by fastforce
  from sendsD [OF m s c] consider st where "r1 = Inr st" "?Q st s1"
    | msg where "r1 = Inl (Throws (SQLiteError msg))" "rows_kept view R s1"
    by blast
  then show ?thesis
  proof cases
    case 1
    have seen: "seen view (sqs_lib s1) = (R, None, texts (view (sqs_lib s1)))"
      using 1(2) by (simp add: seen_def data_def)
    have rd: "reading rnd view q st rs (sqs_lib s1)"
      using 1(2) by (intro ready_reading [OF _ seen ans]) simp
    have "step_law rnd api view"
      using l by simp
    note fetched = fetch_rows_returns [where row = row and out = "[]" and f = f, OF this q _ rd seen, simplified append_Nil]
    obtain r w' where f: "fetch_rows api row st [] (sqs_lib s1) = Some (r, w')"
        "(r = Inr (map f rs) \<and> seen view w' = (R, None, texts (view (sqs_lib s1)))) \<or>
         (\<exists>msg. r = Inl (Throws (SQLiteError msg))) \<and> (\<exists>T. seen view w' = (R, T, texts (view (sqs_lib s1)))) \<and> \<not> sqlite_reliable rnd api view"
      using fetched row by blast
    then have "texts (view w') = texts (view (sqs_lib s1))"
      by (auto simp: seen_def)
    from this have "held view (s1\<lparr>sqs_lib := w'\<rparr>)"
      by (rule held_texts [rotated]) (use 1(2) in blast)
    then show ?thesis
      using f 1(1) c by (auto simp: sq_select_all_def seen_def data_def rows_kept_def)
  next
    case 2
    then show ?thesis
      using c ok [unfolded succeeds_def, rule_format, OF _ _ s] by (auto simp: sq_select_all_def)
  qed
qed

section \<open>Rows of fills\<close>

lemma sql_distinct [simp]:
  "count_sql \<noteq> insert_sql" "count_symbol_sql \<noteq> insert_sql" "vwap_sql \<noteq> insert_sql" "vwap_symbol_sql \<noteq> insert_sql"
  "timeline_sql \<noteq> insert_sql" "count_symbol_sql \<noteq> count_sql" "vwap_sql \<noteq> count_sql" "vwap_sql \<noteq> count_symbol_sql"
  "vwap_symbol_sql \<noteq> count_sql" "vwap_symbol_sql \<noteq> count_symbol_sql" "vwap_symbol_sql \<noteq> vwap_sql"
  "timeline_sql \<noteq> count_sql" "timeline_sql \<noteq> count_symbol_sql" "timeline_sql \<noteq> vwap_sql" "timeline_sql \<noteq> vwap_symbol_sql"
  by (simp_all add: insert_sql_def count_sql_def count_symbol_sql_def vwap_sql_def vwap_symbol_sql_def timeline_sql_def)

lemma sql_params [simp]:
  "params count_symbol_sql = 1" "params vwap_sql = 2" "params vwap_symbol_sql = 3" "params timeline_sql = 3"
  by (simp_all add: params_def count_symbol_sql_def vwap_sql_def vwap_symbol_sql_def timeline_sql_def)

definition small :: "u64 \<Rightarrow> bool" where
  "small x \<longleftrightarrow> x < 9223372036854775808"

lemma sint_time: "small x \<Longrightarrow> sint x = uint x"
  using signed_take_bit_int_eq_self [of 63 "uint x"] order_trans [OF _ uint_ge_0 [of x], of "- (2 ^ 63)"]
  by (simp add: small_def sint_uint word_less_def)

lemma sint_eq_iff [simp]: "sint x = sint y \<longleftrightarrow> x = (y :: 'a::len word)"
  by (metis signed_word_eqI)

lemma insort_key_order:
  "(\<And>y. y \<in> set xs \<Longrightarrow> k x \<le> k y \<longleftrightarrow> k' x \<le> k' y) \<Longrightarrow> insort_key k x xs = insort_key k' x xs"
  by (induction xs) simp_all

lemma sort_key_order:
  "(\<And>x y. x \<in> set xs \<Longrightarrow> y \<in> set xs \<Longrightarrow> k x \<le> k y \<longleftrightarrow> k' x \<le> k' y) \<Longrightarrow> sort_key k xs = sort_key k' xs"
proof (induction xs)
  case (Cons x xs)
  have "sort_key k xs = sort_key k' xs"
    using Cons by simp
  then show ?case
    using insort_key_order [of "sort_key k' xs" k x k'] Cons.prems by simp
qed simp

lemma insort_key_map: "insort_key k (g x) (map g xs) = map g (insort_key (\<lambda>y. k (g y)) x xs)"
  by (induction xs) simp_all

lemma sort_key_map: "sort_key k (map g xs) = map g (sort_key (\<lambda>x. k (g x)) xs)"
  by (induction xs) (simp_all add: insort_key_map)

definition fill_of_values :: "sq_value list \<Rightarrow> Fill" where
  "fill_of_values vs =
     (let g = (\<lambda>i. case vs ! i of IntV k \<Rightarrow> word_of_int k | _ \<Rightarrow> 0) :: nat \<Rightarrow> u64
      in \<lparr>fill_buyOrderId = g 0, fill_sellOrderId = g 1, fill_price = ucast (g 2), fill_qty = ucast (g 3),
          fill_timestamp = g 4, fill_symbolPacked = g 5\<rparr>)"

lemma ucast_sint: "ucast (word_of_int (sint (x :: u32)) :: u64) = x"
proof -
  have down: "ucast (word_of_int k :: u64) = (word_of_int k :: u32)" for k
    by transfer (simp add: take_bit_take_bit)
  show ?thesis
    unfolding down by simp
qed

lemma fill_of_values_row: "fill_of_values (row_values (row_of_fill f)) = f"
  using ucast_sint [of "fill_price f"] ucast_sint [of "fill_qty f"]
  by (simp add: fill_of_values_def row_values_def row_of_fill_def numeral_eq_Suc)

text \<open>Comparisons on rows are comparisons on fills, as long as the times fit a signed number.\<close>

definition times_ok :: "Fill list \<Rightarrow> u64 \<Rightarrow> u64 \<Rightarrow> bool" where
  "times_ok fs b e \<longleftrightarrow> small b \<and> small e \<and> (\<forall>f\<in>set fs. small (fill_timestamp f))"

lemma row_selected:
  assumes "small lo" and "small hi" and "small (fill_timestamp f)" and "b k = Some (sint lo)" and "b (Suc k) = Some (sint hi)"
  shows "selected b k (row_of_fill f) \<longleftrightarrow> Trade_Store.in_window lo hi f"
  using assms by (simp add: selected_def cmp_def row_of_fill_def sint_time in_window_def word_le_def)

lemma row_symbol: "b k = Some (sint y) \<Longrightarrow> cmp (\<lambda>z. tr_symbol (row_of_fill f) = z) (b k) \<longleftrightarrow> fill_symbolPacked f = y"
  by (simp add: cmp_def row_of_fill_def)

lemma filter_rows:
  assumes "\<And>f. f \<in> set fs \<Longrightarrow> P (row_of_fill f) \<longleftrightarrow> Q f"
  shows "filter P (map row_of_fill fs) = map row_of_fill (filter Q fs)"
  unfolding filter_map comp_def by (intro arg_cong [of _ _ "map row_of_fill"] filter_cong) (simp_all add: assms)

lemma answer_count [simp]:
  "answer rnd count_sql b rs = Some [[IntV (int (length rs))]]"
  "b 1 = Some (sint y) \<Longrightarrow> answer rnd count_symbol_sql b (map row_of_fill fs) =
     Some [[IntV (int (length (filter (\<lambda>f. fill_symbolPacked f = y) fs)))]]"
  by (simp_all add: answer_def filter_map comp_def row_symbol)

lemma answer_timeline:
  assumes "times_ok fs lo hi" and b: "b 1 = Some (sint y)" "b 2 = Some (sint lo)" "b 3 = Some (sint hi)"
  shows "answer rnd timeline_sql b (map row_of_fill fs) =
    Some (map (\<lambda>f. row_values (row_of_fill f))
      (sort_key fill_timestamp (filter (\<lambda>f. fill_symbolPacked f = y \<and> Trade_Store.in_window lo hi f) fs)))"
proof -
  have sel: "selected b 2 (row_of_fill f) \<longleftrightarrow> Trade_Store.in_window lo hi f" if "f \<in> set fs" for f
    using assms(1) b(2,3) that by (intro row_selected) (simp_all add: times_ok_def eval_nat_numeral)
  have f: "filter (\<lambda>r. cmp (\<lambda>z. tr_symbol r = z) (b 1) \<and> selected b 2 r) (map row_of_fill fs) =
      map row_of_fill (filter (\<lambda>f. fill_symbolPacked f = y \<and> Trade_Store.in_window lo hi f) fs)"
    using sel row_symbol [of b 1 y] b(1) by (intro filter_rows) auto
  have "tr_ts (row_of_fill f) \<le> tr_ts (row_of_fill g) \<longleftrightarrow> fill_timestamp f \<le> fill_timestamp g"
    if "f \<in> set fs" "g \<in> set fs" for f g
    using assms(1) that by (simp add: times_ok_def row_of_fill_def sint_time word_le_def)
  then have "sort_key (\<lambda>f. tr_ts (row_of_fill f)) (filter P fs) = sort_key fill_timestamp (filter P fs)" for P
    by (intro sort_key_order) simp
  then show ?thesis
    using f by (simp add: answer_def sort_key_map comp_def)
qed

text \<open>The largest 64-bit number is bound as minus one, which no time between zero and it can meet.\<close>

lemma answer_default_end:
  assumes "b 2 = Some (sint (0 :: u64))" and "b 3 = Some (sint (- 1 :: u64))"
  shows "answer rnd timeline_sql b rs = Some []"
proof -
  have "\<not> selected b 2 r" for r
    using assms by (auto simp: selected_def cmp_def eval_nat_numeral)
  then show ?thesis
    by (simp add: answer_def)
qed

definition traded_value :: "Fill list \<Rightarrow> nat" where
  "traded_value fs = sum_list (map (\<lambda>f. unat (fill_price f) * unat (fill_qty f)) fs)"

definition traded_qty :: "Fill list \<Rightarrow> nat" where
  "traded_qty fs = sum_list (map (\<lambda>f. unat (fill_qty f)) fs)"

definition amounts_ok :: "Fill list \<Rightarrow> bool" where
  "amounts_ok fs \<longleftrightarrow> (\<forall>f\<in>set fs. fill_price f < 2147483648 \<and> fill_qty f < 2147483648) \<and>
     traded_value fs < 9223372036854775808 \<and> traded_qty fs < 9223372036854775808"

definition fills_vwap :: "(real \<Rightarrow> real) \<Rightarrow> Fill list \<Rightarrow> real" where
  "fills_vwap rnd fs = (if traded_qty fs = 0 then 0 else rnd (rnd (real (traded_value fs)) / rnd (real (traded_qty fs))))"

lemma sint_amount: "(x :: u32) < 2147483648 \<Longrightarrow> sint x = int (unat x)"
  using signed_take_bit_int_eq_self [of 31 "uint x"] order_trans [OF _ uint_ge_0 [of x], of "- (2 ^ 31)"]
  by (simp add: sint_uint word_less_def)

lemma answer_vwap_fills:
  assumes "amounts_ok fs"
  shows "answer_vwap rnd (map row_of_fill fs) =
    Some [[if traded_qty fs = 0 then IntV 0 else RealV (fills_vwap rnd fs)]]"
proof -
  have amounts: "tr_price (row_of_fill f) = int (unat (fill_price f))" "tr_qty (row_of_fill f) = int (unat (fill_qty f))"
    if "f \<in> set fs" for f
    using assms that sint_amount [of "fill_price f"] sint_amount [of "fill_qty f"] by (simp_all add: amounts_ok_def row_of_fill_def)
  have q: "sum_list (map (\<lambda>f. tr_qty (row_of_fill f)) fs) = int (traded_qty fs)"
    unfolding traded_qty_def using amounts(2) by (induction fs) simp_all
  have n: "sum_list (map (\<lambda>f. tr_price (row_of_fill f) * tr_qty (row_of_fill f)) fs) = int (traded_value fs)"
    unfolding traded_value_def using amounts by (induction fs) simp_all
  show ?thesis
    using assms by (simp add: answer_vwap_def comp_def q n in_i64_def fills_vwap_def amounts_ok_def)
qed

lemma answer_vwap_window:
  assumes "times_ok fs lo hi"
  shows "b 1 = Some (sint lo) \<Longrightarrow> b 2 = Some (sint hi) \<Longrightarrow>
      answer rnd vwap_sql b (map row_of_fill fs) = answer_vwap rnd (map row_of_fill (filter (Trade_Store.in_window lo hi) fs))"
    and "b 1 = Some (sint y) \<Longrightarrow> b 2 = Some (sint lo) \<Longrightarrow> b 3 = Some (sint hi) \<Longrightarrow>
      answer rnd vwap_symbol_sql b (map row_of_fill fs) =
        answer_vwap rnd (map row_of_fill (filter (\<lambda>f. fill_symbolPacked f = y \<and> Trade_Store.in_window lo hi f) fs))"
proof -
  assume b: "b 1 = Some (sint lo)" "b 2 = Some (sint hi)"
  have "filter (selected b 1) (map row_of_fill fs) = map row_of_fill (filter (Trade_Store.in_window lo hi) fs)"
    using assms b by (intro filter_rows row_selected) (simp_all add: times_ok_def eval_nat_numeral)
  then show "answer rnd vwap_sql b (map row_of_fill fs) = answer_vwap rnd (map row_of_fill (filter (Trade_Store.in_window lo hi) fs))"
    by (simp add: answer_def)
next
  assume b: "b 1 = Some (sint y)" "b 2 = Some (sint lo)" "b 3 = Some (sint hi)"
  have "selected b 2 (row_of_fill f) \<longleftrightarrow> Trade_Store.in_window lo hi f" if "f \<in> set fs" for f
    using assms b(2,3) that by (intro row_selected) (simp_all add: times_ok_def eval_nat_numeral)
  then have "filter (\<lambda>r. cmp (\<lambda>z. tr_symbol r = z) (b 1) \<and> selected b 2 r) (map row_of_fill fs) =
      map row_of_fill (filter (\<lambda>f. fill_symbolPacked f = y \<and> Trade_Store.in_window lo hi f) fs)"
    using row_symbol [of b 1 y] b(1) by (intro filter_rows) auto
  then show "answer rnd vwap_symbol_sql b (map row_of_fill fs) =
      answer_vwap rnd (map row_of_fill (filter (\<lambda>f. fill_symbolPacked f = y \<and> Trade_Store.in_window lo hi f) fs))"
    by (simp add: answer_def)
qed

end
