(* ===== verification/SQLite_Memory.thy ===== *)
theory SQLite_Memory
  imports SQLite_Batches
begin

text \<open>
  The contract of the library can hold: a library in memory that keeps the rows in a list and never fails where
  it need not.  Statements live at the positions of a list.
\<close>

record mem_db =
  md_rows :: "trade_row list"
  md_txn :: "trade_row list option"
  md_stmts :: "stmt_view option list"

definition mem_view :: "mem_db \<Rightarrow> sq_view" where
  "mem_view m = \<lparr>vw_rows = md_rows m, vw_txn = md_txn m,
     vw_stmts = (\<lambda>a. if a < length (md_stmts m) then md_stmts m ! a else None)\<rparr>"

definition mem_put :: "addr \<Rightarrow> stmt_view option \<Rightarrow> mem_db \<Rightarrow> mem_db" where
  "mem_put a sv m = m\<lparr>md_stmts := (md_stmts m)[a := sv]\<rparr>"

definition mem_show :: "trade_row list \<Rightarrow> mem_db \<Rightarrow> mem_db" where
  "mem_show rs m = (case md_txn m of Some _ \<Rightarrow> m\<lparr>md_txn := Some rs\<rparr> | None \<Rightarrow> m\<lparr>md_rows := rs\<rparr>)"

text \<open>An operation on an existing statement; anything else is a misuse.\<close>

definition mem_at :: "ptr \<Rightarrow> (addr \<Rightarrow> stmt_view \<Rightarrow> 'a) \<Rightarrow> 'a \<Rightarrow> mem_db \<Rightarrow> 'a" where
  "mem_at p f misuse m =
     (case p of None \<Rightarrow> misuse
      | Some a \<Rightarrow> (case vw_stmts (mem_view m) a of None \<Rightarrow> misuse | Some sv \<Rightarrow> f a sv))"

definition mem_exec :: "string \<Rightarrow> mem_db \<Rightarrow> int \<times> string option \<times> mem_db" where
  "mem_exec q m =
     (if q = ''BEGIN IMMEDIATE;'' \<and> md_txn m = None then (0, None, m\<lparr>md_txn := Some (md_rows m)\<rparr>)
      else if q = ''COMMIT;'' \<and> md_txn m \<noteq> None then (0, None, m\<lparr>md_rows := the (md_txn m), md_txn := None\<rparr>)
      else if q = ''ROLLBACK;'' \<and> md_txn m \<noteq> None then (0, None, m\<lparr>md_txn := None\<rparr>)
      else if q = ''DELETE FROM trades;'' then (0, None, mem_show [] m)
      else if q \<in> set schema_sql then (0, None, m)
      else (1, Some ''SQL logic error'', m))"

definition mem_bind :: "ptr \<Rightarrow> nat \<Rightarrow> int \<Rightarrow> mem_db \<Rightarrow> int \<times> mem_db" where
  "mem_bind p i x m =
     mem_at p (\<lambda>a sv. if sv_results sv = None \<and> 0 < i \<and> i \<le> params (sv_sql sv)
       then (0, mem_put a (Some (sv\<lparr>sv_binds := (sv_binds sv)(i \<mapsto> x)\<rparr>)) m) else (21, m)) (21, m) m"

definition mem_step :: "(real \<Rightarrow> real) \<Rightarrow> ptr \<Rightarrow> mem_db \<Rightarrow> int \<times> mem_db" where
  "mem_step rnd p m =
     mem_at p (\<lambda>a sv.
       if sv_sql sv = insert_sql
       then (case row_of_binds (sv_binds sv) of
               None \<Rightarrow> (19, m)
             | Some row \<Rightarrow> (kSqliteDone, mem_show (visible (mem_view m) @ [row]) m))
       else (case due rnd (mem_view m) sv of
               None \<Rightarrow> (1, m)
             | Some [] \<Rightarrow> (kSqliteDone, mem_put a (Some (sv\<lparr>sv_results := None\<rparr>)) m)
             | Some (r # rs) \<Rightarrow> (kSqliteRow, mem_put a (Some (sv\<lparr>sv_results := Some rs, sv_row := r\<rparr>)) m))) (21, m) m"

definition mem_value :: "ptr \<Rightarrow> nat \<Rightarrow> mem_db \<Rightarrow> sq_value" where
  "mem_value p i m = mem_at p (\<lambda>a sv. if i < length (sv_row sv) then sv_row sv ! i else NullV) NullV m"

definition mem_api :: "(real \<Rightarrow> real) \<Rightarrow> mem_db sqlite_api" where
  "mem_api rnd = \<lparr>
     sq_open = (\<lambda>path m. (0, Some 0, m\<lparr>md_txn := None\<rparr>)),
     sq_close = (\<lambda>db m. m),
     sq_errmsg = (\<lambda>db m. ''error''),
     sq_exec = (\<lambda>db. mem_exec),
     sq_free = (\<lambda>m. m),
     sq_prepare = (\<lambda>db q m. (0, Some (length (md_stmts m)),
       m\<lparr>md_stmts := md_stmts m @ [Some \<lparr>sv_sql = q, sv_binds = Map.empty, sv_results = None, sv_row = []\<rparr>]\<rparr>)),
     sq_finalize = (\<lambda>p m. case p of None \<Rightarrow> m | Some a \<Rightarrow> mem_put a None m),
     sq_step = mem_step rnd,
     sq_reset = (\<lambda>p m. mem_at p (\<lambda>a sv. mem_put a (Some (sv\<lparr>sv_results := None\<rparr>)) m) m m),
     sq_clear_bindings = (\<lambda>p m. mem_at p (\<lambda>a sv. mem_put a (Some (sv\<lparr>sv_binds := Map.empty\<rparr>)) m) m m),
     sq_bind_int = (\<lambda>p i x. mem_bind p i (sint x)),
     sq_bind_int64 = (\<lambda>p i x. mem_bind p i (sint x)),
     sq_bind_text = (\<lambda>p i t n m. (21, m)),
     sq_column_int64 = (\<lambda>p i m. case mem_value p i m of IntV k \<Rightarrow> word_of_int k | _ \<Rightarrow> 0),
     sq_column_double = (\<lambda>p i m. case mem_value p i m of IntV k \<Rightarrow> real_of_int k | RealV x \<Rightarrow> x | NullV \<Rightarrow> 0),
     sq_column_text = (\<lambda>p i m. None)\<rparr>"

lemma mem_view_put:
  assumes "vw_stmts (mem_view m) a = Some sv"
  shows "mem_view (mem_put a (Some sv') m) = set_stmt a sv' (mem_view m)"
  using assms by (auto simp: mem_view_def mem_put_def set_stmt_def fun_eq_iff nth_list_update split: if_splits)

lemma mem_view_show: "mem_view (mem_show rs m) = set_visible rs (mem_view m)"
  by (simp add: mem_view_def mem_show_def set_visible_def cong: if_cong split: option.split)

lemma mem_view_simps [simp]:
  "mem_view (m\<lparr>md_txn := t\<rparr>) = (mem_view m)\<lparr>vw_txn := t\<rparr>" "mem_view (m\<lparr>md_rows := rs\<rparr>) = (mem_view m)\<lparr>vw_rows := rs\<rparr>"
  "vw_txn (mem_view m) = md_txn m" "vw_rows (mem_view m) = md_rows m"
  by (simp_all add: mem_view_def cong: if_cong)

lemma same_data_refl [simp]: "same_data v v" "unharmed v v"
  by (simp_all add: same_data_def unharmed_def)

lemma schema_other [simp]:
  "''BEGIN IMMEDIATE;'' \<notin> set schema_sql" "''COMMIT;'' \<notin> set schema_sql" "''ROLLBACK;'' \<notin> set schema_sql"
  "''DELETE FROM trades;'' \<notin> set schema_sql"
  by (simp_all add: schema_sql_def)

lemma if_chain:
  "(if a then (0, x, m1) else if b then (0, x, m2) else if c then (0, x, m3) else if d then (0, x, m4)
    else if e then (0, x, m) else (1, y, m)) = (rc :: int, err, m') \<Longrightarrow>
   rc = 0 \<and> a \<and> m' = m1 \<or> rc = 0 \<and> b \<and> m' = m2 \<or> rc = 0 \<and> c \<and> m' = m3 \<or> rc = 0 \<and> d \<and> m' = m4 \<or>
   rc = 0 \<and> e \<and> m' = m \<or> rc = 1 \<and> m' = m"
  by (auto split: if_splits)

lemma mem_exec_law: "exec_law (mem_api rnd) mem_view"
  unfolding exec_law_def
proof (intro allI impI)
  fix db q m rc err m' assume "sq_exec (mem_api rnd) db q m = (rc, err, m')"
  then have eq: "mem_exec q m = (rc, err, m')" and free: "\<And>m. sq_free (mem_api rnd) m = m"
    by (simp_all add: mem_api_def)
  show "mem_view (sq_free (mem_api rnd) m') = mem_view m' \<and>
      (rc \<noteq> kSqliteOk \<longrightarrow> unharmed (mem_view m) (mem_view m')) \<and>
      (rc = kSqliteOk \<longrightarrow>
        (q = ''BEGIN IMMEDIATE;'' \<longrightarrow> vw_txn (mem_view m) = None \<and>
           same_data ((mem_view m)\<lparr>vw_txn := Some (vw_rows (mem_view m))\<rparr>) (mem_view m')) \<and>
        (q = ''COMMIT;'' \<longrightarrow> vw_txn (mem_view m) \<noteq> None \<and>
           same_data ((mem_view m)\<lparr>vw_rows := visible (mem_view m), vw_txn := None\<rparr>) (mem_view m')) \<and>
        (q = ''ROLLBACK;'' \<longrightarrow> same_data ((mem_view m)\<lparr>vw_txn := None\<rparr>) (mem_view m')) \<and>
        (q = ''DELETE FROM trades;'' \<longrightarrow> same_data (set_visible [] (mem_view m)) (mem_view m')) \<and>
        (q \<in> set schema_sql \<longrightarrow> same_data (mem_view m) (mem_view m')))"
    using if_chain [OF eq [unfolded mem_exec_def]]
  proof (elim disjE conjE)
    assume "rc = 0" "q = ''COMMIT;''" "md_txn m \<noteq> None" "m' = m\<lparr>md_rows := the (md_txn m), md_txn := None\<rparr>"
    then show ?thesis
      unfolding free by (auto simp: visible_def)
  next
    assume "rc = 0" "q \<in> set schema_sql" "m' = m"
    moreover from this have "q \<noteq> ''BEGIN IMMEDIATE;''" "q \<noteq> ''COMMIT;''" "q \<noteq> ''ROLLBACK;''" "q \<noteq> ''DELETE FROM trades;''"
      by auto
    ultimately show ?thesis
      unfolding free by (simp only: same_data_refl simp_thms)
  qed (simp_all add: mem_view_show free)
qed

lemma mem_prepare_law: "prepare_law (mem_api rnd) mem_view"
proof -
  have "mem_view (mem_put a None m) = (mem_view m)\<lparr>vw_stmts := (vw_stmts (mem_view m))(a := None)\<rparr>" for a m
    by (auto simp: mem_view_def mem_put_def fun_eq_iff nth_list_update)
  then show ?thesis
    by (auto simp: prepare_law_def mem_api_def) (auto simp: mem_view_def fun_eq_iff nth_append)
qed

lemma mem_bind_law: "bind_law (mem_api rnd) mem_view"
  by (auto simp: bind_law_def mem_api_def mem_bind_def mem_at_def mem_view_put split: if_splits)

lemma mem_step_law: "step_law rnd (mem_api rnd) mem_view"
  by (auto simp: step_law_def mem_api_def mem_step_def mem_at_def mem_view_put mem_view_show split: if_splits option.splits list.splits)

lemma mem_column_law: "column_law (mem_api rnd) mem_view"
  by (auto simp: column_law_def mem_api_def mem_value_def mem_at_def)

lemma mem_behaves: "sqlite_behaves rnd (mem_api rnd) mem_view"
  by (simp add: sqlite_behaves_def mem_exec_law mem_prepare_law mem_bind_law mem_step_law mem_column_law)

lemma mem_reliable: "sqlite_reliable rnd (mem_api rnd) mem_view"
  by (auto simp: sqlite_reliable_def mem_api_def mem_exec_def mem_bind_def mem_step_def mem_at_def schema_sql_def
      split: option.splits list.splits)

end
