(* ===== verification/SQLite_Properties.thy ===== *)
theory SQLite_Properties
  imports SQLite_Queries SQLite_Memory
begin

text \<open>
  What the SQLite backend promises its callers, under the contract of the library: batches are all or nothing
  and durable, and queries answer like the flat-file backend.  The library in memory serves as the concrete case.
\<close>

section \<open>Outcomes\<close>

definition committed :: "('w \<Rightarrow> sq_view) \<Rightarrow> Fill list \<Rightarrow> 'w SqTradeStore \<Rightarrow> bool" where
  "committed view fs s \<longleftrightarrow> rows_kept view (map row_of_fill fs) s"

definition idle :: "('w \<Rightarrow> sq_view) \<Rightarrow> 'w SqTradeStore \<Rightarrow> bool" where
  "idle view s \<longleftrightarrow> vw_txn (view (sqs_lib s)) = None"

text \<open>
  The operation returns \<open>x\<close> and the table holds the fills \<open>fs'\<close>, or it throws an SQLite error and the table
  still holds \<open>fs\<close>; the latter not when \<open>sure\<close>.
\<close>

definition outcome :: "('w \<Rightarrow> sq_view) \<Rightarrow> bool \<Rightarrow> Fill list \<Rightarrow> 'a \<Rightarrow> Fill list \<Rightarrow> 'a result \<times> 'w SqTradeStore \<Rightarrow> bool" where
  "outcome view sure fs x fs' rs \<longleftrightarrow>
     (fst rs = Inr x \<and> committed view fs' (snd rs) \<and> idle view (snd rs)) \<or>
     ((\<exists>msg. fst rs = Inl (Throws (SQLiteError msg))) \<and> committed view fs (snd rs) \<and> \<not> sure)"

lemma steady_committed: "steady view (map row_of_fill fs, None) s \<longleftrightarrow> committed view fs s \<and> idle view s"
  by (auto simp: committed_def rows_kept_def idle_def data_def)

lemma outcomeI:
  assumes "sends (steady view (map row_of_fill fs, T)) m (\<lambda>y s. y = x \<and> steady view (map row_of_fill fs', None) s)
      (rows_kept view (map row_of_fill fs))"
    and "steady view (map row_of_fill fs, T) s" and "sure \<Longrightarrow> succeeds (steady view (map row_of_fill fs, T)) m"
  shows "outcome view sure fs x fs' (m s)"
proof -
  obtain r s' where c: "m s = (r, s')"
    by fastforce
  have "sure \<Longrightarrow> \<exists>y. r = Inr y"
    using assms(2,3) c unfolding succeeds_def by fastforce
  then show ?thesis
    using sendsD [OF assms(1,2) c] c unfolding outcome_def steady_committed by (auto simp: committed_def)
qed

text \<open>A library that can roll back.\<close>

definition sqlite_rolls_back :: "'w sqlite_api \<Rightarrow> ('w \<Rightarrow> sq_view) \<Rightarrow> bool" where
  "sqlite_rolls_back api view \<longleftrightarrow> (\<forall>db w. vw_txn (view w) \<noteq> None \<longrightarrow> fst (sq_exec api db ''ROLLBACK;'' w) = kSqliteOk)"

lemma exec_idle:
  assumes law: "exec_law api view" and "vw_txn (view w) = None" and "conn_exec api db q w = (Inl e, w')"
  shows "vw_txn (view w') = None"
proof -
  obtain rc err w1 where c: "sq_exec api db q w = (rc, err, w1)"
    by (metis prod_cases3)
  then have "rc \<noteq> kSqliteOk" and w': "w' = w1 \<or> w' = sq_free api w1"
    using assms(3) by (auto simp: conn_exec_def split: if_splits option.splits)
  then have "vw_txn (view w1) = None"
    using exec_laws(2) [OF law c] assms(2) by (auto simp: unharmed_def)
  then show ?thesis
    using w' exec_laws(1) [OF law c] by auto
qed

lemma rollback_idle:
  assumes law: "exec_law api view" and "sqlite_rolls_back api view"
  shows "idle view (Transaction_end api True s)"
proof -
  obtain r w' where x: "conn_exec api (sqs_writer s) ''ROLLBACK;'' (sqs_lib s) = (r, w')"
    by fastforce
  obtain rc err w1 where c: "sq_exec api (sqs_writer s) ''ROLLBACK;'' (sqs_lib s) = (rc, err, w1)"
    by (metis prod_cases3)
  have "vw_txn (view w') = None"
  proof (cases "rc = kSqliteOk")
    case True
    then show ?thesis
      using exec_laws(5) [OF law c] c x by (simp add: conn_exec_def same_data_def)
  next
    case False
    then have none: "vw_txn (view (sqs_lib s)) = None"
      using assms(2) c unfolding sqlite_rolls_back_def by (metis fst_conv)
    obtain e where "r = Inl e"
      using x c False by (auto simp: conn_exec_def split: option.splits)
    then show ?thesis
      using exec_idle [OF law none] x by simp
  qed
  then show ?thesis
    using x by (simp add: Transaction_end_def on_lib_def idle_def)
qed

lemma in_transaction_idle:
  assumes law: "exec_law api view" and roll: "sqlite_rolls_back api view" and s: "idle view s"
    and run: "in_transaction api body s = (Inl e, s')"
  shows "idle view s'"
proof -
  obtain r1 s1 where b: "Transaction_begin api s = (r1, s1)"
    by fastforce
  show ?thesis
  proof (cases r1)
    case (Inl e1)
    then have "s' = s1" "\<exists>w'. conn_exec api (sqs_writer s) ''BEGIN IMMEDIATE;'' (sqs_lib s) = (Inl e1, w') \<and> sqs_lib s1 = w'"
      using run b by (auto simp: in_transaction_def andthen_def Transaction_begin_def on_lib_def split: prod.splits)
    then show ?thesis
      using exec_idle [OF law] s by (auto simp: idle_def)
  next
    case (Inr u)
    then obtain s2 where "s' = Transaction_end api True s2"
      using run b by (auto simp: in_transaction_def andthen_eq split: prod.splits sum.splits)
    then show ?thesis
      using rollback_idle [OF law roll] by simp
  qed
qed

text \<open>
  (C17) Batches are all or nothing: \<open>insertBatch\<close> and \<open>replaceAll\<close> either return, with the whole batch in the
  table and no transaction open, or throw an SQLite error with the committed rows as they were; a batch that is
  told to fail before the commit always throws.  With a reliable library and no transaction open they return.
  When the library can roll back, no failed batch leaves its transaction open.
\<close>

theorem sqlite_batch_atomic:
  assumes laws: "sqlite_behaves rnd api view" and s: "committed view fs s"
  shows "outcome view (sqlite_reliable rnd api view \<and> idle view s) fs () (fs @ fills) (sq_insertBatch api fills False s)
    \<and> outcome view (sqlite_reliable rnd api view \<and> idle view s) fs () fills (sq_replaceAll api fills s)
    \<and> (\<exists>msg s'. sq_insertBatch api fills True s = (Inl (Throws (SQLiteError msg)), s') \<and> committed view fs s')
    \<and> (sqlite_rolls_back api view \<and> idle view s \<longrightarrow>
         idle view (snd (sq_insertBatch api fills fail s)) \<and> idle view (snd (sq_replaceAll api fills s)))"
proof -
  obtain T where T: "steady view (map row_of_fill fs, T) s"
    using s by (auto simp: committed_def rows_kept_def)
  then have none: "idle view s \<Longrightarrow> T = None"
    by (simp add: idle_def data_def)
  have i: "outcome view (sqlite_reliable rnd api view \<and> idle view s) fs () (fs @ fills) (sq_insertBatch api fills False s)"
    by (rule outcomeI [OF _ T]) (use insertBatch_sends(1) [OF laws, of "map row_of_fill fs" T fills False] insertBatch_sends(2) [OF laws] none in auto)
  have r: "outcome view (sqlite_reliable rnd api view \<and> idle view s) fs () fills (sq_replaceAll api fills s)"
    by (rule outcomeI [OF _ T]) (use replaceAll_sends(1) [OF laws, of "map row_of_fill fs" T fills] replaceAll_sends(2) [OF laws] none in auto)
  have f: "\<exists>msg s'. sq_insertBatch api fills True s = (Inl (Throws (SQLiteError msg)), s') \<and> committed view fs s'"
    using sendsD [OF insertBatch_sends(1) [OF laws, of "map row_of_fill fs" T fills True] T]
    by (cases "sq_insertBatch api fills True s") (auto simp: committed_def)
  have "idle view (snd (sq_insertBatch api fills fail s)) \<and> idle view (snd (sq_replaceAll api fills s))"
    if roll: "sqlite_rolls_back api view" and idle: "idle view s"
  proof -
    note closes = in_transaction_idle [OF laws [unfolded sqlite_behaves_def, THEN conjunct1] roll idle]
    have "idle view s'" if "sq_insertBatch api fills b s = (Inl e, s')" for b e s'
      using closes that unfolding sq_insertBatch_def by blast
    moreover have "idle view s'" if "sq_replaceAll api fills s = (Inl e, s')" for e s'
      using closes that unfolding sq_replaceAll_def by blast
    ultimately show ?thesis
      using i r f by (cases fail; cases "sq_insertBatch api fills fail s"; cases "sq_replaceAll api fills s") (auto simp: outcome_def)
  qed
  then show ?thesis
    using i r f by blast
qed

section \<open>Queries\<close>


lemma select_outcome:
  assumes "sqlite_behaves rnd api view" and "q \<noteq> insert_sql" and "length args \<le> params q"
    and "committed view fs s" and "idle view s"
    and "answer rnd q (args_from Map.empty 1 args) (map row_of_fill fs) = Some rs"
    and "\<And>st r w. r \<in> set rs \<Longrightarrow> at_row view st r w \<Longrightarrow> row st w = f r"
  shows "\<exists>out. sq_select_all api row q args s = Some out \<and>
    outcome view (sqlite_reliable rnd api view) fs (map f rs) fs out"
proof -
  have "steady view (map row_of_fill fs, None) s"
    using assms(4,5) by (simp only: steady_committed simp_thms)
  from select_all_returns [where row = row and f = f, OF assms(1,2) this assms(6,7)] assms(3)
  show ?thesis
    unfolding outcome_def steady_committed by (fastforce simp: committed_def)
qed








text \<open>
  (C31) With the default window the timeline is empty whatever the table holds: the end of the window, the largest
  64-bit number, is bound as minus one.
\<close>

theorem sqlite_default_timeline_empty:
  assumes "sqlite_behaves rnd api view" and "committed view fs s" and "idle view s"
  shows "\<exists>out. sq_timeline api y 0 18446744073709551615 s = Some out \<and> outcome view (sqlite_reliable rnd api view) fs [] fs out"
proof -
  have "answer rnd timeline_sql (args_from Map.empty 1 [y, 0, 18446744073709551615]) (map row_of_fill fs) = Some []"
    by (rule answer_default_end) (simp_all add: eval_nat_numeral)
  from select_outcome [where row = "row_fill api" and f = fill_of_values, OF assms(1) _ _ assms(2,3) this]
  show ?thesis
    by (simp add: sq_timeline_def)
qed

section \<open>Opening and closing\<close>










section \<open>The concrete case\<close>

text \<open>The store in memory holds the trades of the flat-file sample.\<close>

definition mem_sample :: mem_db where
  "mem_sample = \<lparr>md_rows = map row_of_fill (ts_trades sample_store), md_txn = None, md_stmts = []\<rparr>"

definition mem_store :: "mem_db SqTradeStore" where
  "mem_store = \<lparr>sqs_path = ''t'', sqs_writer = Some 0, sqs_cache = StatementCache_new 16, sqs_lib = mem_sample\<rparr>"

lemma mem_store_steady: "committed mem_view (ts_trades sample_store) mem_store" "idle mem_view mem_store"
  by (simp_all add: committed_def rows_kept_def idle_def data_def held_def mem_store_def mem_sample_def StatementCache_new_def
      cache_wf_def cache_texts_def)


lemma mem_rolls_back: "sqlite_rolls_back (mem_api rnd) mem_view"
  by (simp add: sqlite_rolls_back_def mem_api_def mem_exec_def)

lemma sure_outcome:
  assumes "outcome view True fs x fs' rs"
  shows "\<exists>s'. rs = (Inr x, s') \<and> committed view fs' s'"
  using assms by (cases rs) (auto simp: outcome_def)

theorem sqlite_batch_atomic_witness:
  "(\<exists>s'. sq_insertBatch (mem_api (\<lambda>v. v)) [sample_fill] False mem_store = (Inr (), s') \<and>
       committed mem_view (ts_trades sample_store @ [sample_fill]) s') \<and>
   (\<exists>s'. sq_replaceAll (mem_api (\<lambda>v. v)) [sample_fill] mem_store = (Inr (), s') \<and> committed mem_view [sample_fill] s') \<and>
   (\<exists>msg s'. sq_insertBatch (mem_api (\<lambda>v. v)) [sample_fill] True mem_store = (Inl (Throws (SQLiteError msg)), s') \<and>
       committed mem_view (ts_trades sample_store) s' \<and> idle mem_view s')"
  using sqlite_batch_atomic [OF mem_behaves mem_store_steady(1), of "\<lambda>v. v" "[sample_fill]" True]
  by (auto simp: mem_reliable mem_rolls_back mem_store_steady(2) dest!: sure_outcome)




theorem sqlite_default_timeline_empty_witness:
  "timeline 7 0 18446744073709551615 sample_store = [sample_fill] \<and>
   (\<exists>s'. sq_timeline (mem_api (\<lambda>v. v)) 7 0 18446744073709551615 mem_store = Some (Inr [], s'))"
proof -
  have "timeline 7 0 18446744073709551615 sample_store = [sample_fill]"
    by (simp add: timeline_scan sample_store_ok sample_fill_def in_window_def)
  then show ?thesis
    using sqlite_default_timeline_empty [OF mem_behaves mem_store_steady, of "\<lambda>v. v" 7]
    by (auto simp: mem_reliable dest!: sure_outcome)
qed

end
