(* ===== verification/Spec2Isabelle.thy ===== *)
theory Spec2Isabelle
  imports Engine_Properties Reference_Equivalence SPSC_Interleaving Shard_Properties Recovery Pipeline_Properties Replay_Properties Tools Latency_Histogram Connection_Pool Monitors Statement_Cache SQLite_Properties
begin

text \<open>
  \<^bold>\<open>ChronoBook\<close>: a limit order book in C++17 with a replayer, a sharded engine, a fill journal, a trade store
  and a durability pipeline.  This development models the program and proves what makes it correct.

  \<^bold>\<open>The program.\<close>  A feed of 40-byte messages (\<open>include/feed\<close>, \<open>src/FeedParser.cpp\<close>) is applied to a
  matching engine (\<open>include/matching\<close>, \<open>src/MatchingEngine.cpp\<close>).  The engine keeps a book
  (\<open>include/core/OrderBook.h\<close>, \<open>src/OrderBook.cpp\<close>) of price levels, which are intrusive linked lists of orders
  from a slab pool (\<open>include/core\<close>), and emits fills.  \<open>ReplayEngine\<close> drives one engine and samples statistics
  (\<open>include/replay\<close>, \<open>include/analytics\<close>).  \<open>ShardedEngine\<close> drives one engine per symbol on worker threads
  behind single-producer rings (\<open>include/infra/SPSCRingBuffer.h\<close>).  Fills go through a ring and a worker thread
  (\<open>include/journal/DurabilityPipeline.h\<close>) into a memory-mapped journal (\<open>include/journal/FillJournal.h\<close>) and a
  trade store (\<open>include/store/TradeStore.h\<close>), and \<open>include/replay/RecoveryReconciler.h\<close> compares the two with a
  replay of the feed.  \<open>include/infra\<close> holds the semaphores, the blocking queue and the event count.

  \<^bold>\<open>Conventions.\<close>  Integers are machine words (\<open>u8\<close>, \<open>u32\<close>, \<open>u64\<close>), so arithmetic wraps as in C++.  A C++ struct
  is a record, an enumeration a datatype.  An \<open>option\<close> result is \<open>None\<close> when the call does not return normally:
  a null or dangling pointer, an index out of range, a violated precondition, or a loop that does not end.  A
  \<open>result\<close> is a \<open>fault\<close> (undefined behaviour or an exception) or a value.  Hence \<open>= Some x\<close> and \<open>= Inr x\<close> are
  safety and termination statements.  Files are a map from paths to bytes.  What the operating system, the
  streams, the clock, the random engine, the SQLite library and floating-point rounding answer are parameters,
  and a theorem names what it assumes of them.

  \<^bold>\<open>Theories, bottom up.\<close>
  \<^item> \<open>CB_Prelude\<close>: types, faults, the slot memory with its frame lemmas, word facts.  \<open>Byte_Codec\<close>: little-endian
    images and the locale \<open>fixed_codec\<close> for arrays of fixed-size records, interpreted for feed messages, journal
    records and stored fills.
  \<^item> \<open>Order_Record\<close>, \<open>Slab_Pool\<close>, \<open>Price_Level\<close>, \<open>Ordered_Map\<close>, \<open>Order_Book\<close>, \<open>Matching_Engine\<close>: the pointer-level
    model, one definition per C++ function under its name.  Each theory has the representation invariant of its
    structure and shows that every operation keeps it and does not fail.
  \<^item> \<open>Engine_Spec\<close>: the engine as two priority lists.  \<open>Engine_Refinement\<close>, \<open>Engine_Operations\<close>: the pointer-level
    engine implements it, including that the match loop (a \<open>partial_function\<close>) returns.  \<open>Engine_Contract\<close>: the
    locale \<open>order_engine\<close> its clients use, interpreted on the model.
  \<^item> \<open>Market_Rules\<close>, \<open>Top_Of_Book\<close>, \<open>Engine_Properties\<close>: conservation of quantity, price-time priority, limits
    respected, the book never crossed, the queries of the book.
  \<^item> \<open>Reference_Matcher\<close>, \<open>Reference_Equivalence\<close>: the test oracle of the sources, and that the engine produces the
    same fills and book.
  \<^item> \<open>Feed_Protocol\<close>, \<open>Analytics\<close>, \<open>Replay_Engine\<close>, \<open>Replay_Properties\<close>: messages and files, running statistics,
    trackers, and replays as folds of the specification with exact counters.  \<open>Feed_Generator\<close>,
    \<open>Latency_Histogram\<close>, \<open>Tools\<close>: the synthetic feed, latency percentiles, and the programs that compose them.
  \<^item> \<open>SPSC_Ring\<close> (sequential, locale \<open>bounded_queue\<close>), \<open>SPSC_Interleaving\<close> (single loads and stores of the two
    threads): the ring is a linearizable FIFO without data races on its slots.
  \<^item> \<open>Shard_Worker\<close>, \<open>Symbol_Isolation\<close>, \<open>Sharded_Engine\<close>, \<open>Shard_Properties\<close>: workers and caller as a step
    relation; results do not depend on the schedule, symbols do not interact, \<open>stop\<close> returns and loses nothing.
  \<^item> \<open>Fill_Journal\<close>, \<open>Trade_Store\<close>, \<open>Fill_Sinks\<close> (locales \<open>fill_sink\<close>, \<open>sink_pair\<close>), \<open>Recovery\<close>,
    \<open>Durability_Pipeline\<close>, \<open>Pipeline_Properties\<close>: persistence, crash points, reconciliation, and the pipeline under
    every schedule.
  \<^item> \<open>Wait_Queue\<close> (locale \<open>wait_queue\<close>: no lost wake-up), \<open>Futex_Semaphore\<close>, \<open>Connection_Pool\<close>, \<open>Monitors\<close>,
    \<open>Statement_Cache\<close>: the synchronisation classes, the connection pool and the statement cache.
  \<^item> \<open>SQLite_Backend\<close>: the SQLite build of \<open>TradeStore.h\<close> over a record of the library's functions.
    \<open>SQLite_Contract\<close>: the documented behaviour of the library the theorems rely on, over a view of the tables
    and statements in which every call may fail.  \<open>SQLite_Batches\<close>, \<open>SQLite_Queries\<close>: the statement cache
    between calls, transactions, and the answers of the queries; the loop over the rows ends.
    \<open>SQLite_Memory\<close>: a library in memory that satisfies the contract.  \<open>SQLite_Properties\<close>: batches are
    all or nothing and durable, queries agree with the flat-file build.

  \<^bold>\<open>Concurrency.\<close>  Threads interleave at the grain of single atomic accesses, critical sections and system calls,
  and memory is sequentially consistent.  An inductive relation gives the steps with their events, and the
  theorems hold of every finite execution.  Termination is a measure that every step of the stopping phase
  decreases, together with progress.

  \<^bold>\<open>Bounds.\<close>  No fuel is used: recursion is structural, has a measure, or is a \<open>partial_function\<close> with a proof that
  it returns.  Pools hold at most \<open>2\<^sup>3\<^sup>2 - 1\<close> orders, so that the \<open>u32\<close> size of a level and the \<open>u64\<close> sum of its
  quantities cannot wrap.  Rings hold fewer than \<open>2\<^sup>6\<^sup>3\<close> slots, above which \<open>nextPowerOfTwo\<close> wraps to zero.
  Journal files stay below \<open>2\<^sup>6\<^sup>3\<close> bytes, the range of \<open>off_t\<close>.

  \<^bold>\<open>Not modelled.\<close>  Memory orderings weaker than sequential consistency.  The Windows branches, the \<open>#else\<close> branches
  of \<open>FutexSemaphore\<close> for systems without a futex, and \<open>include/infra/CompilerHints.h\<close>, which only has hints to the
  compiler.  Allocation failure of vectors that grow by \<open>push_back\<close>.  The benchmarks other than the
  replay demonstration, which time the modelled classes and print; formatted output in general.
\<close>

end
